(* ===== verification/Prelude.thy ===== *)
theory Prelude
  imports Main "HOL-Library.Word"
begin

text \<open>
  Shared vocabulary of the Server Engine development: the fixed-width integer types of the
  C++ sources, the status codes every operation returns (\<^verbatim>\<open>src/server_engine/status.hpp\<close>), the
  scanning loop that the JSON parser and the Lexer share, the theorem collections the
  component proofs use, and generic facts on lists and words.
\<close>

section \<open>Machine integers\<close>

type_synonym u8 = "8 word"
type_synonym u16 = "16 word"
type_synonym u32 = "32 word"
type_synonym u64 = "64 word"

abbreviation u32_max :: nat where
  "u32_max \<equiv> 2 ^ 32 - 1"

abbreviation u64_max :: nat where
  "u64_max \<equiv> 2 ^ 64 - 1"

text \<open>
  \<^verbatim>\<open>std::size_t\<close> is 64 bits wide on both supported ABIs. Sizes and offsets of objects that live in
  memory are written as \<^typ>\<open>nat\<close>; a narrowing \<^verbatim>\<open>static_cast<std::uint32_t>\<close> keeps its wrap-around.
\<close>

definition to_u32 :: "nat \<Rightarrow> nat" where
  "to_u32 n = n mod 2 ^ 32"

lemma to_u32_id [simp]: "n \<le> u32_max \<Longrightarrow> to_u32 n = n"
  by (simp add: to_u32_def)

section \<open>Status codes\<close>

datatype status_code =
    st_ok
  | st_initialization_failed
  | st_configuration_failed
  | st_io_failed
  | st_invalid_argument
  | st_semantic_conflict
  | st_not_found
  | st_persistence_failed
  | st_artifact_corrupt
  | st_rebuild_required
  | st_not_available
  | st_invalid_state

definition status_is_ok :: "status_code \<Rightarrow> bool" where
  "status_is_ok s \<longleftrightarrow> s = st_ok"

section \<open>Theorem collections\<close>

named_theorems scan_intros \<open>bounds of scanning loops\<close>
named_theorems bitwise \<open>bit-level characterisations of word operations\<close>

section \<open>The scanning loop\<close>

text \<open>
  \<^verbatim>\<open>while (i < text.size() && P(text[i])) ++i;\<close> the loop that skips blanks and consumes digits and
  identifier characters in \<^verbatim>\<open>json_parser.cpp\<close> and \<^verbatim>\<open>lexer.cpp\<close>.
\<close>

function scan_while :: "('a \<Rightarrow> bool) \<Rightarrow> 'a list \<Rightarrow> nat \<Rightarrow> nat" where
  "scan_while P xs i = (if i < length xs \<and> P (xs ! i) then scan_while P xs (Suc i) else i)"
  by pat_completeness auto
termination
  by (relation "measure (\<lambda>(P, xs, i). length xs - i)") auto

declare scan_while.simps [simp del]

lemma scan_while_ge [scan_intros, simp]: "i \<le> scan_while P xs i"
proof (induction P xs i rule: scan_while.induct)
  case (1 P xs i)
  then show ?case
    by (cases "i < length xs \<and> P (xs ! i)") (auto simp: scan_while.simps [of P xs i])
qed

lemma scan_while_gt [scan_intros]: "i < k \<Longrightarrow> i < scan_while P xs k"
  by (rule less_le_trans [OF _ scan_while_ge])

lemma scan_while_advances: "i < length xs \<Longrightarrow> P (xs ! i) \<Longrightarrow> i < scan_while P xs i"
  by (subst scan_while.simps) (simp add: scan_while_gt)

lemma scan_while_le [scan_intros]: "i \<le> length xs \<Longrightarrow> scan_while P xs i \<le> length xs"
proof (induction P xs i rule: scan_while.induct)
  case (1 P xs i)
  then show ?case
    by (cases "i < length xs \<and> P (xs ! i)") (auto simp: scan_while.simps [of P xs i])
qed

lemma scan_while_all:
  "i \<le> j \<Longrightarrow> j < scan_while P xs i \<Longrightarrow> j < length xs \<and> P (xs ! j)"
proof (induction P xs i rule: scan_while.induct)
  case (1 P xs i)
  show ?case
  proof (cases "i < length xs \<and> P (xs ! i)")
    case True
    with 1 show ?thesis
      by (cases "i = j") (auto simp: scan_while.simps [of P xs i])
  next
    case False
    with "1.prems" show ?thesis by (auto simp: scan_while.simps [of P xs i])
  qed
qed

lemma scan_while_stops:
  "scan_while P xs i < length xs \<Longrightarrow> \<not> P (xs ! scan_while P xs i)"
proof (induction P xs i rule: scan_while.induct)
  case (1 P xs i)
  then show ?case
    by (cases "i < length xs \<and> P (xs ! i)") (auto simp: scan_while.simps [of P xs i])
qed

text \<open>Closed form of the loop: it advances over the longest prefix that satisfies the test.\<close>

lemma scan_while_takeWhile:
  "scan_while P xs i = i + length (takeWhile P (drop i xs))"
proof (induction P xs i rule: scan_while.induct)
  case (1 P xs i)
  show ?case
  proof (cases "i < length xs \<and> P (xs ! i)")
    case True
    then have "drop i xs = xs ! i # drop (Suc i) xs" by (simp add: Cons_nth_drop_Suc)
    with True 1 show ?thesis by (simp add: scan_while.simps [of P xs i])
  next
    case False
    then have "takeWhile P (drop i xs) = []"
      by (cases "i < length xs") (simp_all add: Cons_nth_drop_Suc [symmetric])
    with False show ?thesis by (auto simp: scan_while.simps [of P xs i])
  qed
qed

section \<open>Words\<close>

unbundle bit_operations_syntax

lemma xor_right_cancel: "(a XOR c = b XOR c) \<longleftrightarrow> a = b" for a b c :: "'a :: len word"
proof
  assume "a XOR c = b XOR c"
  then have "(a XOR c) XOR c = (b XOR c) XOR c" by simp
  then show "a = b" by (simp only: xor.assoc xor_self_eq xor.right_neutral)
qed simp

lemma xor_left_cancel: "(c XOR a = c XOR b) \<longleftrightarrow> a = b" for a b c :: "'a :: len word"
  using xor_right_cancel [of a c b] by (simp only: xor.commute)

lemma xor_eq_0_iff: "a XOR b = 0 \<longleftrightarrow> a = b" for a b :: "'a :: len word"
  using xor_right_cancel [of a b b] by simp

text \<open>Shifting in a field of \<open>n\<close> bits is multiplication and addition.\<close>

lemma push_bit_or_add:
  fixes m x :: nat
  assumes "m < 2 ^ n"
  shows "push_bit n x OR m = x * 2 ^ n + m"
proof -
  have "take_bit n m = m" using assms by (rule take_bit_nat_eq_self)
  then have "n \<le> k \<Longrightarrow> \<not> bit m k" for k by (metis bit_take_bit_iff not_less)
  then have "push_bit n x AND m = 0" by (intro bit_eqI) (auto simp: bit_and_iff bit_push_bit_iff)
  then show ?thesis by (simp add: disjunctive_add_eq_or [symmetric] push_bit_eq_mult)
qed

section \<open>Characters\<close>

abbreviation code :: "char \<Rightarrow> nat" where
  "code c \<equiv> of_char c"

text \<open>Narrowing a code point or byte value to \<^verbatim>\<open>char\<close>.\<close>

abbreviation chr :: "nat \<Rightarrow> char" where
  "chr n \<equiv> char_of n"

section \<open>Lists\<close>

text \<open>\<^verbatim>\<open>text.substr(i, j - i)\<close>, the bytes from index \<open>i\<close> up to but not including \<open>j\<close>.\<close>

abbreviation slice_of :: "'a list \<Rightarrow> nat \<Rightarrow> nat \<Rightarrow> 'a list" where
  "slice_of xs i j \<equiv> take (j - i) (drop i xs)"

lemma slice_snoc:
  "i \<le> j \<Longrightarrow> j < length xs \<Longrightarrow> slice_of xs i (Suc j) = slice_of xs i j @ [xs ! j]"
  by (simp add: Suc_diff_le take_Suc_conv_app_nth)

lemma slice_Cons:
  "i < j \<Longrightarrow> j \<le> length xs \<Longrightarrow> slice_of xs i j = xs ! i # slice_of xs (Suc i) j"
  by (simp add: Cons_nth_drop_Suc [symmetric] take_Cons' )

lemma slice_Nil [simp]: "slice_of xs i i = []"
  by simp

lemma slice_set:
  "c \<in> set (slice_of xs i j) \<Longrightarrow> \<exists>k. i \<le> k \<and> k < j \<and> k < length xs \<and> c = xs ! k"
proof -
  assume "c \<in> set (slice_of xs i j)"
  then obtain n where "n < length (slice_of xs i j)" "c = slice_of xs i j ! n"
    by (auto simp: in_set_conv_nth)
  then show ?thesis by (intro exI [of _ "i + n"]) auto
qed

lemma scan_while_slice:
  "list_all P (slice_of xs i (scan_while P xs i))"
  by (auto simp: list_all_iff dest!: slice_set dest: scan_while_all)

lemma slice_infix:
  assumes "slice_of xs i j = u @ a # b # v"
  shows "\<exists>k. i \<le> k \<and> k + 1 < j \<and> xs ! k = a \<and> xs ! (k + 1) = b"
proof (intro exI [of _ "i + length u"] conjI)
  have len: "length u + 2 \<le> length (slice_of xs i j)" using assms by simp
  then show "i + length u + 1 < j" by auto
  have "slice_of xs i j ! length u = a" "slice_of xs i j ! Suc (length u) = b"
    using assms by (simp_all add: nth_append)
  then show "xs ! (i + length u) = a" "xs ! (i + length u + 1) = b" using len by auto
qed simp

lemma slice_append:
  "i \<le> j \<Longrightarrow> j \<le> k \<Longrightarrow> slice_of xs i k = slice_of xs i j @ slice_of xs j k"
proof -
  assume "i \<le> j" "j \<le> k"
  then have "k - i = (j - i) + (k - j)" "drop j xs = drop (j - i) (drop i xs)" by simp_all
  then show ?thesis by (simp only: take_add)
qed

end
