(* ===== verification/Stream_Digest.thy ===== *)
theory Stream_Digest
  imports Prelude
begin

text \<open>
  The interface of a streaming digest: a state that absorbs a sequence piece by piece. The persisted
  images rely on it to checksum scattered extents without assembling a copy, the Source Manager to
  hash a file as it is read. The checksum and the hash of the repository both provide it.
\<close>

locale stream_digest =
  fixes absorb :: "'s \<Rightarrow> 'b list \<Rightarrow> 's"
  assumes absorb_empty: "absorb s [] = s"
    and absorb_append: "absorb s (xs @ ys) = absorb (absorb s xs) ys"
begin

lemma absorb_extents: "foldl absorb s extents = absorb s (concat extents)"
  by (induction extents arbitrary: s) (simp_all add: absorb_empty absorb_append)

lemma absorb_partition:
  "concat extents = concat extents' \<Longrightarrow> foldl absorb s extents = foldl absorb s extents'"
  by (simp add: absorb_extents)

end

text \<open>A digest that consumes one element at a time absorbs in pieces.\<close>

lemma foldl_stream_digest: "stream_digest (foldl step)"
  by unfold_locales simp_all

end
