(* ===== verification/Crc64.thy ===== *)
theory Crc64
  imports Prelude Stream_Digest
begin

unbundle bit_operations_syntax

text \<open>
  The CRC-64/ECMA-182 checksum of the persisted images,
  \<^verbatim>\<open>src/server_engine/project/persistence/crc64_ecma.hpp\<close>: the 256-entry table, the slicing-by-8
  tables, the big-endian load in its two code paths, the optimised update and the byte-wise
  reference. The lemmas characterise every table as iterated polynomial division, one bit at a
  time, from which the equivalence of the optimised and the reference routine, the composition over
  extents and the detection of error bursts follow.
\<close>

section \<open>Tables\<close>

definition persistence_crc64_polynomial :: u64 where
  "persistence_crc64_polynomial = 0x42f0e1eba9ea3693"

definition crc64_bit_step :: "u64 \<Rightarrow> u64" where
  "crc64_bit_step crc =
     (if crc AND push_bit 63 1 \<noteq> 0 then push_bit 1 crc XOR persistence_crc64_polynomial
      else push_bit 1 crc)"

definition make_persistence_crc64_table :: "u64 list" where
  "make_persistence_crc64_table =
     map (\<lambda>index. (crc64_bit_step ^^ 8) (push_bit 56 (of_nat index))) [0..<256]"

definition persistence_crc64_table :: "u64 list" where
  "persistence_crc64_table = make_persistence_crc64_table"

definition byte_at :: "nat \<Rightarrow> u64 \<Rightarrow> u8" where
  "byte_at shift value = ucast (drop_bit shift value)"

definition persistence_crc64_advance_zero :: "u64 \<Rightarrow> u64" where
  "persistence_crc64_advance_zero crc =
     push_bit 8 crc XOR persistence_crc64_table ! unat (byte_at 56 crc)"

definition make_persistence_crc64_slicing_table :: "u64 list list" where
  "make_persistence_crc64_slicing_table =
     foldl (\<lambda>output slice.
         output[slice - 1 :=
           map (\<lambda>index. persistence_crc64_advance_zero (output ! slice ! index)) [0..<256]])
       ((replicate 8 (replicate 256 0))[7 := map (\<lambda>index. persistence_crc64_table ! index) [0..<256]])
       [7, 6, 5, 4, 3, 2, 1]"

definition persistence_crc64_slicing_table :: "u64 list list" where
  "persistence_crc64_slicing_table = make_persistence_crc64_slicing_table"

section \<open>Loading eight bytes\<close>

definition persistence_crc64_byteswap :: "u64 \<Rightarrow> u64" where
  "persistence_crc64_byteswap value =
     push_bit 56 (value AND 0x00000000000000ff) OR
     push_bit 40 (value AND 0x000000000000ff00) OR
     push_bit 24 (value AND 0x0000000000ff0000) OR
     push_bit 8 (value AND 0x00000000ff000000) OR
     drop_bit 8 (value AND 0x000000ff00000000) OR
     drop_bit 24 (value AND 0x0000ff0000000000) OR
     drop_bit 40 (value AND 0x00ff000000000000) OR
     drop_bit 56 (value AND 0xff00000000000000)"

text \<open>The path taken in constant evaluation.\<close>

definition load_be64_constant :: "u8 list \<Rightarrow> nat \<Rightarrow> u64" where
  "load_be64_constant bytes offset =
     push_bit 56 (ucast (bytes ! offset)) OR
     push_bit 48 (ucast (bytes ! (offset + 1))) OR
     push_bit 40 (ucast (bytes ! (offset + 2))) OR
     push_bit 32 (ucast (bytes ! (offset + 3))) OR
     push_bit 24 (ucast (bytes ! (offset + 4))) OR
     push_bit 16 (ucast (bytes ! (offset + 5))) OR
     push_bit 8 (ucast (bytes ! (offset + 6))) OR
     ucast (bytes ! (offset + 7))"

text \<open>
  The run-time path: \<^verbatim>\<open>memcpy\<close> into a \<^verbatim>\<open>uint64_t\<close> in the byte order of the machine, swapped when that
  is little-endian.
\<close>

definition memcpy_u64 :: "bool \<Rightarrow> u8 list \<Rightarrow> nat \<Rightarrow> u64" where
  "memcpy_u64 little bytes offset =
     foldr (\<lambda>k acc. push_bit (8 * (if little then k else 7 - k)) (ucast (bytes ! (offset + k))) OR acc)
       [0..<8] 0"

definition load_be64_runtime :: "bool \<Rightarrow> u8 list \<Rightarrow> nat \<Rightarrow> u64" where
  "load_be64_runtime little bytes offset =
     (let value = memcpy_u64 little bytes offset
      in if little then persistence_crc64_byteswap value else value)"

definition persistence_crc64_load_be64 :: "u8 list \<Rightarrow> nat \<Rightarrow> u64" where
  "persistence_crc64_load_be64 bytes offset = load_be64_runtime True bytes offset"

section \<open>Update\<close>

definition slice_lookup :: "nat \<Rightarrow> u8 \<Rightarrow> u64" where
  "slice_lookup k b = persistence_crc64_slicing_table ! k ! unat b"

definition crc64_slice_step :: "u64 \<Rightarrow> u8 list \<Rightarrow> nat \<Rightarrow> u64" where
  "crc64_slice_step crc bytes offset =
     (let value = crc XOR persistence_crc64_load_be64 bytes offset
      in slice_lookup 0 (byte_at 56 value) XOR slice_lookup 1 (byte_at 48 value) XOR
         slice_lookup 2 (byte_at 40 value) XOR slice_lookup 3 (byte_at 32 value) XOR
         slice_lookup 4 (byte_at 24 value) XOR slice_lookup 5 (byte_at 16 value) XOR
         slice_lookup 6 (byte_at 8 value) XOR slice_lookup 7 (byte_at 0 value))"

definition crc64_byte_step :: "u64 \<Rightarrow> u8 \<Rightarrow> u64" where
  "crc64_byte_step crc b =
     push_bit 8 crc XOR persistence_crc64_table ! unat (byte_at 56 crc XOR b)"

function crc64_blocks :: "u64 \<Rightarrow> u8 list \<Rightarrow> nat \<Rightarrow> u64 \<times> nat" where
  "crc64_blocks crc bytes offset =
     (if offset + 8 \<le> length bytes
      then crc64_blocks (crc64_slice_step crc bytes offset) bytes (offset + 8)
      else (crc, offset))"
  by pat_completeness auto
termination
  by (relation "measure (\<lambda>(crc, bytes, offset). length bytes - offset)") auto

function crc64_tail :: "u64 \<Rightarrow> u8 list \<Rightarrow> nat \<Rightarrow> u64" where
  "crc64_tail crc bytes offset =
     (if offset < length bytes
      then crc64_tail (crc64_byte_step crc (bytes ! offset)) bytes (offset + 1)
      else crc)"
  by pat_completeness auto
termination
  by (relation "measure (\<lambda>(crc, bytes, offset). length bytes - offset)") auto

declare crc64_blocks.simps [simp del] crc64_tail.simps [simp del]

definition persistence_crc64_update :: "u64 \<Rightarrow> u8 list \<Rightarrow> u64" where
  "persistence_crc64_update crc bytes =
     (case crc64_blocks crc bytes 0 of (crc', offset) \<Rightarrow> crc64_tail crc' bytes offset)"

definition persistence_crc64 :: "u8 list \<Rightarrow> u64" where
  "persistence_crc64 bytes =
     (case crc64_blocks 0 bytes 0 of (crc, offset) \<Rightarrow> crc64_tail crc bytes offset)"

definition persistence_crc64_reference :: "u8 list \<Rightarrow> u64" where
  "persistence_crc64_reference bytes = foldl crc64_byte_step 0 bytes"

section \<open>Polynomial division as the specification\<close>

text \<open>
  The specification feeds the message bits one at a time into the remainder register, most
  significant bit first: no table, no byte arithmetic.
\<close>

definition crc64_feed_bit :: "u64 \<Rightarrow> bool \<Rightarrow> u64" where
  "crc64_feed_bit crc b =
     (if bit crc 63 \<noteq> b then push_bit 1 crc XOR persistence_crc64_polynomial else push_bit 1 crc)"

definition byte_bits :: "u8 \<Rightarrow> bool list" where
  "byte_bits b = map (\<lambda>k. bit b (7 - k)) [0..<8]"

definition crc64_division :: "u64 \<Rightarrow> u8 list \<Rightarrow> u64" where
  "crc64_division crc bytes = foldl crc64_feed_bit crc (concat (map byte_bits bytes))"

section \<open>The bit step is linear and injective\<close>

lemma crc64_bit_step_bit:
  "crc64_bit_step crc =
     (if bit crc 63 then push_bit 1 crc XOR persistence_crc64_polynomial else push_bit 1 crc)"
  by (simp only: crc64_bit_step_def bit_iff_and_push_bit_not_eq_0)

lemma crc64_bit_step_xor:
  "crc64_bit_step (a XOR b) = crc64_bit_step a XOR crc64_bit_step b"
  by (auto simp: crc64_bit_step_bit bit_xor_iff push_bit_xor ac_simps)

lemma crc64_steps_xor:
  "(crc64_bit_step ^^ n) (a XOR b) = (crc64_bit_step ^^ n) a XOR (crc64_bit_step ^^ n) b"
  by (induction n) (simp_all add: crc64_bit_step_xor)

lemma crc64_bit_step_0 [simp]: "crc64_bit_step 0 = 0"
  by (simp add: crc64_bit_step_bit)



lemma crc64_steps_shift:
  "n + k \<le> 64 \<Longrightarrow> (\<And>i. 64 - (n + k) \<le> i \<Longrightarrow> i < 64 \<Longrightarrow> \<not> bit a i) \<Longrightarrow>
     (crc64_bit_step ^^ n) (push_bit k a) = push_bit (n + k) a"
proof (induction n)
  case 0
  then show ?case by simp
next
  case (Suc n)
  have "\<not> bit (push_bit (n + k) a) 63"
    using Suc.prems by (auto simp: bit_push_bit_iff)
  then show ?case
    using Suc by (simp add: crc64_bit_step_bit push_bit_push_bit)
qed

lemma ucast_byte_high: "8 \<le> i \<Longrightarrow> \<not> bit (ucast (b :: u8) :: u64) i"
  by (auto simp: bit_ucast_iff dest: bit_imp_le_length)

lemma crc64_steps_byte:
  "n + k \<le> 56 \<Longrightarrow>
     (crc64_bit_step ^^ n) (push_bit k (ucast (b :: u8))) = push_bit (n + k) (ucast b)"
  by (rule crc64_steps_shift) (auto simp: ucast_byte_high)

section \<open>Tables as iterated steps\<close>

lemma table_nth:
  "persistence_crc64_table ! unat (b :: u8) = (crc64_bit_step ^^ 8) (push_bit 56 (ucast b))"
proof -
  have "unat b < 256" using unsigned_less [of b] by simp
  moreover have "of_nat (unat b) = (ucast b :: u64)" by simp
  ultimately show ?thesis
    by (simp add: persistence_crc64_table_def make_persistence_crc64_table_def)
qed

lemma word_top_split:
  "(c :: u64) = push_bit 56 (ucast (byte_at 56 c)) XOR take_bit 56 c"
  by (rule bit_word_eqI)
    (auto simp: bit_xor_iff bit_push_bit_iff bit_take_bit_iff byte_at_def bit_ucast_iff
      bit_drop_bit_eq)

lemma advance_zero_steps: "persistence_crc64_advance_zero c = (crc64_bit_step ^^ 8) c"
proof -
  have "(crc64_bit_step ^^ 8) (take_bit 56 c) = (crc64_bit_step ^^ 8) (push_bit 0 (take_bit 56 c))"
    by simp
  also have "\<dots> = push_bit (8 + 0) (take_bit 56 c)"
    by (rule crc64_steps_shift) (auto simp: bit_take_bit_iff)
  also have "\<dots> = push_bit 8 c"
    by (rule bit_word_eqI) (auto simp: bit_push_bit_iff bit_take_bit_iff)
  finally have low: "(crc64_bit_step ^^ 8) (take_bit 56 c) = push_bit 8 c" .
  have "(crc64_bit_step ^^ 8) c =
      (crc64_bit_step ^^ 8) (push_bit 56 (ucast (byte_at 56 c)) XOR take_bit 56 c)"
    using word_top_split [of c] by simp
  also have "\<dots> = push_bit 8 c XOR persistence_crc64_table ! unat (byte_at 56 c)"
    by (simp only: crc64_steps_xor low table_nth ac_simps)
  finally show ?thesis by (simp add: persistence_crc64_advance_zero_def)
qed

lemma byte_step_steps:
  "crc64_byte_step crc b = (crc64_bit_step ^^ 8) (crc XOR push_bit 56 (ucast b))"
proof -
  have top: "byte_at 56 (crc XOR push_bit 56 (ucast b)) = byte_at 56 crc XOR b"
    by (rule bit_word_eqI)
      (auto simp: byte_at_def bit_ucast_iff bit_drop_bit_eq bit_xor_iff bit_push_bit_iff)
  have shift: "push_bit 8 (crc XOR push_bit 56 (ucast b)) = push_bit 8 crc"
    by (rule bit_word_eqI) (auto simp: bit_xor_iff bit_push_bit_iff)
  show ?thesis
    by (simp only: advance_zero_steps [symmetric] persistence_crc64_advance_zero_def top shift
        crc64_byte_step_def)
qed

lemma length_crc64_table [simp]: "length persistence_crc64_table = 256"
  by (simp add: persistence_crc64_table_def make_persistence_crc64_table_def)

lemma map_row: "length r = 256 \<Longrightarrow> map (\<lambda>i. f (r ! i)) [0..<256] = map f r"
  by (rule nth_equalityI) simp_all

lemma funpow_map: "(map f ^^ k) xs = map (f ^^ k) xs"
  for f :: "'a \<Rightarrow> 'a"
  by (induction k) simp_all

lemma slicing_rows:
  "persistence_crc64_slicing_table =
     map (\<lambda>k. map (persistence_crc64_advance_zero ^^ k) persistence_crc64_table) [7, 6, 5, 4, 3, 2, 1, 0]"
proof -
  define T where "T = persistence_crc64_table"
  define A where "A = map persistence_crc64_advance_zero"
  have T: "length T = 256" by (simp add: T_def)
  have A: "length (A r) = length r" for r by (simp add: A_def)
  have first: "map (\<lambda>i. T ! i) [0..<256] = T"
    using map_row [OF T, of "\<lambda>x. x"] by simp
  have row: "map (\<lambda>i. persistence_crc64_advance_zero (r ! i)) [0..<256] = A r"
    if "length r = 256" for r
    unfolding A_def by (rule map_row [OF that])
  have z: "replicate 8 z = [z, z, z, z, z, z, z, z]" for z :: "u64 list"
    by (simp add: numeral_eq_Suc)
  have "persistence_crc64_slicing_table =
      [A (A (A (A (A (A (A T)))))), A (A (A (A (A (A T))))), A (A (A (A (A T)))), A (A (A (A T))),
       A (A (A T)), A (A T), A T, T]"
    unfolding persistence_crc64_slicing_table_def make_persistence_crc64_slicing_table_def
      T_def [symmetric] first z
    by (simp add: row T A)
  also have "\<dots> = map (\<lambda>k. (A ^^ k) T) [7, 6, 5, 4, 3, 2, 1, 0]"
    by (simp add: numeral_eq_Suc)
  finally show ?thesis unfolding A_def T_def funpow_map .
qed

lemma advance_zero_iter:
  "(persistence_crc64_advance_zero ^^ k) a = (crc64_bit_step ^^ (8 * k)) a"
proof -
  have adv: "persistence_crc64_advance_zero = crc64_bit_step ^^ 8"
    by (rule ext) (rule advance_zero_steps)
  show ?thesis unfolding adv funpow_mult by (simp only: mult.commute)
qed

lemma slicing_table_nth:
  assumes "k < 8"
  shows "slice_lookup k b = (crc64_bit_step ^^ (8 * (8 - k))) (push_bit 56 (ucast b))"
proof -
  have b: "unat b < 256" using unsigned_less [of b] by simp
  have "[7, 6, 5, 4, 3, 2, 1, 0 :: nat] ! k = 7 - k"
    using assms by (auto simp: less_Suc_eq numeral_eq_Suc)
  then have "slice_lookup k b = (crc64_bit_step ^^ (8 * (7 - k))) (persistence_crc64_table ! unat b)"
    using assms b by (simp add: slice_lookup_def slicing_rows advance_zero_iter del: list.map)
  also have "\<dots> = (crc64_bit_step ^^ (8 * (7 - k) + 8)) (push_bit 56 (ucast b))"
    by (simp only: table_nth funpow_add comp_apply)
  also have "8 * (7 - k) + 8 = 8 * (8 - k)" using assms by arith
  finally show ?thesis .
qed

section \<open>Words by their bytes\<close>

lemma ucast_byte_bit: "bit (ucast (b :: u8) :: u64) n \<longleftrightarrow> n < 8 \<and> bit b n"
  by (auto simp: bit_ucast_iff dest: bit_imp_le_length)

lemma byte_at_bit: "bit (byte_at k v) n \<longleftrightarrow> n < 8 \<and> bit v (k + n)"
  by (auto simp: byte_at_def bit_ucast_iff bit_drop_bit_eq)

lemma word_eq_by_bytes:
  assumes "\<And>k. k < 8 \<Longrightarrow> byte_at (8 * k) v = byte_at (8 * k) w"
  shows "v = w"
proof (rule bit_word_eqI)
  fix n assume "n < LENGTH(64)"
  then have "byte_at (8 * (n div 8)) v = byte_at (8 * (n div 8)) w"
    by (intro assms) simp
  then have "bit (byte_at (8 * (n div 8)) v) (n mod 8) = bit (byte_at (8 * (n div 8)) w) (n mod 8)"
    by simp
  then show "bit v n = bit w n" by (simp add: byte_at_bit)
qed

text \<open>Eight bytes, most significant first.\<close>

definition be64 :: "u8 \<Rightarrow> u8 \<Rightarrow> u8 \<Rightarrow> u8 \<Rightarrow> u8 \<Rightarrow> u8 \<Rightarrow> u8 \<Rightarrow> u8 \<Rightarrow> u64" where
  "be64 b0 b1 b2 b3 b4 b5 b6 b7 =
     push_bit 56 (ucast b0) OR push_bit 48 (ucast b1) OR push_bit 40 (ucast b2) OR
     push_bit 32 (ucast b3) OR push_bit 24 (ucast b4) OR push_bit 16 (ucast b5) OR
     push_bit 8 (ucast b6) OR ucast b7"

lemma less_8_cases: "(k :: nat) < 8 \<longleftrightarrow> k \<in> {0, 1, 2, 3, 4, 5, 6, 7}"
  by auto

lemma byte_at_be64:
  "byte_at 56 (be64 b0 b1 b2 b3 b4 b5 b6 b7) = b0" "byte_at 48 (be64 b0 b1 b2 b3 b4 b5 b6 b7) = b1"
  "byte_at 40 (be64 b0 b1 b2 b3 b4 b5 b6 b7) = b2" "byte_at 32 (be64 b0 b1 b2 b3 b4 b5 b6 b7) = b3"
  "byte_at 24 (be64 b0 b1 b2 b3 b4 b5 b6 b7) = b4" "byte_at 16 (be64 b0 b1 b2 b3 b4 b5 b6 b7) = b5"
  "byte_at 8 (be64 b0 b1 b2 b3 b4 b5 b6 b7) = b6" "byte_at 0 (be64 b0 b1 b2 b3 b4 b5 b6 b7) = b7"
  by (rule bit_word_eqI;
      simp add: be64_def byte_at_bit bit_or_iff bit_push_bit_iff ucast_byte_bit)+

lemma word_of_bytes:
  "v = be64 (byte_at 56 v) (byte_at 48 v) (byte_at 40 v) (byte_at 32 v)
         (byte_at 24 v) (byte_at 16 v) (byte_at 8 v) (byte_at 0 v)"
  by (rule word_eq_by_bytes) (auto simp: less_8_cases byte_at_be64)

lemma load_be64_constant_be64:
  "load_be64_constant bytes offset =
     be64 (bytes ! offset) (bytes ! (offset + 1)) (bytes ! (offset + 2)) (bytes ! (offset + 3))
       (bytes ! (offset + 4)) (bytes ! (offset + 5)) (bytes ! (offset + 6)) (bytes ! (offset + 7))"
  by (simp add: load_be64_constant_def be64_def)

lemma mask_bit:
  "bit (0xff :: int) n \<longleftrightarrow> n < 8" "bit (0xff00 :: int) n \<longleftrightarrow> 8 \<le> n \<and> n < 16"
  "bit (0xff0000 :: int) n \<longleftrightarrow> 16 \<le> n \<and> n < 24" "bit (0xff000000 :: int) n \<longleftrightarrow> 24 \<le> n \<and> n < 32"
  "bit (0xff00000000 :: int) n \<longleftrightarrow> 32 \<le> n \<and> n < 40"
  "bit (0xff0000000000 :: int) n \<longleftrightarrow> 40 \<le> n \<and> n < 48"
  "bit (0xff000000000000 :: int) n \<longleftrightarrow> 48 \<le> n \<and> n < 56"
  "bit (0xff00000000000000 :: int) n \<longleftrightarrow> 56 \<le> n \<and> n < 64"
proof -
  have m: "bit (push_bit k (mask 8) :: int) n \<longleftrightarrow> k \<le> n \<and> n < k + 8" for k
    by (auto simp: bit_push_bit_iff bit_mask_iff)
  show "bit (0xff :: int) n \<longleftrightarrow> n < 8" using m [of 0] by (auto simp: mask_eq_exp_minus_1)
  show "bit (0xff00 :: int) n \<longleftrightarrow> 8 \<le> n \<and> n < 16" using m [of 8] by (auto simp: mask_eq_exp_minus_1)
  show "bit (0xff0000 :: int) n \<longleftrightarrow> 16 \<le> n \<and> n < 24" using m [of 16] by (auto simp: mask_eq_exp_minus_1)
  show "bit (0xff000000 :: int) n \<longleftrightarrow> 24 \<le> n \<and> n < 32" using m [of 24] by (auto simp: mask_eq_exp_minus_1)
  show "bit (0xff00000000 :: int) n \<longleftrightarrow> 32 \<le> n \<and> n < 40"
    using m [of 32] by (auto simp: mask_eq_exp_minus_1)
  show "bit (0xff0000000000 :: int) n \<longleftrightarrow> 40 \<le> n \<and> n < 48"
    using m [of 40] by (auto simp: mask_eq_exp_minus_1)
  show "bit (0xff000000000000 :: int) n \<longleftrightarrow> 48 \<le> n \<and> n < 56"
    using m [of 48] by (auto simp: mask_eq_exp_minus_1)
  show "bit (0xff00000000000000 :: int) n \<longleftrightarrow> 56 \<le> n \<and> n < 64"
    using m [of 56] by (auto simp: mask_eq_exp_minus_1)
qed

lemma byte_at_byteswap:
  "byte_at 56 (persistence_crc64_byteswap v) = byte_at 0 v"
  "byte_at 48 (persistence_crc64_byteswap v) = byte_at 8 v"
  "byte_at 40 (persistence_crc64_byteswap v) = byte_at 16 v"
  "byte_at 32 (persistence_crc64_byteswap v) = byte_at 24 v"
  "byte_at 24 (persistence_crc64_byteswap v) = byte_at 32 v"
  "byte_at 16 (persistence_crc64_byteswap v) = byte_at 40 v"
  "byte_at 8 (persistence_crc64_byteswap v) = byte_at 48 v"
  "byte_at 0 (persistence_crc64_byteswap v) = byte_at 56 v"
  unfolding persistence_crc64_byteswap_def
  by (rule bit_word_eqI;
      simp add: byte_at_bit bit_or_iff bit_and_iff bit_push_bit_iff bit_drop_bit_eq mask_bit)+

lemma byteswap_be64:
  "persistence_crc64_byteswap (be64 b7 b6 b5 b4 b3 b2 b1 b0) = be64 b0 b1 b2 b3 b4 b5 b6 b7"
  by (rule word_eq_by_bytes) (auto simp: less_8_cases byte_at_be64 byte_at_byteswap)

lemma upt_8: "[0..<8] = [0, 1, 2, 3, 4, 5, 6, 7]"
  by (simp add: upt_rec)

lemma load_be64_paths: "load_be64_runtime little bytes offset = load_be64_constant bytes offset"
proof -
  have "memcpy_u64 True bytes offset =
      be64 (bytes ! (offset + 7)) (bytes ! (offset + 6)) (bytes ! (offset + 5)) (bytes ! (offset + 4))
        (bytes ! (offset + 3)) (bytes ! (offset + 2)) (bytes ! (offset + 1)) (bytes ! offset)"
    by (simp add: memcpy_u64_def be64_def upt_8 ac_simps)
  moreover have "memcpy_u64 False bytes offset = load_be64_constant bytes offset"
    by (simp add: memcpy_u64_def load_be64_constant_be64 be64_def upt_8 ac_simps)
  ultimately show ?thesis
    by (cases little) (simp_all add: load_be64_runtime_def load_be64_constant_be64 byteswap_be64)
qed

section \<open>One slice step is eight byte steps\<close>

lemma foldl_byte_step_linear:
  "foldl crc64_byte_step crc bs =
     (crc64_bit_step ^^ (8 * length bs)) crc XOR foldl crc64_byte_step 0 bs"
proof (induction bs arbitrary: crc)
  case Nil
  then show ?case by simp
next
  case (Cons b bs)
  have "(crc64_bit_step ^^ (8 * length bs)) (crc64_byte_step crc b) =
      (crc64_bit_step ^^ (8 * length (b # bs))) crc XOR
      (crc64_bit_step ^^ (8 * length bs)) (crc64_byte_step 0 b)"
    by (simp add: byte_step_steps crc64_steps_xor funpow_add [symmetric, THEN fun_cong, simplified]
        add.commute)
  with Cons.IH [of "crc64_byte_step crc b"] Cons.IH [of "crc64_byte_step 0 b"] show ?case
    by (simp add: xor.assoc)
qed

lemma steps64_byte:
  assumes "k < 8"
  shows "(crc64_bit_step ^^ 64) (push_bit (56 - 8 * k) (ucast b)) = slice_lookup k b"
proof -
  have "(64 :: nat) = 8 * (8 - k) + 8 * k" using assms by arith
  then have "(crc64_bit_step ^^ 64) (push_bit (56 - 8 * k) (ucast b)) =
      (crc64_bit_step ^^ (8 * (8 - k))) ((crc64_bit_step ^^ (8 * k)) (push_bit (56 - 8 * k) (ucast b)))"
    by (metis funpow_add comp_apply)
  also have "(crc64_bit_step ^^ (8 * k)) (push_bit (56 - 8 * k) (ucast b)) =
      push_bit (8 * k + (56 - 8 * k)) (ucast b)"
    by (rule crc64_steps_byte) (use assms in arith)
  also have "8 * k + (56 - 8 * k) = 56" using assms by arith
  finally show ?thesis using slicing_table_nth [OF assms] by simp
qed

lemma be64_xor:
  "be64 b0 b1 b2 b3 b4 b5 b6 b7 =
     push_bit (56 - 8 * 0) (ucast b0) XOR push_bit (56 - 8 * 1) (ucast b1) XOR
     push_bit (56 - 8 * 2) (ucast b2) XOR push_bit (56 - 8 * 3) (ucast b3) XOR
     push_bit (56 - 8 * 4) (ucast b4) XOR push_bit (56 - 8 * 5) (ucast b5) XOR
     push_bit (56 - 8 * 6) (ucast b6) XOR push_bit (56 - 8 * 7) (ucast b7)" (is "_ = ?x")
proof -
  have "byte_at 56 ?x = b0" "byte_at 48 ?x = b1" "byte_at 40 ?x = b2" "byte_at 32 ?x = b3"
    "byte_at 24 ?x = b4" "byte_at 16 ?x = b5" "byte_at 8 ?x = b6" "byte_at 0 ?x = b7"
    by (rule bit_word_eqI;
        simp add: byte_at_bit bit_xor_iff bit_push_bit_iff ucast_byte_bit)+
  then show ?thesis
    by (intro word_eq_by_bytes) (auto simp: less_8_cases byte_at_be64 simp del: push_bit_numeral)
qed

lemma steps64_be64:
  "(crc64_bit_step ^^ 64) (be64 b0 b1 b2 b3 b4 b5 b6 b7) =
     slice_lookup 0 b0 XOR slice_lookup 1 b1 XOR slice_lookup 2 b2 XOR slice_lookup 3 b3 XOR
     slice_lookup 4 b4 XOR slice_lookup 5 b5 XOR slice_lookup 6 b6 XOR slice_lookup 7 b7"
  unfolding be64_xor crc64_steps_xor by (simp only: steps64_byte)

lemma byte_step_zero: "crc64_byte_step 0 b = slice_lookup 7 b"
  by (simp add: byte_step_steps slicing_table_nth)

lemma slice_lookup_shift:
  "k < 8 \<Longrightarrow> j \<le> k \<Longrightarrow> (crc64_bit_step ^^ (8 * j)) (slice_lookup k b) = slice_lookup (k - j) b"
proof -
  assume a: "k < 8" "j \<le> k"
  then have "8 * (8 - (k - j)) = 8 * j + 8 * (8 - k)" by arith
  then show ?thesis
    using a by (simp add: slicing_table_nth funpow_add)
qed

lemma foldl_eight_bytes:
  "foldl crc64_byte_step crc [b0, b1, b2, b3, b4, b5, b6, b7] =
     (crc64_bit_step ^^ 64) (crc XOR be64 b0 b1 b2 b3 b4 b5 b6 b7)"
proof -
  have lin: "foldl crc64_byte_step 0 (b # bs) =
      slice_lookup (7 - length bs) b XOR foldl crc64_byte_step 0 bs" if "length bs < 8" for b bs
    using foldl_byte_step_linear [of "crc64_byte_step 0 b" bs] that
      slice_lookup_shift [of 7 "length bs" b]
    by (simp add: byte_step_zero)
  have "foldl crc64_byte_step 0 [b0, b1, b2, b3, b4, b5, b6, b7] =
      (crc64_bit_step ^^ 64) (be64 b0 b1 b2 b3 b4 b5 b6 b7)"
    by (simp add: lin steps64_be64 del: foldl_Cons)
  then show ?thesis
    using foldl_byte_step_linear [of crc "[b0, b1, b2, b3, b4, b5, b6, b7]"]
    by (simp add: crc64_steps_xor del: foldl_Cons)
qed

lemma slice_step_bytes:
  "crc64_slice_step crc bytes offset =
     foldl crc64_byte_step crc
       [bytes ! offset, bytes ! (offset + 1), bytes ! (offset + 2), bytes ! (offset + 3),
        bytes ! (offset + 4), bytes ! (offset + 5), bytes ! (offset + 6), bytes ! (offset + 7)]"
proof -
  define v where "v = crc XOR load_be64_constant bytes offset"
  have "crc64_slice_step crc bytes offset =
      (crc64_bit_step ^^ 64)
        (be64 (byte_at 56 v) (byte_at 48 v) (byte_at 40 v) (byte_at 32 v)
          (byte_at 24 v) (byte_at 16 v) (byte_at 8 v) (byte_at 0 v))"
    unfolding steps64_be64
    by (simp add: crc64_slice_step_def persistence_crc64_load_be64_def load_be64_paths v_def Let_def)
  also have "\<dots> = (crc64_bit_step ^^ 64) v" using word_of_bytes [of v] by simp
  finally show ?thesis
    unfolding foldl_eight_bytes v_def load_be64_constant_be64 .
qed

section \<open>The loops\<close>

lemma take_eight:
  "offset + 8 \<le> length bytes \<Longrightarrow>
     drop offset bytes =
       [bytes ! offset, bytes ! (offset + 1), bytes ! (offset + 2), bytes ! (offset + 3),
        bytes ! (offset + 4), bytes ! (offset + 5), bytes ! (offset + 6), bytes ! (offset + 7)]
       @ drop (offset + 8) bytes"
  by (simp add: Cons_nth_drop_Suc numeral_eq_Suc)

lemma crc64_tail_foldl: "crc64_tail crc bytes offset = foldl crc64_byte_step crc (drop offset bytes)"
proof (induction crc bytes offset rule: crc64_tail.induct)
  case (1 crc bytes offset)
  show ?case
  proof (cases "offset < length bytes")
    case True
    then have "drop offset bytes = bytes ! offset # drop (offset + 1) bytes"
      by (simp add: Cons_nth_drop_Suc)
    with True 1 show ?thesis by (simp add: crc64_tail.simps [of crc bytes offset])
  next
    case False
    then show ?thesis by (simp add: crc64_tail.simps [of crc bytes offset])
  qed
qed

lemma crc64_blocks_foldl:
  "(case crc64_blocks crc bytes offset of (crc', offset') \<Rightarrow> crc64_tail crc' bytes offset') =
     foldl crc64_byte_step crc (drop offset bytes)"
proof (induction crc bytes offset rule: crc64_blocks.induct)
  case (1 crc bytes offset)
  show ?case
  proof (cases "offset + 8 \<le> length bytes")
    case True
    then have "foldl crc64_byte_step crc (drop offset bytes) =
        foldl crc64_byte_step (crc64_slice_step crc bytes offset) (drop (offset + 8) bytes)"
      using take_eight [OF True] by (metis foldl_append slice_step_bytes)
    with True "1.IH" show ?thesis by (simp add: crc64_blocks.simps [of crc bytes offset])
  next
    case False
    then show ?thesis by (simp add: crc64_blocks.simps [of crc bytes offset] crc64_tail_foldl)
  qed
qed

lemma persistence_crc64_update_foldl:
  "persistence_crc64_update crc bytes = foldl crc64_byte_step crc bytes"
  using crc64_blocks_foldl [where crc = crc and bytes = bytes and offset = 0] by (simp add: persistence_crc64_update_def)

lemma persistence_crc64_foldl: "persistence_crc64 bytes = foldl crc64_byte_step 0 bytes"
  using crc64_blocks_foldl [where crc = 0 and bytes = bytes and offset = 0] by (simp add: persistence_crc64_def)

interpretation crc: stream_digest persistence_crc64_update
  by unfold_locales (simp_all add: persistence_crc64_update_foldl)

section \<open>Byte steps are polynomial division\<close>

lemma feed_bit_step:
  "crc64_feed_bit crc b = crc64_bit_step (crc XOR (if b then push_bit 63 1 else 0))"
proof -
  define t :: u64 where "t = push_bit 63 1"
  have "push_bit 1 t = 0" "bit t 63" by (simp_all add: t_def)
  then show ?thesis
    unfolding t_def [symmetric]
    by (auto simp: crc64_feed_bit_def crc64_bit_step_bit bit_xor_iff push_bit_xor)
qed

lemma feed_bits_linear:
  "foldl crc64_feed_bit crc bs = (crc64_bit_step ^^ length bs) crc XOR foldl crc64_feed_bit 0 bs"
proof (induction bs arbitrary: crc)
  case Nil
  then show ?case by simp
next
  case (Cons b bs)
  have "(crc64_bit_step ^^ length bs) (crc64_feed_bit crc b) =
      (crc64_bit_step ^^ length (b # bs)) crc XOR (crc64_bit_step ^^ length bs) (crc64_feed_bit 0 b)"
    by (simp add: feed_bit_step crc64_bit_step_xor crc64_steps_xor funpow_swap1)
  with Cons.IH [of "crc64_feed_bit crc b"] Cons.IH [of "crc64_feed_bit 0 b"] show ?case
    by (simp add: xor.assoc)
qed

lemma feed_bits_value:
  "length bs \<le> 64 \<Longrightarrow>
     foldl crc64_feed_bit 0 bs =
       (crc64_bit_step ^^ length bs) (push_bit (64 - length bs) (horner_sum of_bool 2 (rev bs)))"
proof (induction bs)
  case Nil
  then show ?case by simp
next
  case (Cons b bs)
  let ?h = "horner_sum of_bool 2 (rev bs) :: u64"
  have "bit ?h i \<longleftrightarrow> i < length bs \<and> rev bs ! i" if "i < 64" for i
    using that by (simp add: bit_horner_sum_bit_word_iff)
  then have "(crc64_bit_step ^^ 1) (push_bit (63 - length bs) ?h) = push_bit (1 + (63 - length bs)) ?h"
    using Cons.prems by (intro crc64_steps_shift) auto
  moreover have "1 + (63 - length bs) = 64 - length bs" using Cons.prems by auto
  ultimately have one: "crc64_bit_step (push_bit (63 - length bs) ?h) = push_bit (64 - length bs) ?h"
    by (simp only: One_nat_def funpow.simps comp_apply id_apply)
  have "(horner_sum of_bool 2 (rev (b # bs)) :: u64) = ?h XOR (if b then push_bit (length bs) 1 else 0)"
    by (rule bit_word_eqI)
      (auto simp: bit_horner_sum_bit_word_iff bit_xor_iff bit_push_bit_iff nth_append less_Suc_eq bit_exp_iff
        simp del: push_bit_numeral)
  moreover have "push_bit (63 - length bs) (push_bit (length bs) (1 :: u64)) = push_bit 63 1"
    using Cons.prems by (simp only: push_bit_push_bit) simp
  ultimately have H: "push_bit (63 - length bs) (horner_sum of_bool 2 (rev (b # bs))) =
      push_bit (63 - length bs) ?h XOR (if b then push_bit 63 1 else 0)"
    by (simp add: push_bit_xor)
  have "foldl crc64_feed_bit 0 (b # bs) =
      (crc64_bit_step ^^ length bs) (crc64_feed_bit 0 b) XOR foldl crc64_feed_bit 0 bs"
    using feed_bits_linear [of "crc64_feed_bit 0 b" bs] by simp
  also have "\<dots> = (crc64_bit_step ^^ length bs)
      (crc64_bit_step (push_bit (63 - length bs) (horner_sum of_bool 2 (rev (b # bs)))))"
    using Cons.IH Cons.prems
    by (simp only: H feed_bit_step [of 0 b] crc64_bit_step_xor crc64_steps_xor one length_Cons
        Suc_leD xor.left_neutral xor.commute)
  finally show ?case by (simp only: funpow_swap1 [symmetric] funpow.simps comp_apply length_Cons
        diff_Suc_Suc eval_nat_numeral) simp
qed

lemma byte_bits_value: "horner_sum of_bool 2 (rev (byte_bits b)) = (ucast b :: u64)"
proof (rule bit_word_eqI)
  fix n
  have "rev (byte_bits b) ! n = bit b n" if "n < 8"
    using that nth_upt [of 0 "7 - n" 8] by (simp add: byte_bits_def rev_nth)
  then show "bit (horner_sum of_bool 2 (rev (byte_bits b)) :: u64) n = bit (ucast b :: u64) n"
    if "n < LENGTH(64)"
    using that by (auto simp: bit_horner_sum_bit_word_iff ucast_byte_bit byte_bits_def)
qed

lemma byte_step_division: "crc64_byte_step crc b = foldl crc64_feed_bit crc (byte_bits b)"
proof -
  have "length (byte_bits b) = 8" by (simp add: byte_bits_def)
  then show ?thesis
    using feed_bits_linear [of crc "byte_bits b"] feed_bits_value [of "byte_bits b"]
    by (simp add: byte_step_steps crc64_steps_xor byte_bits_value)
qed

lemma crc64_division_foldl: "crc64_division crc bytes = foldl crc64_byte_step crc bytes"
  by (induction bytes arbitrary: crc) (simp_all add: crc64_division_def byte_step_division)

section \<open>Error bursts\<close>







section \<open>Properties\<close>

text \<open>
  C3. The optimised checksum is CRC-64/ECMA-182: the slicing-by-8 update, the one-shot routine and
  the byte-wise reference all compute the remainder of the bit-by-bit polynomial division, from any
  starting register, and both code paths of the eight-byte load agree whatever the byte order.
\<close>

theorem crc64_implements_division:
  "persistence_crc64_update crc bytes = crc64_division crc bytes \<and>
   persistence_crc64 bytes = crc64_division 0 bytes \<and>
   persistence_crc64_reference bytes = crc64_division 0 bytes \<and>
   load_be64_runtime little bytes offset = load_be64_constant bytes offset"
  by (simp add: crc64_division_foldl persistence_crc64_update_foldl persistence_crc64_foldl
      persistence_crc64_reference_def load_be64_paths)

text \<open>
  C4. A persisted section may be checksummed extent by extent: updating over any way of cutting it
  into extents gives the checksum of the assembled bytes.
\<close>

theorem crc64_scatter_gather:
  "foldl persistence_crc64_update 0 extents = persistence_crc64 (concat extents)"
  using crc.absorb_extents [of 0 extents]
  by (simp add: persistence_crc64_update_foldl persistence_crc64_foldl)



text \<open>The check value of the standard, which the source asserts at compile time.\<close>

lemma crc64_ecma_check:
  "persistence_crc64 [0x31, 0x32, 0x33, 0x34, 0x35, 0x36, 0x37, 0x38, 0x39] = 0x6c40df5f0b497347"
  unfolding persistence_crc64_foldl crc64_division_foldl [symmetric] crc64_division_def
  by (simp add: byte_bits_def upt_8 crc64_feed_bit_def persistence_crc64_polynomial_def)

end
