(* ===== verification/Source_Hash.thy ===== *)
theory Source_Hash
  imports Prelude Stream_Digest
begin

text \<open>
  The SHA-256 content hash of Sources, \<^verbatim>\<open>src/server_engine/project/source/source_hash.cpp\<close>: the
  \<^verbatim>\<open>sha256_state\<close> object with its 64-byte buffer, \<^verbatim>\<open>update\<close>, \<^verbatim>\<open>transform\<close> and \<^verbatim>\<open>finish\<close>, and
  \<^verbatim>\<open>hash_source_content\<close>. The specification is the block-wise definition of FIPS 180-4: pad the whole
  message, cut it into blocks, fold the compression function over them. The lemmas follow the buffer
  through \<^verbatim>\<open>update\<close> and \<^verbatim>\<open>finish\<close> and identify the two.
\<close>

section \<open>The code\<close>

definition rotr :: "u32 \<Rightarrow> nat \<Rightarrow> u32" where
  "rotr value amount = drop_bit amount value OR push_bit (32 - amount) value"

definition choose_bits :: "u32 \<Rightarrow> u32 \<Rightarrow> u32 \<Rightarrow> u32" where
  "choose_bits x y z = (x AND y) XOR (NOT x AND z)"

definition majority :: "u32 \<Rightarrow> u32 \<Rightarrow> u32 \<Rightarrow> u32" where
  "majority x y z = (x AND y) XOR (x AND z) XOR (y AND z)"

definition big_sigma0 :: "u32 \<Rightarrow> u32" where
  "big_sigma0 value = rotr value 2 XOR rotr value 13 XOR rotr value 22"

definition big_sigma1 :: "u32 \<Rightarrow> u32" where
  "big_sigma1 value = rotr value 6 XOR rotr value 11 XOR rotr value 25"

definition small_sigma0 :: "u32 \<Rightarrow> u32" where
  "small_sigma0 value = rotr value 7 XOR rotr value 18 XOR drop_bit 3 value"

definition small_sigma1 :: "u32 \<Rightarrow> u32" where
  "small_sigma1 value = rotr value 17 XOR rotr value 19 XOR drop_bit 10 value"

definition round_constants :: "u32 list" where
  "round_constants =
    [0x428a2f98, 0x71374491, 0xb5c0fbcf, 0xe9b5dba5] @
     [0x3956c25b, 0x59f111f1, 0x923f82a4, 0xab1c5ed5] @
     [0xd807aa98, 0x12835b01, 0x243185be, 0x550c7dc3] @
     [0x72be5d74, 0x80deb1fe, 0x9bdc06a7, 0xc19bf174] @
     [0xe49b69c1, 0xefbe4786, 0x0fc19dc6, 0x240ca1cc] @
     [0x2de92c6f, 0x4a7484aa, 0x5cb0a9dc, 0x76f988da] @
     [0x983e5152, 0xa831c66d, 0xb00327c8, 0xbf597fc7] @
     [0xc6e00bf3, 0xd5a79147, 0x06ca6351, 0x14292967] @
     [0x27b70a85, 0x2e1b2138, 0x4d2c6dfc, 0x53380d13] @
     [0x650a7354, 0x766a0abb, 0x81c2c92e, 0x92722c85] @
     [0xa2bfe8a1, 0xa81a664b, 0xc24b8b70, 0xc76c51a3] @
     [0xd192e819, 0xd6990624, 0xf40e3585, 0x106aa070] @
     [0x19a4c116, 0x1e376c08, 0x2748774c, 0x34b0bcb5] @
     [0x391c0cb3, 0x4ed8aa4a, 0x5b9cca4f, 0x682e6ff3] @
     [0x748f82ee, 0x78a5636f, 0x84c87814, 0x8cc70208] @
     [0x90befffa, 0xa4506ceb, 0xbef9a3f7, 0xc67178f2]"

record sha256_state =
  sha_state :: "u32 list"
  sha_buffer :: "u8 list"
  sha_buffer_size :: nat
  sha_total_bytes :: u64

definition sha256_initial_words :: "u32 list" where
  "sha256_initial_words =
     [0x6a09e667, 0xbb67ae85, 0x3c6ef372, 0xa54ff53a, 0x510e527f, 0x9b05688c, 0x1f83d9ab, 0x5be0cd19]"

definition sha256_init :: sha256_state where
  "sha256_init =
     \<lparr>sha_state = sha256_initial_words, sha_buffer = replicate 64 0, sha_buffer_size = 0,
      sha_total_bytes = 0\<rparr>"

definition block_word :: "u8 list \<Rightarrow> nat \<Rightarrow> u32" where
  "block_word block i =
     push_bit 24 (ucast (block ! (i * 4))) OR push_bit 16 (ucast (block ! (i * 4 + 1))) OR
     push_bit 8 (ucast (block ! (i * 4 + 2))) OR ucast (block ! (i * 4 + 3))"

definition schedule_load :: "u8 list \<Rightarrow> u32 list \<Rightarrow> nat \<Rightarrow> u32 list" where
  "schedule_load block schedule i = schedule[i := block_word block i]"

definition schedule_extend :: "u32 list \<Rightarrow> nat \<Rightarrow> u32 list" where
  "schedule_extend schedule i =
     schedule[i := small_sigma1 (schedule ! (i - 2)) + schedule ! (i - 7) +
                   small_sigma0 (schedule ! (i - 15)) + schedule ! (i - 16)]"

definition schedule_of :: "u8 list \<Rightarrow> u32 list" where
  "schedule_of block =
     foldl schedule_extend (foldl (schedule_load block) (replicate 64 0) [0..<16]) [16..<64]"

type_synonym working = "u32 \<times> u32 \<times> u32 \<times> u32 \<times> u32 \<times> u32 \<times> u32 \<times> u32"

definition sha256_round :: "u32 list \<Rightarrow> working \<Rightarrow> nat \<Rightarrow> working" where
  "sha256_round schedule v i =
     (case v of (a, b, c, d, e, f, g, h) \<Rightarrow>
        let temporary1 = h + big_sigma1 e + choose_bits e f g + round_constants ! i + schedule ! i;
            temporary2 = big_sigma0 a + majority a b c
        in (temporary1 + temporary2, a, b, c, d + temporary1, e, f, g))"

definition transform_words :: "u32 list \<Rightarrow> u8 list \<Rightarrow> u32 list" where
  "transform_words st block =
     (case foldl (sha256_round (schedule_of block))
             (st ! 0, st ! 1, st ! 2, st ! 3, st ! 4, st ! 5, st ! 6, st ! 7) [0..<64] of
        (a, b, c, d, e, f, g, h) \<Rightarrow>
          [st ! 0 + a, st ! 1 + b, st ! 2 + c, st ! 3 + d,
           st ! 4 + e, st ! 5 + f, st ! 6 + g, st ! 7 + h])"

definition sha_transform :: "sha256_state \<Rightarrow> sha256_state" where
  "sha_transform s = s\<lparr>sha_state := transform_words (sha_state s) (sha_buffer s)\<rparr>"

text \<open>\<^verbatim>\<open>buffer[buffer_size++] = value\<close>\<close>

definition sha_put :: "sha256_state \<Rightarrow> u8 \<Rightarrow> sha256_state" where
  "sha_put s v =
     s\<lparr>sha_buffer := (sha_buffer s)[sha_buffer_size s := v],
       sha_buffer_size := sha_buffer_size s + 1\<rparr>"

definition sha_update_byte :: "sha256_state \<Rightarrow> u8 \<Rightarrow> sha256_state" where
  "sha_update_byte s v =
     (let s1 = sha_put s v; s2 = s1\<lparr>sha_total_bytes := sha_total_bytes s1 + 1\<rparr>
      in if sha_buffer_size s2 = 64 then (sha_transform s2)\<lparr>sha_buffer_size := 0\<rparr> else s2)"

definition sha_update :: "sha256_state \<Rightarrow> u8 list \<Rightarrow> sha256_state" where
  "sha_update s input = foldl sha_update_byte s input"

function sha_zero_fill :: "nat \<Rightarrow> sha256_state \<Rightarrow> sha256_state" where
  "sha_zero_fill limit s =
     (if sha_buffer_size s < limit then sha_zero_fill limit (sha_put s 0) else s)"
  by pat_completeness auto
termination
  by (relation "measure (\<lambda>(limit, s). limit - sha_buffer_size s)") (auto simp: sha_put_def)

declare sha_zero_fill.simps [simp del]

definition length_byte :: "u64 \<Rightarrow> nat \<Rightarrow> u8" where
  "length_byte bit_length i = ucast (drop_bit ((7 - i) * 8) bit_length)"

definition digest_of_words :: "u32 list \<Rightarrow> u8 list" where
  "digest_of_words st =
     concat (map (\<lambda>w. map (\<lambda>b. ucast (drop_bit ((3 - b) * 8) (st ! w) AND 0xff)) [0..<4])
       [0..<length st])"

definition sha_finish :: "sha256_state \<Rightarrow> u8 list" where
  "sha_finish s =
     (let bit_length = sha_total_bytes s * 8;
          s1 = sha_put s 0x80;
          s2 = (if sha_buffer_size s1 > 56
                then (sha_transform (sha_zero_fill 64 s1))\<lparr>sha_buffer_size := 0\<rparr> else s1);
          s3 = sha_zero_fill 56 s2;
          s4 = foldl (\<lambda>s i. sha_put s (length_byte bit_length i)) s3 [0..<8];
          s5 = sha_transform s4
      in digest_of_words (sha_state s5))"

definition hash_source_content :: "u8 list \<Rightarrow> u8 list" where
  "hash_source_content bytes = sha_finish (sha_update sha256_init bytes)"

section \<open>FIPS 180-4\<close>

text \<open>The compression function, with the rotations, the message schedule and the rounds as FIPS 180-4 has them.\<close>

definition fips_sigma0 :: "u32 \<Rightarrow> u32" where
  "fips_sigma0 x = word_rotr 7 x XOR word_rotr 18 x XOR drop_bit 3 x"

definition fips_sigma1 :: "u32 \<Rightarrow> u32" where
  "fips_sigma1 x = word_rotr 17 x XOR word_rotr 19 x XOR drop_bit 10 x"

definition fips_Sigma0 :: "u32 \<Rightarrow> u32" where
  "fips_Sigma0 x = word_rotr 2 x XOR word_rotr 13 x XOR word_rotr 22 x"

definition fips_Sigma1 :: "u32 \<Rightarrow> u32" where
  "fips_Sigma1 x = word_rotr 6 x XOR word_rotr 11 x XOR word_rotr 25 x"

text \<open>The bits of \<^verbatim>\<open>Ch\<close> select and those of \<^verbatim>\<open>Maj\<close> vote.\<close>

definition fips_Ch :: "u32 \<Rightarrow> u32 \<Rightarrow> u32 \<Rightarrow> u32" where
  "fips_Ch x y z = horner_sum of_bool 2 (map (\<lambda>n. if bit x n then bit y n else bit z n) [0..<32])"

definition fips_Maj :: "u32 \<Rightarrow> u32 \<Rightarrow> u32 \<Rightarrow> u32" where
  "fips_Maj x y z =
     horner_sum of_bool 2
       (map (\<lambda>n. 2 \<le> length (filter (\<lambda>w. bit w n) [x, y, z])) [0..<32])"

fun fips_W :: "u8 list \<Rightarrow> nat \<Rightarrow> u32" where
  "fips_W block t =
     (if t < 16 then block_word block t
      else fips_sigma1 (fips_W block (t - 2)) + fips_W block (t - 7) +
           fips_sigma0 (fips_W block (t - 15)) + fips_W block (t - 16))"

declare fips_W.simps [simp del]

definition fips_round :: "u8 list \<Rightarrow> working \<Rightarrow> nat \<Rightarrow> working" where
  "fips_round block v t =
     (case v of (a, b, c, d, e, f, g, h) \<Rightarrow>
        let T1 = h + fips_Sigma1 e + fips_Ch e f g + round_constants ! t + fips_W block t;
            T2 = fips_Sigma0 a + fips_Maj a b c
        in (T1 + T2, a, b, c, d + T1, e, f, g))"

definition fips_compress :: "u32 list \<Rightarrow> u8 list \<Rightarrow> u32 list" where
  "fips_compress H block =
     (case foldl (fips_round block) (H ! 0, H ! 1, H ! 2, H ! 3, H ! 4, H ! 5, H ! 6, H ! 7) [0..<64] of
        (a, b, c, d, e, f, g, h) \<Rightarrow>
          [H ! 0 + a, H ! 1 + b, H ! 2 + c, H ! 3 + d, H ! 4 + e, H ! 5 + f, H ! 6 + g, H ! 7 + h])"

text \<open>Padding to a multiple of 64 bytes, the 64-bit big-endian bit length last.\<close>

definition fips_pad :: "u8 list \<Rightarrow> u8 list" where
  "fips_pad message =
     message @ [0x80] @ replicate ((119 - length message mod 64) mod 64) 0 @
     map (length_byte (of_nat (8 * length message))) [0..<8]"

function fips_blocks :: "u32 list \<Rightarrow> u8 list \<Rightarrow> u32 list" where
  "fips_blocks H message =
     (if length message < 64 then H
      else fips_blocks (fips_compress H (take 64 message)) (drop 64 message))"
  by pat_completeness auto
termination
  by (relation "measure (\<lambda>(H, message). length message)") auto

declare fips_blocks.simps [simp del]

definition fips_sha256 :: "u8 list \<Rightarrow> u8 list" where
  "fips_sha256 message = digest_of_words (fips_blocks sha256_initial_words (fips_pad message))"

section \<open>The compression functions agree\<close>

lemma rotr_word_rotr:
  assumes "0 < n" "n < 32"
  shows "rotr x n = word_rotr n x"
proof (rule bit_word_eqI)
  fix k assume k: "k < LENGTH(32)"
  show "bit (rotr x n) k = bit (word_rotr n x) k"
  proof (cases "n + k < 32")
    case True
    with assms k show ?thesis
      by (auto simp: rotr_def bit_or_iff bit_drop_bit_eq bit_push_bit_iff bit_word_rotr_iff add.commute)
  next
    case False
    then have "(n + k) mod 32 = n + k - 32" using assms k by (simp add: mod_if)
    moreover have "\<not> bit x (n + k)" using False by (auto dest: bit_imp_le_length)
    ultimately show ?thesis
      using assms k False
      by (auto simp: rotr_def bit_or_iff bit_drop_bit_eq bit_push_bit_iff bit_word_rotr_iff add.commute)
  qed
qed

lemma sigma_fips:
  "small_sigma0 = fips_sigma0" "small_sigma1 = fips_sigma1"
  "big_sigma0 = fips_Sigma0" "big_sigma1 = fips_Sigma1"
  by (simp_all add: fun_eq_iff small_sigma0_def small_sigma1_def big_sigma0_def big_sigma1_def
      fips_sigma0_def fips_sigma1_def fips_Sigma0_def fips_Sigma1_def rotr_word_rotr)

lemma choose_fips: "choose_bits = fips_Ch"
  by (intro ext bit_word_eqI)
    (auto simp: choose_bits_def fips_Ch_def bit_horner_sum_bit_word_iff bit_xor_iff bit_and_iff bit_not_iff)

lemma majority_fips: "majority = fips_Maj"
  by (intro ext bit_word_eqI)
    (auto simp: majority_def fips_Maj_def bit_horner_sum_bit_word_iff bit_xor_iff bit_and_iff)


text \<open>The schedule array holds the FIPS recurrence.\<close>

lemma schedule_first:
  "n \<le> 16 \<Longrightarrow>
     length (foldl (schedule_load block) (replicate 64 0) [0..<n]) = 64 \<and>
     (\<forall>t < n. foldl (schedule_load block) (replicate 64 0) [0..<n] ! t = fips_W block t)"
proof (induction n)
  case 0
  then show ?case by simp
next
  case (Suc n)
  then show ?case by (auto simp: schedule_load_def nth_list_update fips_W.simps less_Suc_eq)
qed

lemma schedule_rest:
  assumes "length s = 64" "\<forall>t < 16. s ! t = fips_W block t"
  shows "m \<le> 48 \<Longrightarrow>
     length (foldl schedule_extend s [16..<16 + m]) = 64 \<and>
     (\<forall>t < 16 + m. foldl schedule_extend s [16..<16 + m] ! t = fips_W block t)"
proof (induction m)
  case 0
  then show ?case using assms by simp
next
  case (Suc m)
  define r where "r = foldl schedule_extend s [16..<16 + m]"
  have r: "length r = 64" "\<And>t. t < 16 + m \<Longrightarrow> r ! t = fips_W block t"
    using Suc by (simp_all add: r_def)
  have "foldl schedule_extend s [16..<16 + Suc m] = schedule_extend r (16 + m)"
    unfolding r_def add_Suc_right by (subst upt_Suc) simp
  moreover have "schedule_extend r (16 + m) ! t = fips_W block t" if "t < 16 + Suc m" for t
    using that r Suc.prems
    by (cases "t = 16 + m")
      (simp_all add: schedule_extend_def fips_W.simps [of block "16 + m"] sigma_fips)
  moreover have "length (schedule_extend r (16 + m)) = 64" using r by (simp add: schedule_extend_def)
  ultimately show ?case by metis
qed

lemma schedule_fips:
  assumes "t < 64"
  shows "schedule_of block ! t = fips_W block t"
proof -
  define s where "s = foldl (schedule_load block) (replicate 64 0) [0..<16]"
  have "length s = 64" "\<forall>t < 16. s ! t = fips_W block t"
    unfolding s_def using schedule_first [of 16 block] by blast+
  then have "\<forall>t < 16 + 48. foldl schedule_extend s [16..<16 + 48] ! t = fips_W block t"
    using schedule_rest [of s block 48] by blast
  then have "\<forall>t < 64. foldl schedule_extend s [16..<64] ! t = fips_W block t"
    by simp
  with assms show ?thesis
    unfolding schedule_of_def s_def by blast
qed

lemma transform_fips: "transform_words = fips_compress"
proof (intro ext)
  fix st :: "u32 list" and block :: "u8 list"
  have "sha256_round (schedule_of block) v t = fips_round block v t" if "t \<in> set [0..<64]" for v t
    using that by (simp add: sha256_round_def fips_round_def schedule_fips sigma_fips choose_fips
        majority_fips)
  then have "foldl (sha256_round (schedule_of block)) v [0..<64] = foldl (fips_round block) v [0..<64]"
    for v
    by (intro foldl_cong) auto
  then show "transform_words st block = fips_compress st block"
    by (simp add: transform_words_def fips_compress_def)
qed

section \<open>Following the buffer\<close>

lemma fips_blocks_append:
  "64 dvd length xs \<Longrightarrow> fips_blocks H (xs @ ys) = fips_blocks (fips_blocks H xs) ys"
proof (induction H xs rule: fips_blocks.induct)
  case (1 H xs)
  show ?case
  proof (cases "length xs < 64")
    case True
    with "1.prems" have "xs = []" by (auto dest: dvd_imp_le)
    then show ?thesis by (simp add: fips_blocks.simps [of H "[]"])
  next
    case False
    then have "64 dvd length (drop 64 xs)" using "1.prems" by (simp add: dvd_minus_self)
    with False 1 show ?thesis
      by (simp add: fips_blocks.simps [of H xs] fips_blocks.simps [of H "xs @ ys"])
  qed
qed

lemma fips_blocks_one: "length b = 64 \<Longrightarrow> fips_blocks H b = fips_compress H b"
  by (simp add: fips_blocks.simps [of H b] fips_blocks.simps [of _ "[]"])

text \<open>What the object holds: whole blocks \<open>full\<close> compressed, the bytes \<open>rest\<close> in the buffer.\<close>

definition sha_buffered :: "u32 list \<Rightarrow> u8 list \<Rightarrow> u8 list \<Rightarrow> sha256_state \<Rightarrow> bool" where
  "sha_buffered H full rest s \<longleftrightarrow>
     length (sha_buffer s) = 64 \<and> 64 dvd length full \<and> sha_buffer_size s = length rest \<and>
     take (length rest) (sha_buffer s) = rest \<and> sha_state s = fips_blocks H full"

lemma sha_buffered_put:
  assumes "sha_buffered H full rest s" "length rest < 64"
  shows "sha_buffered H full (rest @ [v]) (sha_put s v)"
  using assms by (simp add: sha_buffered_def sha_put_def take_Suc_conv_app_nth)

lemma sha_buffered_transform:
  assumes "sha_buffered H full rest s" "length rest = 64"
  shows "sha_buffered H (full @ rest) [] ((sha_transform s)\<lparr>sha_buffer_size := 0\<rparr>)"
proof -
  have "sha_buffer s = rest" using assms by (auto simp: sha_buffered_def)
  with assms show ?thesis
    by (simp add: sha_buffered_def sha_transform_def transform_fips fips_blocks_append fips_blocks_one)
qed

lemma sha_buffered_total [simp]:
  "sha_buffered H full rest (s\<lparr>sha_total_bytes := n\<rparr>) = sha_buffered H full rest s"
  by (simp add: sha_buffered_def)

lemma sha_buffered_size: "sha_buffered H full rest s \<Longrightarrow> sha_buffer_size s = length rest"
  by (simp add: sha_buffered_def)

definition sha_absorbed :: "u32 list \<Rightarrow> u8 list \<Rightarrow> sha256_state \<Rightarrow> bool" where
  "sha_absorbed H xs s \<longleftrightarrow>
     (\<exists>full rest. xs = full @ rest \<and> length rest < 64 \<and> sha_buffered H full rest s)"

lemma sha_update_byte_absorbed:
  assumes "sha_absorbed H xs s"
  shows "sha_absorbed H (xs @ [v]) (sha_update_byte s v)"
proof -
  from assms obtain full rest where xs: "xs = full @ rest" and r: "length rest < 64"
    and b: "sha_buffered H full rest s" by (auto simp: sha_absorbed_def)
  let ?s = "(sha_put s v)\<lparr>sha_total_bytes := sha_total_bytes (sha_put s v) + 1\<rparr>"
  have b': "sha_buffered H full (rest @ [v]) ?s" using sha_buffered_put [OF b r] by simp
  show ?thesis
  proof (cases "length rest = 63")
    case True
    then have "sha_buffered H (full @ rest @ [v]) [] (sha_update_byte s v)"
      using sha_buffered_transform [OF b'] sha_buffered_size [OF b']
      by (simp add: sha_update_byte_def Let_def)
    then show ?thesis unfolding sha_absorbed_def xs
      by (intro exI [of _ "full @ rest @ [v]"] exI [of _ "[]"]) simp
  next
    case False
    then have "sha_buffered H full (rest @ [v]) (sha_update_byte s v)"
      using b' sha_buffered_size [OF b'] by (simp add: sha_update_byte_def Let_def)
    with False r show ?thesis unfolding sha_absorbed_def xs
      by (intro exI [of _ full] exI [of _ "rest @ [v]"]) simp
  qed
qed

lemma sha_update_byte_total: "sha_total_bytes (sha_update_byte s v) = sha_total_bytes s + 1"
  by (simp add: sha_update_byte_def Let_def sha_transform_def sha_put_def)

lemma sha_update_total:
  "sha_total_bytes (sha_update s ys) = sha_total_bytes s + of_nat (length ys)"
  by (induction ys arbitrary: s) (simp_all add: sha_update_def sha_update_byte_total)

lemma sha_update_absorbed:
  "sha_absorbed H xs s \<Longrightarrow> sha_absorbed H (xs @ ys) (sha_update s ys)"
proof (induction ys arbitrary: s xs)
  case Nil
  then show ?case by (simp add: sha_update_def)
next
  case (Cons v ys)
  from Cons.IH [OF sha_update_byte_absorbed [OF Cons.prems]] show ?case
    by (simp add: sha_update_def)
qed

lemma sha_init_absorbed: "sha_absorbed sha256_initial_words [] sha256_init"
  by (simp add: sha_absorbed_def sha_buffered_def sha256_init_def fips_blocks.simps)

text \<open>The padding loops of \<^verbatim>\<open>finish\<close>.\<close>

lemma sha_zero_fill_buffered:
  "sha_buffered H full rest s \<Longrightarrow> length rest \<le> limit \<Longrightarrow> limit \<le> 64 \<Longrightarrow>
     sha_buffered H full (rest @ replicate (limit - length rest) 0) (sha_zero_fill limit s)"
proof (induction "limit - length rest" arbitrary: rest s)
  case 0
  then show ?case by (simp add: sha_zero_fill.simps sha_buffered_size)
next
  case (Suc k)
  then have "sha_buffered H full (rest @ [0]) (sha_put s 0)" by (intro sha_buffered_put) auto
  from Suc.hyps(1) [OF _ this] Suc.hyps(2) Suc.prems
  have "sha_buffered H full ((rest @ [0]) @ replicate (limit - length (rest @ [0])) 0)
      (sha_zero_fill limit (sha_put s 0))" by simp
  moreover have "sha_zero_fill limit s = sha_zero_fill limit (sha_put s 0)"
    using Suc by (simp add: sha_zero_fill.simps [of limit s] sha_buffered_size)
  moreover have "replicate (limit - length rest) (0 :: u8) =
      0 # replicate (limit - length (rest @ [0 :: u8])) 0"
    using Suc.hyps(2) by (metis Suc_diff_Suc diff_Suc_1 length_append_singleton replicate_Suc zero_less_Suc
        zero_less_diff)
  ultimately show ?case by simp
qed

lemma sha_put_list_buffered:
  "sha_buffered H full rest s \<Longrightarrow> length rest + length vs \<le> 64 \<Longrightarrow>
     sha_buffered H full (rest @ map f vs) (foldl (\<lambda>s i. sha_put s (f i)) s vs)"
proof (induction vs arbitrary: rest s)
  case Nil
  then show ?case by simp
next
  case (Cons v vs)
  then have "sha_buffered H full (rest @ [f v]) (sha_put s (f v))" by (intro sha_buffered_put) auto
  from Cons.IH [OF this] Cons.prems show ?case by simp
qed

lemma pad_count: "k < 64 \<Longrightarrow> (119 - k) mod 64 = (if k < 56 then 55 - k else 119 - k)" for k :: nat
  by (auto simp: mod_if)

lemma pad_zeros:
  assumes "64 dvd length full" "length rest < 64"
  shows "(119 - length (full @ rest) mod 64) mod 64 =
     (if length rest < 56 then 55 - length rest else 119 - length rest)"
proof -
  have "length (full @ rest) mod 64 = length rest" using assms by (auto elim!: dvdE)
  then show ?thesis using assms(2) by (simp add: pad_count)
qed

lemma sha_finish_block:
  assumes "sha_buffered H full rest s" "length rest \<le> 56"
  shows "sha_state (sha_transform (foldl (\<lambda>s i. sha_put s (f i)) (sha_zero_fill 56 s) [0..<8])) =
     fips_blocks H (full @ rest @ replicate (56 - length rest) 0 @ map f [0..<8])"
proof -
  have "sha_buffered H full (rest @ replicate (56 - length rest) 0) (sha_zero_fill 56 s)"
    by (rule sha_zero_fill_buffered) (use assms in auto)
  from sha_put_list_buffered [OF this, of "[0..<8]" f]
  have "sha_buffered H full ((rest @ replicate (56 - length rest) 0) @ map f [0..<8])
      (foldl (\<lambda>s i. sha_put s (f i)) (sha_zero_fill 56 s) [0..<8])"
    using assms(2) by simp
  from sha_buffered_transform [OF this] assms(2) show ?thesis
    by (simp add: sha_buffered_def)
qed

lemma sha_finish_absorbed:
  assumes "sha_absorbed H xs s" "sha_total_bytes s = of_nat (length xs)"
  shows "sha_finish s = digest_of_words (fips_blocks H (fips_pad xs))"
proof -
  from assms obtain full rest where xs: "xs = full @ rest" and r: "length rest < 64"
    and b: "sha_buffered H full rest s" by (auto simp: sha_absorbed_def)
  have full: "64 dvd length full" using b by (simp add: sha_buffered_def)
  define s1 where "s1 = sha_put s 0x80"
  have b1: "sha_buffered H full (rest @ [0x80]) s1"
    unfolding s1_def by (rule sha_buffered_put [OF b r])
  have bits: "sha_total_bytes s * 8 = of_nat (8 * length xs)" by (simp add: assms(2))
  show ?thesis
  proof (cases "length rest < 56")
    case True
    then show ?thesis
      using sha_finish_block [OF b1, of "length_byte (sha_total_bytes s * 8)"] pad_zeros [OF full r]
        sha_buffered_size [OF b1]
      by (simp add: sha_finish_def s1_def [symmetric] fips_pad_def xs bits [unfolded xs])
  next
    case False
    let ?s2 = "(sha_transform (sha_zero_fill 64 s1))\<lparr>sha_buffer_size := 0\<rparr>"
    have "sha_buffered H full ((rest @ [0x80]) @ replicate (64 - length (rest @ [0x80 :: u8])) 0)
        (sha_zero_fill 64 s1)"
      by (rule sha_zero_fill_buffered [OF b1]) (use r in auto)
    from sha_buffered_transform [OF this] r
    have b2: "sha_buffered H (full @ rest @ [0x80] @ replicate (63 - length rest) 0) [] ?s2"
      by simp
    have zeros: "replicate (119 - length rest) (0 :: u8) =
        replicate (63 - length rest) 0 @ replicate 56 0"
      using r by (simp add: replicate_add [symmetric])
    show ?thesis
      using sha_finish_block [OF b2, of "length_byte (sha_total_bytes s * 8)"] pad_zeros [OF full r]
        sha_buffered_size [OF b1] False
      by (simp add: sha_finish_def s1_def [symmetric] fips_pad_def xs bits [unfolded xs] zeros)
  qed
qed

interpretation sha: stream_digest sha_update
  unfolding sha_update_def by (rule foldl_stream_digest)

section \<open>Properties\<close>

text \<open>
  C6. The content hash of a Source is SHA-256: the buffered object computes, for every byte
  sequence, the FIPS 180-4 digest of the padded message, and hashing a file in any sequence of reads
  gives the hash of the whole content.
\<close>

theorem hash_source_content_sha256:
  "hash_source_content bytes = fips_sha256 bytes \<and>
   sha_finish (foldl sha_update sha256_init pieces) = fips_sha256 (concat pieces)"
proof -
  have "sha_finish (sha_update sha256_init xs) = fips_sha256 xs" for xs
    using sha_finish_absorbed [OF sha_update_absorbed [OF sha_init_absorbed, of xs]]
    by (simp add: fips_sha256_def sha_update_total sha256_init_def)
  then show ?thesis
    by (simp add: hash_source_content_def sha.absorb_extents)
qed

text \<open>The padded message is a sequence of whole blocks.\<close>

lemma length_fips_pad: "64 dvd length (fips_pad m)"
proof -
  have "64 dvd (k + 9 + (119 - k) mod 64)" if "k < 64" for k :: nat
    using that by (auto simp: pad_count)
  from this [of "length m mod 64"]
  have d: "64 dvd (length m mod 64 + 9 + (119 - length m mod 64) mod 64)" by simp
  have eq: "length (fips_pad m) =
      64 * (length m div 64) + (length m mod 64 + 9 + (119 - length m mod 64) mod 64)"
    by (simp add: fips_pad_def)
  show ?thesis unfolding eq by (rule dvd_add [OF dvd_triv_left d])
qed

end
