(* ===== verification/Diagnostics.thy ===== *)
theory Diagnostics
  imports Prelude "HOL-Library.Char_ord" "HOL-Library.List_Lexorder"
    "HOL-Library.Product_Lexorder" "HOL-Library.Multiset"
begin

text \<open>
  The diagnostics of \<^verbatim>\<open>src/server_engine/diagnostics\<close>: the record types of \<^verbatim>\<open>diagnostic.hpp\<close>, the
  descriptor catalog and its registry lookup (\<^verbatim>\<open>diagnostic_descriptor.hpp\<close>,
  \<^verbatim>\<open>diagnostic_registry.hpp\<close>) and the buffer that collects the diagnostics of one operation
  (\<^verbatim>\<open>diagnostic_buffer.cpp\<close>). The lemmas show that the catalog lookup finds every descriptor by its
  identifier and that \<^verbatim>\<open>sort_deterministic\<close> has one possible outcome for a given bag of records.
\<close>

section \<open>Records\<close>

datatype diagnostic_severity = sev_note | sev_warning | sev_error | sev_fatal

datatype diagnostic_domain =
    dom_unknown | dom_server | dom_project | dom_source | dom_parser | dom_identity
  | dom_generation | dom_persistence | dom_runtime | dom_shm | dom_communication

primrec severity_rank :: "diagnostic_severity \<Rightarrow> nat" where
  "severity_rank sev_note = 0"
| "severity_rank sev_warning = 1"
| "severity_rank sev_error = 2"
| "severity_rank sev_fatal = 3"

lemma severity_rank_inj: "severity_rank a = severity_rank b \<longleftrightarrow> a = b"
  by (cases a; cases b) simp_all

instantiation diagnostic_severity :: linorder
begin

definition less_eq_diagnostic_severity :: "diagnostic_severity \<Rightarrow> diagnostic_severity \<Rightarrow> bool" where
  "a \<le> b \<longleftrightarrow> severity_rank a \<le> severity_rank b"

definition less_diagnostic_severity :: "diagnostic_severity \<Rightarrow> diagnostic_severity \<Rightarrow> bool" where
  "a < b \<longleftrightarrow> severity_rank a < severity_rank b"

instance
  by standard
    (auto simp: less_eq_diagnostic_severity_def less_diagnostic_severity_def severity_rank_inj
      [symmetric])

end

record source_range =
  range_source :: nat
  range_offset :: nat
  range_length :: nat

text \<open>A span within one Source (\<^verbatim>\<open>frontend/source_facts.hpp\<close>).\<close>

record source_span =
  sp_offset :: nat
  sp_length :: nat

record diagnostic_record =
  diag_id :: nat
  diag_severity :: diagnostic_severity
  diag_operation :: nat
  diag_location :: source_range
  diag_detail :: string

section \<open>The buffer\<close>

type_synonym diagnostic_buffer = "diagnostic_record list"

definition buffer_clear :: "diagnostic_buffer \<Rightarrow> diagnostic_buffer" where
  "buffer_clear b = []"

definition buffer_emit :: "diagnostic_buffer \<Rightarrow> diagnostic_record \<Rightarrow> diagnostic_buffer" where
  "buffer_emit b r = b @ [r]"

definition has_errors :: "diagnostic_buffer \<Rightarrow> bool" where
  "has_errors b \<longleftrightarrow>
     list_ex (\<lambda>r. diag_severity r = sev_error \<or> diag_severity r = sev_fatal) b"

text \<open>The projection \<^verbatim>\<open>std::ranges::sort\<close> compares by: a lexicographic tuple of every field.\<close>

definition sort_projection ::
    "diagnostic_record \<Rightarrow> nat \<times> nat \<times> nat \<times> nat \<times> diagnostic_severity \<times> nat \<times> string" where
  "sort_projection r =
     (range_source (diag_location r), range_offset (diag_location r),
      range_length (diag_location r), diag_id r, diag_severity r, diag_operation r,
      diag_detail r)"

definition sort_deterministic :: "diagnostic_buffer \<Rightarrow> diagnostic_buffer" where
  "sort_deterministic b = sort_key sort_projection b"

lemma sort_projection_inj: "sort_projection a = sort_projection b \<Longrightarrow> a = b"
  by (cases a rule: diagnostic_record.cases; cases b rule: diagnostic_record.cases)
    (auto simp: sort_projection_def intro: source_range.equality)

lemma sorted_by_projection_unique:
  assumes "mset xs = mset ys" and "sorted (map sort_projection xs)"
    and "sorted (map sort_projection ys)"
  shows "xs = ys"
proof -
  have "mset (map sort_projection xs) = mset (map sort_projection ys)"
    using assms(1) by simp
  then have "map sort_projection xs = map sort_projection ys"
    using assms(2,3) by (metis properties_for_sort)
  then show ?thesis
    by (rule map_injective) (auto simp: inj_on_def intro: sort_projection_inj)
qed

section \<open>The catalog\<close>

record diagnostic_descriptor =
  desc_id :: nat
  desc_domain :: diagnostic_domain
  desc_severity :: diagnostic_severity
  desc_name :: string
  desc_message :: string

definition server_initialization_failed :: diagnostic_descriptor where
  "server_initialization_failed =
     \<lparr>desc_id = 1001, desc_domain = dom_server, desc_severity = sev_fatal,
      desc_name = ''server.initialization_failed'',
      desc_message = ''Server initialization failed''\<rparr>"

definition server_invalid_json :: diagnostic_descriptor where
  "server_invalid_json =
     \<lparr>desc_id = 1002, desc_domain = dom_server, desc_severity = sev_error,
      desc_name = ''server.invalid_json'',
      desc_message = ''Server configuration contains invalid JSON''\<rparr>"

definition server_invalid_configuration :: diagnostic_descriptor where
  "server_invalid_configuration =
     \<lparr>desc_id = 1003, desc_domain = dom_server, desc_severity = sev_error,
      desc_name = ''server.invalid_configuration'',
      desc_message = ''Server configuration is invalid''\<rparr>"

definition server_unsupported_configuration_version :: diagnostic_descriptor where
  "server_unsupported_configuration_version =
     \<lparr>desc_id = 1004, desc_domain = dom_server, desc_severity = sev_error,
      desc_name = ''server.unsupported_configuration_version'',
      desc_message = ''Server configuration version is unsupported''\<rparr>"

definition server_configuration_read_failed :: diagnostic_descriptor where
  "server_configuration_read_failed =
     \<lparr>desc_id = 1005, desc_domain = dom_server, desc_severity = sev_error,
      desc_name = ''server.configuration_read_failed'',
      desc_message = ''Server configuration could not be read''\<rparr>"

definition project_initialization_failed :: diagnostic_descriptor where
  "project_initialization_failed =
     \<lparr>desc_id = 2001, desc_domain = dom_project, desc_severity = sev_error,
      desc_name = ''project.initialization_failed'',
      desc_message = ''Project initialization failed''\<rparr>"

definition project_invalid_json :: diagnostic_descriptor where
  "project_invalid_json =
     \<lparr>desc_id = 2002, desc_domain = dom_project, desc_severity = sev_error,
      desc_name = ''project.invalid_json'',
      desc_message = ''Project configuration contains invalid JSON''\<rparr>"

definition project_invalid_configuration :: diagnostic_descriptor where
  "project_invalid_configuration =
     \<lparr>desc_id = 2003, desc_domain = dom_project, desc_severity = sev_error,
      desc_name = ''project.invalid_configuration'',
      desc_message = ''Project configuration is invalid''\<rparr>"

definition project_unsupported_configuration_version :: diagnostic_descriptor where
  "project_unsupported_configuration_version =
     \<lparr>desc_id = 2004, desc_domain = dom_project, desc_severity = sev_error,
      desc_name = ''project.unsupported_configuration_version'',
      desc_message = ''Project configuration version is unsupported''\<rparr>"

definition project_configuration_read_failed :: diagnostic_descriptor where
  "project_configuration_read_failed =
     \<lparr>desc_id = 2005, desc_domain = dom_project, desc_severity = sev_error,
      desc_name = ''project.configuration_read_failed'',
      desc_message = ''Project configuration could not be read''\<rparr>"

definition source_acquisition_failed :: diagnostic_descriptor where
  "source_acquisition_failed =
     \<lparr>desc_id = 3001, desc_domain = dom_source, desc_severity = sev_error,
      desc_name = ''source.acquisition_failed'',
      desc_message = ''Source Manager could not acquire an immutable Source snapshot''\<rparr>"

definition source_dependency_invalid :: diagnostic_descriptor where
  "source_dependency_invalid =
     \<lparr>desc_id = 3002, desc_domain = dom_source, desc_severity = sev_error,
      desc_name = ''source.dependency_invalid'',
      desc_message = ''Source dependency references an invalid Source''\<rparr>"

definition source_dependency_cycle :: diagnostic_descriptor where
  "source_dependency_cycle =
     \<lparr>desc_id = 3003, desc_domain = dom_source, desc_severity = sev_error,
      desc_name = ''source.dependency_cycle'',
      desc_message = ''Source include dependency graph contains a cycle''\<rparr>"

definition source_unsupported_directive :: diagnostic_descriptor where
  "source_unsupported_directive =
     \<lparr>desc_id = 3004, desc_domain = dom_source, desc_severity = sev_error,
      desc_name = ''source.unsupported_directive'',
      desc_message = ''Source uses an unsupported preprocessing directive''\<rparr>"

definition parser_invalid_source_facts :: diagnostic_descriptor where
  "parser_invalid_source_facts =
     \<lparr>desc_id = 4001, desc_domain = dom_parser, desc_severity = sev_error,
      desc_name = ''parser.invalid_source_facts'',
      desc_message = ''Parser output violates the source_facts boundary contract''\<rparr>"

definition parser_syntax_error :: diagnostic_descriptor where
  "parser_syntax_error =
     \<lparr>desc_id = 4002, desc_domain = dom_parser, desc_severity = sev_error,
      desc_name = ''parser.syntax_error'',
      desc_message = ''Source contains invalid syntax for the implemented language subset''\<rparr>"

definition parser_unsupported_construct :: diagnostic_descriptor where
  "parser_unsupported_construct =
     \<lparr>desc_id = 4003, desc_domain = dom_parser, desc_severity = sev_error,
      desc_name = ''parser.unsupported_construct'',
      desc_message = ''Source uses a construct not implemented by the current Parser slice''\<rparr>"

definition parser_unresolved_type :: diagnostic_descriptor where
  "parser_unresolved_type =
     \<lparr>desc_id = 4004, desc_domain = dom_parser, desc_severity = sev_error,
      desc_name = ''parser.unresolved_type'',
      desc_message = ''Type name is not visible in the Source semantic environment''\<rparr>"

definition parser_semantic_resolution_failed :: diagnostic_descriptor where
  "parser_semantic_resolution_failed =
     \<lparr>desc_id = 4005, desc_domain = dom_parser, desc_severity = sev_error,
      desc_name = ''parser.semantic_resolution_failed'',
      desc_message = ''Parser semantic declaration resolution failed''\<rparr>"

definition identity_initialization_failed :: diagnostic_descriptor where
  "identity_initialization_failed =
     \<lparr>desc_id = 4501, desc_domain = dom_identity, desc_severity = sev_fatal,
      desc_name = ''identity.initialization_failed'',
      desc_message = ''Project semantic identity initialization failed''\<rparr>"

definition generation_build_failed :: diagnostic_descriptor where
  "generation_build_failed =
     \<lparr>desc_id = 5001, desc_domain = dom_generation, desc_severity = sev_error,
      desc_name = ''generation.build_failed'',
      desc_message = ''Graph generation build failed''\<rparr>"

definition persistence_save_failed :: diagnostic_descriptor where
  "persistence_save_failed =
     \<lparr>desc_id = 5501, desc_domain = dom_persistence, desc_severity = sev_error,
      desc_name = ''persistence.save_failed'',
      desc_message = ''Project baseline could not be saved''\<rparr>"

definition persistence_load_failed :: diagnostic_descriptor where
  "persistence_load_failed =
     \<lparr>desc_id = 5502, desc_domain = dom_persistence, desc_severity = sev_error,
      desc_name = ''persistence.load_failed'',
      desc_message = ''Project baseline could not be loaded''\<rparr>"

definition diagnostic_descriptors :: "diagnostic_descriptor list" where
  "diagnostic_descriptors =
     [server_initialization_failed,
      server_invalid_json,
      server_invalid_configuration,
      server_unsupported_configuration_version,
      server_configuration_read_failed,
      project_initialization_failed,
      project_invalid_json,
      project_invalid_configuration,
      project_unsupported_configuration_version,
      project_configuration_read_failed,
      source_acquisition_failed,
      source_dependency_invalid,
      source_dependency_cycle,
      source_unsupported_directive,
      parser_invalid_source_facts,
      parser_syntax_error,
      parser_unsupported_construct,
      parser_unresolved_type,
      parser_semantic_resolution_failed,
      identity_initialization_failed,
      generation_build_failed,
      persistence_save_failed,
      persistence_load_failed]"

lemmas descriptor_defs =
  server_initialization_failed_def
  server_invalid_json_def
  server_invalid_configuration_def
  server_unsupported_configuration_version_def
  server_configuration_read_failed_def
  project_initialization_failed_def
  project_invalid_json_def
  project_invalid_configuration_def
  project_unsupported_configuration_version_def
  project_configuration_read_failed_def
  source_acquisition_failed_def
  source_dependency_invalid_def
  source_dependency_cycle_def
  source_unsupported_directive_def
  parser_invalid_source_facts_def
  parser_syntax_error_def
  parser_unsupported_construct_def
  parser_unresolved_type_def
  parser_semantic_resolution_failed_def
  identity_initialization_failed_def
  generation_build_failed_def
  persistence_save_failed_def
  persistence_load_failed_def

fun find_descriptor :: "diagnostic_descriptor list \<Rightarrow> nat \<Rightarrow> diagnostic_descriptor option" where
  "find_descriptor [] key = None"
| "find_descriptor (d # ds) key = (if desc_id d = key then Some d else find_descriptor ds key)"

text \<open>The two compile-time checks of the registry, as the nested index loops they are.\<close>

definition diagnostic_ids_unique :: bool where
  "diagnostic_ids_unique \<longleftrightarrow>
     list_all (\<lambda>left. list_all (\<lambda>right.
         desc_id (diagnostic_descriptors ! left) \<noteq> desc_id (diagnostic_descriptors ! right))
       [left + 1..<length diagnostic_descriptors]) [0..<length diagnostic_descriptors]"

definition diagnostic_names_unique :: bool where
  "diagnostic_names_unique \<longleftrightarrow>
     list_all (\<lambda>left. list_all (\<lambda>right.
         desc_name (diagnostic_descriptors ! left) \<noteq> desc_name (diagnostic_descriptors ! right))
       [left + 1..<length diagnostic_descriptors]) [0..<length diagnostic_descriptors]"

lemma pairwise_check_distinct:
  "list_all (\<lambda>l. list_all (\<lambda>r. f (xs ! l) \<noteq> f (xs ! r)) [Suc l..<length xs]) [0..<length xs]
     \<longleftrightarrow> distinct (map f xs)"
proof -
  have "distinct (map f xs) \<longleftrightarrow> (\<forall>l < length xs. \<forall>r < length xs. l < r \<longrightarrow> f (xs ! l) \<noteq> f (xs ! r))"
    by (auto simp: distinct_conv_nth) (metis linorder_neqE_nat)
  then show ?thesis
    by (auto simp: list_all_iff)
qed

lemma diagnostic_ids_distinct: "distinct (map desc_id diagnostic_descriptors)"
  by (simp add: diagnostic_descriptors_def descriptor_defs)

lemma diagnostic_names_distinct: "distinct (map desc_name diagnostic_descriptors)"
  by (simp add: diagnostic_descriptors_def descriptor_defs)

lemma find_descriptor_distinct:
  "distinct (map desc_id ds) \<Longrightarrow>
     find_descriptor ds i = Some d \<longleftrightarrow> d \<in> set ds \<and> desc_id d = i"
  by (induction ds) (auto simp: rev_image_eqI)

text \<open>
  C1. The registry lookup returns a descriptor exactly when the catalog holds it under that
  identifier; in particular every descriptor is found by its own identifier, and the compile-time
  uniqueness checks on identifiers and names hold.
\<close>

theorem registry_lookup_exact:
  "diagnostic_ids_unique \<and> diagnostic_names_unique \<and>
   (find_descriptor diagnostic_descriptors i = Some d \<longleftrightarrow>
      d \<in> set diagnostic_descriptors \<and> desc_id d = i)"
  using diagnostic_ids_distinct diagnostic_names_distinct
  by (simp add: diagnostic_ids_unique_def diagnostic_names_unique_def pairwise_check_distinct
      find_descriptor_distinct)

text \<open>
  C2. The order of diagnostics is deterministic: any two orders of emission of the same records
  sort to the same sequence, and it is the only permutation of the records that is sorted by the
  projection, so the outcome does not depend on the sorting algorithm.
\<close>

theorem sort_deterministic_unique:
  "(mset b = mset b' \<longrightarrow> sort_deterministic b = sort_deterministic b') \<and>
   (mset c = mset b \<and> sorted (map sort_projection c) \<longleftrightarrow> c = sort_deterministic b)"
  by (auto simp: sort_deterministic_def intro: sorted_by_projection_unique)

theorem sort_deterministic_unique_witness:
  "let a = \<lparr>diag_id = 4002, diag_severity = sev_error, diag_operation = 1,
            diag_location = \<lparr>range_source = 1, range_offset = 7, range_length = 2\<rparr>,
            diag_detail = ''x''\<rparr>;
       b = a\<lparr>diag_location := \<lparr>range_source = 1, range_offset = 3, range_length = 2\<rparr>\<rparr>
   in sort_deterministic [a, b] = sort_deterministic [b, a] \<and>
      sort_deterministic [a, b] = [b, a]"
proof -
  define a where "a = \<lparr>diag_id = 4002, diag_severity = sev_error, diag_operation = 1,
            diag_location = \<lparr>range_source = 1, range_offset = 7, range_length = 2\<rparr>,
            diag_detail = ''x''\<rparr>"
  define b where "b = a\<lparr>diag_location := \<lparr>range_source = 1, range_offset = 3, range_length = 2\<rparr>\<rparr>"
  have "mset [a, b] = mset [b, a]" by simp
  then have "sort_deterministic [a, b] = sort_deterministic [b, a]"
    using sort_deterministic_unique [of "[a, b]" "[b, a]" "[]"] by blast
  moreover have "sort_deterministic [a, b] = [b, a]"
    by (simp add: sort_deterministic_def sort_projection_def a_def b_def)
  ultimately show ?thesis
    unfolding Let_def a_def [symmetric] b_def [symmetric] by blast
qed

end
