(* ===== verification/Lexer.thy ===== *)
theory Lexer
  imports Diagnostics
begin

text \<open>
  The Source lexer, \<^verbatim>\<open>src/server_engine/project/parser/lexer.cpp\<close> with the token types of
  \<^verbatim>\<open>token.hpp\<close>. One iteration of the main loop of \<^verbatim>\<open>lex_source\<close> is \<open>lex_step\<close>; the loop itself
  terminates because every iteration advances the byte index. The specification \<open>covers\<close> says that the
  tokens and the skipped trivia spell the Source exactly; \<open>directives_ok\<close> is the contract on the
  directive spans that include discovery relies on.
\<close>

section \<open>Tokens\<close>

datatype parser_token_kind =
    tk_eof | tk_identifier | tk_integer_literal | tk_keyword_namespace | tk_keyword_enum
  | tk_keyword_class | tk_keyword_struct | tk_keyword_union | tk_string_literal | tk_punctuation
  | tk_character_literal

datatype parser_punctuation =
    pu_none | pu_left_brace | pu_right_brace | pu_left_bracket | pu_right_bracket | pu_semicolon
  | pu_colon | pu_comma | pu_dot | pu_equal | pu_plus | pu_minus | pu_hash | pu_ampersand
  | pu_ampersand_ampersand | pu_asterisk | pu_left_parenthesis | pu_right_parenthesis | pu_less
  | pu_greater | pu_bang | pu_percent | pu_caret | pu_pipe | pu_tilde | pu_question | pu_slash

record parser_token =
  tok_offset :: nat
  tok_length :: nat
  tok_kind :: parser_token_kind
  tok_punctuation :: parser_punctuation
  tok_flags :: nat

record directive_span =
  token_begin :: nat
  token_end :: nat

text \<open>An immutable Source revision: whether the handle refers to one, its identifier and its bytes.\<close>

record source_snapshot =
  snap_present :: bool
  snap_source :: nat
  snap_text :: string

section \<open>Characters\<close>

abbreviation newline :: char where "newline \<equiv> CHR 0x0A"
abbreviation quote :: char where "quote \<equiv> CHR 0x22"
abbreviation apostrophe :: char where "apostrophe \<equiv> CHR 0x27"
abbreviation backslash :: char where "backslash \<equiv> CHR 0x5C"

definition identifier_start :: "char \<Rightarrow> bool" where
  "identifier_start c \<longleftrightarrow>
     (code CHR ''a'' \<le> code c \<and> code c \<le> code CHR ''z'') \<or>
     (code CHR ''A'' \<le> code c \<and> code c \<le> code CHR ''Z'') \<or> c = CHR ''_''"

definition decimal_digit :: "char \<Rightarrow> bool" where
  "decimal_digit c \<longleftrightarrow> code CHR ''0'' \<le> code c \<and> code c \<le> code CHR ''9''"

abbreviation identifier_char :: "char \<Rightarrow> bool" where
  "identifier_char c \<equiv> identifier_start c \<or> decimal_digit c"

definition lex_blank :: "char \<Rightarrow> bool" where
  "lex_blank c \<longleftrightarrow>
     c = CHR '' '' \<or> c = CHR 0x09 \<or> c = CHR 0x0D \<or> c = CHR 0x0C \<or> c = CHR 0x0B"

definition identifier_kind :: "string \<Rightarrow> parser_token_kind" where
  "identifier_kind text =
     (if text = ''namespace'' then tk_keyword_namespace
      else if text = ''enum'' then tk_keyword_enum
      else if text = ''class'' then tk_keyword_class
      else if text = ''struct'' then tk_keyword_struct
      else if text = ''union'' then tk_keyword_union
      else tk_identifier)"

definition simple_punctuation :: "char \<Rightarrow> parser_punctuation option" where
  "simple_punctuation c =
     (if c = CHR ''{'' then Some pu_left_brace
      else if c = CHR ''}'' then Some pu_right_brace
      else if c = CHR ''['' then Some pu_left_bracket
      else if c = CHR '']'' then Some pu_right_bracket
      else if c = CHR '';'' then Some pu_semicolon
      else if c = CHR '':'' then Some pu_colon
      else if c = CHR '','' then Some pu_comma
      else if c = CHR ''.'' then Some pu_dot
      else if c = CHR ''='' then Some pu_equal
      else if c = CHR ''+'' then Some pu_plus
      else if c = CHR ''-'' then Some pu_minus
      else if c = CHR ''#'' then Some pu_hash
      else if c = CHR ''*'' then Some pu_asterisk
      else if c = CHR ''('' then Some pu_left_parenthesis
      else if c = CHR '')'' then Some pu_right_parenthesis
      else if c = CHR ''<'' then Some pu_less
      else if c = CHR ''>'' then Some pu_greater
      else if c = CHR ''!'' then Some pu_bang
      else if c = CHR ''%'' then Some pu_percent
      else if c = CHR ''^'' then Some pu_caret
      else if c = CHR ''|'' then Some pu_pipe
      else if c = CHR ''~'' then Some pu_tilde
      else if c = CHR ''?'' then Some pu_question
      else if c = CHR ''/'' then Some pu_slash
      else None)"

section \<open>The scanning loops\<close>

text \<open>The block comment loop: index, whether a newline was seen, whether the comment was closed.\<close>

function scan_block_comment :: "string \<Rightarrow> nat \<Rightarrow> bool \<Rightarrow> nat \<times> bool \<times> bool" where
  "scan_block_comment bytes i line_start =
     (if i + 1 < length bytes then
        let line_start' = (line_start \<or> bytes ! i = newline)
        in if bytes ! i = CHR ''*'' \<and> bytes ! (i + 1) = CHR ''/'' then (i + 2, line_start', True)
           else scan_block_comment bytes (i + 1) line_start'
      else (i, line_start, False))"
  by pat_completeness auto
termination
  by (relation "measure (\<lambda>(bytes, i, ls). length bytes - i)") auto

text \<open>The loop of string and character literals: an escape skips two bytes.\<close>

function scan_quoted :: "char \<Rightarrow> string \<Rightarrow> nat \<Rightarrow> nat" where
  "scan_quoted q bytes i =
     (if i < length bytes \<and> bytes ! i \<noteq> q \<and> bytes ! i \<noteq> newline then
        if bytes ! i = backslash \<and> i + 1 < length bytes then scan_quoted q bytes (i + 2)
        else scan_quoted q bytes (i + 1)
      else i)"
  by pat_completeness auto
termination
  by (relation "measure (\<lambda>(q, bytes, i). length bytes - i)") auto

declare scan_block_comment.simps [simp del] scan_quoted.simps [simp del]

section \<open>One iteration\<close>

type_synonym lex_error = "nat \<times> nat \<times> string"

text \<open>The token that starts at a byte: its kind, its punctuation and the index after it.\<close>

definition lex_token :: "string \<Rightarrow> nat \<Rightarrow> lex_error + parser_token_kind \<times> parser_punctuation \<times> nat" where
  "lex_token bytes start =
     (let c = bytes ! start in
      if identifier_start c then
        let i = scan_while identifier_char bytes (start + 1)
        in Inr (identifier_kind (take (i - start) (drop start bytes)), pu_none, i)
      else if decimal_digit c then
        Inr (tk_integer_literal, pu_none, scan_while decimal_digit bytes (start + 1))
      else if c = quote then
        let i = scan_quoted quote bytes (start + 1)
        in if i \<ge> length bytes \<or> bytes ! i \<noteq> quote
           then Inl (start, i - start, ''unterminated string literal'')
           else Inr (tk_string_literal, pu_none, i + 1)
      else if c = apostrophe then
        let i = scan_quoted apostrophe bytes (start + 1)
        in if i \<ge> length bytes \<or> bytes ! i \<noteq> apostrophe
           then Inl (start, i - start, ''unterminated character literal'')
           else Inr (tk_character_literal, pu_none, i + 1)
      else (case simple_punctuation c of
          Some p \<Rightarrow> Inr (tk_punctuation, p, start + 1)
        | None \<Rightarrow>
            if c = CHR ''&'' then
              if start + 1 < length bytes \<and> bytes ! (start + 1) = CHR ''&''
              then Inr (tk_punctuation, pu_ampersand_ampersand, start + 2)
              else Inr (tk_punctuation, pu_ampersand, start + 1)
            else Inl (start, 1, ''unsupported lexical character'')))"

record lex_state =
  lx_index :: nat
  lx_line_start :: bool
  lx_directive_open :: bool
  lx_directive_begin :: nat
  lx_output :: "parser_token list"
  lx_directives :: "directive_span list"

definition lex_init :: lex_state where
  "lex_init =
     \<lparr>lx_index = 0, lx_line_start = True, lx_directive_open = False, lx_directive_begin = 0,
      lx_output = [], lx_directives = []\<rparr>"

text \<open>\<^verbatim>\<open>want\<close> is whether the caller passed a vector for the directive spans.\<close>

definition close_directive :: "bool \<Rightarrow> lex_state \<Rightarrow> lex_state" where
  "close_directive want s =
     (if lx_directive_open s \<and> want
      then s\<lparr>lx_directives := lx_directives s @
          [\<lparr>token_begin = lx_directive_begin s, token_end = to_u32 (length (lx_output s))\<rparr>]\<rparr>
      else s)"

definition push_token ::
    "bool \<Rightarrow> lex_state \<Rightarrow> parser_token_kind \<Rightarrow> parser_punctuation \<Rightarrow> nat \<Rightarrow> lex_state" where
  "push_token want s kind punct i =
     (let start = lx_index s;
          token = \<lparr>tok_offset = to_u32 start, tok_length = to_u32 (i - start), tok_kind = kind,
                   tok_punctuation = punct, tok_flags = (if lx_line_start s then 1 else 0)\<rparr>;
          opens = (tok_punctuation token = pu_hash \<and> odd (tok_flags token) \<and> want)
      in s\<lparr>lx_index := i, lx_line_start := False,
           lx_directive_open := lx_directive_open s \<or> opens,
           lx_directive_begin :=
             (if opens then to_u32 (length (lx_output s)) else lx_directive_begin s),
           lx_output := lx_output s @ [token]\<rparr>)"

definition lex_step :: "string \<Rightarrow> bool \<Rightarrow> lex_state \<Rightarrow> lex_error + lex_state" where
  "lex_step bytes want s =
     (let i = lx_index s; c = bytes ! i in
      if lex_blank c then Inr (s\<lparr>lx_index := i + 1\<rparr>)
      else if c = newline then
        Inr ((close_directive want s)\<lparr>lx_directive_open := False, lx_line_start := True,
               lx_index := i + 1\<rparr>)
      else if c = CHR ''/'' \<and> i + 1 < length bytes \<and> bytes ! (i + 1) = CHR ''/'' then
        Inr (s\<lparr>lx_index := scan_while (\<lambda>b. b \<noteq> newline) bytes (i + 2)\<rparr>)
      else if c = CHR ''/'' \<and> i + 1 < length bytes \<and> bytes ! (i + 1) = CHR ''*'' then
        (case scan_block_comment bytes (i + 2) (lx_line_start s) of
           (j, line_start, closed) \<Rightarrow>
             if closed then Inr (s\<lparr>lx_index := j, lx_line_start := line_start\<rparr>)
             else Inl (i, length bytes - i, ''unterminated block comment''))
      else
        (case lex_token bytes i of
           Inl e \<Rightarrow> Inl e
         | Inr (kind, punct, j) \<Rightarrow> Inr (push_token want s kind punct j)))"

section \<open>Every iteration advances\<close>

lemma scan_block_comment_bounds:
  "scan_block_comment bytes i ls = (j, ls', closed) \<Longrightarrow> i \<le> j \<and> (closed \<longrightarrow> i < j \<and> j \<le> length bytes)"
proof (induction bytes i ls rule: scan_block_comment.induct)
  case (1 bytes i ls)
  then show ?case
    by (cases "i + 1 < length bytes"; cases "bytes ! i = CHR ''*'' \<and> bytes ! (i + 1) = CHR ''/''")
      (auto simp: scan_block_comment.simps [of bytes i ls] Let_def)
qed

lemma scan_quoted_ge [simp]: "i \<le> scan_quoted q bytes i"
proof (induction q bytes i rule: scan_quoted.induct)
  case (1 q bytes i)
  then show ?case by (subst scan_quoted.simps) (auto intro: order_trans)
qed

lemma scan_quoted_gt [scan_intros]: "i < k \<Longrightarrow> i < scan_quoted q bytes k"
  by (rule less_le_trans [OF _ scan_quoted_ge])

lemma scan_quoted_le: "i \<le> length bytes \<Longrightarrow> scan_quoted q bytes i \<le> length bytes"
proof (induction q bytes i rule: scan_quoted.induct)
  case (1 q bytes i)
  then show ?case by (subst scan_quoted.simps) auto
qed

lemma lex_token_bounds:
  assumes "lex_token bytes start = Inr (kind, punct, j)" "start < length bytes"
  shows "start < j \<and> j \<le> length bytes"
  using assms
  by (auto simp: lex_token_def Let_def intro: scan_intros less_SucI
      split: if_splits option.splits)

lemma lex_step_advances:
  assumes "lex_step bytes want s = Inr s'" "lx_index s < length bytes"
  shows "lx_index s < lx_index s' \<and> lx_index s' \<le> length bytes"
  using assms
  by (auto simp: lex_step_def Let_def push_token_def intro!: scan_while_gt scan_while_le
      split: if_splits sum.splits prod.splits
      dest!: lex_token_bounds scan_block_comment_bounds)

section \<open>The loop and the entry point\<close>

function lex_loop :: "string \<Rightarrow> bool \<Rightarrow> lex_state \<Rightarrow> lex_state \<times> lex_error option" where
  "lex_loop bytes want s =
     (if lx_index s < length bytes then
        (case lex_step bytes want s of
           Inl e \<Rightarrow> (s, Some e)
         | Inr s' \<Rightarrow> lex_loop bytes want s')
      else (s, None))"
  by pat_completeness auto
termination
  by (relation "measure (\<lambda>(bytes, want, s). length bytes - lx_index s)")
    (auto dest: lex_step_advances)

declare lex_loop.simps [simp del]

definition lex_fail ::
    "source_snapshot \<Rightarrow> nat \<Rightarrow> diagnostic_buffer \<Rightarrow> lex_error \<Rightarrow> status_code \<times> diagnostic_buffer" where
  "lex_fail source operation diagnostics e =
     (case e of (offset, len, detail) \<Rightarrow>
        (st_configuration_failed,
         buffer_emit diagnostics
           \<lparr>diag_id = desc_id parser_syntax_error, diag_severity = desc_severity parser_syntax_error,
            diag_operation = operation,
            diag_location = \<lparr>range_source = snap_source source, range_offset = to_u32 offset,
                             range_length = to_u32 len\<rparr>,
            diag_detail = detail\<rparr>))"

definition eof_token :: "nat \<Rightarrow> parser_token" where
  "eof_token n =
     \<lparr>tok_offset = to_u32 n, tok_length = 0, tok_kind = tk_eof, tok_punctuation = pu_none,
      tok_flags = 0\<rparr>"

definition lex_source ::
    "source_snapshot \<Rightarrow> nat \<Rightarrow> diagnostic_buffer \<Rightarrow> bool \<Rightarrow>
       status_code \<times> diagnostic_buffer \<times> parser_token list \<times> directive_span list" where
  "lex_source source operation diagnostics want =
     (if \<not> snap_present source then (st_invalid_argument, diagnostics, [], [])
      else
        let bytes = snap_text source in
        if length bytes > u32_max then
          (case lex_fail source operation diagnostics (0, 0, ''Source exceeds 32-bit token range'') of
             (st, ds) \<Rightarrow> (st, ds, [], []))
        else
          (case lex_loop bytes want lex_init of
             (s, Some e) \<Rightarrow>
               (case lex_fail source operation diagnostics e of
                  (st, ds) \<Rightarrow> (st, ds, lx_output s, lx_directives s))
           | (s, None) \<Rightarrow>
               (let s' = close_directive want s
                in (st_ok, diagnostics, lx_output s' @ [eof_token (length bytes)], lx_directives s'))))"

section \<open>The lexical grammar\<close>

text \<open>A piece of trivia: a blank or a newline, a line comment, or a block comment.\<close>

inductive trivia :: "string \<Rightarrow> bool" where
  trivia_blank: "lex_blank c \<or> c = newline \<Longrightarrow> trivia [c]"
| trivia_line: "newline \<notin> set body \<Longrightarrow> trivia (''//'' @ body)"
| trivia_block: "\<not> (\<exists>u v. body = u @ ''*/'' @ v) \<Longrightarrow> trivia (''/*'' @ body @ ''*/'')"

text \<open>The inside of a quoted literal: no bare quote, no bare newline; an escape hides one byte.\<close>

inductive quoted_body :: "char \<Rightarrow> string \<Rightarrow> bool" for q where
  quoted_empty: "quoted_body q []"
| quoted_char: "quoted_body q body \<Longrightarrow> c \<noteq> q \<Longrightarrow> c \<noteq> newline \<Longrightarrow> c \<noteq> backslash \<Longrightarrow> quoted_body q (c # body)"
| quoted_escape: "quoted_body q body \<Longrightarrow> quoted_body q (backslash # c # body)"

text \<open>The spelling a token of a kind may have, given the byte that follows it.\<close>

inductive spelling :: "parser_token_kind \<Rightarrow> parser_punctuation \<Rightarrow> string \<Rightarrow> char option \<Rightarrow> bool" where
  spell_identifier:
    "identifier_start c \<Longrightarrow> list_all identifier_char cs \<Longrightarrow>
     (\<forall>d. follow = Some d \<longrightarrow> \<not> identifier_char d) \<Longrightarrow>
     spelling (identifier_kind (c # cs)) pu_none (c # cs) follow"
| spell_integer:
    "cs \<noteq> [] \<Longrightarrow> list_all decimal_digit cs \<Longrightarrow> (\<forall>d. follow = Some d \<longrightarrow> \<not> decimal_digit d) \<Longrightarrow>
     spelling tk_integer_literal pu_none cs follow"
| spell_string:
    "quoted_body quote body \<Longrightarrow> spelling tk_string_literal pu_none (quote # body @ [quote]) follow"
| spell_character:
    "quoted_body apostrophe body \<Longrightarrow>
     spelling tk_character_literal pu_none (apostrophe # body @ [apostrophe]) follow"
| spell_punctuation: "simple_punctuation c = Some p \<Longrightarrow> spelling tk_punctuation p [c] follow"
| spell_ampersand: "follow \<noteq> Some CHR ''&'' \<Longrightarrow> spelling tk_punctuation pu_ampersand ''&'' follow"
| spell_ampersands: "spelling tk_punctuation pu_ampersand_ampersand ''&&'' follow"

definition byte_after :: "string \<Rightarrow> nat \<Rightarrow> char option" where
  "byte_after bytes i = (if i < length bytes then Some (bytes ! i) else None)"

text \<open>
  \<open>covers bytes i ts\<close>: the first \<open>i\<close> bytes are exactly the tokens \<open>ts\<close>, in order, with trivia between
  them.
\<close>

inductive covers :: "string \<Rightarrow> nat \<Rightarrow> parser_token list \<Rightarrow> bool" for bytes where
  covers_start: "covers bytes 0 []"
| covers_trivia: "covers bytes i ts \<Longrightarrow> j \<le> length bytes \<Longrightarrow> trivia (slice_of bytes i j) \<Longrightarrow> covers bytes j ts"
| covers_token:
    "covers bytes i ts \<Longrightarrow> i < j \<Longrightarrow> j \<le> length bytes \<Longrightarrow> tok_offset t = i \<Longrightarrow> tok_length t = j - i \<Longrightarrow>
     spelling (tok_kind t) (tok_punctuation t) (slice_of bytes i j) (byte_after bytes j) \<Longrightarrow>
     covers bytes j (ts @ [t])"

lemma scan_while_follow:
  "byte_after xs (scan_while P xs i) = Some d \<Longrightarrow> \<not> P d"
  by (auto simp: byte_after_def dest: scan_while_stops split: if_splits)

lemma scan_quoted_body:
  "i \<le> length bytes \<Longrightarrow> scan_quoted q bytes i < length bytes \<Longrightarrow>
     quoted_body q (slice_of bytes i (scan_quoted q bytes i))"
proof (induction q bytes i rule: scan_quoted.induct)
  case (1 q bytes i)
  let ?go = "i < length bytes \<and> bytes ! i \<noteq> q \<and> bytes ! i \<noteq> newline"
  show ?case
  proof (cases ?go)
    case False
    then have "scan_quoted q bytes i = i" by (subst scan_quoted.simps) auto
    then show ?thesis by (simp add: quoted_empty)
  next
    case go: True
    show ?thesis
    proof (cases "bytes ! i = backslash \<and> i + 1 < length bytes")
      case True
      with go have eq: "scan_quoted q bytes i = scan_quoted q bytes (i + 2)"
        by (subst scan_quoted.simps) auto
      have lt: "scan_quoted q bytes (i + 2) < length bytes" using "1.prems" eq by simp
      have ge: "i + 2 \<le> scan_quoted q bytes (i + 2)" by simp
      have "quoted_body q (slice_of bytes (i + 2) (scan_quoted q bytes (i + 2)))"
        using "1.IH"(1) [OF go True] True lt by simp
      moreover have "slice_of bytes i (scan_quoted q bytes (i + 2)) =
          backslash # bytes ! Suc i # slice_of bytes (i + 2) (scan_quoted q bytes (i + 2))"
      proof -
        define j where "j = scan_quoted q bytes (i + 2)"
        have "i < j" "Suc i < j" "j \<le> length bytes" using lt by (auto simp: j_def intro!: scan_quoted_gt)
        then show ?thesis
          using True slice_Cons [of i j bytes] slice_Cons [of "Suc i" j bytes] by (simp add: j_def)
      qed
      ultimately show ?thesis unfolding eq by (simp add: quoted_escape)
    next
      case False
      with go have eq: "scan_quoted q bytes i = scan_quoted q bytes (i + 1)"
        by (subst scan_quoted.simps) auto
      have lt: "scan_quoted q bytes (i + 1) < length bytes" using "1.prems" eq by simp
      have ge: "i + 1 \<le> scan_quoted q bytes (i + 1)" by simp
      have "bytes ! i \<noteq> backslash" using False lt ge by auto
      moreover have "quoted_body q (slice_of bytes (i + 1) (scan_quoted q bytes (i + 1)))"
        using "1.IH"(2) [OF go False] go lt by simp
      ultimately show ?thesis
        unfolding eq using go lt ge slice_Cons [of i "scan_quoted q bytes (i + 1)" bytes]
        by (simp add: quoted_char scan_quoted_gt)
    qed
  qed
qed

text \<open>The body of a closed block comment ends at the first closing mark.\<close>

lemma scan_block_comment_body:
  "scan_block_comment bytes i ls = (j, ls', True) \<Longrightarrow>
     i + 2 \<le> j \<and> j \<le> length bytes \<and> bytes ! (j - 2) = CHR ''*'' \<and> bytes ! (j - 1) = CHR ''/'' \<and>
     (\<forall>k. i \<le> k \<and> k < j - 2 \<longrightarrow> \<not> (bytes ! k = CHR ''*'' \<and> bytes ! (k + 1) = CHR ''/''))"
proof (induction bytes i ls rule: scan_block_comment.induct)
  case (1 bytes i ls)
  show ?case
  proof (cases "i + 1 < length bytes")
    case False
    with "1.prems" show ?thesis by (simp add: scan_block_comment.simps [of bytes i ls])
  next
    case True
    show ?thesis
    proof (cases "bytes ! i = CHR ''*'' \<and> bytes ! (i + 1) = CHR ''/''")
      case close: True
      with True "1.prems" have "j = i + 2" by (simp add: scan_block_comment.simps [of bytes i ls])
      with True close show ?thesis by auto
    next
      case False
      with True "1.prems" have
        "scan_block_comment bytes (i + 1) (ls \<or> bytes ! i = newline) = (j, ls', True)"
        by (subst (asm) scan_block_comment.simps) (auto simp: Let_def)
      note ih = "1.IH" [OF True refl False this]
      have "\<not> (bytes ! k = CHR ''*'' \<and> bytes ! (k + 1) = CHR ''/'')" if "i \<le> k" "k < j - 2" for k
        using that ih False by (cases "k = i") auto
      with ih show ?thesis by auto
    qed
  qed
qed

lemma lex_token_spelling:
  assumes tok: "lex_token bytes i = Inr (kind, punct, j)" and i: "i < length bytes"
  shows "spelling kind punct (slice_of bytes i j) (byte_after bytes j)"
proof -
  let ?c = "bytes ! i"
  have bounds: "i < j" "j \<le> length bytes" using lex_token_bounds [OF tok i] by auto
  have cons: "slice_of bytes i j = ?c # slice_of bytes (Suc i) j"
    using bounds by (rule slice_Cons)
  have literal: "slice_of bytes i j = q # slice_of bytes (Suc i) k @ [q] \<and>
      quoted_body q (slice_of bytes (Suc i) k)"
    if "k = scan_quoted q bytes (Suc i)" "\<not> length bytes \<le> k" "bytes ! k = q" "?c = q" "j = Suc k" for q k
    using that i cons slice_snoc [of "Suc i" k bytes] scan_quoted_body [of "Suc i" bytes q] by simp
  consider (name) "identifier_start ?c" | (digit) "\<not> identifier_start ?c" "decimal_digit ?c"
    | (other) "\<not> identifier_start ?c" "\<not> decimal_digit ?c" by blast
  then show ?thesis
  proof cases
    case name
    then have j: "j = scan_while identifier_char bytes (Suc i)" "punct = pu_none"
      "kind = identifier_kind (slice_of bytes i j)"
      using tok by (auto simp: lex_token_def Let_def)
    have "spelling (identifier_kind (?c # slice_of bytes (Suc i) j)) pu_none
        (?c # slice_of bytes (Suc i) j) (byte_after bytes j)"
      using name unfolding j(1)
      by (intro spell_identifier scan_while_slice) (auto dest: scan_while_follow)
    then show ?thesis using j cons by simp
  next
    case digit
    then have j: "j = scan_while decimal_digit bytes (Suc i)" "punct = pu_none"
      "kind = tk_integer_literal"
      using tok by (auto simp: lex_token_def Let_def)
    have "list_all decimal_digit (?c # slice_of bytes (Suc i) j)"
      using digit scan_while_slice [of decimal_digit bytes "Suc i"] j by simp
    then show ?thesis
      using j cons by (auto intro!: spell_integer dest: scan_while_follow)
  next
    case other
    consider (string) "?c = quote" | (character) "?c = apostrophe"
      | (punct) p where "?c \<noteq> quote" "?c \<noteq> apostrophe" "simple_punctuation ?c = Some p"
      | (amp) "?c \<noteq> quote" "?c \<noteq> apostrophe" "simple_punctuation ?c = None" by blast
    then show ?thesis
    proof cases
      case string
      with other tok have "kind = tk_string_literal" "punct = pu_none"
        "\<not> length bytes \<le> scan_quoted quote bytes (Suc i)"
        "bytes ! scan_quoted quote bytes (Suc i) = quote" "j = Suc (scan_quoted quote bytes (Suc i))"
        by (auto simp: lex_token_def Let_def split: if_splits)
      with string literal [OF refl] show ?thesis by (simp add: spell_string)
    next
      case character
      with other tok have "kind = tk_character_literal" "punct = pu_none"
        "\<not> length bytes \<le> scan_quoted apostrophe bytes (Suc i)"
        "bytes ! scan_quoted apostrophe bytes (Suc i) = apostrophe"
        "j = Suc (scan_quoted apostrophe bytes (Suc i))"
        by (auto simp: lex_token_def Let_def split: if_splits)
      with character literal [OF refl] show ?thesis by (simp add: spell_character)
    next
      case punct
      with other tok have "kind = tk_punctuation" "punct = p" "j = Suc i"
        by (auto simp: lex_token_def Let_def)
      with punct cons show ?thesis by (simp add: spell_punctuation)
    next
      case amp
      with other tok cons bounds slice_Cons [of "Suc i" "Suc (Suc i)" bytes] show ?thesis
        by (auto simp: lex_token_def Let_def byte_after_def split: if_splits
            intro: spell_ampersand spell_ampersands)
    qed
  qed
qed

section \<open>The loop invariant\<close>

text \<open>What include discovery expects of the directive spans.\<close>

definition directive_start :: "parser_token list \<Rightarrow> nat \<Rightarrow> bool" where
  "directive_start tokens k \<longleftrightarrow>
     k < length tokens \<and> tok_punctuation (tokens ! k) = pu_hash \<and> odd (tok_flags (tokens ! k))"

definition directives_ok :: "parser_token list \<Rightarrow> directive_span list \<Rightarrow> bool" where
  "directives_ok tokens spans \<longleftrightarrow>
     sorted_wrt (\<lambda>d e. token_end d \<le> token_begin e) spans \<and>
     list_all (\<lambda>d. token_begin d < token_end d \<and> token_end d \<le> length tokens \<and>
                    directive_start tokens (token_begin d)) spans"

definition open_directive_ok :: "lex_state \<Rightarrow> bool" where
  "open_directive_ok s \<longleftrightarrow>
     (lx_directive_open s \<longrightarrow>
        directive_start (lx_output s) (lx_directive_begin s) \<and>
        list_all (\<lambda>d. token_end d \<le> lx_directive_begin s) (lx_directives s))"

definition lex_inv :: "string \<Rightarrow> lex_state \<Rightarrow> bool" where
  "lex_inv bytes s \<longleftrightarrow>
     covers bytes (lx_index s) (lx_output s) \<and> lx_index s \<le> length bytes \<and>
     directives_ok (lx_output s) (lx_directives s) \<and> open_directive_ok s"

lemma directive_start_snoc: "directive_start ts k \<Longrightarrow> directive_start (ts @ [t]) k"
  by (simp add: directive_start_def nth_append)

lemma directives_ok_snoc: "directives_ok ts spans \<Longrightarrow> directives_ok (ts @ [t]) spans"
  by (auto simp: directives_ok_def list_all_iff directive_start_snoc le_SucI)

lemma covers_length: "covers bytes i ts \<Longrightarrow> length ts \<le> i"
proof (induction rule: covers.induct)
  case (covers_trivia i ts j)
  then have "i \<le> j" by (cases "i \<le> j") (auto elim: trivia.cases)
  with covers_trivia show ?case by simp
qed auto

lemma lex_inv_init: "lex_inv bytes lex_init"
  by (simp add: lex_inv_def lex_init_def covers_start directives_ok_def open_directive_ok_def)

lemma lex_inv_output_bound:
  "lex_inv bytes s \<Longrightarrow> length bytes \<le> u32_max \<Longrightarrow> length (lx_output s) \<le> u32_max"
  unfolding lex_inv_def using covers_length [of bytes "lx_index s" "lx_output s"] by linarith

lemma close_directive_ok:
  assumes "lex_inv bytes s" "length bytes \<le> u32_max"
  shows "directives_ok (lx_output s) (lx_directives (close_directive want s))"
  using assms lex_inv_output_bound [OF assms]
  by (auto simp: close_directive_def lex_inv_def directives_ok_def open_directive_ok_def
      directive_start_def sorted_wrt_append list_all_iff)

lemma close_directive_output [simp]: "lx_output (close_directive want s) = lx_output s"
  by (simp add: close_directive_def)

lemma lex_inv_trivia:
  assumes "lex_inv bytes s" "trivia (slice_of bytes (lx_index s) j)" "j \<le> length bytes"
  shows "lex_inv bytes (s\<lparr>lx_index := j, lx_line_start := ls\<rparr>)"
  using assms covers_trivia [of bytes "lx_index s" "lx_output s" j]
  by (simp add: lex_inv_def open_directive_ok_def)

lemma lex_inv_newline:
  assumes "lex_inv bytes s" "lx_index s < length bytes" "bytes ! lx_index s = newline"
    "length bytes \<le> u32_max"
  shows "lex_inv bytes ((close_directive want s)\<lparr>lx_directive_open := False, lx_line_start := True,
           lx_index := lx_index s + 1\<rparr>)"
proof -
  have "trivia (slice_of bytes (lx_index s) (Suc (lx_index s)))"
    using assms(2,3) slice_Cons [of "lx_index s" "Suc (lx_index s)" bytes]
    by (simp add: trivia_blank)
  then have "covers bytes (Suc (lx_index s)) (lx_output s)"
    using assms by (auto simp: lex_inv_def intro: covers_trivia)
  then show ?thesis
    using assms close_directive_ok [of bytes s want] by (simp add: lex_inv_def open_directive_ok_def)
qed

lemma lex_inv_token:
  assumes inv: "lex_inv bytes s" and tok: "lex_token bytes (lx_index s) = Inr (kind, punct, j)"
    and i: "lx_index s < length bytes" and len: "length bytes \<le> u32_max"
  shows "lex_inv bytes (push_token want s kind punct j)"
proof -
  have j: "lx_index s < j" "j \<le> length bytes" using lex_token_bounds [OF tok i] by auto
  let ?s = "push_token want s kind punct j"
  obtain t where t: "lx_output ?s = lx_output s @ [t]" "tok_offset t = lx_index s"
    "tok_length t = j - lx_index s" "tok_kind t = kind" "tok_punctuation t = punct"
    "tok_flags t = (if lx_line_start s then 1 else 0)"
    using j len by (simp add: push_token_def Let_def)
  have "covers bytes j (lx_output s @ [t])"
    using inv lex_token_spelling [OF tok i] j t by (intro covers_token) (auto simp: lex_inv_def)
  moreover have "directives_ok (lx_output s @ [t]) (lx_directives s)"
    using inv by (simp add: lex_inv_def directives_ok_snoc)
  moreover have "open_directive_ok ?s"
    using inv lex_inv_output_bound [OF inv len] t
    by (auto simp: push_token_def Let_def open_directive_ok_def lex_inv_def directives_ok_def
        list_all_iff directive_start_snoc) (auto simp: directive_start_def)
  moreover have "lx_index ?s = j" "lx_directives ?s = lx_directives s"
    by (simp_all add: push_token_def Let_def)
  ultimately show ?thesis using j t(1) by (simp add: lex_inv_def)
qed

lemma block_comment_trivia:
  assumes scan: "scan_block_comment bytes (i + 2) ls = (j, ls', True)"
    and open_mark: "bytes ! i = CHR ''/''" "bytes ! (i + 1) = CHR ''*''"
  shows "trivia (slice_of bytes i j) \<and> j \<le> length bytes"
proof -
  note body = scan_block_comment_body [OF scan]
  define k where "k = j - 2"
  have j: "j = Suc (Suc k)" "i + 2 \<le> k" "Suc k < length bytes" using body by (auto simp: k_def)
  have "slice_of bytes i j = bytes ! i # bytes ! (i + 1) # slice_of bytes (i + 2) j"
    using j slice_Cons [of i j bytes] slice_Cons [of "Suc i" j bytes] by simp
  also have "slice_of bytes (i + 2) j = slice_of bytes (i + 2) k @ [bytes ! k, bytes ! Suc k]"
    using j slice_snoc [of "i + 2" "Suc k" bytes] slice_snoc [of "i + 2" k bytes] by simp
  finally have split: "slice_of bytes i j = ''/*'' @ slice_of bytes (i + 2) k @ ''*/''"
    using body open_mark j by simp
  have "slice_of bytes (i + 2) k \<noteq> u @ ''*/'' @ v" for u v
    using body j slice_infix [of k "i + 2" bytes u "CHR ''*''" "CHR ''/''" v] by auto
  then have "trivia (''/*'' @ slice_of bytes (i + 2) k @ ''*/'')" by (intro trivia_block) blast
  then show ?thesis unfolding split using body by blast
qed

lemma line_comment_trivia:
  assumes "bytes ! i = CHR ''/''" "bytes ! (i + 1) = CHR ''/''" "i + 1 < length bytes"
    and "j = scan_while (\<lambda>b. b \<noteq> newline) bytes (i + 2)"
  shows "trivia (slice_of bytes i j)"
proof -
  have j: "i < j" "Suc i < j" "j \<le> length bytes"
    unfolding assms(4) using assms(3) by (simp_all add: scan_while_gt scan_while_le)
  have "newline \<notin> set (slice_of bytes (i + 2) j)"
    using scan_while_slice [of "\<lambda>b. b \<noteq> newline" bytes "i + 2"]
    unfolding assms(4) list_all_iff by blast
  moreover have "slice_of bytes i j = ''//'' @ slice_of bytes (i + 2) j"
    using j assms slice_Cons [of i j bytes] slice_Cons [of "Suc i" j bytes] by simp
  ultimately show ?thesis using trivia_line by metis
qed

lemma lex_inv_step:
  assumes inv: "lex_inv bytes s" and step: "lex_step bytes want s = Inr s'"
    and i: "lx_index s < length bytes" and len: "length bytes \<le> u32_max"
  shows "lex_inv bytes s'"
proof -
  let ?c = "bytes ! lx_index s" and ?d = "bytes ! (lx_index s + 1)"
  have index: "lx_index s' \<le> length bytes" using lex_step_advances [OF step i] by simp
  have same: "s\<lparr>lx_index := j\<rparr> = s\<lparr>lx_index := j, lx_line_start := lx_line_start s\<rparr>" for j
    by simp
  consider (blank) "lex_blank ?c" | (newline) "\<not> lex_blank ?c" "?c = newline"
    | (line) "\<not> lex_blank ?c" "?c = CHR ''/''" "lx_index s + 1 < length bytes" "?d = CHR ''/''"
    | (block) "\<not> lex_blank ?c" "?c = CHR ''/''" "lx_index s + 1 < length bytes" "?d = CHR ''*''"
    | (token) "lex_step bytes want s = (case lex_token bytes (lx_index s) of Inl e \<Rightarrow> Inl e
         | Inr (kind, punct, j) \<Rightarrow> Inr (push_token want s kind punct j))"
    unfolding lex_step_def Let_def by argo
  then show ?thesis
  proof cases
    case blank
    then have "s' = s\<lparr>lx_index := Suc (lx_index s)\<rparr>" using step by (simp add: lex_step_def)
    moreover have "trivia (slice_of bytes (lx_index s) (Suc (lx_index s)))"
      using blank i slice_Cons [of "lx_index s" "Suc (lx_index s)" bytes] by (simp add: trivia_blank)
    ultimately show ?thesis using inv i same lex_inv_trivia Suc_leI by metis
  next
    case newline
    then show ?thesis
      using step lex_inv_newline [OF inv i _ len, of want] by (simp add: lex_step_def)
  next
    case line
    then have s': "s' = s\<lparr>lx_index := scan_while (\<lambda>b. b \<noteq> newline) bytes (lx_index s + 2)\<rparr>"
      using step by (simp add: lex_step_def)
    then show ?thesis
      using line_comment_trivia [OF line(2,4,3) refl] index
        lex_inv_trivia [OF inv, of "lx_index s'" "lx_line_start s"] by simp
  next
    case block
    then obtain j ls where "scan_block_comment bytes (lx_index s + 2) (lx_line_start s) = (j, ls, True)"
      "s' = s\<lparr>lx_index := j, lx_line_start := ls\<rparr>"
      using step by (auto simp: lex_step_def Let_def split: prod.splits if_splits)
    then show ?thesis
      using block_comment_trivia block lex_inv_trivia [OF inv] by blast
  next
    case token
    then obtain kind punct j where "lex_token bytes (lx_index s) = Inr (kind, punct, j)"
      "s' = push_token want s kind punct j"
      using step by (auto split: sum.splits)
    then show ?thesis using lex_inv_token [OF inv _ i len] by simp
  qed
qed

lemma lex_inv_loop:
  "lex_inv bytes s \<Longrightarrow> length bytes \<le> u32_max \<Longrightarrow> lex_loop bytes want s = (s', r) \<Longrightarrow>
     lex_inv bytes s' \<and> (r = None \<longrightarrow> lx_index s' = length bytes)"
proof (induction bytes want s rule: lex_loop.induct)
  case (1 bytes want s)
  show ?case
  proof (cases "lx_index s < length bytes")
    case False
    with 1 show ?thesis by (auto simp: lex_loop.simps [of bytes want s] lex_inv_def)
  next
    case True
    show ?thesis
    proof (cases "lex_step bytes want s")
      case (Inl e)
      with True 1 show ?thesis by (cases e) (auto simp: lex_loop.simps [of bytes want s])
    next
      case (Inr t)
      with True 1 lex_inv_step [of bytes s want t] show ?thesis
        by (simp add: lex_loop.simps [of bytes want s])
    qed
  qed
qed

section \<open>What an accepted Source is\<close>

lemma lex_source_ok:
  assumes "lex_source source operation diagnostics want = (st_ok, diagnostics', tokens, spans)"
  shows "snap_present source" "length (snap_text source) \<le> u32_max" "diagnostics' = diagnostics"
    "\<exists>s. lex_inv (snap_text source) s \<and> lx_index s = length (snap_text source) \<and>
         tokens = lx_output s @ [eof_token (length (snap_text source))] \<and>
         spans = lx_directives (close_directive want s)"
  using assms lex_inv_loop [OF lex_inv_init, of "snap_text source" want]
  by (auto simp: lex_source_def lex_fail_def Let_def split: if_splits prod.splits option.splits)


definition sample_source :: source_snapshot where
  "sample_source = \<lparr>snap_present = True, snap_source = 1,
     snap_text = ''#include '' @ [quote] @ ''a'' @ [quote, newline] @ ''enum A{}; // x''\<rparr>"

lemmas lex_eval = lex_source_def lex_init_def lex_loop.simps lex_step_def lex_token_def push_token_def
  close_directive_def scan_while.simps scan_quoted.simps scan_block_comment.simps identifier_start_def
  decimal_digit_def lex_blank_def identifier_kind_def simple_punctuation_def eof_token_def to_u32_def
  Let_def

definition sample_tokens :: "parser_token list" where
  "sample_tokens =
      [\<lparr>tok_offset = 0, tok_length = 1, tok_kind = tk_punctuation, tok_punctuation = pu_hash, tok_flags = 1\<rparr>,
       \<lparr>tok_offset = 1, tok_length = 7, tok_kind = tk_identifier, tok_punctuation = pu_none, tok_flags = 0\<rparr>,
       \<lparr>tok_offset = 9, tok_length = 3, tok_kind = tk_string_literal, tok_punctuation = pu_none, tok_flags = 0\<rparr>,
       \<lparr>tok_offset = 13, tok_length = 4, tok_kind = tk_keyword_enum, tok_punctuation = pu_none, tok_flags = 1\<rparr>,
       \<lparr>tok_offset = 18, tok_length = 1, tok_kind = tk_identifier, tok_punctuation = pu_none, tok_flags = 0\<rparr>,
       \<lparr>tok_offset = 19, tok_length = 1, tok_kind = tk_punctuation, tok_punctuation = pu_left_brace, tok_flags = 0\<rparr>,
       \<lparr>tok_offset = 20, tok_length = 1, tok_kind = tk_punctuation, tok_punctuation = pu_right_brace, tok_flags = 0\<rparr>,
       \<lparr>tok_offset = 21, tok_length = 1, tok_kind = tk_punctuation, tok_punctuation = pu_semicolon, tok_flags = 0\<rparr>,
       \<lparr>tok_offset = 27, tok_length = 0, tok_kind = tk_eof, tok_punctuation = pu_none, tok_flags = 0\<rparr>]"

lemma sample_source_lexed:
  "lex_source sample_source 7 [] True = (st_ok, [], sample_tokens, [\<lparr>token_begin = 0, token_end = 3\<rparr>])"
  by (simp add: sample_source_def sample_tokens_def lex_eval)


text \<open>
  C8. The directive spans of an accepted Source are well formed: they are disjoint and in stream order,
  every span is a nonempty range of tokens before the end-of-file token, and it starts at a hash that
  is the first token of its line. This is what include discovery checks of them.
\<close>

theorem lex_source_directives:
  assumes "lex_source source operation diagnostics want = (st_ok, diagnostics', tokens, spans)"
  shows "directives_ok (butlast tokens) spans"
proof -
  obtain s where "lex_inv (snap_text source) s" "spans = lx_directives (close_directive want s)"
    "tokens = lx_output s @ [eof_token (length (snap_text source))]"
    using lex_source_ok(4) [OF assms] by blast
  then show ?thesis
    using close_directive_ok [of "snap_text source" s want] lex_source_ok(2) [OF assms] by simp
qed

theorem lex_source_directives_witness:
  "\<exists>tokens. lex_source sample_source 7 [] True = (st_ok, [], tokens, [\<lparr>token_begin = 0, token_end = 3\<rparr>]) \<and>
     directives_ok (butlast tokens) [\<lparr>token_begin = 0, token_end = 3\<rparr>]"
  using lex_source_directives [OF sample_source_lexed] sample_source_lexed by auto

section \<open>Rejected Sources\<close>

lemma lex_token_error:
  assumes "lex_token bytes start = Inl (offset, len, detail)" "start < length bytes"
  shows "offset = start \<and> 0 < len \<and> offset + len \<le> length bytes"
proof -
  have "scan_quoted q bytes (Suc start) \<le> length bytes" "start < scan_quoted q bytes (Suc start)" for q
    using assms(2) by (auto intro: scan_quoted_le scan_quoted_gt)
  then show ?thesis
    using assms by (auto simp: lex_token_def Let_def less_imp_le split: if_splits option.splits)
qed

lemma lex_step_error:
  assumes "lex_step bytes want s = Inl (offset, len, detail)" "lx_index s < length bytes"
  shows "offset = lx_index s \<and> 0 < len \<and> offset + len \<le> length bytes"
  using assms lex_token_error [of bytes "lx_index s" offset len detail]
  by (auto simp: lex_step_def Let_def split: if_splits sum.splits prod.splits)

lemma lex_loop_error:
  "lex_loop bytes want s = (s', Some (offset, len, detail)) \<Longrightarrow>
     offset = lx_index s' \<and> 0 < len \<and> offset + len \<le> length bytes"
proof (induction bytes want s rule: lex_loop.induct)
  case (1 bytes want s)
  then have run: "lx_index s < length bytes" by (auto simp: lex_loop.simps [of bytes want s] split: if_splits)
  show ?case
  proof (cases "lex_step bytes want s")
    case (Inl e)
    with 1 run show ?thesis
      using lex_step_error [of bytes want s] by (auto simp: lex_loop.simps [of bytes want s])
  next
    case (Inr t)
    with 1 run show ?thesis by (simp add: lex_loop.simps [of bytes want s])
  qed
qed

definition lex_diagnostic :: "source_snapshot \<Rightarrow> nat \<Rightarrow> nat \<Rightarrow> nat \<Rightarrow> string \<Rightarrow> diagnostic_record" where
  "lex_diagnostic source operation offset len detail =
     \<lparr>diag_id = desc_id parser_syntax_error, diag_severity = sev_error, diag_operation = operation,
      diag_location = \<lparr>range_source = snap_source source, range_offset = offset, range_length = len\<rparr>,
      diag_detail = detail\<rparr>"

text \<open>
  C9. Lexing a present Source that fits the 32-bit token range always ends in one of two ways:
  success, or \<^const>\<open>st_configuration_failed\<close> with exactly one new diagnostic, the syntax error of
  the catalogue, whose range is nonempty, lies inside the Source and starts where the tokens emitted so
  far and the trivia between them end.
\<close>

theorem lex_source_outcomes:
  assumes "snap_present source" "length (snap_text source) \<le> u32_max"
  shows "case lex_source source operation diagnostics want of (st, diagnostics', tokens, spans) \<Rightarrow>
      st = st_ok \<or>
      (st = st_configuration_failed \<and>
       (\<exists>offset len detail. diagnostics' = diagnostics @ [lex_diagnostic source operation offset len detail] \<and>
          0 < len \<and> offset + len \<le> length (snap_text source) \<and> covers (snap_text source) offset tokens))"
proof (cases "lex_loop (snap_text source) want lex_init")
  case (Pair s r)
  note inv = lex_inv_loop [OF lex_inv_init assms(2) Pair]
  show ?thesis
  proof (cases r)
    case None
    with Pair assms show ?thesis by (simp add: lex_source_def Let_def)
  next
    case (Some e)
    obtain offset len detail where e: "e = (offset, len, detail)" by (cases e)
    note err = lex_loop_error [OF Pair [unfolded Some e]]
    have "to_u32 offset = offset" "to_u32 len = len" using err assms by simp_all
    moreover have "covers (snap_text source) offset (lx_output s)" using inv err by (simp add: lex_inv_def)
    ultimately show ?thesis
      using Pair Some e err assms
      by (auto simp: lex_source_def Let_def lex_fail_def lex_diagnostic_def buffer_emit_def
          parser_syntax_error_def)
  qed
qed

definition broken_source :: source_snapshot where
  "broken_source = \<lparr>snap_present = True, snap_source = 1, snap_text = ''ab /* x''\<rparr>"

theorem lex_source_outcomes_witness:
  "\<exists>tokens. lex_source broken_source 7 [] True =
      (st_configuration_failed, [lex_diagnostic broken_source 7 3 4 ''unterminated block comment''],
       tokens, []) \<and> covers (snap_text broken_source) 3 tokens"
proof -
  have run: "lex_source broken_source 7 [] True =
      (st_configuration_failed, [lex_diagnostic broken_source 7 3 4 ''unterminated block comment''],
       [\<lparr>tok_offset = 0, tok_length = 2, tok_kind = tk_identifier, tok_punctuation = pu_none, tok_flags = 1\<rparr>], [])"
    by (simp add: broken_source_def lex_eval lex_fail_def lex_diagnostic_def buffer_emit_def
        parser_syntax_error_def)
  have "snap_present broken_source" "length (snap_text broken_source) \<le> u32_max"
    by (simp_all add: broken_source_def)
  from lex_source_outcomes [OF this, where operation = 7 and diagnostics = "[]" and want = True] show ?thesis
    by (auto simp: run lex_diagnostic_def)
qed

end
