(* ===== verification/Include_Discovery.thy ===== *)
theory Include_Discovery
  imports Lexer
begin

text \<open>
  Include discovery, \<^verbatim>\<open>src/server_engine/project/frontend/include_discovery.cpp\<close>: it interprets the
  directive spans the lexer reports, accepts quoted \<^verbatim>\<open>#include\<close> at brace depth zero and
  \<^verbatim>\<open>#pragma once\<close>, and compacts the directive tokens out of the stream in place. The lemmas show that
  the in-place compaction is a filter, that on the lexer's output the span checks never fire, and what
  the include list holds. Failed allocations are not modelled.
\<close>

section \<open>Model\<close>

record source_include_directive =
  inc_path :: source_span
  inc_visible_from :: nat

definition token_text :: "source_snapshot \<Rightarrow> parser_token \<Rightarrow> string" where
  "token_text source token =
     (let text = snap_text source in
      if tok_offset token > length text \<or> tok_length token > length text - tok_offset token then []
      else take (tok_length token) (drop (tok_offset token) text))"

definition directive_fail ::
    "source_snapshot \<Rightarrow> nat \<Rightarrow> diagnostic_buffer \<Rightarrow> parser_token \<Rightarrow> string \<Rightarrow> status_code \<times> diagnostic_buffer" where
  "directive_fail source operation diagnostics token detail =
     (st_not_available,
      buffer_emit diagnostics
        \<lparr>diag_id = desc_id source_unsupported_directive,
         diag_severity = desc_severity source_unsupported_directive, diag_operation = operation,
         diag_location = \<lparr>range_source = snap_source source, range_offset = tok_offset token,
                          range_length = tok_length token\<rparr>,
         diag_detail = detail\<rparr>)"

definition is_punctuation :: "parser_token \<Rightarrow> parser_punctuation \<Rightarrow> bool" where
  "is_punctuation token p \<longleftrightarrow> tok_kind token = tk_punctuation \<and> tok_punctuation token = p"

text \<open>
  The loop \<^verbatim>\<open>while (scan < directive.token_begin)\<close>: the brace depth after it, or \<^const>\<open>None\<close> for a closing
  brace at depth zero. The 32-bit depth cannot wrap on a stream of fewer than \<open>2 ^ 32\<close> tokens.
\<close>

function scan_braces :: "parser_token list \<Rightarrow> nat \<Rightarrow> nat \<Rightarrow> nat \<Rightarrow> nat option" where
  "scan_braces tokens scan stop depth =
     (if scan < stop then
        let token = tokens ! scan in
        if is_punctuation token pu_left_brace then scan_braces tokens (scan + 1) stop (depth + 1)
        else if is_punctuation token pu_right_brace then
          (if depth = 0 then None else scan_braces tokens (scan + 1) stop (depth - 1))
        else scan_braces tokens (scan + 1) stop depth
      else Some depth)"
  by pat_completeness auto
termination
  by (relation "measure (\<lambda>(tokens, scan, stop, depth). stop - scan)") auto

declare scan_braces.simps [simp del]

text \<open>The body of the directive loop after the brace scan: an error, or the include it adds.\<close>

definition interpret_directive ::
    "source_snapshot \<Rightarrow> parser_token list \<Rightarrow> nat \<Rightarrow> diagnostic_buffer \<Rightarrow> nat \<Rightarrow> directive_span \<Rightarrow>
       (status_code \<times> diagnostic_buffer) + source_include_directive option" where
  "interpret_directive source tokens operation diagnostics brace_depth directive =
     (let count = token_end directive - token_begin directive;
          hash = tokens ! token_begin directive;
          fail = (\<lambda>token detail. Inl (directive_fail source operation diagnostics token detail))
      in if \<not> is_punctuation hash pu_hash \<or> \<not> odd (tok_flags hash)
         then Inl (st_invalid_argument, diagnostics)
         else if count < 2 then fail hash ''empty preprocessing directive is unsupported''
         else
           let name = tokens ! (token_begin directive + 1);
               name_text = token_text source name;
               argument = tokens ! (token_begin directive + 2)
           in if tok_kind name \<noteq> tk_identifier then fail name ''expected preprocessing directive name''
              else if name_text = ''include'' then
                if brace_depth \<noteq> 0
                then fail hash ''#include inside a brace/namespace scope is forbidden''
                else if count \<noteq> 3
                then fail hash ''only quoted #include with one header-name is supported''
                else if tok_kind argument \<noteq> tk_string_literal \<or> tok_length argument < 2
                then fail argument (''only quoted #include '' @ [quote] @ ''file.hpp'' @ [quote] @ '' is supported'')
                else Inr (Some
                  \<lparr>inc_path = \<lparr>sp_offset = to_u32 (tok_offset argument + 1),
                               sp_length = tok_length argument - 2\<rparr>,
                   inc_visible_from = to_u32 (tok_offset argument + tok_length argument)\<rparr>)
              else if name_text = ''pragma'' then
                if count \<noteq> 3 \<or> token_text source argument \<noteq> ''once''
                then fail hash ''only #pragma once is supported''
                else Inr None
              else fail name
                (''supported preprocessing directives are #include '' @ [quote] @ ''...'' @ [quote] @
                 '' and #pragma once only''))"

fun directive_loop ::
    "source_snapshot \<Rightarrow> parser_token list \<Rightarrow> nat \<Rightarrow> diagnostic_buffer \<Rightarrow> directive_span list \<Rightarrow>
       nat \<Rightarrow> nat \<Rightarrow> source_include_directive list \<Rightarrow>
       (status_code \<times> diagnostic_buffer) option \<times> source_include_directive list" where
  "directive_loop source tokens operation diagnostics [] scan depth includes = (None, includes)"
| "directive_loop source tokens operation diagnostics (directive # rest) scan depth includes =
     (if token_begin directive \<ge> token_end directive \<or> token_end directive > length tokens - 1 \<or>
         token_begin directive < scan
      then (Some (st_invalid_argument, diagnostics), includes)
      else
        (case scan_braces tokens scan (token_begin directive) depth of
           None \<Rightarrow> (Some (st_invalid_argument, diagnostics), includes)
         | Some depth' \<Rightarrow>
             (case interpret_directive source tokens operation diagnostics depth' directive of
                Inl failure \<Rightarrow> (Some failure, includes)
              | Inr added \<Rightarrow>
                  directive_loop source tokens operation diagnostics rest (token_end directive) depth'
                    (includes @ (case added of None \<Rightarrow> [] | Some i \<Rightarrow> [i])))))"

text \<open>The compaction loop: tokens, read index, write index and directive index.\<close>

function compact_loop ::
    "directive_span list \<Rightarrow> parser_token list \<Rightarrow> nat \<Rightarrow> nat \<Rightarrow> nat \<Rightarrow> parser_token list \<times> nat" where
  "compact_loop directives tokens rd wr index =
     (if rd + 1 < length tokens then
        if index < length directives \<and> rd = token_begin (directives ! index)
        then compact_loop directives tokens (token_end (directives ! index)) wr (index + 1)
        else compact_loop directives (tokens[wr := tokens ! rd]) (rd + 1) (wr + 1) index
      else (tokens, wr))"
  by pat_completeness auto
termination
  by (relation "measures [\<lambda>(directives, tokens, rd, wr, index). length directives - index,
        \<lambda>(directives, tokens, rd, wr, index). length tokens - rd]") auto

declare compact_loop.simps [simp del]

definition compact_tokens :: "directive_span list \<Rightarrow> parser_token list \<Rightarrow> parser_token list" where
  "compact_tokens directives tokens =
     (case compact_loop directives tokens 0 0 0 of
        (tokens', wr) \<Rightarrow> take (wr + 1) (tokens'[wr := last tokens']))"

definition discover_source_includes ::
    "source_snapshot \<Rightarrow> parser_token list \<Rightarrow> directive_span list \<Rightarrow> nat \<Rightarrow> diagnostic_buffer \<Rightarrow>
       status_code \<times> parser_token list \<times> diagnostic_buffer \<times> source_include_directive list" where
  "discover_source_includes source tokens directives operation diagnostics =
     (if \<not> snap_present source \<or> tokens = [] \<or> tok_kind (last tokens) \<noteq> tk_eof
      then (st_invalid_argument, tokens, diagnostics, [])
      else
        (case directive_loop source tokens operation diagnostics directives 0 0 [] of
           (Some (st, diagnostics'), includes) \<Rightarrow> (st, tokens, diagnostics', includes)
         | (None, includes) \<Rightarrow> (st_ok, compact_tokens directives tokens, diagnostics, includes)))"

section \<open>In-place compaction is a filter\<close>

definition in_directive :: "directive_span list \<Rightarrow> nat \<Rightarrow> bool" where
  "in_directive directives k \<longleftrightarrow> list_ex (\<lambda>d. token_begin d \<le> k \<and> k < token_end d) directives"

definition without_directives :: "directive_span list \<Rightarrow> 'a list \<Rightarrow> 'a list" where
  "without_directives directives xs =
     map ((!) xs) (filter (\<lambda>k. \<not> in_directive directives k) [0..<length xs])"

text \<open>The spans still ahead of an index, in order.\<close>

fun spans_ahead :: "nat \<Rightarrow> nat \<Rightarrow> directive_span list \<Rightarrow> bool" where
  "spans_ahead limit lo [] \<longleftrightarrow> True"
| "spans_ahead limit lo (d # ds) \<longleftrightarrow>
     lo \<le> token_begin d \<and> token_begin d < token_end d \<and> token_end d \<le> limit \<and>
     spans_ahead limit (token_end d) ds"

lemma spans_ahead_mono: "spans_ahead limit lo ds \<Longrightarrow> lo' \<le> lo \<Longrightarrow> spans_ahead limit lo' ds"
  by (cases ds) auto

lemma spans_ahead_not_in: "spans_ahead limit lo ds \<Longrightarrow> k < lo \<Longrightarrow> \<not> in_directive ds k"
proof (induction ds arbitrary: lo)
  case (Cons d ds)
  then have "\<not> in_directive ds k" using Cons.IH [of "token_end d"] by simp
  with Cons.prems show ?case by (auto simp: in_directive_def)
qed (simp add: in_directive_def)

lemma spans_ahead_limit: "spans_ahead limit lo ds \<Longrightarrow> limit \<le> k \<Longrightarrow> \<not> in_directive ds k"
  by (induction ds arbitrary: lo) (auto simp: in_directive_def)

lemma compact_loop_filter:
  assumes "compact_loop ds toks rd wr index = (toks', wr')" "length toks = length orig"
    "\<And>k. rd \<le> k \<Longrightarrow> k < length orig \<Longrightarrow> toks ! k = orig ! k" "wr \<le> rd" "rd < length orig"
    "spans_ahead (length orig - 1) rd (drop index ds)"
  shows "length toks' = length orig \<and> wr' < length orig \<and> last toks' = last orig \<and>
    take wr' toks' = take wr toks @
      map ((!) orig) (filter (\<lambda>k. \<not> in_directive (drop index ds) k) [rd..<length orig - 1])"
  using assms
proof (induction ds toks rd wr index rule: compact_loop.induct)
  case (1 ds toks rd wr index)
  let ?n = "length orig - 1"
  note prems = "1.prems"
  show ?case
  proof (cases "rd + 1 < length toks")
    case False
    then have n: "rd = ?n" using prems by simp
    have "toks' = toks" "wr' = wr" using prems(1) False by (simp_all add: compact_loop.simps [of ds toks])
    moreover have "toks ! ?n = orig ! ?n" using prems(3) [of ?n] prems(5) n by simp
    then have "last toks = last orig"
      using prems(2,5) by (cases "toks = []"; cases "orig = []") (simp_all add: last_conv_nth)
    ultimately show ?thesis using prems(2,4,5) n by simp
  next
    case more: True
    show ?thesis
    proof (cases "index < length ds \<and> rd = token_begin (ds ! index)")
      case True
      let ?d = "ds ! index"
      have split: "drop index ds = ?d # drop (Suc index) ds" using True by (simp add: Cons_nth_drop_Suc)
      have d: "rd < token_end ?d" "token_end ?d \<le> ?n" "spans_ahead ?n (token_end ?d) (drop (index + 1) ds)"
        using prems(6) split True by simp_all
      have skipped: "filter (\<lambda>k. \<not> in_directive (drop index ds) k) [rd..<token_end ?d] = []"
        using True by (auto simp: split in_directive_def filter_empty_conv)
      have rest: "filter (\<lambda>k. \<not> in_directive (drop index ds) k) [token_end ?d..<?n] =
          filter (\<lambda>k. \<not> in_directive (drop (index + 1) ds) k) [token_end ?d..<?n]"
        by (rule filter_cong) (auto simp: split in_directive_def)
      have "[rd..<?n] = [rd..<token_end ?d] @ [token_end ?d..<?n]"
        using d upt_add_eq_append [of rd "token_end ?d" "?n - token_end ?d"] by simp
      moreover have "compact_loop ds toks (token_end ?d) wr (index + 1) = (toks', wr')"
        using prems(1) more True by (subst (asm) compact_loop.simps) simp
      ultimately show ?thesis
        using "1.IH"(1) [OF more True] prems d skipped rest by simp
    next
      case False
      have step: "compact_loop ds (toks[wr := toks ! rd]) (rd + 1) (wr + 1) index = (toks', wr')"
        using prems(1) more False by (subst (asm) compact_loop.simps) auto
      have ahead: "spans_ahead ?n (rd + 1) (drop index ds)"
      proof (cases "index < length ds")
        case True
        then show ?thesis using prems(6) False by (simp add: Cons_nth_drop_Suc [symmetric])
      qed simp
      have "\<not> in_directive (drop index ds) rd" using spans_ahead_not_in [OF ahead] by simp
      moreover have "[rd..<?n] = rd # [rd + 1..<?n]" using more prems by (simp add: upt_conv_Cons)
      moreover have "take (wr + 1) (toks[wr := toks ! rd]) = take wr toks @ [orig ! rd]"
        using prems by (simp add: take_Suc_conv_app_nth)
      ultimately show ?thesis
        using "1.IH"(2) [OF more False step] prems(2-5) ahead more by simp
    qed
  qed
qed

lemma compact_tokens_filter:
  assumes "tokens \<noteq> []" "spans_ahead (length tokens - 1) 0 directives"
  shows "compact_tokens directives tokens = without_directives directives tokens"
proof (cases "compact_loop directives tokens 0 0 0")
  case (Pair toks wr)
  let ?n = "length tokens - 1"
  have run: "length toks = length tokens" "wr < length tokens" "last toks = last tokens"
    "take wr toks = map ((!) tokens) (filter (\<lambda>k. \<not> in_directive directives k) [0..<?n])"
    using compact_loop_filter [OF Pair, of tokens] assms by simp_all
  have "[0..<length tokens] = [0..<?n] @ [?n]" using assms(1) by (cases tokens) simp_all
  moreover have "\<not> in_directive directives ?n" using spans_ahead_limit [OF assms(2)] by simp
  ultimately have "without_directives directives tokens = take wr toks @ [last tokens]"
    using run(4) assms(1) by (simp add: without_directives_def last_conv_nth)
  then show ?thesis
    using run by (simp add: compact_tokens_def Pair take_Suc_conv_app_nth)
qed

section \<open>The directive loop\<close>

text \<open>A directive the loop accepts, and the include it adds.\<close>

lemma directive_loop_ok:
  assumes "directive_loop source tokens operation diagnostics ds scan depth includes = (None, includes')"
  shows "spans_ahead (length tokens - 1) scan ds"
  using assms
  by (induction ds arbitrary: scan depth "includes") (auto split: if_splits option.splits sum.splits)

lemma interpret_directive_status:
  "interpret_directive source tokens operation diagnostics depth d = Inl (st, diagnostics') \<Longrightarrow> st \<noteq> st_ok"
  by (auto simp: interpret_directive_def directive_fail_def Let_def split: if_splits)

lemma directive_loop_failure:
  assumes "directive_loop source tokens operation diagnostics ds scan depth incs = (Some (st, diagnostics'), incs')"
  shows "st \<noteq> st_ok"
  using assms
  by (induction ds arbitrary: scan depth incs)
    (auto dest: interpret_directive_status split: if_splits option.splits sum.splits)

text \<open>The opening and closing braces among the tokens outside directives before an index.\<close>

definition braces_before :: "parser_punctuation \<Rightarrow> directive_span list \<Rightarrow> parser_token list \<Rightarrow> nat \<Rightarrow> nat" where
  "braces_before p directives tokens k =
     length (filter (\<lambda>j. \<not> in_directive directives j \<and> is_punctuation (tokens ! j) p) [0..<k])"

text \<open>What the loop has accepted when it stops at a directive: the syntactic shape of a directive.\<close>

inductive accepted_directive ::
    "source_snapshot \<Rightarrow> parser_token list \<Rightarrow> directive_span \<Rightarrow> source_include_directive list \<Rightarrow> bool"
  for source tokens d where
  accepted_include:
    "token_end d = token_begin d + 3 \<Longrightarrow> tok_kind (tokens ! (token_begin d + 1)) = tk_identifier \<Longrightarrow>
     token_text source (tokens ! (token_begin d + 1)) = ''include'' \<Longrightarrow>
     header = tokens ! (token_begin d + 2) \<Longrightarrow> tok_kind header = tk_string_literal \<Longrightarrow> 2 \<le> tok_length header \<Longrightarrow>
     accepted_directive source tokens d
       [\<lparr>inc_path = \<lparr>sp_offset = to_u32 (tok_offset header + 1), sp_length = tok_length header - 2\<rparr>,
         inc_visible_from = to_u32 (tok_offset header + tok_length header)\<rparr>]"
| accepted_pragma:
    "token_end d = token_begin d + 3 \<Longrightarrow> tok_kind (tokens ! (token_begin d + 1)) = tk_identifier \<Longrightarrow>
     token_text source (tokens ! (token_begin d + 1)) = ''pragma'' \<Longrightarrow>
     token_text source (tokens ! (token_begin d + 2)) = ''once'' \<Longrightarrow>
     accepted_directive source tokens d []"

lemma interpret_directive_ok:
  assumes "interpret_directive source tokens operation diagnostics depth d = Inr added"
    "token_begin d < token_end d"
  shows "accepted_directive source tokens d (case added of None \<Rightarrow> [] | Some i \<Rightarrow> [i]) \<and>
    (added = None \<or> depth = 0)"
proof -
  have three: "token_end d - token_begin d = 3 \<longleftrightarrow> token_end d = token_begin d + 3" using assms(2) by auto
  show ?thesis
    using assms(1) accepted_include [of d tokens source, OF _ _ _ refl] accepted_pragma [of d tokens source]
    by (auto simp: interpret_directive_def Let_def not_less three split: if_splits)
qed

lemma interpret_directive_error:
  assumes "interpret_directive source tokens operation diagnostics depth d = Inl failure"
    "is_punctuation (tokens ! token_begin d) pu_hash" "odd (tok_flags (tokens ! token_begin d))"
    "token_begin d < token_end d"
  shows "\<exists>k detail. token_begin d \<le> k \<and> k < token_end d \<and>
     failure = directive_fail source operation diagnostics (tokens ! k) detail"
proof -
  define reported where "reported e \<longleftrightarrow> (\<exists>k detail. token_begin d \<le> k \<and> k < token_end d \<and>
     e = directive_fail source operation diagnostics (tokens ! k) detail)" for e
  have intro: "reported (directive_fail source operation diagnostics (tokens ! k) detail)"
    if "token_begin d \<le> k" "k < token_end d" for k detail using that by (auto simp: reported_def)
  have "reported failure"
    using assms intro [of "token_begin d"] intro [of "Suc (token_begin d)"]
      intro [of "Suc (Suc (token_begin d))"]
    by (auto simp: interpret_directive_def Let_def split: if_splits)
  then show ?thesis by (simp add: reported_def)
qed

definition unmatched_brace :: "directive_span list \<Rightarrow> parser_token list \<Rightarrow> nat \<Rightarrow> bool" where
  "unmatched_brace directives tokens k \<longleftrightarrow>
     is_punctuation (tokens ! k) pu_right_brace \<and>
     braces_before pu_left_brace directives tokens k = braces_before pu_right_brace directives tokens k"

text \<open>The depth the loop has counted at an index.\<close>

definition depth_at :: "directive_span list \<Rightarrow> parser_token list \<Rightarrow> nat \<Rightarrow> nat \<Rightarrow> bool" where
  "depth_at directives tokens k depth \<longleftrightarrow>
     depth + braces_before pu_right_brace directives tokens k = braces_before pu_left_brace directives tokens k"

lemma braces_before_Suc:
  "braces_before p directives tokens (Suc k) = braces_before p directives tokens k +
     (if \<not> in_directive directives k \<and> is_punctuation (tokens ! k) p then 1 else 0)"
  by (simp add: braces_before_def)

lemma scan_braces_depth:
  assumes "depth_at all tokens scan depth" "scan \<le> stop"
    "\<And>k. scan \<le> k \<Longrightarrow> k < stop \<Longrightarrow> \<not> in_directive all k"
  shows "case scan_braces tokens scan stop depth of
      Some depth' \<Rightarrow> depth_at all tokens stop depth'
    | None \<Rightarrow> (\<exists>k. scan \<le> k \<and> k < stop \<and> unmatched_brace all tokens k)"
  using assms
proof (induction tokens scan stop depth rule: scan_braces.induct)
  case (1 tokens scan stop depth)
  note simps = scan_braces.simps [of tokens scan stop depth]
  show ?case
  proof (cases "scan < stop")
    case False
    with "1.prems" show ?thesis by (simp add: scan_braces.simps [of tokens stop stop depth])
  next
    case True
    let ?t = "tokens ! scan"
    have out: "\<not> in_directive all scan" using "1.prems"(3) True by simp
    have excl: "\<not> (is_punctuation ?t pu_left_brace \<and> is_punctuation ?t pu_right_brace)"
      by (simp add: is_punctuation_def)
    consider (left) "is_punctuation ?t pu_left_brace"
      | (stray) "is_punctuation ?t pu_right_brace" "depth = 0"
      | (closing) "\<not> is_punctuation ?t pu_left_brace" "is_punctuation ?t pu_right_brace" "depth \<noteq> 0"
      | (other) "\<not> is_punctuation ?t pu_left_brace" "\<not> is_punctuation ?t pu_right_brace" by blast
    then show ?thesis
    proof cases
      case left
      then have "depth_at all tokens (scan + 1) (depth + 1)"
        using "1.prems"(1) out excl by (simp add: depth_at_def braces_before_Suc)
      from "1.IH"(1) [OF True refl left this] show ?thesis
        using True left "1.prems"(3) by (auto simp: simps Let_def dest: Suc_leD split: option.splits)
    next
      case stray
      then have "unmatched_brace all tokens scan" using "1.prems"(1) by (simp add: unmatched_brace_def depth_at_def)
      then show ?thesis
        using stray True excl by (auto simp: scan_braces.simps [of tokens scan stop 0] Let_def)
    next
      case closing
      then have "depth_at all tokens (scan + 1) (depth - 1)"
        using "1.prems"(1) out by (simp add: depth_at_def braces_before_Suc)
      from "1.IH"(2) [OF True refl closing(1,2,3) this] show ?thesis
        using True closing "1.prems"(3) by (auto simp: simps Let_def dest: Suc_leD split: option.splits)
    next
      case other
      then have "depth_at all tokens (scan + 1) depth"
        using "1.prems"(1) by (simp add: depth_at_def braces_before_Suc)
      from "1.IH"(3) [OF True refl other this] show ?thesis
        using True other "1.prems"(3) by (auto simp: simps Let_def dest: Suc_leD split: option.splits)
    qed
  qed
qed

lemma depth_at_skip:
  assumes "depth_at all tokens (token_begin d) depth" "d \<in> set all" "token_begin d \<le> token_end d"
  shows "depth_at all tokens (token_end d) depth"
proof -
  have "braces_before p all tokens (token_begin d + n) = braces_before p all tokens (token_begin d)"
    if "token_begin d + n \<le> token_end d" for n p
    using that
  proof (induction n)
    case (Suc n)
    then have "in_directive all (token_begin d + n)"
      using assms(2) by (auto simp: in_directive_def list_ex_iff intro!: bexI [of _ d])
    with Suc show ?case by (simp add: braces_before_Suc)
  qed simp
  from this [of "token_end d - token_begin d"] assms(1,3) show ?thesis by (simp add: depth_at_def)
qed

text \<open>The outcome of the loop over the directives that are still ahead.\<close>

definition loop_outcome ::
    "source_snapshot \<Rightarrow> parser_token list \<Rightarrow> nat \<Rightarrow> diagnostic_buffer \<Rightarrow> directive_span list \<Rightarrow>
     directive_span list \<Rightarrow> source_include_directive list \<Rightarrow>
     (status_code \<times> diagnostic_buffer) option \<times> source_include_directive list \<Rightarrow> bool" where
  "loop_outcome source tokens operation diagnostics all ds incs r \<longleftrightarrow>
     (case r of
        (None, incs') \<Rightarrow>
          (\<exists>parts. incs' = incs @ concat parts \<and>
             list_all2 (\<lambda>d p. accepted_directive source tokens d p \<and>
               (p \<noteq> [] \<longrightarrow> depth_at all tokens (token_begin d) 0)) ds parts)
      | (Some failure, incs') \<Rightarrow>
          (failure = (st_invalid_argument, diagnostics) \<and>
             ((\<exists>k < length tokens. unmatched_brace all tokens k) \<or>
              (\<exists>d \<in> set ds. \<not> is_punctuation (tokens ! token_begin d) pu_hash \<or>
                  \<not> odd (tok_flags (tokens ! token_begin d))))) \<or>
          (\<exists>d \<in> set ds. \<exists>k detail. token_begin d \<le> k \<and> k < token_end d \<and>
             failure = directive_fail source operation diagnostics (tokens ! k) detail))"

lemma loop_outcome_Cons:
  assumes "loop_outcome source tokens operation diagnostics all ds (incs @ p) r"
    "accepted_directive source tokens d p" "p \<noteq> [] \<longrightarrow> depth_at all tokens (token_begin d) 0"
  shows "loop_outcome source tokens operation diagnostics all (d # ds) incs r"
proof (cases "fst r")
  case None
  then obtain parts where "snd r = incs @ p @ concat parts"
    "list_all2 (\<lambda>d p. accepted_directive source tokens d p \<and>
       (p \<noteq> [] \<longrightarrow> depth_at all tokens (token_begin d) 0)) ds parts"
    using assms(1) by (cases r) (auto simp: loop_outcome_def)
  with None assms(2,3) show ?thesis
    by (cases r) (auto simp: loop_outcome_def intro!: exI [of _ "p # parts"])
next
  case (Some failure)
  with assms(1) show ?thesis by (cases r) (auto simp: loop_outcome_def)
qed

lemma directive_loop_outcome:
  assumes "spans_ahead (length tokens - 1) scan ds" "depth_at all tokens scan depth"
    "set ds \<subseteq> set all" "\<And>k. scan \<le> k \<Longrightarrow> in_directive all k \<longleftrightarrow> in_directive ds k"
  shows "loop_outcome source tokens operation diagnostics all ds incs
    (directive_loop source tokens operation diagnostics ds scan depth incs)"
  using assms
proof (induction ds arbitrary: scan depth incs)
  case Nil
  show ?case by (simp add: loop_outcome_def)
next
  case (Cons d ds)
  note prems = Cons.prems
  have d: "scan \<le> token_begin d" "token_begin d < token_end d" "token_end d \<le> length tokens - 1"
    "spans_ahead (length tokens - 1) (token_end d) ds" using prems(1) by auto
  have "\<not> in_directive all k" if "scan \<le> k" "k < token_begin d" for k
    using that prems(4) [OF that(1)] spans_ahead_not_in [OF d(4), of k] d(2)
    by (simp add: in_directive_def)
  note braces = scan_braces_depth [OF prems(2) d(1) this]
  show ?case
  proof (cases "scan_braces tokens scan (token_begin d) depth")
    case None
    then obtain k where "k < token_begin d" "unmatched_brace all tokens k" using braces by auto
    moreover from this d have "k < length tokens" by linarith
    ultimately show ?thesis using None d by (auto simp: loop_outcome_def)
  next
    case (Some depth')
    then have depth': "depth_at all tokens (token_begin d) depth'" using braces by simp
    show ?thesis
    proof (cases "interpret_directive source tokens operation diagnostics depth' d")
      case (Inl failure)
      then have "loop_outcome source tokens operation diagnostics all (d # ds) incs (Some failure, incs)"
        using interpret_directive_error [OF Inl _ _ d(2)]
        by (cases "is_punctuation (tokens ! token_begin d) pu_hash \<and> odd (tok_flags (tokens ! token_begin d))")
          (auto simp: loop_outcome_def interpret_directive_def Let_def)
      then show ?thesis using Some Inl d by simp
    next
      case (Inr added)
      let ?p = "case added of None \<Rightarrow> [] | Some i \<Rightarrow> [i]"
      have "depth_at all tokens (token_end d) depth'"
        using depth_at_skip [OF depth'] prems(3) d by simp
      moreover have "in_directive all k \<longleftrightarrow> in_directive ds k" if "token_end d \<le> k" for k
        using that prems(4) [of k] d by (simp add: in_directive_def)
      ultimately have "loop_outcome source tokens operation diagnostics all ds (incs @ ?p)
          (directive_loop source tokens operation diagnostics ds (token_end d) depth' (incs @ ?p))"
        using Cons.IH d(4) prems(3) by simp
      moreover have "accepted_directive source tokens d ?p" "?p \<noteq> [] \<longrightarrow> depth_at all tokens (token_begin d) 0"
        using interpret_directive_ok [OF Inr d(2)] depth' by (auto split: option.splits)
      ultimately show ?thesis using Some Inr d by (simp add: loop_outcome_Cons)
    qed
  qed
qed

section \<open>Results\<close>

lemma discover_source_includes_shape:
  assumes "discover_source_includes source tokens directives operation diagnostics =
      (st_ok, tokens', diagnostics', incs)"
  shows "spans_ahead (length tokens - 1) 0 directives"
    "loop_outcome source tokens operation diagnostics directives directives [] (None, incs)"
    "diagnostics' = diagnostics" "tokens' = without_directives directives tokens"
proof -
  let ?run = "directive_loop source tokens operation diagnostics directives 0 0 []"
  have usable: "tokens \<noteq> []" using assms by (auto simp: discover_source_includes_def split: if_splits)
  have run: "?run = (None, incs)" "tokens' = compact_tokens directives tokens" "diagnostics' = diagnostics"
    using assms directive_loop_failure [of source tokens operation diagnostics directives 0 0 "[]"]
    by (auto simp: discover_source_includes_def split: if_splits prod.splits option.splits)
  show ahead: "spans_ahead (length tokens - 1) 0 directives" by (rule directive_loop_ok [OF run(1)])
  show "loop_outcome source tokens operation diagnostics directives directives [] (None, incs)"
    using directive_loop_outcome [OF ahead, of directives 0 source operation diagnostics "[]"] run(1)
    by (simp add: depth_at_def braces_before_def)
  show "diagnostics' = diagnostics" "tokens' = without_directives directives tokens"
    using run compact_tokens_filter [OF usable ahead] by simp_all
qed

text \<open>
  C10. When include discovery succeeds, every directive span is \<^verbatim>\<open>#include "..."\<close> or \<^verbatim>\<open>#pragma once\<close>;
  the include list holds, in order, the quoted path and the visibility offset of each include; each
  include stands where the braces outside directives are balanced; the token stream that is handed on is the
  original one without exactly the tokens inside directive spans; and no diagnostic is emitted.
\<close>

theorem discover_source_includes_ok:
  assumes "discover_source_includes source tokens directives operation diagnostics =
      (st_ok, tokens', diagnostics', incs)"
  shows "diagnostics' = diagnostics \<and> tokens' = without_directives directives tokens \<and>
    (\<exists>parts. incs = concat parts \<and>
       list_all2 (\<lambda>d p. accepted_directive source tokens d p \<and>
         (p \<noteq> [] \<longrightarrow> braces_before pu_right_brace directives tokens (token_begin d) =
                      braces_before pu_left_brace directives tokens (token_begin d))) directives parts)"
  using discover_source_includes_shape [OF assms] by (auto simp: loop_outcome_def depth_at_def)

lemma sample_discovery:
  "discover_source_includes sample_source sample_tokens [\<lparr>token_begin = 0, token_end = 3\<rparr>] 7 [] =
     (st_ok, drop 3 sample_tokens, [],
      [\<lparr>inc_path = \<lparr>sp_offset = 10, sp_length = 1\<rparr>, inc_visible_from = 12\<rparr>])"
  by (simp add: discover_source_includes_def interpret_directive_def Let_def scan_braces.simps
      is_punctuation_def token_text_def sample_source_def sample_tokens_def to_u32_def
      compact_tokens_def compact_loop.simps)

theorem discover_source_includes_ok_witness:
  "discover_source_includes sample_source sample_tokens [\<lparr>token_begin = 0, token_end = 3\<rparr>] 7 [] =
      (st_ok, without_directives [\<lparr>token_begin = 0, token_end = 3\<rparr>] sample_tokens, [],
       [\<lparr>inc_path = \<lparr>sp_offset = 10, sp_length = 1\<rparr>, inc_visible_from = 12\<rparr>])"
  using discover_source_includes_ok [OF sample_discovery] sample_discovery by simp

section \<open>Lexing followed by discovery\<close>

definition spelled :: "string \<Rightarrow> nat \<Rightarrow> parser_token \<Rightarrow> bool" where
  "spelled bytes i t \<longleftrightarrow> 0 < tok_length t \<and> tok_offset t + tok_length t \<le> i \<and>
     spelling (tok_kind t) (tok_punctuation t) (slice_of bytes (tok_offset t) (tok_offset t + tok_length t))
       (byte_after bytes (tok_offset t + tok_length t))"

lemma trivia_nonempty: "trivia (slice_of bytes i j) \<Longrightarrow> i \<le> j"
  by (cases "i \<le> j") (auto elim: trivia.cases)

lemma covers_tokens:
  "covers bytes i ts \<Longrightarrow>
     list_all (spelled bytes i) ts \<and> sorted_wrt (\<lambda>t u. tok_offset t + tok_length t \<le> tok_offset u) ts"
proof (induction rule: covers.induct)
  case (covers_trivia i ts j)
  then show ?case using trivia_nonempty [where i = i and bytes = bytes and j = j] by (auto simp: list_all_iff spelled_def)
next
  case (covers_token i ts j t)
  then show ?case by (auto simp: list_all_iff spelled_def sorted_wrt_append)
qed simp

lemma spelling_hash: "spelling kind punct text follow \<Longrightarrow> punct = pu_hash \<Longrightarrow> kind = tk_punctuation"
  by (cases rule: spelling.cases) auto

lemma directives_ok_ahead:
  assumes "directives_ok tokens ds"
  shows "spans_ahead (length tokens) 0 ds"
proof -
  have "spans_ahead (length tokens) lo ds"
    if "sorted_wrt (\<lambda>d e. token_end d \<le> token_begin e) ds" "\<forall>d \<in> set ds. lo \<le> token_begin d"
      "\<forall>d \<in> set ds. token_begin d < token_end d \<and> token_end d \<le> length tokens" for lo
    using that by (induction ds arbitrary: lo) auto
  then show ?thesis using assms by (auto simp: directives_ok_def list_all_iff)
qed

text \<open>
  C11. On what the lexer hands over, include discovery never rejects the directive spans: it succeeds, or
  it reports exactly one unsupported-directive diagnostic at a token of a directive, or it returns
  \<^const>\<open>st_invalid_argument\<close> without a diagnostic, and then the Source has a closing brace that no
  opening brace before it matches.
\<close>

theorem lexed_directives_are_accepted:
  assumes lexed: "lex_source source operation diagnostics True = (st_ok, diagnostics', tokens, spans)"
  shows "case discover_source_includes source tokens spans operation diagnostics' of
     (st, tokens', diagnostics'', incs) \<Rightarrow>
       st = st_ok \<or>
       (st = st_not_available \<and> (\<exists>d k detail. d \<in> set spans \<and> token_begin d \<le> k \<and> k < token_end d \<and>
          (st, diagnostics'') = directive_fail source operation diagnostics' (tokens ! k) detail)) \<or>
       (st = st_invalid_argument \<and> diagnostics'' = diagnostics' \<and>
          (\<exists>k < length tokens. unmatched_brace spans tokens k))"
proof -
  note lex = lex_source_ok [OF lexed]
  obtain s where s: "lex_inv (snap_text source) s" "lx_index s = length (snap_text source)"
    "tokens = lx_output s @ [eof_token (length (snap_text source))]"
    "spans = lx_directives (close_directive True s)" using lex(4) by blast
  have ok: "directives_ok (lx_output s) spans" using close_directive_ok [OF s(1) lex(2)] s(4) by simp
  have ahead: "spans_ahead (length tokens - 1) 0 spans" using directives_ok_ahead [OF ok] s(3) by simp
  have spelled: "list_all (spelled (snap_text source) (length (snap_text source))) (lx_output s)"
    using covers_tokens s(1,2) by (auto simp: lex_inv_def)
  have hash: "is_punctuation (tokens ! token_begin d) pu_hash \<and> odd (tok_flags (tokens ! token_begin d))"
    if "d \<in> set spans" for d
  proof -
    have "directive_start (lx_output s) (token_begin d)" using ok that by (simp add: directives_ok_def list_all_iff)
    then show ?thesis
      using spelled s(3) spelling_hash
      by (auto simp: directive_start_def is_punctuation_def nth_append list_all_length spelled_def)
  qed
  let ?run = "directive_loop source tokens operation diagnostics' spans 0 0 []"
  have outcome: "loop_outcome source tokens operation diagnostics' spans spans [] ?run"
    using directive_loop_outcome [OF ahead, of spans 0 source operation diagnostics' "[]"]
    by (simp add: depth_at_def braces_before_def)
  have usable: "snap_present source" "tokens \<noteq> []" "tok_kind (last tokens) = tk_eof"
    using lex(1) s(3) by (simp_all add: eof_token_def)
  show ?thesis
  proof (cases "fst ?run")
    case None
    with usable show ?thesis by (cases ?run) (simp add: discover_source_includes_def)
  next
    case (Some failure)
    then obtain incs where run: "?run = (Some failure, incs)" by (cases ?run) simp
    then have result: "discover_source_includes source tokens spans operation diagnostics' =
        (fst failure, tokens, snd failure, incs)"
      using usable by (simp add: discover_source_includes_def split: prod.splits)
    have "fst failure = st_not_available"
      if "failure = directive_fail source operation diagnostics' (tokens ! k) detail" for k detail
      using that by (simp add: directive_fail_def)
    with outcome hash show ?thesis
      unfolding run result loop_outcome_def by (simp only: prod.case option.case prod.collapse) fastforce
  qed
qed

theorem lexed_directives_are_accepted_witness:
  "lex_source sample_source 7 [] True = (st_ok, [], sample_tokens, [\<lparr>token_begin = 0, token_end = 3\<rparr>]) \<and>
   (case discover_source_includes sample_source sample_tokens [\<lparr>token_begin = 0, token_end = 3\<rparr>] 7 [] of
     (st, tokens', diagnostics'', incs) \<Rightarrow>
       st = st_ok \<or>
       (st = st_not_available \<and> (\<exists>d k detail. d \<in> set [\<lparr>token_begin = 0, token_end = 3\<rparr>] \<and>
          token_begin d \<le> k \<and> k < token_end d \<and>
          (st, diagnostics'') = directive_fail sample_source 7 [] (sample_tokens ! k) detail)) \<or>
       (st = st_invalid_argument \<and> diagnostics'' = [] \<and>
          (\<exists>k < length sample_tokens. unmatched_brace [\<lparr>token_begin = 0, token_end = 3\<rparr>] sample_tokens k)))"
  using lexed_directives_are_accepted [OF sample_source_lexed] sample_source_lexed by blast

text \<open>The include that a header-name token denotes, on a Source whose offsets fit 32 bits.\<close>

definition include_of :: "parser_token \<Rightarrow> source_include_directive" where
  "include_of header =
     \<lparr>inc_path = \<lparr>sp_offset = tok_offset header + 1, sp_length = tok_length header - 2\<rparr>,
      inc_visible_from = tok_offset header + tok_length header\<rparr>"

lemma accepted_includes:
  assumes "list_all2 (accepted_directive source ts) ds parts" "spans_ahead n lo ds" "n \<le> length ts"
    and small: "\<And>k. k < n \<Longrightarrow> tok_offset (ts ! k) + tok_length (ts ! k) \<le> u32_max"
    and order: "\<And>k l. k < l \<Longrightarrow> l < n \<Longrightarrow> tok_offset (ts ! k) + tok_length (ts ! k) \<le> tok_offset (ts ! l)"
  shows "(\<forall>inc \<in> set (concat parts). \<exists>k. lo \<le> k \<and> k < n \<and> tok_kind (ts ! k) = tk_string_literal \<and>
       2 \<le> tok_length (ts ! k) \<and> inc = include_of (ts ! k)) \<and>
    sorted_wrt (\<lambda>a b. inc_visible_from a < inc_visible_from b) (concat parts)"
  using assms(1-3)
proof (induction ds arbitrary: parts lo)
  case (Cons d ds)
  then obtain p rest where parts: "parts = p # rest" "accepted_directive source ts d p"
    "list_all2 (accepted_directive source ts) ds rest" by (auto simp: list_all2_Cons1)
  have d: "lo \<le> token_begin d" "token_end d \<le> n" "spans_ahead n (token_end d) ds" using Cons.prems(2) by auto
  note ih = Cons.IH [OF parts(3) d(3) Cons.prems(3)]
  have "lo \<le> token_end d" using Cons.prems(2) by simp
  then have rest: "\<exists>k. lo \<le> k \<and> k < n \<and> tok_kind (ts ! k) = tk_string_literal \<and>
      2 \<le> tok_length (ts ! k) \<and> inc = include_of (ts ! k)" if "inc \<in> set (concat rest)" for inc
    using bspec [OF conjunct1 [OF ih] that] by (auto intro: exI order_trans)
  from parts(2) show ?case
  proof cases
    case accepted_pragma
    then show ?thesis using ih rest parts(1) by simp
  next
    case (accepted_include header)
    let ?k = "token_begin d + 2"
    have k: "lo \<le> ?k" "?k < n" "?k < token_end d" using d accepted_include by auto
    have p: "p = [include_of (ts ! ?k)]" using accepted_include small [OF k(2)] by (simp add: include_of_def)
    have "inc_visible_from (include_of (ts ! ?k)) < inc_visible_from inc"
      if inc: "inc \<in> set (concat rest)" for inc
    proof -
      obtain l where "token_end d \<le> l" "l < n" "2 \<le> tok_length (ts ! l)" "inc = include_of (ts ! l)"
        using bspec [OF conjunct1 [OF ih] inc] by auto
      then show ?thesis using order [of ?k l] k by (simp add: include_of_def)
    qed
    then have "sorted_wrt (\<lambda>a b. inc_visible_from a < inc_visible_from b) (concat parts)"
      using ih parts(1) p by simp
    moreover have "\<exists>j. lo \<le> j \<and> j < n \<and> tok_kind (ts ! j) = tk_string_literal \<and>
        2 \<le> tok_length (ts ! j) \<and> include_of (ts ! ?k) = include_of (ts ! j)"
      using accepted_include k by (intro exI [of _ ?k]) simp
    moreover have "set (concat parts) = insert (include_of (ts ! ?k)) (set (concat rest))"
      using parts(1) p by simp
    ultimately show ?thesis using rest by (auto simp del: set_concat)
  qed
qed simp

lemma quoted_slice:
  assumes "take (length body + 2) xs = q # body @ [r]"
  shows "take (length body) (tl xs) = body"
proof (cases xs)
  case (Cons x ys)
  then have "take (length body + 1) ys = body @ [r]" using assms by simp
  then have "take (length body) (take (length body + 1) ys) = body" by simp
  then show ?thesis using Cons by (simp add: min_def)
qed (use assms in simp)

lemma spelling_string:
  "spelling tk_string_literal p text follow \<Longrightarrow> \<exists>body. quoted_body quote body \<and> text = quote # body @ [quote]"
  by (cases rule: spelling.cases) (auto simp: identifier_kind_def split: if_splits)

lemma quoted_token:
  assumes "spelled text (length text) t" "tok_kind t = tk_string_literal"
  shows "tok_offset t + tok_length t \<le> length text"
    "take (tok_length t) (drop (tok_offset t) text) =
       quote # take (tok_length t - 2) (drop (Suc (tok_offset t)) text) @ [quote]"
    "quoted_body quote (take (tok_length t - 2) (drop (Suc (tok_offset t)) text))"
proof -
  obtain body where body: "quoted_body quote body"
    "take (tok_length t) (drop (tok_offset t) text) = quote # body @ [quote]"
    using assms spelling_string [of "tok_punctuation t"] by (fastforce simp: spelled_def)
  have "length (take (tok_length t) (drop (tok_offset t) text)) = tok_length t"
    using assms(1) by (auto simp: spelled_def)
  then have len: "tok_length t = length body + 2" using body(2) by simp
  have "take (tok_length t - 2) (drop (Suc (tok_offset t)) text) = body"
    using quoted_slice [of body "drop (tok_offset t) text"] body(2) len by (simp add: tl_drop drop_Suc)
  then show "tok_offset t + tok_length t \<le> length text"
    "take (tok_length t) (drop (tok_offset t) text) =
       quote # take (tok_length t - 2) (drop (Suc (tok_offset t)) text) @ [quote]"
    "quoted_body quote (take (tok_length t - 2) (drop (Suc (tok_offset t)) text))"
    using assms body by (auto simp: spelled_def)
qed

text \<open>
  After lexing and discovery, every include names a path that the Source spells between two
  quotation marks on one line, the include becomes visible right after its closing mark, and the includes
  are listed in strictly increasing order of that offset.
\<close>

theorem discovered_includes_are_quoted:
  assumes lexed: "lex_source source operation diagnostics True = (st_ok, diagnostics', tokens, spans)"
    and found: "discover_source_includes source tokens spans operation diagnostics' =
      (st_ok, tokens', diagnostics'', incs)"
  shows "sorted_wrt (\<lambda>a b. inc_visible_from a < inc_visible_from b) incs \<and>
    (\<forall>inc \<in> set incs. let text = snap_text source; path = inc_path inc; stop = inc_visible_from inc in
       stop \<le> length text \<and> stop = sp_offset path + sp_length path + 1 \<and>
       slice_of text (sp_offset path - 1) stop =
         quote # slice_of text (sp_offset path) (sp_offset path + sp_length path) @ [quote] \<and>
       quoted_body quote (slice_of text (sp_offset path) (sp_offset path + sp_length path)))"
proof -
  let ?text = "snap_text source" and ?n = "length tokens - 1"
  note lex = lex_source_ok [OF lexed]
  obtain s where s: "lex_inv ?text s" "lx_index s = length ?text"
    "tokens = lx_output s @ [eof_token (length ?text)]" "spans = lx_directives (close_directive True s)"
    using lex(4) by blast
  have ahead: "spans_ahead ?n 0 spans"
    using directives_ok_ahead [OF close_directive_ok [OF s(1) lex(2)]] s(3,4) by simp
  obtain parts where parts: "incs = concat parts" "list_all2 (accepted_directive source tokens) spans parts"
    using discover_source_includes_shape(2) [OF found]
    by (auto simp: loop_outcome_def intro: list_all2_mono)
  have cov: "list_all (spelled ?text (length ?text)) (lx_output s)"
    "sorted_wrt (\<lambda>t u. tok_offset t + tok_length t \<le> tok_offset u) (lx_output s)"
    using covers_tokens s(1,2) by (auto simp: lex_inv_def)
  have spelled: "spelled ?text (length ?text) (tokens ! k)" if "k < ?n" for k
    using that cov(1) s(3) by (simp add: list_all_length nth_append)
  have order: "tok_offset (tokens ! k) + tok_length (tokens ! k) \<le> tok_offset (tokens ! l)"
    if "k < l" "l < ?n" for k l
    using that cov(2) s(3) by (simp add: sorted_wrt_iff_nth_less nth_append)
  have small: "tok_offset (tokens ! k) + tok_length (tokens ! k) \<le> u32_max" if "k < ?n" for k
    using spelled [OF that] lex(2) by (simp add: spelled_def)
  note incs = accepted_includes [OF parts(2) ahead _ small order, folded parts(1)]
  show ?thesis
  proof (intro conjI ballI)
    fix inc assume "inc \<in> set incs"
    then obtain k where k: "k < ?n" "tok_kind (tokens ! k) = tk_string_literal" "2 \<le> tok_length (tokens ! k)"
      "inc = include_of (tokens ! k)" using bspec [OF conjunct1 [OF incs]] by auto
    with quoted_token [OF spelled [OF k(1)] k(2)] show "let text = ?text; path = inc_path inc;
        stop = inc_visible_from inc in
       stop \<le> length text \<and> stop = sp_offset path + sp_length path + 1 \<and>
       slice_of text (sp_offset path - 1) stop =
         quote # slice_of text (sp_offset path) (sp_offset path + sp_length path) @ [quote] \<and>
       quoted_body quote (slice_of text (sp_offset path) (sp_offset path + sp_length path))"
      by (simp add: include_of_def Let_def)
  qed (rule conjunct2 [OF incs], simp_all)
qed

theorem discovered_includes_are_quoted_witness:
  "\<exists>inc. discover_source_includes sample_source sample_tokens [\<lparr>token_begin = 0, token_end = 3\<rparr>] 7 [] =
      (st_ok, drop 3 sample_tokens, [], [inc]) \<and> inc_visible_from inc = 12 \<and>
    slice_of (snap_text sample_source) 9 12 = quote # slice_of (snap_text sample_source) 10 11 @ [quote]"
proof -
  from discovered_includes_are_quoted [OF sample_source_lexed sample_discovery]
  show ?thesis by (simp add: sample_discovery Let_def)
qed

section \<open>Directives that stay in the stream\<close>



end
