(* ===== verification/Json_Parser.thy ===== *)
theory Json_Parser
  imports Prelude
begin

text \<open>
  The event-driven JSON parser, \<^verbatim>\<open>src/server_engine/json/json_parser.cpp\<close>. The parser never reads its
  handler, so a run is modelled by the list of the events it delivers and its result; a handler is a fold
  over the events. Positions and error offsets are those of the code. The recursive functions take fuel;
  \<open>json_fuel\<close> gives an amount that always suffices, so that \<open>parse_json\<close> is total. The
  specification is the JSON grammar as relations between trees and texts: an accepted text is a JSON
  document, and its events are the traversal of the tree it denotes. Failed allocations
  (\<^verbatim>\<open>json_error_code::internal_failure\<close>) do not occur in the model.
\<close>

section \<open>Results and events\<close>

datatype json_error_code =
    je_none | je_unexpected_end | je_unexpected_token | je_invalid_string | je_invalid_escape
  | je_invalid_unicode | je_invalid_number | je_nesting_too_deep | je_internal_failure

record json_parse_result =
  result_code :: json_error_code
  result_offset :: nat

text \<open>
  A number event carries the decimal the token denotes, sign, mantissa and power of ten; the
  \<^verbatim>\<open>double\<close> the handler receives is that decimal rounded to nearest.
\<close>

record json_decimal =
  dec_negative :: bool
  dec_mantissa :: nat
  dec_exponent :: int

datatype json_event =
    ev_location nat
  | ev_object_begin
  | ev_object_end
  | ev_array_begin
  | ev_array_end
  | ev_key string
  | ev_string string
  | ev_integer int
  | ev_number json_decimal
  | ev_boolean bool
  | ev_null

type_synonym json_failure = "json_error_code \<times> nat"

section \<open>Characters\<close>

definition max_json_depth :: nat where
  "max_json_depth = 64"

definition is_space :: "char \<Rightarrow> bool" where
  "is_space c \<longleftrightarrow> c = CHR '' '' \<or> c = CHR 0x09 \<or> c = CHR 0x0D \<or> c = CHR 0x0A"

definition is_digit :: "char \<Rightarrow> bool" where
  "is_digit c \<longleftrightarrow> code CHR ''0'' \<le> code c \<and> code c \<le> code CHR ''9''"

definition hex_value :: "char \<Rightarrow> int" where
  "hex_value c =
     (if code CHR ''0'' \<le> code c \<and> code c \<le> code CHR ''9'' then int (code c) - int (code CHR ''0'')
      else if code CHR ''a'' \<le> code c \<and> code c \<le> code CHR ''f''
      then int (code c) - int (code CHR ''a'') + 10
      else if code CHR ''A'' \<le> code c \<and> code c \<le> code CHR ''F''
      then int (code c) - int (code CHR ''A'') + 10
      else -1)"

text \<open>The bytes \<^verbatim>\<open>append_utf8\<close> pushes; \<open>chr\<close> narrows to a byte as the \<^verbatim>\<open>static_cast<char>\<close> does.\<close>

definition append_utf8 :: "string \<Rightarrow> nat \<Rightarrow> string" where
  "append_utf8 out codepoint =
     (if codepoint \<le> 0x7F then out @ [chr codepoint]
      else if codepoint \<le> 0x7FF then
        out @ [chr (0xC0 OR drop_bit 6 codepoint), chr (0x80 OR (codepoint AND 0x3F))]
      else if codepoint \<le> 0xFFFF then
        out @ [chr (0xE0 OR drop_bit 12 codepoint), chr (0x80 OR (drop_bit 6 codepoint AND 0x3F)),
                  chr (0x80 OR (codepoint AND 0x3F))]
      else
        out @ [chr (0xF0 OR drop_bit 18 codepoint), chr (0x80 OR (drop_bit 12 codepoint AND 0x3F)),
                  chr (0x80 OR (drop_bit 6 codepoint AND 0x3F)), chr (0x80 OR (codepoint AND 0x3F))])"

definition skip_space :: "string \<Rightarrow> nat \<Rightarrow> nat" where
  "skip_space input position = scan_while is_space input position"

text \<open>The test of \<^verbatim>\<open>consume\<close>; on success the caller goes on at the next position.\<close>

definition consume :: "string \<Rightarrow> nat \<Rightarrow> char \<Rightarrow> bool" where
  "consume input position c \<longleftrightarrow> position < length input \<and> input ! position = c"

section \<open>Strings\<close>

fun hex4_loop :: "string \<Rightarrow> nat \<Rightarrow> nat \<Rightarrow> nat \<Rightarrow> json_failure + nat \<times> nat" where
  "hex4_loop input 0 position out = Inr (out, position)"
| "hex4_loop input (Suc n) position out =
     (let digit = hex_value (input ! position) in
      if digit < 0 then Inl (je_invalid_unicode, position)
      else hex4_loop input n (position + 1) (push_bit 4 out OR nat digit))"

definition parse_hex4 :: "string \<Rightarrow> nat \<Rightarrow> json_failure + nat \<times> nat" where
  "parse_hex4 input position =
     (if position + 4 > length input then Inl (je_unexpected_end, position)
      else hex4_loop input 4 position 0)"

definition simple_escape :: "char \<Rightarrow> char option" where
  "simple_escape c =
     (if c = CHR 0x22 then Some CHR 0x22
      else if c = CHR 0x5C then Some CHR 0x5C
      else if c = CHR ''/'' then Some CHR ''/''
      else if c = CHR ''b'' then Some CHR 0x08
      else if c = CHR ''f'' then Some CHR 0x0C
      else if c = CHR ''n'' then Some CHR 0x0A
      else if c = CHR ''r'' then Some CHR 0x0D
      else if c = CHR ''t'' then Some CHR 0x09
      else None)"

text \<open>The case \<^verbatim>\<open>'u'\<close> of the escape switch, from the position after the letter.\<close>

definition parse_unicode :: "string \<Rightarrow> nat \<Rightarrow> json_failure + nat \<times> nat" where
  "parse_unicode input position =
     (case parse_hex4 input position of
        Inl e \<Rightarrow> Inl e
      | Inr (first, p) \<Rightarrow>
          if 0xD800 \<le> first \<and> first \<le> 0xDBFF then
            if p + 2 > length input \<or> input ! p \<noteq> CHR 0x5C \<or> input ! (p + 1) \<noteq> CHR ''u''
            then Inl (je_invalid_unicode, p)
            else
              (case parse_hex4 input (p + 2) of
                 Inl e \<Rightarrow> Inl e
               | Inr (second, q) \<Rightarrow>
                   if second < 0xDC00 \<or> second > 0xDFFF then Inl (je_invalid_unicode, q)
                   else Inr (0x10000 + push_bit 10 (first - 0xD800) + (second - 0xDC00), q))
          else if 0xDC00 \<le> first \<and> first \<le> 0xDFFF then Inl (je_invalid_unicode, p)
          else Inr (first, p))"

lemma hex4_loop_position: "hex4_loop input n position out = Inr (v, q) \<Longrightarrow> q = position + n"
  by (induction input n position out rule: hex4_loop.induct) (auto simp: Let_def split: if_splits)

lemma parse_hex4_position:
  "parse_hex4 input position = Inr (v, q) \<Longrightarrow> q = position + 4 \<and> q \<le> length input"
  by (auto simp: parse_hex4_def dest: hex4_loop_position split: if_splits)

lemma parse_unicode_position:
  "parse_unicode input position = Inr (v, q) \<Longrightarrow> position < q \<and> q \<le> length input"
  by (auto simp: parse_unicode_def dest!: parse_hex4_position split: if_splits sum.splits prod.splits)

function string_loop :: "string \<Rightarrow> nat \<Rightarrow> string \<Rightarrow> json_failure + string \<times> nat" where
  "string_loop input position out =
     (if position < length input then
        let c = input ! position; p = position + 1 in
        if c = CHR 0x22 then Inr (out, p)
        else if code c < 0x20 then Inl (je_invalid_string, p - 1)
        else if c \<noteq> CHR 0x5C then string_loop input p (out @ [c])
        else if p \<ge> length input then Inl (je_unexpected_end, p)
        else
          let e = input ! p; q = p + 1 in
          (case simple_escape e of
             Some d \<Rightarrow> string_loop input q (out @ [d])
           | None \<Rightarrow>
               if e = CHR ''u'' then
                 (case parse_unicode input q of
                    Inl failure \<Rightarrow> Inl failure
                  | Inr (codepoint, r) \<Rightarrow> string_loop input r (append_utf8 out codepoint))
               else Inl (je_invalid_escape, q - 1))
      else Inl (je_unexpected_end, position))"
  by pat_completeness auto
termination
  by (relation "measure (\<lambda>(input, position, out). length input - position)")
    (auto dest: parse_unicode_position)

declare string_loop.simps [simp del]

definition parse_string :: "string \<Rightarrow> nat \<Rightarrow> json_failure + string \<times> nat" where
  "parse_string input position =
     (if \<not> consume input position CHR 0x22 then Inl (je_unexpected_token, position)
      else string_loop input (position + 1) [])"

section \<open>Numbers\<close>

definition digits_value :: "string \<Rightarrow> nat" where
  "digits_value ds = foldl (\<lambda>v c. 10 * v + (code c - code CHR ''0'')) 0 ds"

definition integer_part :: "string \<Rightarrow> nat \<Rightarrow> json_failure + nat" where
  "integer_part input position =
     (if consume input position CHR ''0'' then
        if position + 1 < length input \<and> is_digit (input ! (position + 1))
        then Inl (je_invalid_number, position + 1) else Inr (position + 1)
      else if position \<ge> length input \<or> \<not> is_digit (input ! position)
      then Inl (je_invalid_number, position)
      else Inr (scan_while is_digit input position))"

text \<open>The fraction and exponent steps: whether the number is still integral, and the position.\<close>

definition fraction_part :: "string \<Rightarrow> nat \<Rightarrow> json_failure + bool \<times> nat" where
  "fraction_part input position =
     (if consume input position CHR ''.'' then
        if position + 1 \<ge> length input \<or> \<not> is_digit (input ! (position + 1))
        then Inl (je_invalid_number, position + 1)
        else Inr (False, scan_while is_digit input (position + 1))
      else Inr (True, position))"

definition exponent_part :: "string \<Rightarrow> bool \<times> nat \<Rightarrow> json_failure + bool \<times> nat" where
  "exponent_part input st =
     (case st of (integral, position) \<Rightarrow>
        if position < length input \<and> (input ! position = CHR ''e'' \<or> input ! position = CHR ''E'') then
          let p = position + 1;
              q = (if p < length input \<and> (input ! p = CHR ''+'' \<or> input ! p = CHR ''-'') then p + 1 else p)
          in if q \<ge> length input \<or> \<not> is_digit (input ! q) then Inl (je_invalid_number, q)
             else Inr (False, scan_while is_digit input q)
        else Inr (integral, position))"

text \<open>
  \<^verbatim>\<open>std::from_chars\<close> on a token of the number grammar. For \<^verbatim>\<open>std::int64_t\<close> it fails outside the
  range of the type; for \<^verbatim>\<open>double\<close> it fails when the rounded value is infinite or a nonzero decimal
  rounds to zero, which is when the decimal is at least \<open>2 ^ 1024 - 2 ^ 970\<close> or at most
  \<open>2 ^ -1075\<close>.
\<close>

definition from_chars_int64 :: "string \<Rightarrow> int option" where
  "from_chars_int64 token =
     (let negative = (token \<noteq> [] \<and> hd token = CHR ''-'');
          v = int (digits_value (if negative then tl token else token));
          value = (if negative then - v else v)
      in if - (2 ^ 63) \<le> value \<and> value < 2 ^ 63 then Some value else None)"

definition decimal_of :: "string \<Rightarrow> json_decimal" where
  "decimal_of token =
     (let negative = (token \<noteq> [] \<and> hd token = CHR ''-'');
          body = (if negative then tl token else token);
          whole = takeWhile is_digit body;
          rest = dropWhile is_digit body;
          fraction = (if rest \<noteq> [] \<and> hd rest = CHR ''.'' then takeWhile is_digit (tl rest) else []);
          tail = (if rest \<noteq> [] \<and> hd rest = CHR ''.'' then dropWhile is_digit (tl rest) else rest);
          exponent =
            (case tail of
               [] \<Rightarrow> 0
             | _ # xs \<Rightarrow>
                 (case xs of
                    [] \<Rightarrow> 0
                  | x # ys \<Rightarrow>
                      if x = CHR ''-'' then - int (digits_value ys)
                      else if x = CHR ''+'' then int (digits_value ys)
                      else int (digits_value xs)))
      in \<lparr>dec_negative = negative, dec_mantissa = digits_value (whole @ fraction),
          dec_exponent = exponent - int (length fraction)\<rparr>)"

definition double_in_range :: "json_decimal \<Rightarrow> bool" where
  "double_in_range d \<longleftrightarrow>
     (let m = dec_mantissa d; e = dec_exponent d in
      m = 0 \<or>
      (if e \<ge> 0 then m * 10 ^ nat e < 2 ^ 1024 - 2 ^ 970
       else let scale = 10 ^ nat (- e) in
         m < (2 ^ 1024 - 2 ^ 970) * scale \<and> scale < m * 2 ^ 1075))"

definition number_event :: "string \<Rightarrow> bool \<Rightarrow> json_event option" where
  "number_event token integral =
     (if integral then map_option ev_integer (from_chars_int64 token)
      else if double_in_range (decimal_of token) then Some (ev_number (decimal_of token)) else None)"

definition parse_number :: "string \<Rightarrow> nat \<Rightarrow> json_failure + json_event \<times> nat" where
  "parse_number input start =
     (let minus = consume input start CHR ''-'';
          position = (if minus then start + 1 else start)
      in if minus \<and> position \<ge> length input then Inl (je_invalid_number, position)
         else
           (case integer_part input position of
              Inl e \<Rightarrow> Inl e
            | Inr p \<Rightarrow>
                (case fraction_part input p of
                   Inl e \<Rightarrow> Inl e
                 | Inr st \<Rightarrow>
                     (case exponent_part input st of
                        Inl e \<Rightarrow> Inl e
                      | Inr (integral, q) \<Rightarrow>
                          (case number_event (take (q - start) (drop start input)) integral of
                             None \<Rightarrow> Inl (je_invalid_number, start)
                           | Some ev \<Rightarrow> Inr (ev, q))))))"

section \<open>Values\<close>

definition parse_literal :: "string \<Rightarrow> nat \<Rightarrow> string \<Rightarrow> json_event \<Rightarrow> json_event list \<times> (json_failure + nat)" where
  "parse_literal input position literal event =
     (if take (length literal) (drop position input) \<noteq> literal
      then ([], Inl (je_unexpected_token, position))
      else ([event], Inr (position + length literal)))"

text \<open>Events delivered, then the failure or the position after the value; \<^const>\<open>None\<close> is lack of fuel.\<close>

type_synonym json_run = "(json_event list \<times> (json_failure + nat)) option"

definition deliver :: "json_event list \<Rightarrow> json_run \<Rightarrow> json_run" where
  "deliver events run = map_option (\<lambda>(later, r). (events @ later, r)) run"

text \<open>The value cases other than objects and arrays.\<close>

definition parse_scalar :: "string \<Rightarrow> nat \<Rightarrow> json_event list \<times> (json_failure + nat)" where
  "parse_scalar input position =
     (let c = input ! position in
      if c = CHR 0x22 then
        (case parse_string input position of
           Inl e \<Rightarrow> ([], Inl e)
         | Inr (v, q) \<Rightarrow> ([ev_string v], Inr q))
      else if c = CHR ''t'' then parse_literal input position ''true'' (ev_boolean True)
      else if c = CHR ''f'' then parse_literal input position ''false'' (ev_boolean False)
      else if c = CHR ''n'' then parse_literal input position ''null'' ev_null
      else if c = CHR ''-'' \<or> is_digit c then
        (case parse_number input position of
           Inl e \<Rightarrow> ([], Inl e)
         | Inr (ev, q) \<Rightarrow> ([ev], Inr q))
      else ([], Inl (je_unexpected_token, position)))"

text \<open>
  The mutually recursive member functions, each over the calls it makes: \<open>call p depth position\<close> runs
  the production \<open>p\<close>. The two loops are productions of their own.
\<close>

datatype json_production = pr_value | pr_object | pr_object_loop | pr_array | pr_array_loop

type_synonym json_calls = "json_production \<Rightarrow> nat \<Rightarrow> nat \<Rightarrow> json_run"

definition parse_value_body :: "json_calls \<Rightarrow> string \<Rightarrow> nat \<Rightarrow> nat \<Rightarrow> json_run" where
  "parse_value_body call input depth start =
     (let position = skip_space input start in
      if position \<ge> length input then Some ([], Inl (je_unexpected_end, position))
      else deliver [ev_location position]
        (if input ! position = CHR ''{'' then call pr_object depth position
         else if input ! position = CHR ''['' then call pr_array depth position
         else Some (parse_scalar input position)))"

definition parse_object_body :: "json_calls \<Rightarrow> string \<Rightarrow> nat \<Rightarrow> nat \<Rightarrow> json_run" where
  "parse_object_body call input depth start =
     (if depth \<ge> max_json_depth then Some ([], Inl (je_nesting_too_deep, start))
      else
        let position = skip_space input (start + 1) in
        deliver [ev_object_begin]
          (if consume input position CHR ''}''
           then Some ([ev_location position, ev_object_end], Inr (position + 1))
           else call pr_object_loop depth position))"

text \<open>What follows a value in a loop: the closing mark, a comma and another round, or a failure.\<close>

definition after_value ::
    "json_calls \<Rightarrow> json_production \<Rightarrow> char \<Rightarrow> json_event \<Rightarrow> string \<Rightarrow> nat \<Rightarrow> json_run \<Rightarrow> json_run" where
  "after_value call loop mark closing input depth run =
     (case run of
        None \<Rightarrow> None
      | Some (events, Inl e) \<Rightarrow> Some (events, Inl e)
      | Some (events, Inr v) \<Rightarrow>
          deliver events
            (let next = skip_space input v in
             if consume input next mark then Some ([ev_location next, closing], Inr (next + 1))
             else if \<not> consume input next CHR '','' then Some ([], Inl (je_unexpected_token, next))
             else call loop depth (next + 1)))"

definition object_loop_body :: "json_calls \<Rightarrow> string \<Rightarrow> nat \<Rightarrow> nat \<Rightarrow> json_run" where
  "object_loop_body call input depth start =
     (let position = skip_space input start in
      if position \<ge> length input then Some ([], Inl (je_unexpected_end, position))
      else deliver [ev_location position]
        (case parse_string input position of
           Inl e \<Rightarrow> Some ([], Inl e)
         | Inr (name, q) \<Rightarrow>
             deliver [ev_key name]
               (let colon = skip_space input q in
                if \<not> consume input colon CHR '':'' then Some ([], Inl (je_unexpected_token, colon))
                else after_value call pr_object_loop CHR ''}'' ev_object_end input depth
                  (call pr_value (depth + 1) (colon + 1)))))"

definition parse_array_body :: "json_calls \<Rightarrow> string \<Rightarrow> nat \<Rightarrow> nat \<Rightarrow> json_run" where
  "parse_array_body call input depth start =
     (if depth \<ge> max_json_depth then Some ([], Inl (je_nesting_too_deep, start))
      else
        let position = skip_space input (start + 1) in
        deliver [ev_array_begin]
          (if consume input position CHR '']''
           then Some ([ev_location position, ev_array_end], Inr (position + 1))
           else call pr_array_loop depth position))"

definition array_loop_body :: "json_calls \<Rightarrow> string \<Rightarrow> nat \<Rightarrow> nat \<Rightarrow> json_run" where
  "array_loop_body call input depth start =
     after_value call pr_array_loop CHR '']'' ev_array_end input depth (call pr_value (depth + 1) start)"

primrec parse_production :: "nat \<Rightarrow> string \<Rightarrow> json_calls" where
  "parse_production 0 input = (\<lambda>p depth position. None)"
| "parse_production (Suc fuel) input =
     (\<lambda>p depth position.
        (case p of
           pr_value \<Rightarrow> parse_value_body (parse_production fuel input) input depth position
         | pr_object \<Rightarrow> parse_object_body (parse_production fuel input) input depth position
         | pr_object_loop \<Rightarrow> object_loop_body (parse_production fuel input) input depth position
         | pr_array \<Rightarrow> parse_array_body (parse_production fuel input) input depth position
         | pr_array_loop \<Rightarrow> array_loop_body (parse_production fuel input) input depth position))"

declare parse_production.simps [simp del]

lemma parse_production_0 [simp]: "parse_production 0 input p depth position = None"
  by (simp add: parse_production.simps)

lemma parse_production_Suc [simp]:
  "parse_production (Suc fuel) input pr_value depth position =
     parse_value_body (parse_production fuel input) input depth position"
  "parse_production (Suc fuel) input pr_object depth position =
     parse_object_body (parse_production fuel input) input depth position"
  "parse_production (Suc fuel) input pr_object_loop depth position =
     object_loop_body (parse_production fuel input) input depth position"
  "parse_production (Suc fuel) input pr_array depth position =
     parse_array_body (parse_production fuel input) input depth position"
  "parse_production (Suc fuel) input pr_array_loop depth position =
     array_loop_body (parse_production fuel input) input depth position"
  by (simp_all add: parse_production.simps)

definition json_fuel :: "string \<Rightarrow> nat" where
  "json_fuel input = 3 * length input + 3"

definition run_parser :: "nat \<Rightarrow> string \<Rightarrow> (json_event list \<times> json_parse_result) option" where
  "run_parser fuel input =
     (case parse_production fuel input pr_value 0 (skip_space input 0) of
        None \<Rightarrow> None
      | Some (events, Inl (c, offset)) \<Rightarrow> Some (events, \<lparr>result_code = c, result_offset = offset\<rparr>)
      | Some (events, Inr p) \<Rightarrow>
          (let position = skip_space input p in
           if position \<noteq> length input
           then Some (events, \<lparr>result_code = je_unexpected_token, result_offset = position\<rparr>)
           else Some (events, \<lparr>result_code = je_none, result_offset = 0\<rparr>)))"

definition parse_json :: "string \<Rightarrow> json_event list \<times> json_parse_result" where
  "parse_json input =
     (case run_parser (json_fuel input) input of
        Some r \<Rightarrow> r
      | None \<Rightarrow> ([], \<lparr>result_code = je_internal_failure, result_offset = 0\<rparr>))"

section \<open>Positions stay inside the text\<close>

lemma skip_space_ge [simp]: "position \<le> skip_space input position"
  by (simp add: skip_space_def)

lemma skip_space_gt: "i < position \<Longrightarrow> i < skip_space input position"
  by (rule less_le_trans [OF _ skip_space_ge])

lemma before_skip_space: "skip_space input position < q \<Longrightarrow> position < q"
  by (rule le_less_trans [OF skip_space_ge])

lemma skip_space_le: "position \<le> length input \<Longrightarrow> skip_space input position \<le> length input"
  by (simp add: skip_space_def scan_while_le)

lemma consume_lt: "consume input position c \<Longrightarrow> position < length input"
  by (simp add: consume_def)

text \<open>A failure that a position can carry, and a success that has advanced.\<close>

definition failure_ok :: "string \<Rightarrow> json_failure \<Rightarrow> bool" where
  "failure_ok input e \<longleftrightarrow> (case e of (c, offset) \<Rightarrow> c \<noteq> je_none \<and> c \<noteq> je_internal_failure \<and> offset \<le> length input)"

lemma hex4_loop_failure:
  "hex4_loop input n position out = Inl e \<Longrightarrow> position + n \<le> length input \<Longrightarrow> failure_ok input e"
  by (induction input n position out rule: hex4_loop.induct)
    (auto simp: Let_def failure_ok_def split: if_splits)

lemma parse_hex4_failure:
  "parse_hex4 input position = Inl e \<Longrightarrow> position \<le> length input \<Longrightarrow> failure_ok input e"
  by (auto simp: parse_hex4_def failure_ok_def dest: hex4_loop_failure split: if_splits)

lemma parse_unicode_failure:
  "parse_unicode input position = Inl e \<Longrightarrow> position \<le> length input \<Longrightarrow> failure_ok input e"
  by (auto simp: parse_unicode_def split: if_splits sum.splits prod.splits
      dest!: parse_hex4_position parse_hex4_failure) (auto simp: failure_ok_def)

text \<open>One round of the string loop.\<close>

lemma string_loop_round:
  assumes "position < length input"
  obtains
    (close) "input ! position = CHR 0x22" "string_loop input position out = Inr (out, position + 1)"
  | (control) "string_loop input position out = Inl (je_invalid_string, position)"
  | (plain) "input ! position \<noteq> CHR 0x22" "input ! position \<noteq> CHR 0x5C" "0x20 \<le> code (input ! position)"
      "string_loop input position out = string_loop input (position + 1) (out @ [input ! position])"
  | (cut) "string_loop input position out = Inl (je_unexpected_end, length input)"
  | (escape) d where "input ! position = CHR 0x5C" "position + 1 < length input"
      "simple_escape (input ! (position + 1)) = Some d"
      "string_loop input position out = string_loop input (position + 2) (out @ [d])"
  | (bad_unicode) e where "position + 2 \<le> length input" "parse_unicode input (position + 2) = Inl e"
      "string_loop input position out = Inl e"
  | (unicode) codepoint r where "input ! position = CHR 0x5C" "position + 1 < length input"
      "input ! (position + 1) = CHR ''u''" "parse_unicode input (position + 2) = Inr (codepoint, r)"
      "string_loop input position out = string_loop input r (append_utf8 out codepoint)"
  | (bad_escape) "position + 1 < length input"
      "string_loop input position out = Inl (je_invalid_escape, position + 1)"
proof -
  note unfold = string_loop.simps [of input position out]
  consider "input ! position = CHR 0x22" | "input ! position \<noteq> CHR 0x22" "code (input ! position) < 0x20"
    | "input ! position \<noteq> CHR 0x22" "0x20 \<le> code (input ! position)" "input ! position \<noteq> CHR 0x5C"
    | "input ! position = CHR 0x5C" "position + 1 \<ge> length input"
    | "input ! position = CHR 0x5C" "position + 1 < length input" by fastforce
  then show thesis
  proof cases
    case 5
    then show thesis
    proof (cases "simple_escape (input ! (position + 1))")
      case None
      then show thesis
      proof (cases "input ! (position + 1) = CHR ''u''")
        case True
        with 5 None assms bad_unicode unicode show thesis
          by (cases "parse_unicode input (position + 2)") (auto simp: unfold Let_def)
      next
        case False
        with 5 None assms bad_escape show thesis by (simp add: unfold Let_def)
      qed
    next
      case (Some d)
      with 5 assms escape show thesis by (simp add: unfold Let_def)
    qed
  next
    case 4
    then have "length input = position + 1" using assms by simp
    with 4 cut show thesis by (simp add: unfold Let_def)
  qed (use assms close control plain in \<open>auto simp: unfold Let_def\<close>)
qed

lemma string_loop_end:
  "position \<ge> length input \<Longrightarrow> string_loop input position out = Inl (je_unexpected_end, position)"
  by (simp add: string_loop.simps [of input position out])

section \<open>The grammar of strings and numbers\<close>

definition hex4 :: "string \<Rightarrow> nat \<Rightarrow> bool" where
  "hex4 raw v \<longleftrightarrow> length raw = 4 \<and> list_all (\<lambda>c. 0 \<le> hex_value c) raw \<and>
     v = foldl (\<lambda>n c. 16 * n + nat (hex_value c)) 0 raw"

text \<open>The code point that the text after a backslash and \<^verbatim>\<open>u\<close> denotes.\<close>

inductive unicode_escape :: "string \<Rightarrow> nat \<Rightarrow> bool" where
  unicode_single: "hex4 raw v \<Longrightarrow> v < 0xD800 \<or> 0xDFFF < v \<Longrightarrow> unicode_escape raw v"
| unicode_pair:
    "hex4 raw1 high \<Longrightarrow> 0xD800 \<le> high \<Longrightarrow> high \<le> 0xDBFF \<Longrightarrow> hex4 raw2 low \<Longrightarrow> 0xDC00 \<le> low \<Longrightarrow>
     low \<le> 0xDFFF \<Longrightarrow>
     unicode_escape (raw1 @ [CHR 0x5C, CHR ''u''] @ raw2) (0x10000 + (high - 0xD800) * 0x400 + (low - 0xDC00))"

text \<open>The characters between the quotes and the string they denote.\<close>

inductive json_chars :: "string \<Rightarrow> string \<Rightarrow> bool" where
  chars_end: "json_chars [] []"
| chars_plain:
    "json_chars raw v \<Longrightarrow> c \<noteq> CHR 0x22 \<Longrightarrow> c \<noteq> CHR 0x5C \<Longrightarrow> 0x20 \<le> code c \<Longrightarrow> json_chars (c # raw) (c # v)"
| chars_escape:
    "json_chars raw v \<Longrightarrow> simple_escape e = Some d \<Longrightarrow> json_chars (CHR 0x5C # e # raw) (d # v)"
| chars_unicode:
    "json_chars raw v \<Longrightarrow> unicode_escape u codepoint \<Longrightarrow>
     json_chars (CHR 0x5C # CHR ''u'' # u @ raw) (append_utf8 [] codepoint @ v)"

definition json_string :: "string \<Rightarrow> string \<Rightarrow> bool" where
  "json_string raw v \<longleftrightarrow> (\<exists>body. raw = CHR 0x22 # body @ [CHR 0x22] \<and> json_chars body v)"

lemma append_utf8_append: "append_utf8 out codepoint = out @ append_utf8 [] codepoint"
  by (simp add: append_utf8_def)

lemma hex_value_range: "hex_value c < 16"
  by (auto simp: hex_value_def)

lemma hex4_loop_value:
  "hex4_loop input n position out = Inr (v, q) \<Longrightarrow> position + n \<le> length input \<Longrightarrow>
     list_all (\<lambda>c. 0 \<le> hex_value c) (slice_of input position q) \<and>
     v = foldl (\<lambda>n c. 16 * n + nat (hex_value c)) out (slice_of input position q)"
proof (induction input n position out rule: hex4_loop.induct)
  case (2 input n position out)
  let ?d = "hex_value (input ! position)"
  have d: "0 \<le> ?d" "hex4_loop input n (position + 1) (push_bit 4 out OR nat ?d) = Inr (v, q)"
    using "2.prems" by (auto simp: Let_def split: if_splits)
  then have q: "q = position + 1 + n" by (blast dest: hex4_loop_position)
  have "nat ?d < 2 ^ 4" using hex_value_range [of "input ! position"] by simp
  then have "push_bit 4 out OR nat ?d = 16 * out + nat ?d" by (simp add: push_bit_or_add)
  then show ?case
    using "2.IH" [OF refl] d "2.prems" q slice_Cons [of position q input] by auto
qed simp

lemma parse_hex4_value:
  assumes "parse_hex4 input position = Inr (v, q)"
  shows "hex4 (slice_of input position q) v"
proof -
  have q: "q = position + 4" "q \<le> length input" using parse_hex4_position [OF assms] by auto
  have "hex4_loop input 4 position 0 = Inr (v, q)" using assms q by (simp add: parse_hex4_def)
  from hex4_loop_value [OF this] q show ?thesis by (simp add: hex4_def)
qed

lemma parse_unicode_value:
  assumes "parse_unicode input position = Inr (codepoint, r)"
  shows "unicode_escape (slice_of input position r) codepoint"
proof -
  obtain first p where first: "parse_hex4 input position = Inr (first, p)"
    using assms by (auto simp: parse_unicode_def split: sum.splits prod.splits)
  note p = parse_hex4_position [OF first] parse_hex4_value [OF first]
  show ?thesis
  proof (cases "0xD800 \<le> first \<and> first \<le> 0xDBFF")
    case True
    then obtain second where second: "p + 2 \<le> length input" "input ! p = CHR 0x5C" "input ! (p + 1) = CHR ''u''"
      "parse_hex4 input (p + 2) = Inr (second, r)" "0xDC00 \<le> second" "second \<le> 0xDFFF"
      "codepoint = 0x10000 + push_bit 10 (first - 0xD800) + (second - 0xDC00)"
      using assms first by (auto simp: parse_unicode_def not_less split: if_splits sum.splits prod.splits)
    note r = parse_hex4_position [OF second(4)] parse_hex4_value [OF second(4)]
    have "slice_of input position r = slice_of input position p @ slice_of input p (p + 2) @ slice_of input (p + 2) r"
      using p(1) r(1) slice_append [of position p r input] slice_append [of p "p + 2" r input] by simp
    also have "slice_of input p (p + 2) = [CHR 0x5C, CHR ''u'']"
      using second(1-3) slice_Cons [of p "p + 2" input] slice_Cons [of "Suc p" "p + 2" input] by simp
    finally show ?thesis
      using unicode_pair [OF p(2) _ _ r(2) second(5,6)] True second(7) by (simp add: push_bit_eq_mult)
  next
    case False
    then have "codepoint = first" "r = p" "first < 0xD800 \<or> 0xDFFF < first"
      using assms first by (auto simp: parse_unicode_def split: if_splits)
    then show ?thesis using p(2) by (simp add: unicode_single)
  qed
qed

lemma string_loop_chars:
  "position \<le> length input \<Longrightarrow>
     (case string_loop input position out of
        Inl e \<Rightarrow> failure_ok input e
      | Inr (v, q) \<Rightarrow> position < q \<and> q \<le> length input \<and>
          (\<exists>raw w. v = out @ w \<and> json_chars raw w \<and> slice_of input position q = raw @ [CHR 0x22]))"
proof (induction "length input - position" arbitrary: position out rule: less_induct)
  case less
  show ?case
  proof (cases "position < length input")
    case False
    with less.prems show ?thesis by (simp add: string_loop_end failure_ok_def)
  next
    case True
    have ih: "case string_loop input p o' of Inl e \<Rightarrow> failure_ok input e
      | Inr (v, q) \<Rightarrow> p < q \<and> q \<le> length input \<and>
          (\<exists>raw w. v = o' @ w \<and> json_chars raw w \<and> slice_of input p q = raw @ [CHR 0x22])"
      if "position < p" "p \<le> length input" for p o'
      using less.hyps [of p o'] that True by simp
    have later: "case string_loop input p o' of Inl e \<Rightarrow> failure_ok input e
      | Inr (v, q) \<Rightarrow> position < q \<and> q \<le> length input \<and>
          (\<exists>raw w. v = out @ w \<and> json_chars raw w \<and> slice_of input position q = raw @ [CHR 0x22])"
      if p: "position < p" "p \<le> length input" "o' = out @ u"
        and chars: "\<And>raw w. json_chars raw w \<Longrightarrow> json_chars (slice_of input position p @ raw) (u @ w)" for p o' u
    proof (cases "string_loop input p o'")
      case (Inl e)
      then show ?thesis using ih [OF p(1,2), of o'] by simp
    next
      case (Inr r)
      obtain v q where r: "r = (v, q)" by (cases r)
      obtain raw w where rest: "p < q" "q \<le> length input" "v = o' @ w" "json_chars raw w"
        "slice_of input p q = raw @ [CHR 0x22]"
        using ih [OF p(1,2), of o'] Inr r by auto
      have "slice_of input position q = (slice_of input position p @ raw) @ [CHR 0x22]"
        using slice_append [of position p q input] rest p(1) by simp
      moreover have "v = out @ u @ w" using rest(3) p(3) by simp
      ultimately show ?thesis using chars [OF rest(4)] rest(1,2) p(1) Inr r by auto
    qed
    note one = slice_Cons [of position "position + 1" input] and two = slice_Cons [of position "position + 2" input]
      slice_Cons [of "Suc position" "position + 2" input]
    from True show ?thesis
    proof (cases rule: string_loop_round [where out = out])
      case close
      then show ?thesis using True one by (auto intro!: exI [of _ "[]"] chars_end)
    next
      case control
      then show ?thesis using True by (simp add: failure_ok_def)
    next
      case plain
      then show ?thesis
        using later [of "position + 1" "out @ [input ! position]" "[input ! position]"] True one
        by (simp add: chars_plain)
    next
      case cut
      then show ?thesis by (simp add: failure_ok_def)
    next
      case (escape d)
      then show ?thesis
        using later [of "position + 2" "out @ [d]" "[d]"] two by (simp add: chars_escape)
    next
      case (bad_unicode e)
      then show ?thesis using parse_unicode_failure by simp
    next
      case (unicode codepoint r)
      note r = parse_unicode_position [OF unicode(4)] parse_unicode_value [OF unicode(4)]
      have "slice_of input position r = CHR 0x5C # CHR ''u'' # slice_of input (position + 2) r"
        using slice_Cons [of position r input] slice_Cons [of "Suc position" r input] r(1) unicode by simp
      then show ?thesis
        using later [of r "append_utf8 out codepoint" "append_utf8 [] codepoint"] r unicode
        by (simp add: append_utf8_append [of out] chars_unicode)
    next
      case bad_escape
      then show ?thesis by (simp add: failure_ok_def)
    qed
  qed
qed

lemma parse_string_spec:
  assumes "position \<le> length input"
  shows "case parse_string input position of
      Inl e \<Rightarrow> failure_ok input e
    | Inr (v, q) \<Rightarrow> position < q \<and> q \<le> length input \<and> json_string (slice_of input position q) v"
proof (cases "consume input position CHR 0x22")
  case False
  with assms show ?thesis by (simp add: parse_string_def failure_ok_def)
next
  case True
  then have c: "position < length input" "input ! position = CHR 0x22" by (simp_all add: consume_def)
  note loop = string_loop_chars [of "position + 1" input "[]"]
  show ?thesis
  proof (cases "string_loop input (position + 1) []")
    case (Inl e)
    with True c loop show ?thesis by (simp add: parse_string_def)
  next
    case (Inr r)
    then obtain v q raw where "string_loop input (position + 1) [] = Inr (v, q)" "position + 1 < q" "q \<le> length input"
      "json_chars raw v" "slice_of input (position + 1) q = raw @ [CHR 0x22]"
      using loop c by (cases r) auto
    with True c slice_Cons [of position q input] show ?thesis by (auto simp: parse_string_def json_string_def)
  qed
qed

text \<open>A number token, and whether it has neither fraction nor exponent.\<close>

definition digits1 :: "string \<Rightarrow> bool" where
  "digits1 ds \<longleftrightarrow> ds \<noteq> [] \<and> list_all is_digit ds"

definition whole_ok :: "string \<Rightarrow> bool" where
  "whole_ok whole \<longleftrightarrow> whole = ''0'' \<or> digits1 whole \<and> hd whole \<noteq> CHR ''0''"

definition fraction_ok :: "string \<Rightarrow> bool" where
  "fraction_ok fraction \<longleftrightarrow> fraction = [] \<or> (\<exists>ds. fraction = CHR ''.'' # ds \<and> digits1 ds)"

definition exponent_ok :: "string \<Rightarrow> bool" where
  "exponent_ok expo \<longleftrightarrow> expo = [] \<or>
     (\<exists>e sgn ds. expo = e # sgn @ ds \<and> e \<in> {CHR ''e'', CHR ''E''} \<and> sgn \<in> {[], ''+'', ''-''} \<and> digits1 ds)"

definition number_token :: "string \<Rightarrow> bool \<Rightarrow> bool" where
  "number_token token integral \<longleftrightarrow>
     (\<exists>sgn whole fraction expo. token = sgn @ whole @ fraction @ expo \<and> sgn \<in> {[], ''-''} \<and>
        whole_ok whole \<and> fraction_ok fraction \<and> exponent_ok expo \<and>
        integral = (fraction = [] \<and> expo = []))"

lemma scan_digits:
  assumes "position < length input" "is_digit (input ! position)"
  shows "position < scan_while is_digit input position" "scan_while is_digit input position \<le> length input"
    "digits1 (slice_of input position (scan_while is_digit input position))"
    "hd (slice_of input position (scan_while is_digit input position)) = input ! position"
proof -
  let ?q = "scan_while is_digit input position"
  show q: "position < ?q" "?q \<le> length input"
    using assms by (simp_all add: scan_while_advances scan_while_le)
  then have "slice_of input position ?q = input ! position # slice_of input (Suc position) ?q"
    by (rule slice_Cons)
  then show "digits1 (slice_of input position ?q)" "hd (slice_of input position ?q) = input ! position"
    using scan_while_slice [of is_digit input position] by (simp_all add: digits1_def)
qed

lemma integer_part_spec:
  assumes "position \<le> length input"
  shows "case integer_part input position of
      Inl e \<Rightarrow> failure_ok input e
    | Inr p \<Rightarrow> position < p \<and> p \<le> length input \<and> whole_ok (slice_of input position p)"
proof (cases "consume input position CHR ''0''")
  case True
  then have "position < length input" "input ! position = CHR ''0''" by (simp_all add: consume_def)
  with True slice_Cons [of position "position + 1" input] show ?thesis
    by (simp add: integer_part_def failure_ok_def whole_ok_def)
next
  case False
  with assms scan_digits [of position input] show ?thesis
    by (auto simp: integer_part_def failure_ok_def whole_ok_def consume_def)
qed

lemma fraction_part_spec:
  assumes "position \<le> length input"
  shows "case fraction_part input position of
      Inl e \<Rightarrow> failure_ok input e
    | Inr (integral, p) \<Rightarrow> position \<le> p \<and> p \<le> length input \<and> fraction_ok (slice_of input position p) \<and>
        integral = (p = position)"
proof (cases "consume input position CHR ''.''")
  case True
  then have c: "position < length input" "input ! position = CHR ''.''" by (simp_all add: consume_def)
  let ?q = "scan_while is_digit input (position + 1)"
  show ?thesis
  proof (cases "position + 1 < length input \<and> is_digit (input ! (position + 1))")
    case digit: True
    note q = scan_digits [of "position + 1" input] 
    have "position < ?q" using q(1) digit by simp
    then have "slice_of input position ?q = CHR ''.'' # slice_of input (position + 1) ?q"
      using slice_Cons [of position ?q input] q(2) digit c by simp
    with True digit q show ?thesis by (auto simp: fraction_part_def fraction_ok_def)
  next
    case False
    with True c show ?thesis by (auto simp: fraction_part_def failure_ok_def)
  qed
next
  case False
  with assms show ?thesis by (simp add: fraction_part_def fraction_ok_def)
qed

lemma exponent_part_spec:
  assumes "position \<le> length input"
  shows "case exponent_part input (integral, position) of
      Inl e \<Rightarrow> failure_ok input e
    | Inr (integral', p) \<Rightarrow> position \<le> p \<and> p \<le> length input \<and> exponent_ok (slice_of input position p) \<and>
        integral' = (integral \<and> p = position)"
proof (cases "position < length input \<and> (input ! position = CHR ''e'' \<or> input ! position = CHR ''E'')")
  case True
  define p where "p = position + 1"
  define q where "q = (if p < length input \<and> (input ! p = CHR ''+'' \<or> input ! p = CHR ''-'') then p + 1 else p)"
  have q: "p \<le> q" "q \<le> length input" "slice_of input p q \<in> {[], ''+'', ''-''}"
    using True slice_Cons [of p "p + 1" input] by (auto simp: q_def p_def)
  have run: "exponent_part input (integral, position) =
      (if q \<ge> length input \<or> \<not> is_digit (input ! q) then Inl (je_invalid_number, q)
       else Inr (False, scan_while is_digit input q))"
    using True by (auto simp: exponent_part_def Let_def q_def p_def)
  show ?thesis
  proof (cases "q < length input \<and> is_digit (input ! q)")
    case digit: True
    define r where "r = scan_while is_digit input q"
    have r: "q < r" "r \<le> length input" "digits1 (slice_of input q r)"
      using scan_digits [of q input] digit by (simp_all add: r_def)
    have "slice_of input position r = input ! position # slice_of input p q @ slice_of input q r"
      using slice_Cons [of position r input] slice_append [of p q r input] q(1) r by (simp add: p_def)
    then have "exponent_ok (slice_of input position r)"
      unfolding exponent_ok_def using True q(3) r(3) by blast
    moreover have "position \<noteq> r" "position \<le> r" using q r by (simp_all add: p_def)
    ultimately show ?thesis using run digit r(2) by (auto simp: r_def)
  next
    case False
    with run q show ?thesis by (auto simp: failure_ok_def not_less)
  qed
next
  case False
  then have "exponent_part input (integral, position) = Inr (integral, position)"
    by (auto simp: exponent_part_def)
  with assms show ?thesis by (simp add: exponent_ok_def)
qed

definition json_number :: "string \<Rightarrow> json_event \<Rightarrow> bool" where
  "json_number token ev \<longleftrightarrow> (\<exists>integral. number_token token integral \<and> number_event token integral = Some ev)"

lemma parse_number_spec:
  assumes "start \<le> length input"
  shows "case parse_number input start of
      Inl e \<Rightarrow> failure_ok input e
    | Inr (ev, q) \<Rightarrow> start < q \<and> q \<le> length input \<and> json_number (slice_of input start q) ev"
proof -
  define position where "position = (if consume input start CHR ''-'' then start + 1 else start)"
  have position: "start \<le> position" "position \<le> length input" "slice_of input start position \<in> {[], ''-''}"
    using assms slice_Cons [of start "start + 1" input] by (auto simp: position_def consume_def)
  have minus: "failure_ok input (je_invalid_number, position)" using position by (simp add: failure_ok_def)
  have run: "parse_number input start =
     (if consume input start CHR ''-'' \<and> position \<ge> length input then Inl (je_invalid_number, position)
      else case integer_part input position of Inl e \<Rightarrow> Inl e
       | Inr p \<Rightarrow> (case fraction_part input p of Inl e \<Rightarrow> Inl e
           | Inr st \<Rightarrow> (case exponent_part input st of Inl e \<Rightarrow> Inl e
               | Inr (integral, q) \<Rightarrow> (case number_event (slice_of input start q) integral of
                    None \<Rightarrow> Inl (je_invalid_number, start) | Some ev \<Rightarrow> Inr (ev, q)))))"
    by (simp add: parse_number_def Let_def position_def)
  show ?thesis
  proof (cases "integer_part input position")
    case (Inl e)
    then show ?thesis using run minus integer_part_spec [OF position(2)] by simp
  next
    case whole_run: (Inr p)
    have whole: "position < p" "p \<le> length input" "whole_ok (slice_of input position p)"
      using integer_part_spec [OF position(2)] whole_run by simp_all
    show ?thesis
    proof (cases "fraction_part input p")
      case (Inl e)
      then show ?thesis using run minus whole_run fraction_part_spec [OF whole(2)] by simp
    next
      case (Inr st)
      then obtain flag f where fraction_run: "fraction_part input p = Inr (flag, f)" by (cases st) auto
      have fraction: "p \<le> f" "f \<le> length input" "fraction_ok (slice_of input p f)" "flag = (f = p)"
        using fraction_part_spec [OF whole(2)] fraction_run by simp_all
      show ?thesis
      proof (cases "exponent_part input (flag, f)")
        case (Inl e)
        then show ?thesis
          using run minus whole_run fraction_run exponent_part_spec [OF fraction(2), of flag] by simp
      next
        case (Inr r)
        then obtain integral q where expo_run: "exponent_part input (flag, f) = Inr (integral, q)" by (cases r) auto
        have expo: "f \<le> q" "q \<le> length input" "exponent_ok (slice_of input f q)" "integral = (flag \<and> q = f)"
          using exponent_part_spec [OF fraction(2), of flag] expo_run by simp_all
        have "slice_of input start q = slice_of input start position @ slice_of input position p @
            slice_of input p f @ slice_of input f q"
          using position whole fraction expo slice_append [of start position q input]
            slice_append [of position p q input] slice_append [of p f q input] by simp
        moreover have "integral = (slice_of input p f = [] \<and> slice_of input f q = [])"
          using fraction expo whole by auto
        ultimately have token: "number_token (slice_of input start q) integral"
          unfolding number_token_def using position(3) whole(3) fraction(3) expo(3) by blast
        have run': "parse_number input start =
           (if consume input start CHR ''-'' \<and> position \<ge> length input then Inl (je_invalid_number, position)
            else case number_event (slice_of input start q) integral of
                    None \<Rightarrow> Inl (je_invalid_number, start) | Some ev \<Rightarrow> Inr (ev, q))"
          using run whole_run fraction_run expo_run by simp
        show ?thesis
          using run' minus assms token position(1) whole fraction expo
          by (cases "number_event (slice_of input start q) integral") (auto simp: json_number_def failure_ok_def)
      qed
    qed
  qed
qed

section \<open>The grammar of values\<close>

datatype json =
    JString string
  | JInteger int
  | JNumber json_decimal
  | JBoolean bool
  | JNull
  | JArray "json list"
  | JObject "(string \<times> json) list"

abbreviation blanks :: "string \<Rightarrow> bool" where
  "blanks w \<equiv> list_all is_space w"

inductive value_text :: "json \<Rightarrow> string \<Rightarrow> bool"
  and elements_text :: "json list \<Rightarrow> string \<Rightarrow> bool"
  and members_text :: "(string \<times> json) list \<Rightarrow> string \<Rightarrow> bool" where
  text_string: "json_string raw v \<Longrightarrow> value_text (JString v) raw"
| text_integer: "json_number token (ev_integer i) \<Longrightarrow> value_text (JInteger i) token"
| text_number: "json_number token (ev_number d) \<Longrightarrow> value_text (JNumber d) token"
| text_true: "value_text (JBoolean True) ''true''"
| text_false: "value_text (JBoolean False) ''false''"
| text_null: "value_text JNull ''null''"
| text_empty_array: "blanks w \<Longrightarrow> value_text (JArray []) (''['' @ w @ '']'')"
| text_array: "elements_text js s \<Longrightarrow> value_text (JArray js) (''['' @ s @ '']'')"
| text_empty_object: "blanks w \<Longrightarrow> value_text (JObject []) (''{'' @ w @ ''}'')"
| text_object: "members_text ms s \<Longrightarrow> value_text (JObject ms) (''{'' @ s @ ''}'')"
| text_last_element: "blanks w \<Longrightarrow> value_text j s \<Longrightarrow> blanks w' \<Longrightarrow> elements_text [j] (w @ s @ w')"
| text_element:
    "blanks w \<Longrightarrow> value_text j s \<Longrightarrow> blanks w' \<Longrightarrow> elements_text js t \<Longrightarrow>
     elements_text (j # js) (w @ s @ w' @ '','' @ t)"
| text_last_member:
    "blanks u \<Longrightarrow> json_string raw k \<Longrightarrow> blanks u' \<Longrightarrow> blanks w \<Longrightarrow> value_text j s \<Longrightarrow> blanks w' \<Longrightarrow>
     members_text [(k, j)] (u @ raw @ u' @ '':'' @ w @ s @ w')"
| text_member:
    "blanks u \<Longrightarrow> json_string raw k \<Longrightarrow> blanks u' \<Longrightarrow> blanks w \<Longrightarrow> value_text j s \<Longrightarrow> blanks w' \<Longrightarrow>
     members_text ms t \<Longrightarrow> members_text ((k, j) # ms) (u @ raw @ u' @ '':'' @ w @ s @ w' @ '','' @ t)"

definition document_text :: "json \<Rightarrow> string \<Rightarrow> bool" where
  "document_text j s \<longleftrightarrow> (\<exists>w t w'. s = w @ t @ w' \<and> blanks w \<and> value_text j t \<and> blanks w')"

text \<open>The events of a tree, without the locations, and its nesting depth.\<close>

fun events_of :: "json \<Rightarrow> json_event list" where
  "events_of (JString v) = [ev_string v]"
| "events_of (JInteger i) = [ev_integer i]"
| "events_of (JNumber d) = [ev_number d]"
| "events_of (JBoolean b) = [ev_boolean b]"
| "events_of JNull = [ev_null]"
| "events_of (JArray js) = ev_array_begin # concat (map events_of js) @ [ev_array_end]"
| "events_of (JObject ms) =
     ev_object_begin # concat (map (\<lambda>(k, j). ev_key k # events_of j) ms) @ [ev_object_end]"

fun nesting :: "json \<Rightarrow> nat" where
  "nesting (JArray js) = Suc (fold max (map nesting js) 0)"
| "nesting (JObject ms) = Suc (fold max (map (\<lambda>(k, j). nesting j) ms) 0)"
| "nesting _ = 0"

definition structural :: "json_event list \<Rightarrow> json_event list" where
  "structural = filter (\<lambda>ev. case ev of ev_location _ \<Rightarrow> False | _ \<Rightarrow> True)"

section \<open>What a successful run has read\<close>

lemma structural_simps [simp]:
  "structural [] = []"
  "structural (xs @ ys) = structural xs @ structural ys"
  "structural (ev # xs) = (case ev of ev_location _ \<Rightarrow> structural xs | _ \<Rightarrow> ev # structural xs)"
  by (simp_all add: structural_def split: json_event.splits)

lemma fold_max_le: "fold max xs (a :: nat) \<le> m \<longleftrightarrow> a \<le> m \<and> (\<forall>x \<in> set xs. x \<le> m)"
  by (induction xs arbitrary: a) auto

lemma nesting_array [simp]:
  "nesting (JArray js) \<le> Suc m \<longleftrightarrow> (\<forall>j \<in> set js. nesting j \<le> m)"
  by (simp add: fold_max_le)

lemma nesting_object [simp]:
  "nesting (JObject ms) \<le> Suc m \<longleftrightarrow> (\<forall>j \<in> snd ` set ms. nesting j \<le> m)"
  by (auto simp: fold_max_le)

declare nesting.simps(1,2) [simp del]

lemma nesting_array_within:
  assumes "depth < m" "\<forall>j \<in> set js. depth + 1 + nesting j \<le> m"
  shows "depth + nesting (JArray js) \<le> m"
proof -
  have "nesting (JArray js) \<le> Suc (m - depth - 1)" unfolding nesting_array using assms by fastforce
  with assms(1) show ?thesis by linarith
qed

lemma nesting_object_within:
  assumes "depth < m" "\<forall>j \<in> snd ` set ms. depth + 1 + nesting j \<le> m"
  shows "depth + nesting (JObject ms) \<le> m"
proof -
  have "nesting (JObject ms) \<le> Suc (m - depth - 1)" unfolding nesting_object using assms by fastforce
  with assms(1) show ?thesis by linarith
qed

abbreviation member_events :: "(string \<times> json) list \<Rightarrow> json_event list" where
  "member_events ms \<equiv> concat (map (\<lambda>(k, j). ev_key k # events_of j) ms)"

text \<open>What a production has read when it succeeds: the text from \<open>start\<close> to \<open>q\<close> and its events.\<close>

definition reads ::
    "string \<Rightarrow> json_production \<Rightarrow> nat \<Rightarrow> nat \<Rightarrow> nat \<Rightarrow> json_event list \<Rightarrow> bool" where
  "reads input p depth start q events \<longleftrightarrow>
     (case p of
        pr_value \<Rightarrow> (\<exists>w t j. slice_of input start q = w @ t \<and> blanks w \<and> value_text j t \<and>
          events = events_of j \<and> depth + nesting j \<le> max_json_depth)
      | pr_object \<Rightarrow> (\<exists>j. value_text j (slice_of input start q) \<and> events = events_of j \<and>
          depth + nesting j \<le> max_json_depth)
      | pr_array \<Rightarrow> (\<exists>j. value_text j (slice_of input start q) \<and> events = events_of j \<and>
          depth + nesting j \<le> max_json_depth)
      | pr_object_loop \<Rightarrow> (\<exists>s ms. slice_of input start q = s @ ''}'' \<and> members_text ms s \<and>
          events = member_events ms @ [ev_object_end] \<and>
          (\<forall>j \<in> snd ` set ms. depth + 1 + nesting j \<le> max_json_depth))
      | pr_array_loop \<Rightarrow> (\<exists>s js. slice_of input start q = s @ '']'' \<and> elements_text js s \<and>
          events = concat (map events_of js) @ [ev_array_end] \<and>
          (\<forall>j \<in> set js. depth + 1 + nesting j \<le> max_json_depth)))"

definition run_spec :: "string \<Rightarrow> json_production \<Rightarrow> nat \<Rightarrow> nat \<Rightarrow> json_run \<Rightarrow> bool" where
  "run_spec input p depth start run \<longleftrightarrow>
     (case run of
        None \<Rightarrow> True
      | Some (events, Inl e) \<Rightarrow> failure_ok input e
      | Some (events, Inr q) \<Rightarrow> start < q \<and> q \<le> length input \<and> reads input p depth start q (structural events))"

text \<open>Where a production is called.\<close>

definition call_ok :: "string \<Rightarrow> json_production \<Rightarrow> nat \<Rightarrow> nat \<Rightarrow> bool" where
  "call_ok input p depth start \<longleftrightarrow>
     start \<le> length input \<and>
     (case p of
        pr_value \<Rightarrow> depth \<le> max_json_depth
      | pr_object \<Rightarrow> consume input start CHR ''{''
      | pr_array \<Rightarrow> consume input start CHR ''[''
      | pr_object_loop \<Rightarrow> depth < max_json_depth
      | pr_array_loop \<Rightarrow> depth < max_json_depth)"

definition calls_ok :: "string \<Rightarrow> json_calls \<Rightarrow> bool" where
  "calls_ok input call \<longleftrightarrow>
     (\<forall>p depth start. call_ok input p depth start \<longrightarrow> run_spec input p depth start (call p depth start))"

lemma calls_okD: "calls_ok input call \<Longrightarrow> call_ok input p depth start \<Longrightarrow> run_spec input p depth start (call p depth start)"
  by (simp add: calls_ok_def)

lemma run_spec_failure [simp]: "run_spec input p depth start (Some (events, Inl e)) \<longleftrightarrow> failure_ok input e"
  by (simp add: run_spec_def)

lemma run_spec_success [simp]:
  "run_spec input p depth start (Some (events, Inr q)) \<longleftrightarrow>
     start < q \<and> q \<le> length input \<and> reads input p depth start q (structural events)"
  by (simp add: run_spec_def)

lemma run_spec_None [simp]: "run_spec input p depth start None"
  by (simp add: run_spec_def)

lemma deliver_simps [simp]:
  "deliver events None = None"
  "deliver events (Some (later, r)) = Some (events @ later, r)"
  by (simp_all add: deliver_def)

text \<open>Failures pass through; a success is read after the events already delivered.\<close>

lemma run_spec_deliver:
  assumes "run_spec input p depth start run"
    and "\<And>q later. start < q \<Longrightarrow> q \<le> length input \<Longrightarrow> reads input p depth start q (structural later) \<Longrightarrow>
      start' < q \<and> reads input p' depth' start' q (structural (events @ later))"
  shows "run_spec input p' depth' start' (deliver events run)"
proof (cases run)
  case (Some r)
  obtain later s where r: "r = (later, s)" by (cases r)
  show ?thesis using assms Some r by (cases s) auto
qed simp

lemma skip_space_blanks: "blanks (slice_of input position (skip_space input position))"
  by (simp add: skip_space_def scan_while_slice)

lemma slice_skip:
  assumes "skip_space input start \<le> q"
  shows "slice_of input start q =
    slice_of input start (skip_space input start) @ slice_of input (skip_space input start) q"
  using assms by (intro slice_append) simp_all

lemma slice_mark:
  assumes "consume input next c"
  shows "slice_of input next (next + 1) = [c]" "next < length input"
  using assms slice_Cons [of "next" "next + 1" input] by (auto simp: consume_def)

definition scalar_spec :: "string \<Rightarrow> nat \<Rightarrow> json_event list \<times> (json_failure + nat) \<Rightarrow> bool" where
  "scalar_spec input position r \<longleftrightarrow>
     (case r of
        (events, Inl e) \<Rightarrow> failure_ok input e
      | (events, Inr q) \<Rightarrow> position < q \<and> q \<le> length input \<and>
          (\<exists>j. value_text j (slice_of input position q) \<and> structural events = events_of j \<and> nesting j = 0))"

lemma parse_literal_spec:
  assumes "position < length input" "literal \<noteq> []" "value_text j literal" "structural [event] = events_of j"
    "nesting j = 0"
  shows "scalar_spec input position (parse_literal input position literal event)"
proof (cases "take (length literal) (drop position input) = literal")
  case True
  then have "length literal \<le> length input - position" by (metis length_drop length_take min.bounded_iff min.cobounded1 order_refl)
  then have "position + length literal \<le> length input" using assms(1) by linarith
  with True assms show ?thesis by (auto simp: parse_literal_def scalar_spec_def)
next
  case False
  with assms show ?thesis by (simp add: parse_literal_def scalar_spec_def failure_ok_def)
qed

lemma number_event_value:
  assumes "json_number token ev"
  shows "\<exists>j. value_text j token \<and> structural [ev] = events_of j \<and> nesting j = 0"
proof -
  have "(\<exists>i. ev = ev_integer i) \<or> (\<exists>d. ev = ev_number d)"
    using assms by (auto simp: json_number_def number_event_def split: if_splits)
  then show ?thesis
  proof
    assume "\<exists>i. ev = ev_integer i"
    then obtain i where "ev = ev_integer i" by blast
    with assms text_integer show ?thesis by (intro exI [of _ "JInteger i"]) simp
  next
    assume "\<exists>d. ev = ev_number d"
    then obtain d where "ev = ev_number d" by blast
    with assms text_number show ?thesis by (intro exI [of _ "JNumber d"]) simp
  qed
qed

lemma parse_scalar_spec:
  assumes "position < length input"
  shows "scalar_spec input position (parse_scalar input position)"
proof -
  have string: "scalar_spec input position (case parse_string input position of
      Inl e \<Rightarrow> ([], Inl e) | Inr (v, q) \<Rightarrow> ([ev_string v], Inr q))"
  proof (cases "parse_string input position")
    case (Inl e)
    then show ?thesis using parse_string_spec [of position input] assms by (simp add: scalar_spec_def)
  next
    case (Inr r)
    obtain v q where "r = (v, q)" by (cases r)
    with Inr show ?thesis
      using parse_string_spec [of position input] assms text_string [of "slice_of input position q" v]
      by (auto simp: scalar_spec_def intro!: exI [of _ "JString v"])
  qed
  have number: "scalar_spec input position (case parse_number input position of
      Inl e \<Rightarrow> ([], Inl e) | Inr (ev, q) \<Rightarrow> ([ev], Inr q))"
  proof (cases "parse_number input position")
    case (Inl e)
    then show ?thesis using parse_number_spec [of position input] assms by (simp add: scalar_spec_def)
  next
    case (Inr r)
    obtain ev q where "r = (ev, q)" by (cases r)
    with Inr show ?thesis
      using parse_number_spec [of position input] assms number_event_value [of "slice_of input position q" ev]
      by (simp add: scalar_spec_def)
  qed
  have literals:
    "scalar_spec input position (parse_literal input position ''true'' (ev_boolean True))"
    "scalar_spec input position (parse_literal input position ''false'' (ev_boolean False))"
    "scalar_spec input position (parse_literal input position ''null'' ev_null)"
    using assms parse_literal_spec [OF assms _ text_true] parse_literal_spec [OF assms _ text_false]
      parse_literal_spec [OF assms _ text_null] by simp_all
  show ?thesis
    using string number literals assms
    by (simp add: parse_scalar_def Let_def) (simp add: scalar_spec_def failure_ok_def)
qed

lemma parse_value_body_spec:
  assumes calls: "calls_ok input call" and ok: "call_ok input pr_value depth start"
  shows "run_spec input pr_value depth start (parse_value_body call input depth start)"
proof -
  let ?p = "skip_space input start"
  have start: "start \<le> length input" "depth \<le> max_json_depth" using ok by (simp_all add: call_ok_def)
  have p: "start \<le> ?p" "?p \<le> length input" using start by (simp_all add: skip_space_le)
  show ?thesis
  proof (cases "?p < length input")
    case False
    with p show ?thesis by (simp add: parse_value_body_def failure_ok_def)
  next
    case True
    have value_reads: "reads input pr_value depth start q (structural ([ev_location ?p] @ later))"
      if "?p < q" "value_text j (slice_of input ?p q)" "structural later = events_of j"
        "depth + nesting j \<le> max_json_depth" for q later j
      using that p skip_space_blanks [of input start] slice_skip [of input start q]
      by (auto simp: reads_def)
    have nested: "run_spec input pr_value depth start (deliver [ev_location ?p] (call production depth ?p))"
      if "run_spec input production depth ?p (call production depth ?p)" "production \<in> {pr_object, pr_array}"
      for production
    proof (rule run_spec_deliver [OF that(1)])
      fix q later
      assume q: "?p < q" "reads input production depth ?p q (structural later)"
      have "start < q" using p(1) q(1) by (rule le_less_trans)
      with q that(2) value_reads [of q _ later] show
        "start < q \<and> reads input pr_value depth start q (structural ([ev_location ?p] @ later))"
        by (auto simp: reads_def [of _ pr_object] reads_def [of _ pr_array])
    qed
    have scalar: "run_spec input pr_value depth start (deliver [ev_location ?p] (Some (parse_scalar input ?p)))"
    proof -
      obtain events r where run: "parse_scalar input ?p = (events, r)" by (cases "parse_scalar input ?p")
      show ?thesis
        using parse_scalar_spec [OF True] run p(1) start(2) value_reads [of _ _ events]
        by (cases r) (auto simp: scalar_spec_def dest: before_skip_space)
    qed
    show ?thesis
      using True nested [of pr_object] nested [of pr_array] scalar
        calls_okD [OF calls, of pr_object depth ?p] calls_okD [OF calls, of pr_array depth ?p]
      by (simp add: parse_value_body_def Let_def call_ok_def consume_def not_le)
  qed
qed

text \<open>Leading blanks belong to the first element or member.\<close>

lemma members_text_blanks:
  assumes "members_text ms s" "blanks w"
  shows "members_text ms (w @ s)"
  using assms(1)
proof cases
  case (text_last_member u raw k u' v j t v')
  then show ?thesis
    using value_text_elements_text_members_text.text_last_member [of "w @ u" raw k u' v j t v'] assms(2) by simp
next
  case (text_member u raw k u' v j t v' rest r)
  then show ?thesis
    using value_text_elements_text_members_text.text_member [of "w @ u" raw k u' v j t v' rest r] assms(2) by simp
qed

lemma elements_text_blanks:
  assumes "elements_text js s" "blanks w"
  shows "elements_text js (w @ s)"
  using assms(1)
proof cases
  case (text_last_element u j t u')
  then show ?thesis
    using value_text_elements_text_members_text.text_last_element [of "w @ u" j t u'] assms(2) by simp
next
  case (text_element u j t u' rest r)
  then show ?thesis
    using value_text_elements_text_members_text.text_element [of "w @ u" j t u' rest r] assms(2) by simp
qed

text \<open>The bodies of objects and arrays before their loops.\<close>

lemma slice_braced:
  assumes "consume input start c" "start < position" "position \<le> q" "q \<le> length input"
  shows "slice_of input start q = c # slice_of input (start + 1) position @ slice_of input position q"
  using assms slice_Cons [of start q input] slice_append [of "start + 1" position q input]
  by (simp add: consume_def)

lemma parse_object_body_spec:
  assumes calls: "calls_ok input call" and ok: "call_ok input pr_object depth start"
  shows "run_spec input pr_object depth start (parse_object_body call input depth start)"
proof (cases "depth < max_json_depth")
  case False
  with ok show ?thesis by (simp add: parse_object_body_def call_ok_def failure_ok_def)
next
  case True
  let ?p = "skip_space input (start + 1)"
  have start: "consume input start CHR ''{''" "start + 1 \<le> length input"
    using ok by (auto simp: call_ok_def consume_def)
  have p: "start < ?p" "?p \<le> length input"
    using start(2) by (simp_all add: skip_space_le skip_space_gt)
  note w = skip_space_blanks [of input "start + 1"]
  show ?thesis
  proof (cases "consume input ?p CHR ''}''")
    case empty: True
    note mark = slice_mark [OF empty]
    have "slice_of input start (?p + 1) = ''{'' @ slice_of input (start + 1) ?p @ ''}''"
      using slice_braced [OF start(1) p(1), of "?p + 1"] mark by simp
    then have "value_text (JObject []) (slice_of input start (?p + 1))" using text_empty_object [OF w] by simp
    moreover have "depth + nesting (JObject []) \<le> max_json_depth" using True by (simp add: nesting.simps)
    ultimately show ?thesis
      using True empty p mark by (auto simp: parse_object_body_def Let_def reads_def intro!: exI [of _ "JObject []"])
  next
    case False
    have "run_spec input pr_object_loop depth ?p (call pr_object_loop depth ?p)"
      using calls_okD [OF calls, of pr_object_loop depth ?p] True p by (simp add: call_ok_def)
    then have "run_spec input pr_object depth start (deliver [ev_object_begin] (call pr_object_loop depth ?p))"
    proof (rule run_spec_deliver)
      fix q later
      assume q: "?p < q" "q \<le> length input" "reads input pr_object_loop depth ?p q (structural later)"
      then obtain s ms where s: "slice_of input ?p q = s @ ''}''" "members_text ms s"
        "structural later = member_events ms @ [ev_object_end]"
        "\<forall>j \<in> snd ` set ms. depth + 1 + nesting j \<le> max_json_depth" by (auto simp: reads_def)
      have "slice_of input start q = ''{'' @ (slice_of input (start + 1) ?p @ s) @ ''}''"
        using slice_braced [OF start(1) p(1) _ q(2)] q(1) s(1) by simp
      moreover have "members_text ms (slice_of input (start + 1) ?p @ s)"
        using s(2) w by (rule members_text_blanks)
      ultimately have "value_text (JObject ms) (slice_of input start q)" by (simp only: text_object)
      moreover have "depth + nesting (JObject ms) \<le> max_json_depth"
        using True s(4) by (rule nesting_object_within)
      ultimately show "start < q \<and> reads input pr_object depth start q (structural ([ev_object_begin] @ later))"
        using s(3) p(1) q(1) by (auto simp: reads_def intro!: exI [of _ "JObject ms"])
    qed
    with True False show ?thesis by (simp add: parse_object_body_def Let_def)
  qed
qed

lemma parse_array_body_spec:
  assumes calls: "calls_ok input call" and ok: "call_ok input pr_array depth start"
  shows "run_spec input pr_array depth start (parse_array_body call input depth start)"
proof (cases "depth < max_json_depth")
  case False
  with ok show ?thesis by (simp add: parse_array_body_def call_ok_def failure_ok_def)
next
  case True
  let ?p = "skip_space input (start + 1)"
  have start: "consume input start CHR ''[''" "start + 1 \<le> length input"
    using ok by (auto simp: call_ok_def consume_def)
  have p: "start < ?p" "?p \<le> length input"
    using start(2) by (simp_all add: skip_space_le skip_space_gt)
  note w = skip_space_blanks [of input "start + 1"]
  show ?thesis
  proof (cases "consume input ?p CHR '']''")
    case empty: True
    note mark = slice_mark [OF empty]
    have "slice_of input start (?p + 1) = ''['' @ slice_of input (start + 1) ?p @ '']''"
      using slice_braced [OF start(1) p(1), of "?p + 1"] mark by simp
    then have "value_text (JArray []) (slice_of input start (?p + 1))" using text_empty_array [OF w] by simp
    moreover have "depth + nesting (JArray []) \<le> max_json_depth" using True by (simp add: nesting.simps)
    ultimately show ?thesis
      using True empty p mark by (auto simp: parse_array_body_def Let_def reads_def intro!: exI [of _ "JArray []"])
  next
    case False
    have "run_spec input pr_array_loop depth ?p (call pr_array_loop depth ?p)"
      using calls_okD [OF calls, of pr_array_loop depth ?p] True p by (simp add: call_ok_def)
    then have "run_spec input pr_array depth start (deliver [ev_array_begin] (call pr_array_loop depth ?p))"
    proof (rule run_spec_deliver)
      fix q later
      assume q: "?p < q" "q \<le> length input" "reads input pr_array_loop depth ?p q (structural later)"
      then obtain s js where s: "slice_of input ?p q = s @ '']''" "elements_text js s"
        "structural later = concat (map events_of js) @ [ev_array_end]"
        "\<forall>j \<in> set js. depth + 1 + nesting j \<le> max_json_depth" by (auto simp: reads_def)
      have "slice_of input start q = ''['' @ (slice_of input (start + 1) ?p @ s) @ '']''"
        using slice_braced [OF start(1) p(1) _ q(2)] q(1) s(1) by simp
      moreover have "elements_text js (slice_of input (start + 1) ?p @ s)"
        using s(2) w by (rule elements_text_blanks)
      ultimately have "value_text (JArray js) (slice_of input start q)" by (simp only: text_array)
      moreover have "depth + nesting (JArray js) \<le> max_json_depth"
        using True s(4) by (rule nesting_array_within)
      ultimately show "start < q \<and> reads input pr_array depth start q (structural ([ev_array_begin] @ later))"
        using s(3) p(1) q(1) by (auto simp: reads_def intro!: exI [of _ "JArray js"])
    qed
    with True False show ?thesis by (simp add: parse_array_body_def Let_def)
  qed
qed

text \<open>
  What follows a value in a loop. \<open>before\<close> is what the round has read before the value; the value starts
  at \<open>vstart\<close>.
\<close>

lemma after_value_spec:
  assumes run: "run_spec input pr_value (depth + 1) vstart run" and v: "start \<le> vstart"
    and closed: "\<And>q w t j w' events. slice_of input vstart q = w @ t @ w' @ [mark] \<Longrightarrow> start < q \<Longrightarrow> q \<le> length input \<Longrightarrow>
      blanks w \<Longrightarrow> value_text j t \<Longrightarrow> blanks w' \<Longrightarrow> structural events = events_of j \<Longrightarrow> depth + 1 + nesting j \<le> max_json_depth \<Longrightarrow>
      reads input loop depth start q (structural (before @ events @ [closing]))"
    and again: "\<And>next q w t j w' events later. slice_of input vstart next = w @ t @ w' @ '','' \<Longrightarrow> start < next \<Longrightarrow>
      next < q \<Longrightarrow> q \<le> length input \<Longrightarrow> blanks w \<Longrightarrow> value_text j t \<Longrightarrow> blanks w' \<Longrightarrow> structural events = events_of j \<Longrightarrow>
      depth + 1 + nesting j \<le> max_json_depth \<Longrightarrow> reads input loop depth next q (structural later) \<Longrightarrow>
      reads input loop depth start q (structural (before @ events @ later))"
    and calls: "calls_ok input call" "\<And>next. next \<le> length input \<Longrightarrow> call_ok input loop depth next"
    and location: "structural [closing] = [closing]"
  shows "run_spec input loop depth start
    (deliver before (after_value call loop mark closing input depth run))"
proof (cases run)
  case None
  then show ?thesis by (simp add: after_value_def)
next
  case (Some r)
  obtain events s where r: "r = (events, s)" by (cases r)
  show ?thesis
  proof (cases s)
    case (Inl e)
    with Some r run show ?thesis by (simp add: after_value_def)
  next
    case (Inr q)
    then obtain w t j where q: "vstart < q" "q \<le> length input" "slice_of input vstart q = w @ t" "blanks w"
      "value_text j t" "structural events = events_of j" "depth + 1 + nesting j \<le> max_json_depth"
      using run Some r by (auto simp: reads_def)
    let ?next = "skip_space input q"
    note w' = skip_space_blanks [of input q]
    have mark_slice: "slice_of input vstart (?next + 1) = w @ t @ slice_of input q ?next @ [c]"
      if "consume input ?next c" for c
      using slice_append [of vstart q "?next + 1" input] slice_append [of q ?next "?next + 1" input]
        slice_mark [OF that] q by (simp add: le_SucI)
    have n: "start < ?next + 1" "?next \<le> length input"
      using v q(1,2) skip_space_gt [OF q(1), of input] by (simp_all add: skip_space_le)
    consider (last) "consume input ?next mark"
      | (more) "\<not> consume input ?next mark" "consume input ?next CHR '',''"
      | (bad) "\<not> consume input ?next mark" "\<not> consume input ?next CHR '',''" by blast
    then show ?thesis
    proof cases
      case last
      from closed [OF mark_slice [OF last] n(1) _ q(4,5) w' q(6,7)] slice_mark(2) [OF last] n(1) location
      show ?thesis using Some r Inr last by (simp add: after_value_def Let_def)
    next
      case more
      have "?next + 1 \<le> length input" using slice_mark(2) [OF more(2)] by simp
      then have "run_spec input loop depth (?next + 1) (call loop depth (?next + 1))"
        using calls by (blast intro: calls_okD)
      then have "run_spec input loop depth start (deliver (before @ events) (call loop depth (?next + 1)))"
      proof (rule run_spec_deliver)
        fix q' later
        assume "?next + 1 < q'" "q' \<le> length input" "reads input loop depth (?next + 1) q' (structural later)"
        with again [OF mark_slice [OF more(2)] n(1) _ _ q(4,5) w' q(6,7)] n(1)
        show "start < q' \<and> reads input loop depth start q' (structural ((before @ events) @ later))" by simp
      qed
      moreover have "deliver (before @ events) run' = deliver before (deliver events run')" for run'
        by (cases run') auto
      ultimately show ?thesis using Some r Inr more by (simp add: after_value_def Let_def)
    next
      case bad
      with Some r Inr n(2) show ?thesis by (simp add: after_value_def Let_def failure_ok_def)
    qed
  qed
qed

lemma array_loop_body_spec:
  assumes calls: "calls_ok input call" and ok: "call_ok input pr_array_loop depth start"
  shows "run_spec input pr_array_loop depth start (array_loop_body call input depth start)"
proof -
  have start: "start \<le> length input" "depth < max_json_depth" using ok by (simp_all add: call_ok_def)
  have "run_spec input pr_array_loop depth start (deliver [] (after_value call pr_array_loop CHR '']'' ev_array_end
      input depth (call pr_value (depth + 1) start)))"
  proof (rule after_value_spec)
    show "run_spec input pr_value (depth + 1) start (call pr_value (depth + 1) start)"
      using start by (intro calls_okD [OF calls]) (simp add: call_ok_def)
  next
    fix q w t j w' events
    assume "slice_of input start q = w @ t @ w' @ [CHR '']'']" "blanks w" "value_text j t" "blanks w'"
      "structural events = events_of j" "depth + 1 + nesting j \<le> max_json_depth"
    with text_last_element [of w j t w'] show
      "reads input pr_array_loop depth start q (structural ([] @ events @ [ev_array_end]))"
      by (auto simp: reads_def intro!: exI [of _ "w @ t @ w'"] exI [of _ "[j]"])
  next
    fix "next" q w t j w' events later
    assume a: "slice_of input start next = w @ t @ w' @ '',''" "start < next" "next < q" "blanks w" "value_text j t"
      "blanks w'" "structural events = events_of j" "depth + 1 + nesting j \<le> max_json_depth"
      "reads input pr_array_loop depth next q (structural later)"
    then obtain s js where s: "slice_of input next q = s @ '']''" "elements_text js s"
      "structural later = concat (map events_of js) @ [ev_array_end]"
      "\<forall>j \<in> set js. depth + 1 + nesting j \<le> max_json_depth" by (auto simp: reads_def)
    have "slice_of input start q = (w @ t @ w' @ '','' @ s) @ '']''"
      using slice_append [of start "next" q input] a s(1) by simp
    with text_element [OF a(4-6) s(2)] s a(7,8)
    show "reads input pr_array_loop depth start q (structural ([] @ events @ later))"
      unfolding reads_def by (auto intro!: exI [of _ "w @ t @ w' @ '','' @ s"] exI [of _ "j # js"])
  qed (use calls start in \<open>simp_all add: call_ok_def\<close>)
  moreover have "deliver [] run = run" for run by (cases run) auto
  ultimately show ?thesis by (simp add: array_loop_body_def)
qed

lemma object_loop_body_spec:
  assumes calls: "calls_ok input call" and ok: "call_ok input pr_object_loop depth start"
  shows "run_spec input pr_object_loop depth start (object_loop_body call input depth start)"
proof -
  let ?p = "skip_space input start"
  have start: "start \<le> length input" "depth < max_json_depth" using ok by (simp_all add: call_ok_def)
  have p: "start \<le> ?p" "?p \<le> length input" using start by (simp_all add: skip_space_le)
  show ?thesis
  proof (cases "?p < length input")
    case False
    with p show ?thesis by (simp add: object_loop_body_def failure_ok_def)
  next
    case inside: True
    show ?thesis
    proof (cases "parse_string input ?p")
      case (Inl e)
      then show ?thesis using inside parse_string_spec [OF p(2)] by (simp add: object_loop_body_def Let_def)
    next
      case (Inr r)
      obtain name q where r: "r = (name, q)" by (cases r)
      have q: "?p < q" "q \<le> length input" "json_string (slice_of input ?p q) name"
        using parse_string_spec [OF p(2)] Inr r by simp_all
      let ?c = "skip_space input q"
      have c: "?c \<le> length input" using q by (simp add: skip_space_le)
      show ?thesis
      proof (cases "consume input ?c CHR '':''")
        case False
        with inside Inr r c show ?thesis by (simp add: object_loop_body_def Let_def failure_ok_def)
      next
        case colon: True
        note mark = slice_mark [OF colon]
        let ?before = "[ev_location ?p, ev_key name]" and ?v = "?c + 1"
        have order: "start < ?v" "q \<le> ?v" "?p \<le> ?v"
          using p q skip_space_ge [of q input] by linarith+
        define head where "head = slice_of input start ?p @ slice_of input ?p q @ slice_of input q ?c @ '':''"
        have head: "slice_of input start ?v = head"
          using slice_append [of start ?p ?v input] slice_append [of ?p q ?v input] slice_append [of q ?c ?v input]
            mark p q order by (simp add: head_def)
        have blank: "blanks (slice_of input start ?p)" "blanks (slice_of input q ?c)"
          by (rule skip_space_blanks)+
        have "run_spec input pr_object_loop depth start (deliver ?before (after_value call pr_object_loop CHR ''}''
            ev_object_end input depth (call pr_value (depth + 1) ?v)))"
        proof (rule after_value_spec)
          show "run_spec input pr_value (depth + 1) ?v (call pr_value (depth + 1) ?v)"
            using start mark by (intro calls_okD [OF calls]) (simp add: call_ok_def)
        next
          fix q' w t j w' events
          assume a: "slice_of input ?v q' = w @ t @ w' @ [CHR ''}'']" "start < q'" "blanks w" "value_text j t" "blanks w'"
            "structural events = events_of j" "depth + 1 + nesting j \<le> max_json_depth"
          have "?v \<le> q'" using a(1) by (cases "?v \<le> q'") auto
          then have "slice_of input start q' = (head @ w @ t @ w') @ ''}''"
            using slice_append [of start ?v q' input] order a(1) head by simp
          moreover have "members_text [(name, j)] (head @ w @ t @ w')"
            using text_last_member [OF blank(1) q(3) blank(2) a(3-5)] by (simp add: head_def)
          ultimately show "reads input pr_object_loop depth start q' (structural (?before @ events @ [ev_object_end]))"
            unfolding reads_def using a(6,7) by (auto intro!: exI [of _ "head @ w @ t @ w'"] exI [of _ "[(name, j)]"])
        next
          fix "next" q' w t j w' events later
          assume a: "slice_of input ?v next = w @ t @ w' @ '',''" "start < next" "next < q'" "blanks w" "value_text j t"
            "blanks w'" "structural events = events_of j" "depth + 1 + nesting j \<le> max_json_depth"
            "reads input pr_object_loop depth next q' (structural later)"
          then obtain s ms where s: "slice_of input next q' = s @ ''}''" "members_text ms s"
            "structural later = member_events ms @ [ev_object_end]"
            "\<forall>j \<in> snd ` set ms. depth + 1 + nesting j \<le> max_json_depth" by (auto simp: reads_def)
          have "?v \<le> next" using a(1) by (cases "?v \<le> next") auto
          then have "slice_of input start q' = (head @ w @ t @ w' @ '','' @ s) @ ''}''"
            using slice_append [of start ?v q' input] slice_append [of ?v "next" q' input] order a(1,3) s(1) head by simp
          moreover have "members_text ((name, j) # ms) (head @ w @ t @ w' @ '','' @ s)"
            using text_member [OF blank(1) q(3) blank(2) a(4-6) s(2)] by (simp add: head_def)
          ultimately show "reads input pr_object_loop depth start q' (structural (?before @ events @ later))"
            unfolding reads_def using a(7,8) s(3,4)
            by (auto intro!: exI [of _ "head @ w @ t @ w' @ '','' @ s"] exI [of _ "(name, j) # ms"])
        qed (use calls start order in \<open>simp_all add: call_ok_def\<close>)
        moreover have "deliver [ev_location ?p] (deliver [ev_key name] run) = deliver ?before run" for run
          by (cases run) auto
        ultimately show ?thesis using inside Inr r colon by (simp add: object_loop_body_def Let_def)
      qed
    qed
  qed
qed

lemma parse_production_ok: "calls_ok input (parse_production fuel input)"
proof (induction fuel)
  case 0
  show ?case by (simp add: calls_ok_def)
next
  case (Suc fuel)
  show ?case
    unfolding calls_ok_def
  proof (intro allI impI)
    fix p depth start
    assume "call_ok input p depth start"
    then show "run_spec input p depth start (parse_production (Suc fuel) input p depth start)"
      using parse_value_body_spec [OF Suc] parse_object_body_spec [OF Suc] object_loop_body_spec [OF Suc]
        parse_array_body_spec [OF Suc] array_loop_body_spec [OF Suc]
      by (cases p) simp_all
  qed
qed

lemmas parse_production_spec = calls_okD [OF parse_production_ok]

section \<open>The fuel suffices\<close>

text \<open>
  Every call goes on at a later position, or at the same one from a loop to its value and from a value to
  its object or array.
\<close>

definition fuel_needed :: "string \<Rightarrow> json_production \<Rightarrow> nat \<Rightarrow> nat" where
  "fuel_needed input p start =
     3 * (length input - start) +
     (case p of pr_value \<Rightarrow> 1 | pr_object \<Rightarrow> 0 | pr_array \<Rightarrow> 0 | pr_object_loop \<Rightarrow> 2 | pr_array_loop \<Rightarrow> 2)"

lemma deliver_None [simp]: "deliver events run = None \<longleftrightarrow> run = None"
  by (cases run) auto

lemma after_value_fuel:
  assumes run: "run \<noteq> None" "run_spec input pr_value depth' vstart run" and v: "start \<le> vstart"
    and loop: "\<And>next. start < next \<Longrightarrow> next \<le> length input \<Longrightarrow> call loop depth next \<noteq> None"
  shows "after_value call loop mark closing input depth run \<noteq> None"
proof -
  obtain events s where r: "run = Some (events, s)" using run(1) by auto
  show ?thesis
  proof (cases s)
    case (Inl e)
    with r show ?thesis by (simp add: after_value_def)
  next
    case (Inr q)
    then have "start < skip_space input q + 1"
      using run(2) r v skip_space_gt [of vstart q input] by simp
    with Inr r loop show ?thesis
      by (auto simp: after_value_def Let_def dest!: consume_lt)
  qed
qed

lemma parse_production_fuel:
  "call_ok input p depth start \<Longrightarrow> fuel_needed input p start \<le> fuel \<Longrightarrow>
     parse_production fuel input p depth start \<noteq> None"
proof (induction fuel arbitrary: p depth start)
  case 0
  then have "p = pr_object \<or> p = pr_array" "start \<ge> length input"
    by (auto simp: fuel_needed_def split: json_production.splits)
  with 0 show ?case by (auto simp: call_ok_def consume_def)
next
  case (Suc fuel)
  let ?call = "parse_production fuel input" and ?L = "length input"
  note ok = Suc.prems(1) and enough = Suc.prems(2)
  have loop: "?call l depth next \<noteq> None"
    if "l \<in> {pr_object_loop, pr_array_loop}" "depth < max_json_depth" "next \<le> ?L" "3 * (?L - next) + 2 \<le> fuel"
    for l "next"
    using that Suc.IH [of l depth "next"] by (auto simp: call_ok_def fuel_needed_def)
  have val: "?call pr_value (depth + 1) v \<noteq> None" "run_spec input pr_value (depth + 1) v (?call pr_value (depth + 1) v)"
    if "depth < max_json_depth" "v \<le> ?L" "3 * (?L - v) + 1 \<le> fuel" for v
    using that Suc.IH [of pr_value "depth + 1" v] parse_production_spec [of input pr_value "depth + 1" v fuel]
    by (auto simp: call_ok_def fuel_needed_def)
  show ?case
  proof (cases p)
    case pr_value
    let ?p = "skip_space input start"
    have bound: "3 * (?L - ?p) \<le> 3 * (?L - start)" by (intro mult_le_mono2 diff_le_mono2) simp
    have "?call l depth ?p \<noteq> None"
      if "l = pr_object \<and> consume input ?p CHR ''{'' \<or> l = pr_array \<and> consume input ?p CHR ''[''" for l
      using that bound enough pr_value Suc.IH [of l depth ?p] consume_lt
      by (fastforce simp: call_ok_def fuel_needed_def)
    then show ?thesis
      by (auto simp: pr_value parse_value_body_def Let_def consume_def not_le simp del: not_None_eq)
  next
    case pr_object
    let ?p = "skip_space input (start + 1)"
    have p: "start < ?p" "?p \<le> ?L" using ok pr_object by (auto simp: call_ok_def consume_def skip_space_gt skip_space_le)
    then have "3 * (?L - ?p) + 2 \<le> fuel" using enough pr_object by (simp add: fuel_needed_def)
    then show ?thesis
      using loop [of pr_object_loop ?p] p by (simp add: pr_object parse_object_body_def Let_def del: not_None_eq)
  next
    case pr_array
    let ?p = "skip_space input (start + 1)"
    have p: "start < ?p" "?p \<le> ?L" using ok pr_array by (auto simp: call_ok_def consume_def skip_space_gt skip_space_le)
    then have "3 * (?L - ?p) + 2 \<le> fuel" using enough pr_array by (simp add: fuel_needed_def)
    then show ?thesis
      using loop [of pr_array_loop ?p] p by (simp add: pr_array parse_array_body_def Let_def del: not_None_eq)
  next
    case pr_array_loop
    have start: "start \<le> ?L" "depth < max_json_depth" using ok pr_array_loop by (simp_all add: call_ok_def)
    have "after_value ?call pr_array_loop CHR '']'' ev_array_end input depth (?call pr_value (depth + 1) start) \<noteq> None"
    proof (rule after_value_fuel [OF val order_refl])
      show "depth < max_json_depth" "start \<le> ?L" "depth < max_json_depth" "start \<le> ?L"
        "3 * (?L - start) + 1 \<le> fuel" "3 * (?L - start) + 1 \<le> fuel"
        using start enough pr_array_loop by (simp_all add: fuel_needed_def)
      show "?call pr_array_loop depth next \<noteq> None" if "start < next" "next \<le> ?L" for "next"
        using that start enough pr_array_loop by (intro loop) (simp_all add: fuel_needed_def)
    qed
    then show ?thesis by (simp add: pr_array_loop array_loop_body_def)
  next
    case pr_object_loop
    have start: "start \<le> ?L" "depth < max_json_depth" using ok pr_object_loop by (simp_all add: call_ok_def)
    let ?p = "skip_space input start"
    have "after_value ?call pr_object_loop CHR ''}'' ev_object_end input depth
        (?call pr_value (depth + 1) (skip_space input q + 1)) \<noteq> None"
      if "parse_string input ?p = Inr (name, q)" "consume input (skip_space input q) CHR '':''" for name q
    proof -
      have "?p < q" using parse_string_spec [of ?p input] start(1) that(1) by (simp add: skip_space_le)
      then have "start < skip_space input q + 1"
        using before_skip_space [of input start q] skip_space_ge [of q input] by linarith
      then have v: "start \<le> skip_space input q + 1" "skip_space input q + 1 \<le> ?L"
        "3 * (?L - (skip_space input q + 1)) + 1 \<le> fuel"
        using enough pr_object_loop consume_lt [OF that(2)] by (simp_all add: fuel_needed_def)
      show ?thesis
      proof (rule after_value_fuel [OF val(1) [OF start(2) v(2,3)] val(2) [OF start(2) v(2,3)] v(1)])
        show "?call pr_object_loop depth next \<noteq> None" if "start < next" "next \<le> ?L" for "next"
          using that start enough pr_object_loop by (intro loop) (simp_all add: fuel_needed_def)
      qed
    qed
    then show ?thesis
      by (auto simp: pr_object_loop object_loop_body_def Let_def simp del: not_None_eq split: sum.splits)
  qed
qed

section \<open>Results\<close>

lemma run_parser_cases:
  obtains (failed) events c offset where "parse_json input = (events, \<lparr>result_code = c, result_offset = offset\<rparr>)"
      "run_parser (json_fuel input) input = Some (parse_json input)" "failure_ok input (c, offset)"
  | (parsed) events p where "parse_json input = (events, \<lparr>result_code = je_none, result_offset = 0\<rparr>)"
      "run_parser (json_fuel input) input = Some (parse_json input)" "skip_space input p = length input"
      "p \<le> length input" "skip_space input 0 < p"
      "reads input pr_value 0 (skip_space input 0) p (structural events)"
proof -
  let ?start = "skip_space input 0"
  have ok: "call_ok input pr_value 0 ?start" by (simp add: call_ok_def skip_space_le)
  have "fuel_needed input pr_value ?start \<le> json_fuel input" by (simp add: fuel_needed_def json_fuel_def)
  then obtain events s where run: "parse_production (json_fuel input) input pr_value 0 ?start = Some (events, s)"
    using parse_production_fuel [OF ok] by fastforce
  note spec = parse_production_spec [OF ok, of "json_fuel input", unfolded run]
  show thesis
  proof (cases s)
    case (Inl e)
    then show thesis using run spec failed by (cases e) (simp add: parse_json_def run_parser_def)
  next
    case (Inr p)
    then have "skip_space input p \<le> length input" using spec by (simp add: skip_space_le)
    with Inr run spec failed parsed show thesis
      by (cases "skip_space input p = length input")
        (auto simp: parse_json_def run_parser_def Let_def failure_ok_def)
  qed
qed


lemma parse_json_document:
  assumes "result_code (snd (parse_json input)) = je_none"
  shows "\<exists>j. document_text j input \<and> structural (fst (parse_json input)) = events_of j \<and> nesting j \<le> max_json_depth"
proof (cases rule: run_parser_cases [of input])
  case (failed events c offset)
  with assms show ?thesis by (simp add: failure_ok_def)
next
  case (parsed events p)
  let ?start = "skip_space input 0"
  obtain w t j where j: "slice_of input ?start p = w @ t" "blanks w" "value_text j t" "structural events = events_of j"
    "nesting j \<le> max_json_depth" using parsed(6) by (auto simp: reads_def)
  have "input = slice_of input 0 ?start @ slice_of input ?start p @ slice_of input p (length input)"
    using slice_append [of 0 ?start "length input" input] slice_append [of ?start p "length input" input] parsed(4,5)
    by (simp add: skip_space_le)
  then have "input = (slice_of input 0 ?start @ w) @ t @ slice_of input p (length input)" using j(1) by simp
  moreover have "blanks (slice_of input 0 ?start @ w)" "blanks (slice_of input p (length input))"
    using skip_space_blanks [of input 0] skip_space_blanks [of input p] j(2) parsed(3) by auto
  ultimately have "document_text j input" unfolding document_text_def using j(3) by blast
  then show ?thesis using j parsed(1) by auto
qed

text \<open>
  C15. An accepted text is a JSON document: it is blanks, the text of a value by the JSON grammar and
  blanks; the handler has received exactly the traversal of that value, every key followed by its value and
  every object and array closed; and the value is nested at most 64 deep.
\<close>

theorem parse_json_sound:
  assumes "result_code (snd (parse_json input)) = je_none"
  shows "\<exists>j. document_text j input \<and> structural (fst (parse_json input)) = events_of j \<and> nesting j \<le> 64"
  using parse_json_document [OF assms] by (simp add: max_json_depth_def)

definition sample_json :: string where
  "sample_json = ''{'' @ [CHR 0x22] @ ''a'' @ [CHR 0x22] @ '':[1, true]} ''"

lemma sample_json_parsed:
  "parse_json sample_json =
     ([ev_location 0, ev_object_begin, ev_location 1, ev_key ''a'', ev_location 5, ev_array_begin, ev_location 6,
       ev_integer 1, ev_location 9, ev_boolean True, ev_location 13, ev_array_end, ev_location 14, ev_object_end],
      \<lparr>result_code = je_none, result_offset = 0\<rparr>)"
  by code_simp

theorem parse_json_sound_witness:
  "\<exists>j. document_text j sample_json \<and> events_of j =
     [ev_object_begin, ev_key ''a'', ev_array_begin, ev_integer 1, ev_boolean True, ev_array_end, ev_object_end]"
  using parse_json_sound [of sample_json] by (auto simp: sample_json_parsed)

end
