(* ===== verification/Schema_Handler.thy ===== *)
theory Schema_Handler
  imports Json_Parser Diagnostics
begin

text \<open>
  What the two configuration loaders share: the discipline of a \<^verbatim>\<open>json_event_handler\<close> that records the
  property it has just been given (\<^verbatim>\<open>pending\<close>) and stops at its first failure, as a locale; the order
  in which the JSON parser delivers keys and values; the field masks; and the emission of a diagnostic
  (\<^verbatim>\<open>emit\<close> of \<^verbatim>\<open>server_configuration_loader.cpp\<close> and \<^verbatim>\<open>project_configuration_loader.cpp\<close>).
\<close>

section \<open>Keys are followed by values\<close>

fun is_location :: "json_event \<Rightarrow> bool" where
  "is_location (ev_location _) = True"
| "is_location _ = False"

text \<open>Events that must not come between a key and its value.\<close>

fun needs_value_first :: "json_event \<Rightarrow> bool" where
  "needs_value_first (ev_key _) = True"
| "needs_value_first ev_object_end = True"
| "needs_value_first ev_array_end = True"
| "needs_value_first _ = False"

fun is_key :: "json_event \<Rightarrow> bool" where
  "is_key (ev_key _) = True"
| "is_key _ = False"

text \<open>No key is left without a value; \<open>k\<close> says whether the last event was a key.\<close>

fun no_dangling :: "bool \<Rightarrow> json_event list \<Rightarrow> bool" where
  "no_dangling k [] = (\<not> k)"
| "no_dangling k (ev # evs) =
     (if is_location ev then no_dangling k evs
      else (needs_value_first ev \<longrightarrow> \<not> k) \<and> no_dangling (is_key ev) evs)"

lemma no_dangling_structural: "no_dangling k (structural evs) = no_dangling k evs"
proof (induction evs arbitrary: k)
  case (Cons ev evs)
  then show ?case by (cases ev) simp_all
qed simp

lemma no_dangling_events: "no_dangling k (events_of j @ rest) = no_dangling False rest"
proof (induction j arbitrary: k rest)
  case (JArray js)
  then have "no_dangling False (concat (map events_of js) @ rest') = no_dangling False rest'" for rest'
    by (induction js) simp_all
  then show ?case by simp
next
  case (JObject ms)
  have "no_dangling False (member_events ms @ rest') = no_dangling False rest'" for rest'
    using JObject
  proof (induction ms)
    case (Cons m ms)
    obtain key j where m: "m = (key, j)" by (cases m)
    have "no_dangling k (events_of j @ r) = no_dangling False r" for k r
      using Cons.prems [of m j] by (simp add: m)
    moreover have "no_dangling False (member_events ms @ rest') = no_dangling False rest'"
      using Cons by (metis list.set_intros(2))
    ultimately show ?case by (simp add: m)
  qed simp
  then show ?case by simp
qed simp_all

lemma parse_json_no_dangling:
  assumes "result_code (snd (parse_json input)) = je_none"
  shows "no_dangling False (fst (parse_json input))"
proof -
  obtain j where "structural (fst (parse_json input)) = events_of j"
    using parse_json_document [OF assms] by blast
  then have "no_dangling False (structural (fst (parse_json input)))"
    using no_dangling_events [of False j "[]"] by simp
  then show ?thesis by (simp add: no_dangling_structural)
qed

section \<open>The handler discipline\<close>

text \<open>
  \<open>clear s\<close>: no property is pending. \<open>inv\<close> is an invariant of the handler that may assume, at a key
  and at the end of an object or array, that no property is pending.
\<close>

locale schema_handler =
  fixes step :: "'s \<Rightarrow> json_event \<Rightarrow> 's"
    and stopped :: "'s \<Rightarrow> bool"
    and clear :: "'s \<Rightarrow> bool"
    and inv :: "'s \<Rightarrow> bool"
  assumes stopped_sticky: "stopped s \<Longrightarrow> stopped (step s ev)"
    and clear_step: "inv s \<Longrightarrow> \<not> stopped (step s ev) \<Longrightarrow> \<not> is_key ev \<Longrightarrow> needs_value_first ev \<or> is_location ev \<Longrightarrow>
      clear s \<Longrightarrow> clear (step s ev)"
    and clear_value: "inv s \<Longrightarrow> \<not> stopped (step s ev) \<Longrightarrow> \<not> needs_value_first ev \<Longrightarrow> \<not> is_location ev \<Longrightarrow>
      clear (step s ev)"
    and inv_step: "inv s \<Longrightarrow> \<not> stopped (step s ev) \<Longrightarrow> (needs_value_first ev \<Longrightarrow> clear s) \<Longrightarrow> inv (step s ev)"
begin

definition run :: "'s \<Rightarrow> json_event list \<Rightarrow> 's" where
  "run s events = foldl step s events"

lemma run_stopped: "stopped s \<Longrightarrow> stopped (run s events)"
  unfolding run_def by (induction events arbitrary: s) (simp_all add: stopped_sticky)

lemma run_inv:
  assumes "no_dangling k events" "inv s" "\<not> k \<Longrightarrow> clear s" "\<not> stopped (run s events)"
  shows "inv (run s events) \<and> clear (run s events)"
  using assms
proof (induction events arbitrary: k s)
  case Nil
  then show ?case by (simp add: run_def)
next
  case (Cons ev evs)
  have rest: "run s (ev # evs) = run (step s ev) evs" by (simp add: run_def)
  have go: "\<not> stopped (step s ev)" using Cons.prems(4) run_stopped rest by metis
  show ?case
  proof (cases "is_location ev")
    case True
    then have "\<not> needs_value_first ev" "\<not> is_key ev" by (cases ev; simp)+
    with True Cons.prems go show ?thesis
      unfolding rest by (intro Cons.IH [of k]) (auto simp: rest intro: inv_step clear_step)
  next
    case False
    then have keyed: "needs_value_first ev \<Longrightarrow> \<not> k" "no_dangling (is_key ev) evs"
      using Cons.prems(1) by auto
    have "clear (step s ev)" if "\<not> is_key ev"
      using that go False keyed(1) Cons.prems(2,3) clear_step clear_value by blast
    then show ?thesis
      unfolding rest using Cons.prems(2-4) keyed go
      by (intro Cons.IH [of "is_key ev"]) (auto simp: rest intro: inv_step)
  qed
qed

text \<open>What holds of the handler once a text has been parsed without a syntax error.\<close>

lemma parsed_inv:
  assumes "result_code (snd (parse_json input)) = je_none" "inv s" "clear s"
    "\<not> stopped (run s (fst (parse_json input)))"
  shows "inv (run s (fst (parse_json input)))" "clear (run s (fst (parse_json input)))"
  using run_inv [OF parse_json_no_dangling [OF assms(1)] assms(2)] assms(3,4) by blast+

end

section \<open>Field masks\<close>

text \<open>\<^verbatim>\<open>std::uint32_t{1} << index\<close>, and the two ways the handlers use it.\<close>

lemma mask_test: "((seen :: u32) AND push_bit n 1 \<noteq> 0) \<longleftrightarrow> bit seen n"
  by (simp add: push_bit_eq_mult and_exp_eq_0_iff_not_bit)

lemma mask_set: "n < 32 \<Longrightarrow> bit ((seen :: u32) OR push_bit n 1) m \<longleftrightarrow> bit seen m \<or> m = n"
  by (auto simp: bit_or_iff bit_push_bit_iff push_bit_eq_mult bit_exp_iff)

section \<open>Diagnostics of a loader\<close>

definition config_emit ::
    "diagnostic_buffer \<Rightarrow> diagnostic_descriptor \<Rightarrow> nat \<Rightarrow> nat \<Rightarrow> string \<Rightarrow> diagnostic_buffer" where
  "config_emit diagnostics descriptor operation offset detail =
     buffer_emit diagnostics
       \<lparr>diag_id = desc_id descriptor, diag_severity = desc_severity descriptor, diag_operation = operation,
        diag_location = \<lparr>range_source = 0, range_offset = (if int offset > 2 ^ 32 - 1 then 0 else offset), range_length = 0\<rparr>,
        diag_detail = detail\<rparr>"

text \<open>Exactly one error (or fatal error) of the given domain, described by the catalogue, has been added.\<close>

definition reported_once ::
    "diagnostic_domain \<Rightarrow> nat \<Rightarrow> diagnostic_buffer \<Rightarrow> diagnostic_buffer \<Rightarrow> bool" where
  "reported_once domain operation before after \<longleftrightarrow>
     (\<exists>record descriptor. after = before @ [record] \<and> descriptor \<in> set diagnostic_descriptors \<and>
        desc_domain descriptor = domain \<and> diag_id record = desc_id descriptor \<and>
        diag_severity record = desc_severity descriptor \<and> diag_severity record \<in> {sev_error, sev_fatal} \<and>
        diag_operation record = operation)"

lemma config_emit_reported:
  assumes "d \<in> set diagnostic_descriptors" "desc_severity d \<in> {sev_error, sev_fatal}"
  shows "reported_once (desc_domain d) operation diagnostics (config_emit diagnostics d operation offset detail)"
  unfolding reported_once_def config_emit_def buffer_emit_def using assms by auto

end
