(* ===== verification/Config_Path.thy ===== *)
theory Config_Path
  imports Prelude
begin

text \<open>
  Resolution of configured paths, \<^verbatim>\<open>src/server_engine/config/configuration_path.hpp\<close>, on the POSIX
  build. A \<^verbatim>\<open>std::filesystem::path\<close> is its string; the operations of the standard library that the code
  calls are written out: \<^verbatim>\<open>is_relative\<close>, \<^verbatim>\<open>parent_path\<close>, \<^verbatim>\<open>operator/\<close> and
  \<^verbatim>\<open>lexically_normal\<close>. The Windows branch of \<^verbatim>\<open>path_from_utf8\<close> is not modelled.
\<close>

section \<open>Paths of the standard library\<close>

abbreviation separator :: char where "separator \<equiv> CHR ''/''"

definition path_is_absolute :: "string \<Rightarrow> bool" where
  "path_is_absolute p \<longleftrightarrow> p \<noteq> [] \<and> hd p = separator"

definition path_is_relative :: "string \<Rightarrow> bool" where
  "path_is_relative p \<longleftrightarrow> \<not> path_is_absolute p"

text \<open>The path up to its last element, without the separators before that element.\<close>

definition parent_path :: "string \<Rightarrow> string" where
  "parent_path p =
     (let directory = rev (dropWhile (\<lambda>c. c \<noteq> separator) (rev p));
          stem = rev (dropWhile (\<lambda>c. c = separator) (rev directory))
      in if stem = [] \<and> path_is_absolute p then [separator] else stem)"

text \<open>\<^verbatim>\<open>p / q\<close>.\<close>

definition append_path :: "string \<Rightarrow> string \<Rightarrow> string" where
  "append_path p q =
     (if path_is_absolute q then q
      else if p \<noteq> [] \<and> last p \<noteq> separator then p @ [separator] @ q
      else p @ q)"

text \<open>The file names between separators; runs of separators count as one.\<close>

function path_names :: "string \<Rightarrow> string list" where
  "path_names [] = []"
| "path_names (c # cs) =
     (if c = separator then path_names cs
      else takeWhile (\<lambda>d. d \<noteq> separator) (c # cs) # path_names (dropWhile (\<lambda>d. d \<noteq> separator) (c # cs)))"
  by pat_completeness auto
termination
  by (relation "measure length") (auto simp: less_Suc_eq_le length_dropWhile_le)

text \<open>
  One step of normalisation: the names kept so far, last first, and whether the path currently ends in a
  separator. A dot and a dropped pair of a name and two dots leave a separator behind.
\<close>

definition normal_step :: "bool \<Rightarrow> string list \<times> bool \<Rightarrow> string \<Rightarrow> string list \<times> bool" where
  "normal_step rooted st name =
     (case st of (kept, trailing) \<Rightarrow>
        if name = ''.'' then (kept, True)
        else if name = ''..'' then
          (case kept of
             [] \<Rightarrow> if rooted then ([], True) else ([name], False)
           | first # rest \<Rightarrow> if first = ''..'' then (name # kept, False) else (rest, True))
        else (name # kept, False))"

fun join_names :: "string list \<Rightarrow> string" where
  "join_names [] = []"
| "join_names [n] = n"
| "join_names (n # m # ns) = n @ [separator] @ join_names (m # ns)"

definition lexically_normal :: "string \<Rightarrow> string" where
  "lexically_normal p =
     (if p = [] then []
      else
        (case foldl (normal_step (path_is_absolute p)) ([], False) (path_names p) of
           (kept, trailing) \<Rightarrow>
             let ending = ((trailing \<or> last p = separator) \<and> kept \<noteq> [] \<and> hd kept \<noteq> ''..'');
                 body = join_names (rev kept) @ (if ending then [separator] else [])
             in if path_is_absolute p then separator # body
                else if body = [] then ''.'' else body))"

section \<open>The repository's functions\<close>

definition path_from_utf8 :: "string \<Rightarrow> string" where
  "path_from_utf8 bytes = bytes"

definition resolve_configuration_path :: "string \<Rightarrow> string \<Rightarrow> string" where
  "resolve_configuration_path configuration_path configured_path =
     (let path = path_from_utf8 configured_path;
          path' = (if path_is_relative path then append_path (parent_path configuration_path) path else path)
      in lexically_normal path')"

section \<open>Normal paths\<close>

definition plain_name :: "string \<Rightarrow> bool" where
  "plain_name n \<longleftrightarrow> n \<noteq> [] \<and> separator \<notin> set n"

lemma path_names_plain: "list_all plain_name (path_names p)"
proof (induction p rule: path_names.induct)
  case (2 c cs)
  have "separator \<notin> set (takeWhile (\<lambda>d. d \<noteq> separator) xs)" for xs
    by (auto dest: set_takeWhileD)
  with 2 show ?case by (auto simp: plain_name_def)
qed simp

text \<open>Two dots are kept only at the front of a path without a root.\<close>

definition kept_ok :: "bool \<Rightarrow> string list \<Rightarrow> bool" where
  "kept_ok rooted kept \<longleftrightarrow>
     list_all plain_name kept \<and> ''.'' \<notin> set kept \<and>
     (\<exists>names dots. kept = names @ dots \<and> ''..'' \<notin> set names \<and> list_all ((=) ''..'') dots \<and> (rooted \<longrightarrow> dots = []))"

lemma normal_step_ok:
  assumes "kept_ok rooted kept" "plain_name name"
  shows "kept_ok rooted (fst (normal_step rooted (kept, trailing) name))"
proof -
  obtain names dots where kept: "kept = names @ dots" "''..'' \<notin> set names" "list_all ((=) ''..'') dots"
    "rooted \<longrightarrow> dots = []" "list_all plain_name kept" "''.'' \<notin> set kept"
    using assms(1) unfolding kept_ok_def by blast
  consider (dot) "name = ''.''" | (up) "name = ''..''" "names = []" | (pair) first rest where "name = ''..''" "names = first # rest"
    | (name) "name \<noteq> ''.''" "name \<noteq> ''..''" by (cases names) auto
  then show ?thesis
  proof cases
    case dot
    with assms show ?thesis by (simp add: normal_step_def)
  next
    case up
    then have "kept_ok rooted (name # kept)" if "\<not> rooted"
      unfolding kept_ok_def using kept assms(2) that
      by (intro conjI exI [of _ "[]"] exI [of _ "name # dots"]) auto
    with up kept assms(1) show ?thesis by (cases dots) (auto simp: normal_step_def)
  next
    case (pair first rest)
    then have "kept_ok rooted (rest @ dots)" unfolding kept_ok_def using kept by auto
    with pair kept show ?thesis by (auto simp: normal_step_def)
  next
    case name
    then have "kept_ok rooted (name # kept)"
      unfolding kept_ok_def using kept assms(2)
      by (intro conjI exI [of _ "name # names"] exI [of _ dots]) auto
    with name show ?thesis by (simp add: normal_step_def)
  qed
qed

lemma normal_fold_ok:
  "kept_ok rooted (fst st) \<Longrightarrow> list_all plain_name ns \<Longrightarrow> kept_ok rooted (fst (foldl (normal_step rooted) st ns))"
proof (induction ns arbitrary: st)
  case (Cons n ns)
  then show ?case using normal_step_ok [of rooted "fst st" n "snd st"] by simp
qed simp

lemma takeWhile_name: "separator \<notin> set n \<Longrightarrow> takeWhile (\<lambda>d. d \<noteq> separator) (n @ separator # cs) = n"
  by (induction n) auto

lemma dropWhile_name: "separator \<notin> set n \<Longrightarrow> dropWhile (\<lambda>d. d \<noteq> separator) (n @ separator # cs) = separator # cs"
  by (induction n) auto

lemma path_names_separator: "plain_name n \<Longrightarrow> path_names (n @ separator # cs) = n # path_names cs"
  using takeWhile_name [of n cs] dropWhile_name [of n cs]
  by (cases n) (auto simp: plain_name_def simp del: takeWhile.simps dropWhile.simps)

lemma path_names_single: "plain_name n \<Longrightarrow> path_names n = [n]"
proof (cases n)
  case (Cons c cs)
  moreover assume "plain_name n"
  ultimately have "c \<noteq> separator" "separator \<notin> set cs" by (auto simp: plain_name_def)
  moreover from this(2) have "takeWhile (\<lambda>d. d \<noteq> separator) cs = cs" "dropWhile (\<lambda>d. d \<noteq> separator) cs = []"
    by (induction cs) auto
  ultimately show ?thesis
    unfolding Cons by (simp del: dropWhile_eq_Nil_conv takeWhile_eq_all_conv)
qed (simp add: plain_name_def)

text \<open>Splitting a joined list of names gives the names back, with or without a final separator.\<close>

lemma path_names_join:
  "list_all plain_name ns \<Longrightarrow> path_names (join_names ns) = ns"
  "list_all plain_name ns \<Longrightarrow> path_names (join_names ns @ [separator]) = ns"
  by (induction ns rule: join_names.induct) (auto simp: path_names_single path_names_separator)

lemma normal_fold_plain:
  "''.'' \<notin> set ns \<Longrightarrow> ''..'' \<notin> set ns \<Longrightarrow>
     foldl (normal_step rooted) (kept, False) ns = (rev ns @ kept, False)"
  by (induction ns arbitrary: kept) (auto simp: normal_step_def)

lemma last_join: "list_all plain_name ns \<Longrightarrow> ns \<noteq> [] \<Longrightarrow> join_names ns \<noteq> [] \<and> last (join_names ns) \<noteq> separator"
proof (induction ns rule: join_names.induct)
  case (2 n)
  then show ?case by (simp add: plain_name_def) (metis last_in_set)
qed auto

lemma lexically_normal_absolute:
  assumes "path_is_absolute p"
  shows "\<exists>ns. list_all plain_name ns \<and> ''.'' \<notin> set ns \<and> ''..'' \<notin> set ns \<and>
    (lexically_normal p = separator # join_names ns \<or>
     ns \<noteq> [] \<and> lexically_normal p = separator # join_names ns @ [separator])"
proof -
  define kept where "kept = fst (foldl (normal_step True) ([], False) (path_names p))"
  have "kept_ok True kept"
    unfolding kept_def by (rule normal_fold_ok) (simp_all add: kept_ok_def path_names_plain)
  then have "list_all plain_name (rev kept)" "''.'' \<notin> set (rev kept)" "''..'' \<notin> set (rev kept)"
    by (auto simp: kept_ok_def)
  moreover have "lexically_normal p = separator # join_names (rev kept) \<or>
     kept \<noteq> [] \<and> lexically_normal p = separator # join_names (rev kept) @ [separator]"
    using assms by (auto simp: lexically_normal_def path_is_absolute_def kept_def Let_def split: prod.splits)
  ultimately show ?thesis by (metis rev_is_Nil_conv)
qed

lemma stripped_prefix: "\<exists>zs. xs = rev (dropWhile P (rev xs)) @ zs"
  by (intro exI [of _ "rev (takeWhile P (rev xs))"]) (simp flip: rev_append)

lemma lexically_normal_fixed:
  assumes "list_all plain_name ns" "''.'' \<notin> set ns" "''..'' \<notin> set ns"
  shows "lexically_normal (separator # join_names ns) = separator # join_names ns"
    "ns \<noteq> [] \<Longrightarrow> lexically_normal (separator # join_names ns @ [separator]) = separator # join_names ns @ [separator]"
proof -
  note fold = normal_fold_plain [OF assms(2,3), of True "[]"]
  have "hd (rev ns) \<noteq> ''..''" if "ns \<noteq> []" using that assms(3) by (metis hd_in_set rev_is_Nil_conv set_rev)
  moreover have "last (separator # join_names ns) \<noteq> separator" if "ns \<noteq> []" using that last_join [OF assms(1)] by simp
  ultimately show "lexically_normal (separator # join_names ns) = separator # join_names ns"
    "ns \<noteq> [] \<Longrightarrow> lexically_normal (separator # join_names ns @ [separator]) = separator # join_names ns @ [separator]"
    using fold path_names_join [OF assms(1)]
    by (cases "ns = []"; simp add: lexically_normal_def path_is_absolute_def Let_def)+
qed

lemma absolute_parent: "path_is_absolute p \<Longrightarrow> path_is_absolute (parent_path p)"
proof -
  assume p: "path_is_absolute p"
  define dir where "dir = rev (dropWhile (\<lambda>c. c \<noteq> separator) (rev p))"
  define stem where "stem = rev (dropWhile (\<lambda>c. c = separator) (rev dir))"
  obtain xs where "p = dir @ xs" unfolding dir_def using stripped_prefix by blast
  moreover obtain ys where "dir = stem @ ys" unfolding stem_def using stripped_prefix by blast
  ultimately have split: "p = stem @ ys @ xs" by simp
  have parent: "parent_path p = (if stem = [] \<and> path_is_absolute p then [separator] else stem)"
    unfolding parent_path_def Let_def dir_def stem_def by (rule refl)
  show ?thesis
  proof (cases stem)
    case Nil
    with p parent show ?thesis by (simp add: path_is_absolute_def)
  next
    case (Cons c cs)
    then have "hd p = c" using split by simp
    with p parent Cons show ?thesis by (simp add: path_is_absolute_def)
  qed
qed

lemma resolve_canonical:
  fixes configured
  assumes "path_is_absolute configuration_path"
  defines "r \<equiv> resolve_configuration_path configuration_path configured"
  shows "path_is_absolute r" "''.'' \<notin> set (path_names r)" "''..'' \<notin> set (path_names r)" "lexically_normal r = r"
proof -
  define p where "p = (if path_is_relative configured then append_path (parent_path configuration_path) configured
    else configured)"
  have r: "r = lexically_normal p"
    by (simp add: r_def resolve_configuration_path_def path_from_utf8_def p_def)
  have "path_is_absolute p"
    using absolute_parent [OF assms(1)]
    by (auto simp: p_def append_path_def path_is_absolute_def path_is_relative_def hd_append)
  then obtain ns where ns: "list_all plain_name ns" "''.'' \<notin> set ns" "''..'' \<notin> set ns"
    "lexically_normal p = separator # join_names ns \<or>
     ns \<noteq> [] \<and> lexically_normal p = separator # join_names ns @ [separator]"
    using lexically_normal_absolute by blast
  have "path_names (lexically_normal p) = ns" using ns path_names_join by auto
  then show "''.'' \<notin> set (path_names r)" "''..'' \<notin> set (path_names r)" using ns(2,3) by (simp_all add: r)
  show "lexically_normal r = r" using ns(4) lexically_normal_fixed [OF ns(1-3)] by (auto simp: r)
  show "path_is_absolute r" using ns(4) by (auto simp: r path_is_absolute_def)
qed

text \<open>
  C16. When the configuration file is named by an absolute path, every configured path resolves to a
  canonical absolute path: it starts at the root, none of its names is a dot or two dots, and
  normalising it again changes nothing.
\<close>

theorem resolved_paths_are_canonical:
  assumes "path_is_absolute configuration_path"
  shows "let r = resolve_configuration_path configuration_path configured in
    path_is_absolute r \<and> ''.'' \<notin> set (path_names r) \<and> ''..'' \<notin> set (path_names r) \<and> lexically_normal r = r"
  using resolve_canonical [OF assms] by (simp add: Let_def)

theorem resolved_paths_are_canonical_witness:
  "resolve_configuration_path ''/srv/cfg/server.json'' ''../data//./p.json'' = ''/srv/data/p.json'' \<and>
   path_names ''/srv/data/p.json'' = [''srv'', ''data'', ''p.json''] \<and>
   lexically_normal ''/srv/data/p.json'' = ''/srv/data/p.json''"
proof -
  have "resolve_configuration_path ''/srv/cfg/server.json'' ''../data//./p.json'' = ''/srv/data/p.json''"
    by code_simp
  moreover have "path_names ''/srv/data/p.json'' = [''srv'', ''data'', ''p.json'']" by code_simp
  moreover have "path_is_absolute ''/srv/cfg/server.json''" by (simp add: path_is_absolute_def)
  ultimately show ?thesis
    using resolved_paths_are_canonical [of "''/srv/cfg/server.json''" "''../data//./p.json''"] by (simp add: Let_def)
qed

end
