(* ===== verification/Server_Config.thy ===== *)
theory Server_Config
  imports Schema_Handler Config_Path
begin

text \<open>
  The Server configuration, \<^verbatim>\<open>src/server_engine/config/server_configuration.hpp\<close>, and its loader,
  \<^verbatim>\<open>server_configuration_loader.cpp\<close>: the event handler with its context stack, pending property, field
  masks and sticky failure, and the two load functions. The stack array with its depth is the list of the
  open contexts, innermost first. Failed allocations are not modelled; reading the file is an argument.
\<close>

section \<open>Configuration data\<close>

datatype log_level =
  level_trace | level_debug | level_info | level_warning | level_error | level_critical

datatype transport_kind = transport_tcp

datatype protocol_kind = protocol_json

record endpoint_configuration =
  ep_name :: string
  ep_transport :: transport_kind
  ep_protocol :: protocol_kind
  ep_address :: string
  ep_port :: nat

record communication_configuration =
  com_endpoints :: "endpoint_configuration list"
  com_console :: bool

record logging_configuration =
  log_minimum_level :: log_level
  log_console :: bool

record telemetry_configuration =
  tel_metrics :: bool

record server_configuration =
  srv_version :: nat
  srv_communication :: communication_configuration
  srv_logging :: logging_configuration
  srv_telemetry :: telemetry_configuration
  srv_project_path :: string

definition current_server_configuration_version :: nat where
  "current_server_configuration_version = 1"

definition default_endpoint :: endpoint_configuration where
  "default_endpoint =
     \<lparr>ep_name = [], ep_transport = transport_tcp, ep_protocol = protocol_json, ep_address = [], ep_port = 0\<rparr>"

definition default_server_configuration :: server_configuration where
  "default_server_configuration =
     \<lparr>srv_version = 0, srv_communication = \<lparr>com_endpoints = [], com_console = True\<rparr>,
      srv_logging = \<lparr>log_minimum_level = level_info, log_console = True\<rparr>,
      srv_telemetry = \<lparr>tel_metrics = True\<rparr>, srv_project_path = []\<rparr>"

section \<open>Contexts, fields and failures\<close>

datatype server_context =
    sc_root | sc_server | sc_endpoints | sc_endpoint | sc_logging | sc_telemetry | sc_project | sc_invalid

datatype server_field =
    sf_none | sf_version | sf_server | sf_logging | sf_telemetry | sf_project | sf_endpoints | sf_console
  | sf_name | sf_transport | sf_protocol | sf_address | sf_port | sf_level | sf_metrics | sf_path | sf_unknown

primrec server_field_index :: "server_field \<Rightarrow> nat" where
  "server_field_index sf_none = 0"
| "server_field_index sf_version = 1"
| "server_field_index sf_server = 2"
| "server_field_index sf_logging = 3"
| "server_field_index sf_telemetry = 4"
| "server_field_index sf_project = 5"
| "server_field_index sf_endpoints = 6"
| "server_field_index sf_console = 7"
| "server_field_index sf_name = 8"
| "server_field_index sf_transport = 9"
| "server_field_index sf_protocol = 10"
| "server_field_index sf_address = 11"
| "server_field_index sf_port = 12"
| "server_field_index sf_level = 13"
| "server_field_index sf_metrics = 14"
| "server_field_index sf_path = 15"
| "server_field_index sf_unknown = 16"

datatype server_failure =
    sx_none | sx_wrong_root_type | sx_unknown_property | sx_duplicate_property | sx_wrong_field_type
  | sx_missing_required_field | sx_invalid_endpoint | sx_duplicate_endpoint_name | sx_invalid_log_level
  | sx_invalid_project_path | sx_nesting_too_deep

record server_error =
  sve_code :: server_failure
  sve_owner :: server_context
  sve_member :: server_field
  sve_offset :: nat

definition server_failure_detail :: "server_error \<Rightarrow> string" where
  "server_failure_detail e =
     (if sve_code e = sx_wrong_root_type then ''server configuration root must be an object''
      else if sve_code e = sx_unknown_property then ''server configuration contains an unknown property''
      else if sve_code e = sx_duplicate_property then ''server configuration contains a duplicate property''
      else if sve_code e = sx_duplicate_endpoint_name then ''server endpoint names must be unique''
      else if sve_code e = sx_nesting_too_deep then ''server configuration nesting is too deep''
      else if sve_owner e = sc_endpoint \<and> sve_member e = sf_name
        then ''server.endpoints[].name: expected a non-empty unique string''
      else if sve_owner e = sc_endpoint \<and> sve_member e = sf_transport
        then ''server.endpoints[].transport: expected '' @ [CHR 0x22] @ ''tcp'' @ [CHR 0x22]
      else if sve_owner e = sc_endpoint \<and> sve_member e = sf_protocol
        then ''server.endpoints[].protocol: expected '' @ [CHR 0x22] @ ''json'' @ [CHR 0x22]
      else if sve_owner e = sc_endpoint \<and> sve_member e = sf_address
        then ''server.endpoints[].address: expected a non-empty string''
      else if sve_owner e = sc_endpoint \<and> sve_member e = sf_port
        then ''server.endpoints[].port: expected integer 1..65535''
      else if sve_owner e = sc_logging \<and> sve_member e = sf_level
        then ''logging.level: expected trace, debug, info, warning, error, or critical''
      else if sve_owner e = sc_project \<and> sve_member e = sf_path
        then ''project.path: expected a non-empty UTF-8 path string''
      else if sve_code e = sx_missing_required_field then ''server configuration is missing a required field''
      else if sve_code e = sx_wrong_field_type then ''server configuration field has the wrong JSON type''
      else if sve_code e = sx_invalid_endpoint then ''server endpoint configuration is invalid''
      else if sve_code e = sx_invalid_log_level then ''logging.level is not supported''
      else if sve_code e = sx_invalid_project_path then ''project.path must not be empty''
      else ''server configuration is invalid'')"

section \<open>The handler\<close>

record server_handler =
  sh_candidate :: server_configuration
  sh_endpoint :: endpoint_configuration
  sh_project_path :: string
  sh_stack :: "server_context list"
  sh_offset :: nat
  sh_endpoint_name_offset :: nat
  sh_pending :: server_field
  sh_failure :: server_error
  sh_root_seen :: u32
  sh_server_seen :: u32
  sh_endpoint_seen :: u32
  sh_logging_seen :: u32
  sh_telemetry_seen :: u32
  sh_project_seen :: u32
  sh_invalid_seen :: u32
  sh_root_object :: bool

definition server_handler_init :: server_handler where
  "server_handler_init =
     \<lparr>sh_candidate = default_server_configuration, sh_endpoint = default_endpoint, sh_project_path = [],
      sh_stack = [], sh_offset = 0, sh_endpoint_name_offset = 0, sh_pending = sf_none,
      sh_failure = \<lparr>sve_code = sx_none, sve_owner = sc_invalid, sve_member = sf_none, sve_offset = 0\<rparr>,
      sh_root_seen = 0, sh_server_seen = 0, sh_endpoint_seen = 0, sh_logging_seen = 0,
      sh_telemetry_seen = 0, sh_project_seen = 0, sh_invalid_seen = 0, sh_root_object = False\<rparr>"

definition server_current :: "server_handler \<Rightarrow> server_context" where
  "server_current s = (case sh_stack s of [] \<Rightarrow> sc_invalid | c # _ \<Rightarrow> c)"

definition server_stopped :: "server_handler \<Rightarrow> bool" where
  "server_stopped s \<longleftrightarrow> sve_code (sh_failure s) \<noteq> sx_none"

text \<open>\<^verbatim>\<open>fail\<close> with its defaults: no member, no owner, and the current offset for the maximal \<^verbatim>\<open>size_t\<close>.\<close>

definition server_fail_at ::
    "server_failure \<Rightarrow> server_field \<Rightarrow> server_context \<Rightarrow> nat option \<Rightarrow> server_handler \<Rightarrow> server_handler" where
  "server_fail_at c member owner offset s =
     (if sve_code (sh_failure s) \<noteq> sx_none then s
      else s\<lparr>sh_failure :=
        \<lparr>sve_code = c, sve_owner = (if owner = sc_invalid then server_current s else owner),
         sve_member = (if member = sf_none then sh_pending s else member),
         sve_offset = (case offset of None \<Rightarrow> sh_offset s | Some n \<Rightarrow> n)\<rparr>\<rparr>)"

abbreviation server_fail :: "server_failure \<Rightarrow> server_handler \<Rightarrow> server_handler" where
  "server_fail c s \<equiv> server_fail_at c sf_none sc_invalid None s"

abbreviation server_fail_member :: "server_failure \<Rightarrow> server_field \<Rightarrow> server_handler \<Rightarrow> server_handler" where
  "server_fail_member c member s \<equiv> server_fail_at c member sc_invalid None s"

definition server_push :: "server_context \<Rightarrow> server_handler \<Rightarrow> server_handler" where
  "server_push c s =
     (if length (sh_stack s) = 8 then server_fail sx_nesting_too_deep s
      else s\<lparr>sh_stack := c # sh_stack s\<rparr>)"

definition server_pop :: "server_handler \<Rightarrow> server_handler" where
  "server_pop s = s\<lparr>sh_stack := tl (sh_stack s)\<rparr>"

definition parse_level :: "string \<Rightarrow> log_level option" where
  "parse_level v =
     (if v = ''trace'' then Some level_trace
      else if v = ''debug'' then Some level_debug
      else if v = ''info'' then Some level_info
      else if v = ''warning'' then Some level_warning
      else if v = ''error'' then Some level_error
      else if v = ''critical'' then Some level_critical
      else None)"

definition server_identify :: "server_context \<Rightarrow> string \<Rightarrow> server_field" where
  "server_identify owner v =
     (if owner = sc_root then
        if v = ''version'' then sf_version
        else if v = ''server'' then sf_server
        else if v = ''logging'' then sf_logging
        else if v = ''telemetry'' then sf_telemetry
        else if v = ''project'' then sf_project
        else sf_unknown
      else if owner = sc_server then
        if v = ''endpoints'' then sf_endpoints
        else if v = ''console'' then sf_console
        else sf_unknown
      else if owner = sc_endpoint then
        if v = ''name'' then sf_name
        else if v = ''transport'' then sf_transport
        else if v = ''protocol'' then sf_protocol
        else if v = ''address'' then sf_address
        else if v = ''port'' then sf_port
        else sf_unknown
      else if owner = sc_logging then
        if v = ''level'' then sf_level
        else if v = ''console'' then sf_console
        else sf_unknown
      else if owner = sc_telemetry then
        if v = ''metrics'' then sf_metrics else sf_unknown
      else if owner = sc_project then
        if v = ''path'' then sf_path else sf_unknown
      else sf_unknown)"

definition server_field_bit :: "server_field \<Rightarrow> u32" where
  "server_field_bit f = push_bit (server_field_index f) 1"

primrec server_seen_mask :: "server_context \<Rightarrow> server_handler \<Rightarrow> u32" where
  "server_seen_mask sc_root s = sh_root_seen s"
| "server_seen_mask sc_server s = sh_server_seen s"
| "server_seen_mask sc_endpoint s = sh_endpoint_seen s"
| "server_seen_mask sc_logging s = sh_logging_seen s"
| "server_seen_mask sc_telemetry s = sh_telemetry_seen s"
| "server_seen_mask sc_project s = sh_project_seen s"
| "server_seen_mask sc_endpoints s = sh_invalid_seen s"
| "server_seen_mask sc_invalid s = sh_invalid_seen s"

text \<open>Assignment through the reference that \<^verbatim>\<open>seen_mask\<close> returns.\<close>

primrec server_mark_seen :: "server_context \<Rightarrow> u32 \<Rightarrow> server_handler \<Rightarrow> server_handler" where
  "server_mark_seen sc_root m s = s\<lparr>sh_root_seen := m\<rparr>"
| "server_mark_seen sc_server m s = s\<lparr>sh_server_seen := m\<rparr>"
| "server_mark_seen sc_endpoint m s = s\<lparr>sh_endpoint_seen := m\<rparr>"
| "server_mark_seen sc_logging m s = s\<lparr>sh_logging_seen := m\<rparr>"
| "server_mark_seen sc_telemetry m s = s\<lparr>sh_telemetry_seen := m\<rparr>"
| "server_mark_seen sc_project m s = s\<lparr>sh_project_seen := m\<rparr>"
| "server_mark_seen sc_endpoints m s = s\<lparr>sh_invalid_seen := m\<rparr>"
| "server_mark_seen sc_invalid m s = s\<lparr>sh_invalid_seen := m\<rparr>"

definition server_require :: "u32 \<Rightarrow> server_field \<Rightarrow> server_handler \<Rightarrow> server_handler" where
  "server_require actual member s =
     (if actual AND server_field_bit member = 0
      then server_fail_member sx_missing_required_field member s else s)"

primrec server_required :: "server_context \<Rightarrow> server_field list" where
  "server_required sc_root = [sf_version, sf_server, sf_logging, sf_telemetry, sf_project]"
| "server_required sc_server = [sf_endpoints, sf_console]"
| "server_required sc_endpoint = [sf_name, sf_transport, sf_protocol, sf_address, sf_port]"
| "server_required sc_logging = [sf_level, sf_console]"
| "server_required sc_telemetry = [sf_metrics]"
| "server_required sc_project = [sf_path]"
| "server_required sc_endpoints = []"
| "server_required sc_invalid = []"

definition server_validate_required :: "server_context \<Rightarrow> server_handler \<Rightarrow> server_handler" where
  "server_validate_required owner s =
     foldl (\<lambda>t f. server_require (server_seen_mask owner t) f t) s (server_required owner)"

text \<open>The moved-from \<^verbatim>\<open>endpoint\<close> is not read before the next endpoint object resets it.\<close>

definition finish_endpoint :: "server_handler \<Rightarrow> server_handler" where
  "finish_endpoint s =
     (let com = srv_communication (sh_candidate s) in
      if list_ex (\<lambda>e. ep_name e = ep_name (sh_endpoint s)) (com_endpoints com)
      then server_fail_at sx_duplicate_endpoint_name sf_name sc_endpoint (Some (sh_endpoint_name_offset s)) s
      else s\<lparr>sh_candidate := (sh_candidate s)\<lparr>srv_communication :=
             com\<lparr>com_endpoints := com_endpoints com @ [sh_endpoint s]\<rparr>\<rparr>\<rparr>)"

definition server_reject_scalar :: "server_handler \<Rightarrow> server_handler" where
  "server_reject_scalar s =
     (if sh_stack s = [] then server_fail sx_wrong_root_type s else server_fail sx_wrong_field_type s)"

definition server_next_context :: "server_handler \<Rightarrow> server_context" where
  "server_next_context s =
     (if server_current s = sc_root then
        (if sh_pending s = sf_server then sc_server
         else if sh_pending s = sf_logging then sc_logging
         else if sh_pending s = sf_telemetry then sc_telemetry
         else if sh_pending s = sf_project then sc_project
         else sc_invalid)
      else if server_current s = sc_endpoints then sc_endpoint
      else sc_invalid)"

definition server_object_begin :: "server_handler \<Rightarrow> server_handler" where
  "server_object_begin s =
     (if server_stopped s then s
      else if sh_stack s = [] then server_push sc_root (s\<lparr>sh_root_object := True\<rparr>)
      else
        let target = server_next_context s in
        if target = sc_invalid then server_fail sx_wrong_field_type s
        else
          let t = server_push target (s\<lparr>sh_pending := sf_none\<rparr>) in
          if target = sc_endpoint
          then t\<lparr>sh_endpoint := default_endpoint, sh_endpoint_seen := 0, sh_endpoint_name_offset := sh_offset t\<rparr>
          else t)"

definition server_object_end :: "server_handler \<Rightarrow> server_handler" where
  "server_object_end s =
     (if server_stopped s then s
      else if sh_stack s = [] then server_fail sx_wrong_field_type s
      else
        let ending = server_current s;
            t = server_validate_required ending s
        in if server_stopped t then t
           else
             let u = (if ending = sc_endpoint then finish_endpoint t else t)
             in if server_stopped u then u else server_pop u)"

definition server_array_begin :: "server_handler \<Rightarrow> server_handler" where
  "server_array_begin s =
     (if server_stopped s then s
      else if sh_stack s = [] then server_fail sx_wrong_root_type s
      else if server_current s \<noteq> sc_server \<or> sh_pending s \<noteq> sf_endpoints then server_fail sx_wrong_field_type s
      else server_push sc_endpoints (s\<lparr>sh_pending := sf_none\<rparr>))"

definition server_array_end :: "server_handler \<Rightarrow> server_handler" where
  "server_array_end s =
     (if server_stopped s then s
      else if sh_stack s = [] \<or> server_current s \<noteq> sc_endpoints then server_fail sx_wrong_field_type s
      else server_pop s)"

definition server_key :: "string \<Rightarrow> server_handler \<Rightarrow> server_handler" where
  "server_key v s =
     (if server_stopped s then s
      else if sh_stack s = [] then server_fail sx_wrong_field_type s
      else
        let owner = server_current s;
            f = server_identify owner v;
            t = s\<lparr>sh_pending := f\<rparr>;
            seen = server_seen_mask owner t
        in if f = sf_unknown then server_fail sx_unknown_property t
           else if seen AND server_field_bit f \<noteq> 0 then server_fail sx_duplicate_property t
           else server_mark_seen owner (seen OR server_field_bit f) t)"

text \<open>\<^verbatim>\<open>if (!stopped()) pending = field::none;\<close>\<close>

definition server_done :: "server_handler \<Rightarrow> server_handler" where
  "server_done s = (if server_stopped s then s else s\<lparr>sh_pending := sf_none\<rparr>)"

definition server_endpoint_string :: "string \<Rightarrow> server_handler \<Rightarrow> server_handler" where
  "server_endpoint_string v s =
     (if sh_pending s = sf_name then
        let t = s\<lparr>sh_endpoint_name_offset := sh_offset s\<rparr> in
        if v = [] then server_fail_member sx_invalid_endpoint sf_name t
        else t\<lparr>sh_endpoint := (sh_endpoint t)\<lparr>ep_name := v\<rparr>\<rparr>
      else if sh_pending s = sf_transport then
        if v \<noteq> ''tcp'' then server_fail_member sx_invalid_endpoint sf_transport s
        else s\<lparr>sh_endpoint := (sh_endpoint s)\<lparr>ep_transport := transport_tcp\<rparr>\<rparr>
      else if sh_pending s = sf_protocol then
        if v \<noteq> ''json'' then server_fail_member sx_invalid_endpoint sf_protocol s
        else s\<lparr>sh_endpoint := (sh_endpoint s)\<lparr>ep_protocol := protocol_json\<rparr>\<rparr>
      else if sh_pending s = sf_address then
        if v = [] then server_fail_member sx_invalid_endpoint sf_address s
        else s\<lparr>sh_endpoint := (sh_endpoint s)\<lparr>ep_address := v\<rparr>\<rparr>
      else server_fail sx_wrong_field_type s)"

definition server_string :: "string \<Rightarrow> server_handler \<Rightarrow> server_handler" where
  "server_string v s =
     (if server_stopped s then s
      else if sh_stack s = [] then server_fail sx_wrong_root_type s
      else server_done
        (if server_current s = sc_endpoint then server_endpoint_string v s
         else if server_current s = sc_logging \<and> sh_pending s = sf_level then
           (case parse_level v of
              None \<Rightarrow> server_fail_member sx_invalid_log_level sf_level s
            | Some level \<Rightarrow> s\<lparr>sh_candidate := (sh_candidate s)\<lparr>srv_logging :=
                (srv_logging (sh_candidate s))\<lparr>log_minimum_level := level\<rparr>\<rparr>\<rparr>)
         else if server_current s = sc_project \<and> sh_pending s = sf_path then
           (if v = [] then server_fail_member sx_invalid_project_path sf_path s
            else s\<lparr>sh_project_path := v\<rparr>)
         else server_fail sx_wrong_field_type s))"

definition server_integer :: "int \<Rightarrow> server_handler \<Rightarrow> server_handler" where
  "server_integer v s =
     (if server_stopped s then s
      else if sh_stack s = [] then server_fail sx_wrong_root_type s
      else server_done
        (if server_current s = sc_root \<and> sh_pending s = sf_version then
           (if v < 0 \<or> v > 2 ^ 32 - 1 then server_fail sx_wrong_field_type s
            else s\<lparr>sh_candidate := (sh_candidate s)\<lparr>srv_version := nat v\<rparr>\<rparr>)
         else if server_current s = sc_endpoint \<and> sh_pending s = sf_port then
           (if v < 1 \<or> v > 65535 then server_fail_member sx_invalid_endpoint sf_port s
            else s\<lparr>sh_endpoint := (sh_endpoint s)\<lparr>ep_port := nat v\<rparr>\<rparr>)
         else server_fail sx_wrong_field_type s))"

definition server_boolean :: "bool \<Rightarrow> server_handler \<Rightarrow> server_handler" where
  "server_boolean v s =
     (if server_stopped s then s
      else if sh_stack s = [] then server_fail sx_wrong_root_type s
      else server_done
        (if server_current s = sc_server \<and> sh_pending s = sf_console then
           s\<lparr>sh_candidate := (sh_candidate s)\<lparr>srv_communication :=
             (srv_communication (sh_candidate s))\<lparr>com_console := v\<rparr>\<rparr>\<rparr>
         else if server_current s = sc_logging \<and> sh_pending s = sf_console then
           s\<lparr>sh_candidate := (sh_candidate s)\<lparr>srv_logging :=
             (srv_logging (sh_candidate s))\<lparr>log_console := v\<rparr>\<rparr>\<rparr>
         else if server_current s = sc_telemetry \<and> sh_pending s = sf_metrics then
           s\<lparr>sh_candidate := (sh_candidate s)\<lparr>srv_telemetry := \<lparr>tel_metrics = v\<rparr>\<rparr>\<rparr>
         else server_fail sx_wrong_field_type s))"

primrec server_event :: "json_event \<Rightarrow> server_handler \<Rightarrow> server_handler" where
  "server_event (ev_location offset) s = s\<lparr>sh_offset := offset\<rparr>"
| "server_event ev_object_begin s = server_object_begin s"
| "server_event ev_object_end s = server_object_end s"
| "server_event ev_array_begin s = server_array_begin s"
| "server_event ev_array_end s = server_array_end s"
| "server_event (ev_key v) s = server_key v s"
| "server_event (ev_string v) s = server_string v s"
| "server_event (ev_integer v) s = server_integer v s"
| "server_event (ev_number v) s = server_reject_scalar s"
| "server_event (ev_boolean v) s = server_boolean v s"
| "server_event ev_null s = server_reject_scalar s"

definition server_run :: "json_event list \<Rightarrow> server_handler" where
  "server_run events = foldl (\<lambda>s ev. server_event ev s) server_handler_init events"

definition server_valid :: "server_handler \<Rightarrow> bool" where
  "server_valid s \<longleftrightarrow> sh_root_object s \<and> sh_stack s = [] \<and> sve_code (sh_failure s) = sx_none"

section \<open>Loading\<close>

definition load_server_configuration ::
    "string \<Rightarrow> string \<Rightarrow> nat \<Rightarrow> diagnostic_buffer \<Rightarrow> server_configuration \<Rightarrow>
       status_code \<times> diagnostic_buffer \<times> server_configuration" where
  "load_server_configuration input configuration_path operation diagnostics out =
     (case parse_json input of (events, parsed) \<Rightarrow>
        let handler = server_run events in
        if result_code parsed \<noteq> je_none then
          (if result_code parsed = je_internal_failure
           then (st_initialization_failed,
                 config_emit diagnostics server_initialization_failed operation (result_offset parsed) [], out)
           else (st_configuration_failed,
                 config_emit diagnostics server_invalid_json operation (result_offset parsed) [], out))
        else if \<not> server_valid handler then
          (st_configuration_failed,
           config_emit diagnostics server_invalid_configuration operation (sve_offset (sh_failure handler))
             (server_failure_detail (sh_failure handler)), out)
        else if srv_version (sh_candidate handler) \<noteq> current_server_configuration_version then
          (st_configuration_failed,
           config_emit diagnostics server_unsupported_configuration_version operation 0 [], out)
        else
          (st_ok, diagnostics,
           (sh_candidate handler)\<lparr>srv_project_path :=
             resolve_configuration_path configuration_path (sh_project_path handler)\<rparr>))"

text \<open>\<open>contents\<close> is what \<^verbatim>\<open>read_text_file\<close> reads, \<^const>\<open>None\<close> when it fails.\<close>

definition load_server_configuration_file ::
    "string option \<Rightarrow> string \<Rightarrow> nat \<Rightarrow> diagnostic_buffer \<Rightarrow> server_configuration \<Rightarrow>
       status_code \<times> diagnostic_buffer \<times> server_configuration" where
  "load_server_configuration_file contents configuration_path operation diagnostics out =
     (case contents of
        None \<Rightarrow> (st_io_failed, config_emit diagnostics server_configuration_read_failed operation 0 [], out)
      | Some input \<Rightarrow> load_server_configuration input configuration_path operation diagnostics out)"

section \<open>The handler stops at its first failure\<close>

lemma server_mask_test: "(seen AND server_field_bit f \<noteq> 0) \<longleftrightarrow> bit seen (server_field_index f)"
  unfolding server_field_bit_def by (rule mask_test)

lemma server_mask_set:
  "bit (seen OR server_field_bit f) m \<longleftrightarrow> bit seen m \<or> m = server_field_index f"
  unfolding server_field_bit_def by (rule mask_set) (cases f; simp)

lemma server_field_index_eq [simp]: "server_field_index f = server_field_index g \<longleftrightarrow> f = g"
  by (cases f; cases g; simp)

lemma server_fail_stopped [simp]: "c \<noteq> sx_none \<Longrightarrow> server_stopped (server_fail_at c member owner offset s)"
  by (simp add: server_fail_at_def server_stopped_def)

lemma server_fail_sticky: "server_stopped s \<Longrightarrow> server_fail_at c member owner offset s = s"
  by (simp add: server_fail_at_def server_stopped_def)

lemma server_event_stopped: "server_stopped s \<Longrightarrow> server_stopped (server_event ev s)"
proof (cases ev)
  case (ev_location offset)
  moreover assume "server_stopped s"
  ultimately show ?thesis by (simp add: server_stopped_def)
qed (simp_all add: server_object_begin_def server_object_end_def server_array_begin_def server_array_end_def
    server_key_def server_string_def server_integer_def server_boolean_def server_reject_scalar_def
    server_fail_sticky)

lemma server_require_list:
  "\<not> server_stopped (foldl (\<lambda>t f. server_require (server_seen_mask owner t) f t) s fs) \<Longrightarrow>
     foldl (\<lambda>t f. server_require (server_seen_mask owner t) f t) s fs = s \<and>
     (\<forall>f \<in> set fs. bit (server_seen_mask owner s) (server_field_index f))"
proof (induction fs arbitrary: s)
  case (Cons f fs)
  let ?t = "server_require (server_seen_mask owner s) f s"
  have sticky: "server_stopped t \<Longrightarrow> server_stopped (foldl (\<lambda>t f. server_require (server_seen_mask owner t) f t) t fs)" for t
    by (induction fs arbitrary: t) (auto simp: server_require_def server_fail_sticky)
  have "\<not> server_stopped ?t" using Cons.prems sticky by auto
  then have "server_seen_mask owner s AND server_field_bit f \<noteq> 0" "?t = s"
    by (auto simp: server_require_def split: if_splits)
  with Cons show ?case by (auto simp: server_mask_test)
qed simp

lemma server_validate_required_ok:
  assumes "\<not> server_stopped (server_validate_required owner s)"
  shows "server_validate_required owner s = s"
    "\<forall>f \<in> set (server_required owner). bit (server_seen_mask owner s) (server_field_index f)"
  using server_require_list assms unfolding server_validate_required_def by blast+

section \<open>The invariant\<close>

definition endpoint_ok :: "endpoint_configuration \<Rightarrow> bool" where
  "endpoint_ok e \<longleftrightarrow> ep_name e \<noteq> [] \<and> ep_address e \<noteq> [] \<and> 1 \<le> ep_port e \<and> ep_port e \<le> 65535"

text \<open>The context stacks that occur; the array of eight contexts never fills up.\<close>

definition server_stack_ok :: "server_context list \<Rightarrow> bool" where
  "server_stack_ok st \<longleftrightarrow>
     st \<in> {[], [sc_root], [sc_server, sc_root], [sc_endpoints, sc_server, sc_root],
           [sc_endpoint, sc_endpoints, sc_server, sc_root], [sc_logging, sc_root], [sc_telemetry, sc_root],
           [sc_project, sc_root]}"

abbreviation server_saw :: "u32 \<Rightarrow> server_field \<Rightarrow> bool" where
  "server_saw seen f \<equiv> bit seen (server_field_index f)"

text \<open>A property of the open endpoint that was seen is valid or still pending.\<close>

definition open_endpoint_ok :: "server_handler \<Rightarrow> bool" where
  "open_endpoint_ok s \<longleftrightarrow>
     (server_saw (sh_endpoint_seen s) sf_name \<longrightarrow> sh_pending s = sf_name \<or> ep_name (sh_endpoint s) \<noteq> []) \<and>
     (server_saw (sh_endpoint_seen s) sf_address \<longrightarrow> sh_pending s = sf_address \<or> ep_address (sh_endpoint s) \<noteq> []) \<and>
     (server_saw (sh_endpoint_seen s) sf_port \<longrightarrow>
        sh_pending s = sf_port \<or> 1 \<le> ep_port (sh_endpoint s) \<and> ep_port (sh_endpoint s) \<le> 65535)"

definition project_ok :: "server_handler \<Rightarrow> bool" where
  "project_ok s \<longleftrightarrow>
     (server_saw (sh_project_seen s) sf_path \<longrightarrow> sh_pending s = sf_path \<or> sh_project_path s \<noteq> []) \<and>
     (server_saw (sh_root_seen s) sf_project \<longrightarrow>
        sh_pending s = sf_project \<or> sc_project \<in> set (sh_stack s) \<or> server_saw (sh_project_seen s) sf_path) \<and>
     (sh_root_object s \<and> sh_stack s = [] \<longrightarrow> server_saw (sh_root_seen s) sf_project)"

definition server_endpoints :: "server_handler \<Rightarrow> endpoint_configuration list" where
  "server_endpoints s = com_endpoints (srv_communication (sh_candidate s))"

definition server_inv :: "server_handler \<Rightarrow> bool" where
  "server_inv s \<longleftrightarrow>
     server_stack_ok (sh_stack s) \<and>
     (sh_pending s = sf_none \<or>
      sh_pending s \<noteq> sf_unknown \<and> (\<exists>v. sh_pending s = server_identify (server_current s) v)) \<and>
     distinct (map ep_name (server_endpoints s)) \<and> list_all endpoint_ok (server_endpoints s) \<and>
     (server_current s = sc_endpoint \<longrightarrow> open_endpoint_ok s) \<and> project_ok s"

lemma server_inv_init: "server_inv server_handler_init"
  by (simp add: server_inv_def server_handler_init_def server_stack_ok_def server_endpoints_def
      default_server_configuration_def server_current_def project_ok_def)

lemma server_inv_location: "server_inv s \<Longrightarrow> server_inv (s\<lparr>sh_offset := offset\<rparr>)"
  by (simp add: server_inv_def server_endpoints_def server_current_def open_endpoint_ok_def project_ok_def)

lemmas server_inv_unfold = server_inv_def server_endpoints_def server_current_def open_endpoint_ok_def
  project_ok_def server_stack_ok_def

lemma server_inv_object_begin:
  assumes inv: "server_inv s" and go: "\<not> server_stopped (server_object_begin s)"
  shows "server_inv (server_object_begin s) \<and> sh_pending (server_object_begin s) = sf_none"
proof -
  have run: "\<not> server_stopped s" using go by (auto simp: server_object_begin_def split: if_splits)
  show ?thesis
  proof (cases "sh_stack s = []")
    case True
    with inv run show ?thesis
      by (auto simp: server_inv_unfold server_object_begin_def server_push_def server_identify_def)
  next
    case False
    let ?target = "server_next_context s"
    have target: "?target \<noteq> sc_invalid"
      using go run False by (auto simp: server_object_begin_def Let_def split: if_splits)
    have stack: "server_stack_ok (sh_stack s)" using inv by (simp add: server_inv_def)
    then have push: "server_push ?target (s\<lparr>sh_pending := sf_none\<rparr>) =
        s\<lparr>sh_pending := sf_none, sh_stack := ?target # sh_stack s\<rparr>"
      by (auto simp: server_push_def server_stack_ok_def)
    from stack target False consider
        (root) f where "sh_stack s = [sc_root]" "sh_pending s = f"
          "(f, ?target) \<in> {(sf_server, sc_server), (sf_logging, sc_logging), (sf_telemetry, sc_telemetry), (sf_project, sc_project)}"
      | (endpoints) "sh_stack s = [sc_endpoints, sc_server, sc_root]" "?target = sc_endpoint"
      by (auto simp: server_stack_ok_def server_next_context_def server_current_def split: if_splits)
    then show ?thesis
    proof cases
      case root
      then have "server_object_begin s = s\<lparr>sh_pending := sf_none, sh_stack := ?target # sh_stack s\<rparr>"
        using run False target push by (auto simp: server_object_begin_def Let_def)
      with root inv show ?thesis by (auto simp: server_inv_unfold)
    next
      case endpoints
      then have "server_object_begin s = s\<lparr>sh_pending := sf_none, sh_stack := sc_endpoint # sh_stack s,
          sh_endpoint := default_endpoint, sh_endpoint_seen := 0, sh_endpoint_name_offset := sh_offset s\<rparr>"
        using run False push by (simp add: server_object_begin_def Let_def)
      with endpoints inv show ?thesis by (auto simp: server_inv_unfold server_identify_def)
    qed
  qed
qed

lemma server_inv_array_begin:
  assumes "server_inv s" "\<not> server_stopped (server_array_begin s)"
  shows "server_inv (server_array_begin s) \<and> sh_pending (server_array_begin s) = sf_none"
  using assms by (auto simp: server_inv_unfold server_array_begin_def server_push_def split: if_splits)

lemma server_inv_array_end:
  assumes "server_inv s" "\<not> server_stopped (server_array_end s)" "sh_pending s = sf_none"
  shows "server_inv (server_array_end s) \<and> sh_pending (server_array_end s) = sf_none"
  using assms by (auto simp: server_inv_unfold server_array_end_def server_pop_def split: if_splits)

lemma server_inv_object_end:
  assumes inv: "server_inv s" and go: "\<not> server_stopped (server_object_end s)" and clear: "sh_pending s = sf_none"
  shows "server_inv (server_object_end s) \<and> sh_pending (server_object_end s) = sf_none"
proof -
  let ?c = "server_current s"
  have run: "\<not> server_stopped s" "sh_stack s \<noteq> []" using go by (auto simp: server_object_end_def split: if_splits)
  have valid: "\<not> server_stopped (server_validate_required ?c s)"
    using go run by (auto simp: server_object_end_def Let_def split: if_splits)
  note same = server_validate_required_ok [OF valid]
  show ?thesis
  proof (cases "?c = sc_endpoint")
    case True
    then have fresh: "\<not> list_ex (\<lambda>e. ep_name e = ep_name (sh_endpoint s)) (server_endpoints s)"
      using go run same by (auto simp: server_object_end_def Let_def finish_endpoint_def server_endpoints_def
          split: if_splits)
    then have "server_object_end s = server_pop (finish_endpoint s)"
      using run same True by (auto simp: server_object_end_def finish_endpoint_def server_endpoints_def server_stopped_def Let_def)
    moreover have "endpoint_ok (sh_endpoint s)"
      using same(2) True inv clear by (auto simp: endpoint_ok_def server_inv_def open_endpoint_ok_def)
    moreover have stack: "sh_stack s = [sc_endpoint, sc_endpoints, sc_server, sc_root]"
      using inv True by (auto simp: server_inv_def server_stack_ok_def server_current_def)
    moreover have "ep_name (sh_endpoint s) \<notin> ep_name ` set (server_endpoints s)" using fresh by (auto simp: list_ex_iff)
    moreover have "finish_endpoint s = s\<lparr>sh_candidate := (sh_candidate s)\<lparr>srv_communication :=
        (srv_communication (sh_candidate s))\<lparr>com_endpoints := server_endpoints s @ [sh_endpoint s]\<rparr>\<rparr>\<rparr>"
      using fresh by (simp add: finish_endpoint_def server_endpoints_def Let_def)
    ultimately show ?thesis
      using inv clear by (simp add: server_inv_def server_pop_def server_stack_ok_def server_current_def
          server_endpoints_def project_ok_def)
  next
    case False
    then have step: "server_object_end s = server_pop s" using run same by (auto simp: server_object_end_def)
    have "server_stack_ok (sh_stack s)" using inv by (simp add: server_inv_def)
    then consider "sh_stack s = [sc_root]" | "sh_stack s = [sc_project, sc_root]"
      | "sh_stack s \<in> {[sc_server, sc_root], [sc_logging, sc_root], [sc_telemetry, sc_root], [sc_endpoints, sc_server, sc_root]}"
      using run(2) False by (auto simp: server_stack_ok_def server_current_def)
    then have "project_ok (server_pop s) \<and> server_stack_ok (tl (sh_stack s)) \<and> server_current (server_pop s) \<noteq> sc_endpoint"
    proof cases
      case 1
      then have "server_saw (sh_root_seen s) sf_project" using same(2) by (simp add: server_current_def)
      with 1 inv clear show ?thesis
        by (simp add: server_inv_def project_ok_def server_pop_def server_stack_ok_def server_current_def)
    next
      case 2
      then have "server_saw (sh_project_seen s) sf_path" using same(2) by (simp add: server_current_def)
      with 2 inv clear show ?thesis
        by (simp add: server_inv_def project_ok_def server_pop_def server_stack_ok_def server_current_def)
    next
      case 3
      have "project_ok s" using inv by (simp add: server_inv_def)
      with 3 clear show ?thesis
        by (elim insertE; simp add: project_ok_def server_pop_def server_stack_ok_def server_current_def)
    qed
    moreover have "server_endpoints (server_pop s) = server_endpoints s" "sh_stack (server_pop s) = tl (sh_stack s)"
      "sh_pending (server_pop s) = sf_none"
      using clear by (simp_all add: server_pop_def server_endpoints_def)
    ultimately show ?thesis unfolding step using inv by (simp add: server_inv_def)
  qed
qed

lemma server_inv_key:
  assumes inv: "server_inv s" and go: "\<not> server_stopped (server_key v s)" and clear: "sh_pending s = sf_none"
  shows "server_inv (server_key v s)"
proof -
  let ?c = "server_current s" and ?f = "server_identify (server_current s) v"
  have run: "\<not> server_stopped s" "sh_stack s \<noteq> []" using go by (auto simp: server_key_def split: if_splits)
  then have f: "?f \<noteq> sf_unknown" using go by (auto simp: server_key_def Let_def split: if_splits)
  have mask: "server_seen_mask ?c (s\<lparr>sh_pending := ?f\<rparr>) = server_seen_mask ?c s" by (cases ?c) simp_all
  have key: "server_key v s =
      server_mark_seen ?c (server_seen_mask ?c s OR server_field_bit ?f) (s\<lparr>sh_pending := ?f\<rparr>)"
    using go run f mask by (auto simp: server_key_def Let_def split: if_splits)
  have parts: "server_stack_ok (sh_stack s)" "distinct (map ep_name (server_endpoints s))"
    "list_all endpoint_ok (server_endpoints s)" "?c = sc_endpoint \<Longrightarrow> open_endpoint_ok s" "project_ok s"
    using inv by (simp_all add: server_inv_def)
  have "?c \<in> {sc_root, sc_server, sc_endpoint, sc_logging, sc_telemetry, sc_project}"
    using parts(1) run(2) f by (auto simp: server_stack_ok_def server_current_def server_identify_def)
  then have "open_endpoint_ok (server_key v s)" if "?c = sc_endpoint"
    using that parts(4) clear f
    by (auto simp: key open_endpoint_ok_def server_mask_set simp del: server_field_index.simps)
  moreover have "project_ok (server_key v s)"
    using parts(5) clear f run(2) \<open>?c \<in> _\<close>
    by (auto simp: key project_ok_def server_mask_set simp del: server_field_index.simps)
  moreover have "server_current (server_key v s) = ?c" "sh_stack (server_key v s) = sh_stack s"
    "server_endpoints (server_key v s) = server_endpoints s" "sh_pending (server_key v s) = ?f"
    unfolding key by (cases ?c; simp add: server_current_def server_endpoints_def)+
  ultimately show ?thesis using parts f by (auto simp: server_inv_def)
qed

lemma server_done_stopped [simp]: "server_stopped (server_done s) \<longleftrightarrow> server_stopped s"
  by (simp add: server_done_def server_stopped_def)

text \<open>
  A scalar that was accepted: it clears the pending property and changes no context; what it assigns keeps
  the endpoints already listed and the conditions on the open endpoint and on the project path.
\<close>

lemma server_inv_scalar:
  assumes inv: "server_inv s" and t: "t = server_done u" "\<not> server_stopped u" "sh_stack u = sh_stack s"
    and same: "sh_endpoint_seen u = sh_endpoint_seen s" "sh_project_seen u = sh_project_seen s"
      "sh_root_seen u = sh_root_seen s" "sh_root_object u = sh_root_object s"
      "server_endpoints u = server_endpoints s"
    and endpoint: "server_current s = sc_endpoint \<Longrightarrow> open_endpoint_ok s \<Longrightarrow> open_endpoint_ok (u\<lparr>sh_pending := sf_none\<rparr>)"
    and path: "sh_pending s = sf_path \<Longrightarrow> sh_project_path u \<noteq> []" "sh_pending s \<noteq> sf_path \<Longrightarrow> sh_project_path u = sh_project_path s"
    and project: "sh_pending s \<noteq> sf_project"
  shows "server_inv t \<and> sh_pending t = sf_none"
proof -
  have "t = u\<lparr>sh_pending := sf_none\<rparr>" using t by (simp add: server_done_def)
  moreover have "project_ok (u\<lparr>sh_pending := sf_none\<rparr>)"
  proof -
    have "project_ok s" using inv by (simp add: server_inv_def)
    with t(3) same path project show ?thesis
      by (cases "sh_pending s = sf_path") (simp_all add: project_ok_def)
  qed
  moreover have "server_current (u\<lparr>sh_pending := sf_none\<rparr>) = server_current s"
    "server_endpoints (u\<lparr>sh_pending := sf_none\<rparr>) = server_endpoints s"
    using t(3) same(5) by (simp_all add: server_current_def server_endpoints_def)
  ultimately show ?thesis using inv t(3) endpoint by (simp add: server_inv_def)
qed

lemma server_pending_context:
  assumes "server_inv s" "sh_pending s \<noteq> sf_none"
  shows "sh_pending s \<in> {sf_name, sf_transport, sf_protocol, sf_address, sf_port} \<longleftrightarrow> server_current s = sc_endpoint"
    "sh_pending s = sf_path \<longleftrightarrow> server_current s = sc_project"
  using assms by (auto simp: server_inv_def server_identify_def split: if_splits)

lemma server_inv_string:
  assumes inv: "server_inv s" and go: "\<not> server_stopped (server_string v s)"
  shows "server_inv (server_string v s) \<and> sh_pending (server_string v s) = sf_none"
proof -
  have run: "\<not> server_stopped s" "sh_stack s \<noteq> []" using go by (auto simp: server_string_def split: if_splits)
  let ?c = "server_current s"
  from go run consider (endpoint) "?c = sc_endpoint" "\<not> server_stopped (server_endpoint_string v s)"
      "server_string v s = server_done (server_endpoint_string v s)"
    | (level) level where "?c = sc_logging" "sh_pending s = sf_level"
        "server_string v s = server_done (s\<lparr>sh_candidate := (sh_candidate s)\<lparr>srv_logging :=
                (srv_logging (sh_candidate s))\<lparr>log_minimum_level := level\<rparr>\<rparr>\<rparr>)"
    | (path) "?c = sc_project" "sh_pending s = sf_path" "v \<noteq> []"
        "server_string v s = server_done (s\<lparr>sh_project_path := v\<rparr>)"
    by (auto simp: server_string_def split: if_splits option.splits)
  then show ?thesis
  proof cases
    case endpoint
    have pending: "sh_pending s \<noteq> sf_path" "sh_pending s \<noteq> sf_project"
      using server_pending_context [OF inv] endpoint(1) by auto
    consider (name) "sh_pending s = sf_name" "v \<noteq> []" "server_endpoint_string v s =
          s\<lparr>sh_endpoint_name_offset := sh_offset s, sh_endpoint := (sh_endpoint s)\<lparr>ep_name := v\<rparr>\<rparr>"
      | (transport) "sh_pending s = sf_transport"
          "server_endpoint_string v s = s\<lparr>sh_endpoint := (sh_endpoint s)\<lparr>ep_transport := transport_tcp\<rparr>\<rparr>"
      | (protocol) "sh_pending s = sf_protocol"
          "server_endpoint_string v s = s\<lparr>sh_endpoint := (sh_endpoint s)\<lparr>ep_protocol := protocol_json\<rparr>\<rparr>"
      | (address) "sh_pending s = sf_address" "v \<noteq> []"
          "server_endpoint_string v s = s\<lparr>sh_endpoint := (sh_endpoint s)\<lparr>ep_address := v\<rparr>\<rparr>"
      using endpoint(2) by (auto simp: server_endpoint_string_def Let_def split: if_splits)
    then show ?thesis
      by cases (rule server_inv_scalar [OF inv endpoint(3,2)];
          simp add: server_endpoints_def open_endpoint_ok_def pending)+
  next
    case (level level)
    with run show ?thesis
      by (intro server_inv_scalar [OF inv level(3)])
        (auto simp: server_stopped_def server_endpoints_def open_endpoint_ok_def)
  next
    case path
    with run show ?thesis
      by (intro server_inv_scalar [OF inv path(4)])
        (auto simp: server_stopped_def server_endpoints_def open_endpoint_ok_def)
  qed
qed

lemma server_inv_integer:
  assumes inv: "server_inv s" and go: "\<not> server_stopped (server_integer v s)"
  shows "server_inv (server_integer v s) \<and> sh_pending (server_integer v s) = sf_none"
proof -
  have run: "\<not> server_stopped s" "sh_stack s \<noteq> []" using go by (auto simp: server_integer_def split: if_splits)
  from go run consider (version) "sh_pending s = sf_version" "server_current s = sc_root"
      "server_integer v s = server_done (s\<lparr>sh_candidate := (sh_candidate s)\<lparr>srv_version := nat v\<rparr>\<rparr>)"
    | (port) "sh_pending s = sf_port" "1 \<le> v" "v \<le> 65535"
      "server_integer v s = server_done (s\<lparr>sh_endpoint := (sh_endpoint s)\<lparr>ep_port := nat v\<rparr>\<rparr>)"
    by (auto simp: server_integer_def split: if_splits)
  then show ?thesis
  proof cases
    case version
    show ?thesis
      by (rule server_inv_scalar [OF inv version(3)])
        (use run version in \<open>simp_all add: server_stopped_def server_endpoints_def\<close>)
  next
    case port
    then have "1 \<le> nat v" "nat v \<le> 65535" by auto
    then show ?thesis
      by (intro server_inv_scalar [OF inv port(4)])
        (use run port in \<open>simp_all add: server_stopped_def server_endpoints_def open_endpoint_ok_def\<close>)
  qed
qed

lemma server_inv_boolean:
  assumes inv: "server_inv s" and go: "\<not> server_stopped (server_boolean v s)"
  shows "server_inv (server_boolean v s) \<and> sh_pending (server_boolean v s) = sf_none"
proof -
  have run: "\<not> server_stopped s" "sh_stack s \<noteq> []" using go by (auto simp: server_boolean_def split: if_splits)
  have "server_current s \<in> {sc_server, sc_logging, sc_telemetry}" "sh_pending s \<in> {sf_console, sf_metrics}"
    using go run by (auto simp: server_boolean_def split: if_splits)
  moreover from this obtain c where c: "server_boolean v s = server_done (s\<lparr>sh_candidate := c\<rparr>)"
    "com_endpoints (srv_communication c) = server_endpoints s"
    using run go by (auto simp: server_boolean_def server_endpoints_def split: if_splits)
  ultimately show ?thesis
    by (intro server_inv_scalar [OF inv c(1)])
      (use run c(2) in \<open>auto simp: server_stopped_def server_endpoints_def\<close>)
qed

text \<open>Every event but a key leaves no property pending.\<close>

lemma server_inv_event:
  assumes "server_inv s" "\<not> server_stopped (server_event ev s)" "needs_value_first ev \<Longrightarrow> sh_pending s = sf_none"
  shows "server_inv (server_event ev s) \<and>
    (\<not> is_key ev \<longrightarrow> \<not> is_location ev \<longrightarrow> sh_pending (server_event ev s) = sf_none)"
  using assms
  by (cases ev)
    (simp_all add: server_inv_location server_inv_object_begin server_inv_object_end server_inv_array_begin
      server_inv_array_end server_inv_key server_inv_string server_inv_integer server_inv_boolean
      server_reject_scalar_def split: if_splits)

interpretation sv: schema_handler "\<lambda>s ev. server_event ev s" server_stopped "\<lambda>s. sh_pending s = sf_none" server_inv
proof
  fix s ev
  show "server_stopped s \<Longrightarrow> server_stopped (server_event ev s)" by (rule server_event_stopped)
  assume inv: "server_inv s" and go: "\<not> server_stopped (server_event ev s)"
  show "\<not> is_key ev \<Longrightarrow> needs_value_first ev \<or> is_location ev \<Longrightarrow> sh_pending s = sf_none \<Longrightarrow>
      sh_pending (server_event ev s) = sf_none"
    using server_inv_event [OF inv go] by (cases ev) simp_all
  show "\<not> needs_value_first ev \<Longrightarrow> \<not> is_location ev \<Longrightarrow> sh_pending (server_event ev s) = sf_none"
    using server_inv_event [OF inv go] by (cases ev) simp_all
  show "(needs_value_first ev \<Longrightarrow> sh_pending s = sf_none) \<Longrightarrow> server_inv (server_event ev s)"
    using server_inv_event [OF inv go] by blast
qed

lemma server_run_eq: "server_run events = sv.run server_handler_init events"
  by (simp add: server_run_def sv.run_def)

section \<open>Results\<close>

lemma load_server_configuration_ok:
  assumes "load_server_configuration input configuration_path operation diagnostics out = (st_ok, diagnostics', cfg)"
  shows "result_code (snd (parse_json input)) = je_none" "diagnostics' = diagnostics"
    "server_valid (server_run (fst (parse_json input)))"
    "srv_version (sh_candidate (server_run (fst (parse_json input)))) = 1"
    "cfg = (sh_candidate (server_run (fst (parse_json input))))\<lparr>srv_project_path :=
       resolve_configuration_path configuration_path (sh_project_path (server_run (fst (parse_json input))))\<rparr>"
  using assms
  by (auto simp: load_server_configuration_def current_server_configuration_version_def Let_def
      split: prod.splits if_splits)

text \<open>
  C17. A Server configuration that is accepted is usable: its version is 1, every endpoint has a nonempty
  name and address and a port from 1 to 65535, no two endpoints share a name, and the project path is a
  nonempty configured path resolved against the configuration file; nothing is reported.
\<close>

theorem accepted_server_configuration:
  assumes "load_server_configuration input configuration_path operation diagnostics out = (st_ok, diagnostics', cfg)"
  shows "diagnostics' = diagnostics \<and> srv_version cfg = 1 \<and>
    list_all endpoint_ok (com_endpoints (srv_communication cfg)) \<and>
    distinct (map ep_name (com_endpoints (srv_communication cfg))) \<and>
    (\<exists>path. path \<noteq> [] \<and> srv_project_path cfg = resolve_configuration_path configuration_path path)"
proof -
  let ?s = "server_run (fst (parse_json input))"
  note ok = load_server_configuration_ok [OF assms]
  have go: "\<not> server_stopped ?s" using ok(3) by (simp add: server_valid_def server_stopped_def)
  have inv: "server_inv ?s" "sh_pending ?s = sf_none"
    using sv.parsed_inv [OF ok(1) server_inv_init] go
    by (simp_all add: server_run_eq) (simp_all add: server_handler_init_def)
  then have "sh_project_path ?s \<noteq> []"
    using ok(3) by (simp add: server_valid_def server_inv_def project_ok_def)
  with ok inv show ?thesis by (auto simp: server_inv_def server_endpoints_def)
qed

text \<open>
  C18. Loading a Server configuration is transactional and reports exactly once: it succeeds, or it
  leaves the output as it was and adds one diagnostic, of error or fatal severity and from the server domain
  of the catalogue.
\<close>

theorem load_server_configuration_transactional:
  "case load_server_configuration_file contents configuration_path operation diagnostics out of
     (st, diagnostics', cfg) \<Rightarrow>
       st = st_ok \<and> diagnostics' = diagnostics \<or>
       st \<noteq> st_ok \<and> cfg = out \<and> reported_once dom_server operation diagnostics diagnostics'"
proof -
  have "reported_once dom_server operation diagnostics (config_emit diagnostics d operation offset detail)"
    if "d \<in> {server_initialization_failed, server_invalid_json, server_invalid_configuration,
      server_unsupported_configuration_version, server_configuration_read_failed}" for d offset detail
  proof -
    have "d \<in> set diagnostic_descriptors" "desc_severity d \<in> {sev_error, sev_fatal}" "desc_domain d = dom_server"
      using that by (auto simp: diagnostic_descriptors_def server_initialization_failed_def server_invalid_json_def
          server_invalid_configuration_def server_unsupported_configuration_version_def
          server_configuration_read_failed_def)
    then show ?thesis using config_emit_reported by metis
  qed
  then show ?thesis
    by (simp add: load_server_configuration_file_def load_server_configuration_def Let_def
        split: option.splits prod.splits)
qed

definition sample_server_json :: string where
  "sample_server_json =
     map (\<lambda>c. if c = CHR ''^'' then CHR 0x22 else c)
     (''{^version^:1,^server^:{^endpoints^:[{^name^:^a^,^transport^:^tcp^,^protocol^:^json^,'' @
      ''^address^:^::1^,^port^:80}],^console^:true},^logging^:{^level^:^info^,^console^:false},'' @
      ''^telemetry^:{^metrics^:true},^project^:{^path^:^p.json^}}'')"

definition sample_server_configuration :: server_configuration where
  "sample_server_configuration =
     \<lparr>srv_version = 1,
      srv_communication = \<lparr>com_endpoints = [\<lparr>ep_name = ''a'', ep_transport = transport_tcp,
        ep_protocol = protocol_json, ep_address = ''::1'', ep_port = 80\<rparr>], com_console = True\<rparr>,
      srv_logging = \<lparr>log_minimum_level = level_info, log_console = False\<rparr>,
      srv_telemetry = \<lparr>tel_metrics = True\<rparr>, srv_project_path = ''/etc/p.json''\<rparr>"

lemma sample_server_loaded:
  "load_server_configuration sample_server_json ''/etc/server.json'' 3 [] default_server_configuration =
     (st_ok, [], sample_server_configuration)"
  by code_simp

theorem accepted_server_configuration_witness:
  "load_server_configuration sample_server_json ''/etc/server.json'' 3 [] default_server_configuration =
     (st_ok, [], sample_server_configuration) \<and>
   list_all endpoint_ok (com_endpoints (srv_communication sample_server_configuration))"
  using accepted_server_configuration [OF sample_server_loaded] sample_server_loaded by blast

end
