(* ===== verification/Project_Config.thy ===== *)
theory Project_Config
  imports Schema_Handler Config_Path
begin

text \<open>
  The Project configuration, \<^verbatim>\<open>src/server_engine/project/project_configuration.hpp\<close>, and its loader,
  \<^verbatim>\<open>project_configuration_loader.cpp\<close>. The event handler has the shape of the Server one: a stack of the
  open contexts, innermost first, a pending property, field masks and a sticky failure. Failed allocations
  (\<^verbatim>\<open>internal_failure\<close>) are not modelled; reading the file is an argument.
\<close>

section \<open>Configuration data\<close>

datatype project_item_role = role_type | role_source | role_project

record project_item_configuration =
  pit_path :: string
  pit_role :: project_item_role
  pit_canonical_path :: bool

datatype abi_target = windows_x64 | posix_x64

definition is_supported_abi_target :: "abi_target \<Rightarrow> bool" where
  "is_supported_abi_target target \<longleftrightarrow> target = windows_x64 \<or> target = posix_x64"

definition is_supported_abi_pack :: "nat \<Rightarrow> bool" where
  "is_supported_abi_pack pack \<longleftrightarrow> pack = 1 \<or> pack = 2 \<or> pack = 4 \<or> pack = 8 \<or> pack = 16"

record abi_configuration =
  abi_target_of :: abi_target
  abi_pack :: nat

definition default_abi_configuration :: abi_configuration where
  "default_abi_configuration = \<lparr>abi_target_of = windows_x64, abi_pack = 8\<rparr>"

definition is_supported_abi_configuration :: "abi_configuration \<Rightarrow> bool" where
  "is_supported_abi_configuration abi \<longleftrightarrow>
     is_supported_abi_target (abi_target_of abi) \<and> is_supported_abi_pack (abi_pack abi)"

record project_configuration =
  prj_version :: nat
  prj_name :: string
  prj_project :: "project_item_configuration list"
  prj_abi :: abi_configuration
  prj_materialized :: bool

definition default_item :: project_item_configuration where
  "default_item = \<lparr>pit_path = [], pit_role = role_source, pit_canonical_path = False\<rparr>"

definition default_project_configuration :: project_configuration where
  "default_project_configuration =
     \<lparr>prj_version = 0, prj_name = [], prj_project = [], prj_abi = default_abi_configuration, prj_materialized = True\<rparr>"

definition current_project_configuration_version :: nat where
  "current_project_configuration_version = 1"

section \<open>Contexts, fields and failures\<close>

datatype project_context = pc_root | pc_items | pc_item | pc_configuration | pc_abi | pc_invalid

datatype project_field =
    pf_none | pf_version | pf_name | pf_project | pf_configuration | pf_path | pf_role | pf_abi | pf_target
  | pf_pack | pf_unknown

primrec project_field_index :: "project_field \<Rightarrow> nat" where
  "project_field_index pf_none = 0"
| "project_field_index pf_version = 1"
| "project_field_index pf_name = 2"
| "project_field_index pf_project = 3"
| "project_field_index pf_configuration = 4"
| "project_field_index pf_path = 5"
| "project_field_index pf_role = 6"
| "project_field_index pf_abi = 7"
| "project_field_index pf_target = 8"
| "project_field_index pf_pack = 9"
| "project_field_index pf_unknown = 10"

datatype project_failure =
    px_none | px_wrong_root_type | px_unknown_property | px_duplicate_property | px_wrong_field_type
  | px_missing_required_field | px_invalid_name | px_invalid_path | px_invalid_role | px_invalid_target
  | px_invalid_pack | px_nesting_too_deep

record project_error =
  pje_code :: project_failure
  pje_owner :: project_context
  pje_member :: project_field
  pje_offset :: nat

definition project_failure_detail :: "project_error \<Rightarrow> string" where
  "project_failure_detail e =
     (if pje_code e = px_wrong_root_type then ''project configuration root must be an object''
      else if pje_code e = px_unknown_property then ''project configuration contains an unknown property''
      else if pje_code e = px_duplicate_property then ''project configuration contains a duplicate property''
      else if pje_code e = px_nesting_too_deep then ''project configuration nesting is too deep''
      else if pje_owner e = pc_root \<and> pje_member e = pf_name then ''name: expected a non-empty string''
      else if pje_owner e = pc_item \<and> pje_member e = pf_path
        then ''project[].path: expected a non-empty UTF-8 path string''
      else if pje_owner e = pc_item \<and> pje_member e = pf_role
        then ''project[].role: expected type, source, or project''
      else if pje_owner e = pc_abi \<and> pje_member e = pf_target
        then ''configuration.abi.target: expected windows-x64 or posix-x64''
      else if pje_owner e = pc_abi \<and> pje_member e = pf_pack
        then ''configuration.abi.pack: expected 1, 2, 4, 8, or 16''
      else if pje_code e = px_missing_required_field then ''project configuration is missing a required field''
      else if pje_code e = px_wrong_field_type then ''project configuration field has the wrong JSON type''
      else ''project configuration is invalid'')"

section \<open>The handler\<close>

record project_handler =
  ph_candidate :: project_configuration
  ph_item :: project_item_configuration
  ph_item_path :: string
  ph_stack :: "project_context list"
  ph_offset :: nat
  ph_pending :: project_field
  ph_failure :: project_error
  ph_root_seen :: u32
  ph_item_seen :: u32
  ph_configuration_seen :: u32
  ph_abi_seen :: u32
  ph_invalid_seen :: u32
  ph_root_object :: bool

definition project_handler_init :: project_handler where
  "project_handler_init =
     \<lparr>ph_candidate = default_project_configuration, ph_item = default_item, ph_item_path = [],
      ph_stack = [], ph_offset = 0, ph_pending = pf_none,
      ph_failure = \<lparr>pje_code = px_none, pje_owner = pc_invalid, pje_member = pf_none, pje_offset = 0\<rparr>,
      ph_root_seen = 0, ph_item_seen = 0, ph_configuration_seen = 0, ph_abi_seen = 0, ph_invalid_seen = 0,
      ph_root_object = False\<rparr>"

definition project_current :: "project_handler \<Rightarrow> project_context" where
  "project_current s = (case ph_stack s of [] \<Rightarrow> pc_invalid | c # _ \<Rightarrow> c)"

definition project_stopped :: "project_handler \<Rightarrow> bool" where
  "project_stopped s \<longleftrightarrow> pje_code (ph_failure s) \<noteq> px_none"

text \<open>\<^verbatim>\<open>fail\<close>; its callers never pass an owner or an offset.\<close>

definition project_fail_member :: "project_failure \<Rightarrow> project_field \<Rightarrow> project_handler \<Rightarrow> project_handler" where
  "project_fail_member c member s =
     (if pje_code (ph_failure s) \<noteq> px_none then s
      else s\<lparr>ph_failure :=
        \<lparr>pje_code = c, pje_owner = project_current s,
         pje_member = (if member = pf_none then ph_pending s else member),
         pje_offset = ph_offset s\<rparr>\<rparr>)"

abbreviation project_fail :: "project_failure \<Rightarrow> project_handler \<Rightarrow> project_handler" where
  "project_fail c s \<equiv> project_fail_member c pf_none s"

definition project_push :: "project_context \<Rightarrow> project_handler \<Rightarrow> project_handler" where
  "project_push c s =
     (if length (ph_stack s) = 8 then project_fail px_nesting_too_deep s
      else s\<lparr>ph_stack := c # ph_stack s\<rparr>)"

definition project_pop :: "project_handler \<Rightarrow> project_handler" where
  "project_pop s = s\<lparr>ph_stack := tl (ph_stack s)\<rparr>"

definition project_identify :: "project_context \<Rightarrow> string \<Rightarrow> project_field" where
  "project_identify owner v =
     (if owner = pc_root then
        if v = ''version'' then pf_version
        else if v = ''name'' then pf_name
        else if v = ''project'' then pf_project
        else if v = ''configuration'' then pf_configuration
        else pf_unknown
      else if owner = pc_item then
        if v = ''path'' then pf_path
        else if v = ''role'' then pf_role
        else pf_unknown
      else if owner = pc_configuration then
        if v = ''abi'' then pf_abi else pf_unknown
      else if owner = pc_abi then
        if v = ''target'' then pf_target
        else if v = ''pack'' then pf_pack
        else pf_unknown
      else pf_unknown)"

definition project_field_bit :: "project_field \<Rightarrow> u32" where
  "project_field_bit f = push_bit (project_field_index f) 1"

primrec project_seen_mask :: "project_context \<Rightarrow> project_handler \<Rightarrow> u32" where
  "project_seen_mask pc_root s = ph_root_seen s"
| "project_seen_mask pc_item s = ph_item_seen s"
| "project_seen_mask pc_configuration s = ph_configuration_seen s"
| "project_seen_mask pc_abi s = ph_abi_seen s"
| "project_seen_mask pc_items s = ph_invalid_seen s"
| "project_seen_mask pc_invalid s = ph_invalid_seen s"

text \<open>Assignment through the reference that \<^verbatim>\<open>seen_mask\<close> returns.\<close>

primrec project_mark_seen :: "project_context \<Rightarrow> u32 \<Rightarrow> project_handler \<Rightarrow> project_handler" where
  "project_mark_seen pc_root m s = s\<lparr>ph_root_seen := m\<rparr>"
| "project_mark_seen pc_item m s = s\<lparr>ph_item_seen := m\<rparr>"
| "project_mark_seen pc_configuration m s = s\<lparr>ph_configuration_seen := m\<rparr>"
| "project_mark_seen pc_abi m s = s\<lparr>ph_abi_seen := m\<rparr>"
| "project_mark_seen pc_items m s = s\<lparr>ph_invalid_seen := m\<rparr>"
| "project_mark_seen pc_invalid m s = s\<lparr>ph_invalid_seen := m\<rparr>"

definition project_require :: "u32 \<Rightarrow> project_field \<Rightarrow> project_handler \<Rightarrow> project_handler" where
  "project_require actual member s =
     (if actual AND project_field_bit member = 0
      then project_fail_member px_missing_required_field member s else s)"

primrec project_required :: "project_context \<Rightarrow> project_field list" where
  "project_required pc_root = [pf_version, pf_name, pf_project, pf_configuration]"
| "project_required pc_item = [pf_path, pf_role]"
| "project_required pc_configuration = [pf_abi]"
| "project_required pc_abi = [pf_target, pf_pack]"
| "project_required pc_items = []"
| "project_required pc_invalid = []"

definition project_validate_required :: "project_context \<Rightarrow> project_handler \<Rightarrow> project_handler" where
  "project_validate_required owner s =
     foldl (\<lambda>t f. project_require (project_seen_mask owner t) f t) s (project_required owner)"

text \<open>The moved-from \<^verbatim>\<open>item\<close> is not read before the next item object resets it.\<close>

definition finish_item :: "string \<Rightarrow> project_handler \<Rightarrow> project_handler" where
  "finish_item configuration_path s =
     (let path = resolve_configuration_path configuration_path (ph_item_path s);
          item = (ph_item s)\<lparr>pit_path := path, pit_canonical_path := path_is_absolute path\<rparr>
      in s\<lparr>ph_item := item,
           ph_candidate := (ph_candidate s)\<lparr>prj_project := prj_project (ph_candidate s) @ [item]\<rparr>\<rparr>)"

definition project_reject_scalar :: "project_handler \<Rightarrow> project_handler" where
  "project_reject_scalar s =
     (if ph_stack s = [] then project_fail px_wrong_root_type s else project_fail px_wrong_field_type s)"

definition project_next_context :: "project_handler \<Rightarrow> project_context" where
  "project_next_context s =
     (if project_current s = pc_items then pc_item
      else if project_current s = pc_root \<and> ph_pending s = pf_configuration then pc_configuration
      else if project_current s = pc_configuration \<and> ph_pending s = pf_abi then pc_abi
      else pc_invalid)"

definition project_object_begin :: "project_handler \<Rightarrow> project_handler" where
  "project_object_begin s =
     (if project_stopped s then s
      else if ph_stack s = [] then project_push pc_root (s\<lparr>ph_root_object := True\<rparr>)
      else
        let target = project_next_context s in
        if target = pc_invalid then project_fail px_wrong_field_type s
        else
          let t = project_push target (s\<lparr>ph_pending := pf_none\<rparr>) in
          if target = pc_item then t\<lparr>ph_item := default_item, ph_item_path := [], ph_item_seen := 0\<rparr>
          else t)"

definition project_object_end :: "string \<Rightarrow> project_handler \<Rightarrow> project_handler" where
  "project_object_end configuration_path s =
     (if project_stopped s then s
      else if ph_stack s = [] then project_fail px_wrong_field_type s
      else
        let ending = project_current s;
            t = project_validate_required ending s
        in if project_stopped t then t
           else
             let u = (if ending = pc_item then finish_item configuration_path t else t)
             in if project_stopped u then u else project_pop u)"

definition project_array_begin :: "project_handler \<Rightarrow> project_handler" where
  "project_array_begin s =
     (if project_stopped s then s
      else if ph_stack s = [] then project_fail px_wrong_root_type s
      else if project_current s \<noteq> pc_root \<or> ph_pending s \<noteq> pf_project then project_fail px_wrong_field_type s
      else project_push pc_items (s\<lparr>ph_pending := pf_none\<rparr>))"

definition project_array_end :: "project_handler \<Rightarrow> project_handler" where
  "project_array_end s =
     (if project_stopped s then s
      else if ph_stack s = [] \<or> project_current s \<noteq> pc_items then project_fail px_wrong_field_type s
      else project_pop s)"

definition project_key :: "string \<Rightarrow> project_handler \<Rightarrow> project_handler" where
  "project_key v s =
     (if project_stopped s then s
      else if ph_stack s = [] then project_fail px_wrong_field_type s
      else
        let owner = project_current s;
            f = project_identify owner v;
            t = s\<lparr>ph_pending := f\<rparr>;
            seen = project_seen_mask owner t
        in if f = pf_unknown then project_fail px_unknown_property t
           else if seen AND project_field_bit f \<noteq> 0 then project_fail px_duplicate_property t
           else project_mark_seen owner (seen OR project_field_bit f) t)"

text \<open>\<^verbatim>\<open>if (!stopped()) pending = field::none;\<close>\<close>

definition project_done :: "project_handler \<Rightarrow> project_handler" where
  "project_done s = (if project_stopped s then s else s\<lparr>ph_pending := pf_none\<rparr>)"

definition parse_role :: "string \<Rightarrow> project_item_role option" where
  "parse_role v =
     (if v = ''type'' then Some role_type
      else if v = ''source'' then Some role_source
      else if v = ''project'' then Some role_project
      else None)"

definition parse_target :: "string \<Rightarrow> abi_target option" where
  "parse_target v =
     (if v = ''windows-x64'' then Some windows_x64
      else if v = ''posix-x64'' then Some posix_x64
      else None)"

definition project_string :: "string \<Rightarrow> project_handler \<Rightarrow> project_handler" where
  "project_string v s =
     (if project_stopped s then s
      else if ph_stack s = [] then project_fail px_wrong_root_type s
      else project_done
        (if project_current s = pc_root \<and> ph_pending s = pf_name then
           (if v = [] then project_fail_member px_invalid_name pf_name s
            else s\<lparr>ph_candidate := (ph_candidate s)\<lparr>prj_name := v\<rparr>\<rparr>)
         else if project_current s = pc_item \<and> ph_pending s = pf_path then
           (if v = [] then project_fail_member px_invalid_path pf_path s
            else s\<lparr>ph_item_path := v\<rparr>)
         else if project_current s = pc_item \<and> ph_pending s = pf_role then
           (case parse_role v of
              None \<Rightarrow> project_fail_member px_invalid_role pf_role s
            | Some role \<Rightarrow> s\<lparr>ph_item := (ph_item s)\<lparr>pit_role := role\<rparr>\<rparr>)
         else if project_current s = pc_abi \<and> ph_pending s = pf_target then
           (case parse_target v of
              None \<Rightarrow> project_fail_member px_invalid_target pf_target s
            | Some target \<Rightarrow> s\<lparr>ph_candidate := (ph_candidate s)\<lparr>prj_abi :=
                (prj_abi (ph_candidate s))\<lparr>abi_target_of := target\<rparr>\<rparr>\<rparr>)
         else project_fail px_wrong_field_type s))"

definition project_integer :: "int \<Rightarrow> project_handler \<Rightarrow> project_handler" where
  "project_integer v s =
     (if project_stopped s then s
      else if ph_stack s = [] then project_fail px_wrong_root_type s
      else project_done
        (if project_current s = pc_root \<and> ph_pending s = pf_version then
           (if v < 0 \<or> v > 2 ^ 32 - 1 then project_fail px_wrong_field_type s
            else s\<lparr>ph_candidate := (ph_candidate s)\<lparr>prj_version := nat v\<rparr>\<rparr>)
         else if project_current s = pc_abi \<and> ph_pending s = pf_pack then
           (if v < 0 \<or> v > 2 ^ 32 - 1 \<or> \<not> is_supported_abi_pack (nat v)
            then project_fail_member px_invalid_pack pf_pack s
            else s\<lparr>ph_candidate := (ph_candidate s)\<lparr>prj_abi := (prj_abi (ph_candidate s))\<lparr>abi_pack := nat v\<rparr>\<rparr>\<rparr>)
         else project_fail px_wrong_field_type s))"

primrec project_event :: "string \<Rightarrow> json_event \<Rightarrow> project_handler \<Rightarrow> project_handler" where
  "project_event cp (ev_location offset) s = s\<lparr>ph_offset := offset\<rparr>"
| "project_event cp ev_object_begin s = project_object_begin s"
| "project_event cp ev_object_end s = project_object_end cp s"
| "project_event cp ev_array_begin s = project_array_begin s"
| "project_event cp ev_array_end s = project_array_end s"
| "project_event cp (ev_key v) s = project_key v s"
| "project_event cp (ev_string v) s = project_string v s"
| "project_event cp (ev_integer v) s = project_integer v s"
| "project_event cp (ev_number v) s = project_reject_scalar s"
| "project_event cp (ev_boolean v) s = project_reject_scalar s"
| "project_event cp ev_null s = project_reject_scalar s"

definition project_run :: "string \<Rightarrow> json_event list \<Rightarrow> project_handler" where
  "project_run cp events = foldl (\<lambda>s ev. project_event cp ev s) project_handler_init events"

definition project_valid :: "project_handler \<Rightarrow> bool" where
  "project_valid s \<longleftrightarrow> ph_root_object s \<and> ph_stack s = [] \<and> pje_code (ph_failure s) = px_none"

section \<open>Loading\<close>

definition load_project_configuration ::
    "string \<Rightarrow> string \<Rightarrow> nat \<Rightarrow> diagnostic_buffer \<Rightarrow> project_configuration \<Rightarrow>
       status_code \<times> diagnostic_buffer \<times> project_configuration" where
  "load_project_configuration input configuration_path operation diagnostics out =
     (case parse_json input of (events, parsed) \<Rightarrow>
        let handler = project_run configuration_path events in
        if result_code parsed \<noteq> je_none then
          (if result_code parsed = je_internal_failure
           then (st_initialization_failed,
                 config_emit diagnostics project_initialization_failed operation (result_offset parsed) [], out)
           else (st_configuration_failed,
                 config_emit diagnostics project_invalid_json operation (result_offset parsed) [], out))
        else if \<not> project_valid handler then
          (st_configuration_failed,
           config_emit diagnostics project_invalid_configuration operation (pje_offset (ph_failure handler))
             (project_failure_detail (ph_failure handler)), out)
        else if prj_version (ph_candidate handler) \<noteq> current_project_configuration_version then
          (st_configuration_failed,
           config_emit diagnostics project_unsupported_configuration_version operation 0 [], out)
        else (st_ok, diagnostics, ph_candidate handler))"

text \<open>\<open>contents\<close> is what \<^verbatim>\<open>read_text_file\<close> reads, \<^const>\<open>None\<close> when it fails.\<close>

definition load_project_configuration_file ::
    "string option \<Rightarrow> string \<Rightarrow> nat \<Rightarrow> diagnostic_buffer \<Rightarrow> project_configuration \<Rightarrow>
       status_code \<times> diagnostic_buffer \<times> project_configuration" where
  "load_project_configuration_file contents configuration_path operation diagnostics out =
     (case contents of
        None \<Rightarrow> (st_io_failed, config_emit diagnostics project_configuration_read_failed operation 0 [], out)
      | Some input \<Rightarrow> load_project_configuration input configuration_path operation diagnostics out)"

section \<open>The handler stops at its first failure\<close>

lemma project_mask_test: "(seen AND project_field_bit f \<noteq> 0) \<longleftrightarrow> bit seen (project_field_index f)"
  unfolding project_field_bit_def by (rule mask_test)

lemma project_mask_set:
  "bit (seen OR project_field_bit f) m \<longleftrightarrow> bit seen m \<or> m = project_field_index f"
  unfolding project_field_bit_def by (rule mask_set) (cases f; simp)

lemma project_field_index_eq [simp]: "project_field_index f = project_field_index g \<longleftrightarrow> f = g"
  by (cases f; cases g; simp)

lemma project_fail_stopped [simp]: "c \<noteq> px_none \<Longrightarrow> project_stopped (project_fail_member c member s)"
  by (simp add: project_fail_member_def project_stopped_def)

lemma project_fail_sticky: "project_stopped s \<Longrightarrow> project_fail_member c member s = s"
  by (simp add: project_fail_member_def project_stopped_def)

lemma project_event_stopped: "project_stopped s \<Longrightarrow> project_stopped (project_event cp ev s)"
proof (cases ev)
  case (ev_location offset)
  moreover assume "project_stopped s"
  ultimately show ?thesis by (simp add: project_stopped_def)
qed (simp_all add: project_object_begin_def project_object_end_def project_array_begin_def project_array_end_def
    project_key_def project_string_def project_integer_def project_reject_scalar_def project_fail_sticky)

lemma project_require_list:
  "\<not> project_stopped (foldl (\<lambda>t f. project_require (project_seen_mask owner t) f t) s fs) \<Longrightarrow>
     foldl (\<lambda>t f. project_require (project_seen_mask owner t) f t) s fs = s \<and>
     (\<forall>f \<in> set fs. bit (project_seen_mask owner s) (project_field_index f))"
proof (induction fs arbitrary: s)
  case (Cons f fs)
  let ?t = "project_require (project_seen_mask owner s) f s"
  have sticky: "project_stopped t \<Longrightarrow> project_stopped (foldl (\<lambda>t f. project_require (project_seen_mask owner t) f t) t fs)" for t
    by (induction fs arbitrary: t) (auto simp: project_require_def project_fail_sticky)
  have "\<not> project_stopped ?t" using Cons.prems sticky by auto
  then have "project_seen_mask owner s AND project_field_bit f \<noteq> 0" "?t = s"
    by (auto simp: project_require_def split: if_splits)
  with Cons show ?case by (auto simp: project_mask_test)
qed simp

lemma project_validate_required_ok:
  assumes "\<not> project_stopped (project_validate_required owner s)"
  shows "project_validate_required owner s = s"
    "\<forall>f \<in> set (project_required owner). bit (project_seen_mask owner s) (project_field_index f)"
  using project_require_list assms unfolding project_validate_required_def by blast+

section \<open>The invariant\<close>

text \<open>The context stacks that occur; the array of eight contexts never fills up.\<close>

definition project_stack_ok :: "project_context list \<Rightarrow> bool" where
  "project_stack_ok st \<longleftrightarrow>
     st \<in> {[], [pc_root], [pc_items, pc_root], [pc_item, pc_items, pc_root], [pc_configuration, pc_root],
           [pc_abi, pc_configuration, pc_root]}"

abbreviation project_saw :: "u32 \<Rightarrow> project_field \<Rightarrow> bool" where
  "project_saw seen f \<equiv> bit seen (project_field_index f)"

text \<open>A listed item has a nonempty configured path, resolved against the configuration file.\<close>

definition item_ok :: "string \<Rightarrow> project_item_configuration \<Rightarrow> bool" where
  "item_ok cp item \<longleftrightarrow>
     (\<exists>path. path \<noteq> [] \<and> pit_path item = resolve_configuration_path cp path) \<and>
     pit_canonical_path item = path_is_absolute (pit_path item)"

definition open_item_ok :: "project_handler \<Rightarrow> bool" where
  "open_item_ok s \<longleftrightarrow> (project_saw (ph_item_seen s) pf_path \<longrightarrow> ph_pending s = pf_path \<or> ph_item_path s \<noteq> [])"

definition name_ok :: "project_handler \<Rightarrow> bool" where
  "name_ok s \<longleftrightarrow>
     (project_saw (ph_root_seen s) pf_name \<longrightarrow> ph_pending s = pf_name \<or> prj_name (ph_candidate s) \<noteq> []) \<and>
     (ph_root_object s \<and> ph_stack s = [] \<longrightarrow> project_saw (ph_root_seen s) pf_name)"

definition project_inv :: "string \<Rightarrow> project_handler \<Rightarrow> bool" where
  "project_inv cp s \<longleftrightarrow>
     project_stack_ok (ph_stack s) \<and>
     (ph_pending s = pf_none \<or>
      ph_pending s \<noteq> pf_unknown \<and> (\<exists>v. ph_pending s = project_identify (project_current s) v)) \<and>
     list_all (item_ok cp) (prj_project (ph_candidate s)) \<and>
     is_supported_abi_configuration (prj_abi (ph_candidate s)) \<and> prj_materialized (ph_candidate s) \<and>
     (project_current s = pc_item \<longrightarrow> open_item_ok s) \<and> name_ok s"

lemmas project_inv_unfold = project_inv_def project_current_def open_item_ok_def name_ok_def project_stack_ok_def

lemma project_inv_init: "project_inv cp project_handler_init"
  by (simp add: project_inv_unfold project_handler_init_def default_project_configuration_def
      default_abi_configuration_def is_supported_abi_configuration_def is_supported_abi_target_def
      is_supported_abi_pack_def)

lemma project_inv_location: "project_inv cp s \<Longrightarrow> project_inv cp (s\<lparr>ph_offset := offset\<rparr>)"
  by (simp add: project_inv_unfold)

lemma project_inv_object_begin:
  assumes inv: "project_inv cp s" and go: "\<not> project_stopped (project_object_begin s)"
  shows "project_inv cp (project_object_begin s) \<and> ph_pending (project_object_begin s) = pf_none"
proof -
  have run: "\<not> project_stopped s" using go by (auto simp: project_object_begin_def split: if_splits)
  show ?thesis
  proof (cases "ph_stack s = []")
    case True
    with inv run show ?thesis
      by (auto simp: project_inv_unfold project_object_begin_def project_push_def project_identify_def)
  next
    case False
    let ?target = "project_next_context s"
    have target: "?target \<noteq> pc_invalid"
      using go run False by (auto simp: project_object_begin_def Let_def split: if_splits)
    have stack: "project_stack_ok (ph_stack s)" using inv by (simp add: project_inv_def)
    then have push: "project_push ?target (s\<lparr>ph_pending := pf_none\<rparr>) =
        s\<lparr>ph_pending := pf_none, ph_stack := ?target # ph_stack s\<rparr>"
      by (auto simp: project_push_def project_stack_ok_def)
    from stack target False consider
        (configuration) "ph_stack s = [pc_root]" "ph_pending s = pf_configuration" "?target = pc_configuration"
      | (abi) "ph_stack s = [pc_configuration, pc_root]" "ph_pending s = pf_abi" "?target = pc_abi"
      | (items) "ph_stack s = [pc_items, pc_root]" "?target = pc_item"
      by (auto simp: project_stack_ok_def project_next_context_def project_current_def split: if_splits)
    then show ?thesis
    proof cases
      case configuration
      then have "project_object_begin s = s\<lparr>ph_pending := pf_none, ph_stack := [pc_configuration, pc_root]\<rparr>"
        using run push by (simp add: project_object_begin_def Let_def)
      with configuration inv show ?thesis by (simp add: project_inv_unfold)
    next
      case abi
      then have "project_object_begin s = s\<lparr>ph_pending := pf_none, ph_stack := [pc_abi, pc_configuration, pc_root]\<rparr>"
        using run push by (simp add: project_object_begin_def Let_def)
      with abi inv show ?thesis by (simp add: project_inv_unfold)
    next
      case items
      then have "project_object_begin s = s\<lparr>ph_pending := pf_none, ph_stack := pc_item # ph_stack s,
          ph_item := default_item, ph_item_path := [], ph_item_seen := 0\<rparr>"
        using run False push by (simp add: project_object_begin_def Let_def)
      with items inv show ?thesis by (auto simp: project_inv_unfold project_identify_def)
    qed
  qed
qed

lemma project_inv_array_begin:
  assumes "project_inv cp s" "\<not> project_stopped (project_array_begin s)"
  shows "project_inv cp (project_array_begin s) \<and> ph_pending (project_array_begin s) = pf_none"
  using assms by (auto simp: project_inv_unfold project_array_begin_def project_push_def split: if_splits)

lemma project_inv_array_end:
  assumes "project_inv cp s" "\<not> project_stopped (project_array_end s)" "ph_pending s = pf_none"
  shows "project_inv cp (project_array_end s) \<and> ph_pending (project_array_end s) = pf_none"
  using assms by (auto simp: project_inv_unfold project_array_end_def project_pop_def split: if_splits)

lemma project_inv_object_end:
  assumes inv: "project_inv cp s" and go: "\<not> project_stopped (project_object_end cp s)" and clear: "ph_pending s = pf_none"
  shows "project_inv cp (project_object_end cp s) \<and> ph_pending (project_object_end cp s) = pf_none"
proof -
  let ?c = "project_current s"
  have run: "\<not> project_stopped s" "ph_stack s \<noteq> []" using go by (auto simp: project_object_end_def split: if_splits)
  have valid: "\<not> project_stopped (project_validate_required ?c s)"
    using go run by (auto simp: project_object_end_def Let_def split: if_splits)
  note same = project_validate_required_ok [OF valid]
  have stack: "project_stack_ok (ph_stack s)" using inv by (simp add: project_inv_def)
  show ?thesis
  proof (cases "?c = pc_item")
    case True
    have "project_object_end cp s = project_pop (finish_item cp s)"
      using run same True by (auto simp: project_object_end_def finish_item_def project_stopped_def Let_def)
    moreover have "ph_item_path s \<noteq> []"
      using same(2) True inv clear by (auto simp: project_inv_def open_item_ok_def)
    moreover have "ph_stack s = [pc_item, pc_items, pc_root]"
      using stack True by (auto simp: project_stack_ok_def project_current_def)
    ultimately show ?thesis
      using inv clear by (auto simp: project_inv_unfold project_pop_def finish_item_def item_ok_def Let_def)
  next
    case False
    then have step: "project_object_end cp s = project_pop s" using run same by (auto simp: project_object_end_def)
    have "name_ok (project_pop s)"
    proof (cases "ph_stack s = [pc_root]")
      case True
      then have "project_saw (ph_root_seen s) pf_name" using same(2) by (simp add: project_current_def)
      with inv clear show ?thesis by (simp add: project_inv_def name_ok_def project_pop_def)
    next
      case False
      with inv clear stack run(2) show ?thesis by (auto simp: project_inv_def name_ok_def project_pop_def project_stack_ok_def)
    qed
    moreover have "project_stack_ok (tl (ph_stack s))" "project_current (project_pop s) \<noteq> pc_item"
      using stack run(2) False by (auto simp: project_stack_ok_def project_current_def project_pop_def)
    ultimately show ?thesis unfolding step using inv clear by (simp add: project_inv_def project_pop_def)
  qed
qed

lemma project_inv_key:
  assumes inv: "project_inv cp s" and go: "\<not> project_stopped (project_key v s)" and clear: "ph_pending s = pf_none"
  shows "project_inv cp (project_key v s)"
proof -
  let ?c = "project_current s" and ?f = "project_identify (project_current s) v"
  have run: "\<not> project_stopped s" "ph_stack s \<noteq> []" using go by (auto simp: project_key_def split: if_splits)
  then have f: "?f \<noteq> pf_unknown" using go by (auto simp: project_key_def Let_def split: if_splits)
  have mask: "project_seen_mask ?c (s\<lparr>ph_pending := ?f\<rparr>) = project_seen_mask ?c s" by (cases ?c) simp_all
  have key: "project_key v s =
      project_mark_seen ?c (project_seen_mask ?c s OR project_field_bit ?f) (s\<lparr>ph_pending := ?f\<rparr>)"
    using go run f mask by (auto simp: project_key_def Let_def split: if_splits)
  have parts: "project_stack_ok (ph_stack s)" "?c = pc_item \<Longrightarrow> open_item_ok s" "name_ok s"
    using inv by (simp_all add: project_inv_def)
  have c: "?c \<in> {pc_root, pc_item, pc_configuration, pc_abi}"
    using parts(1) run(2) f by (auto simp: project_stack_ok_def project_current_def project_identify_def)
  have "open_item_ok (project_key v s)" if "?c = pc_item"
    using that parts(2) clear f
    by (auto simp: key open_item_ok_def project_mask_set simp del: project_field_index.simps)
  moreover have "name_ok (project_key v s)"
    using parts(3) clear f run(2) c
    by (auto simp: key name_ok_def project_mask_set simp del: project_field_index.simps)
  moreover have "project_current (project_key v s) = ?c" "ph_stack (project_key v s) = ph_stack s"
    "ph_candidate (project_key v s) = ph_candidate s" "ph_pending (project_key v s) = ?f"
    unfolding key by (cases ?c; simp add: project_current_def)+
  ultimately show ?thesis using inv f by (auto simp: project_inv_def)
qed

lemma project_done_stopped [simp]: "project_stopped (project_done s) \<longleftrightarrow> project_stopped s"
  by (simp add: project_done_def project_stopped_def)

lemma project_inv_string:
  assumes inv: "project_inv cp s" and go: "\<not> project_stopped (project_string v s)"
  shows "project_inv cp (project_string v s) \<and> ph_pending (project_string v s) = pf_none"
proof -
  have run: "\<not> project_stopped s" "ph_stack s \<noteq> []" using go by (auto simp: project_string_def split: if_splits)
  let ?c = "project_current s"
  from go run consider
      (name) "?c = pc_root" "ph_pending s = pf_name" "v \<noteq> []"
        "project_string v s = s\<lparr>ph_candidate := (ph_candidate s)\<lparr>prj_name := v\<rparr>, ph_pending := pf_none\<rparr>"
    | (path) "?c = pc_item" "ph_pending s = pf_path" "v \<noteq> []"
        "project_string v s = s\<lparr>ph_item_path := v, ph_pending := pf_none\<rparr>"
    | (role) role where "?c = pc_item" "ph_pending s = pf_role"
        "project_string v s = s\<lparr>ph_item := (ph_item s)\<lparr>pit_role := role\<rparr>, ph_pending := pf_none\<rparr>"
    | (target) target where "?c = pc_abi" "ph_pending s = pf_target"
        "project_string v s = s\<lparr>ph_candidate := (ph_candidate s)\<lparr>prj_abi :=
           (prj_abi (ph_candidate s))\<lparr>abi_target_of := target\<rparr>\<rparr>, ph_pending := pf_none\<rparr>"
    by (auto simp: project_string_def project_done_def project_stopped_def project_fail_member_def split: if_splits option.splits)
  then show ?thesis
  proof cases
    case (target target)
    then have "is_supported_abi_target target" by (cases target) (simp_all add: is_supported_abi_target_def)
    with target inv show ?thesis
      by (simp add: project_inv_def project_current_def open_item_ok_def name_ok_def is_supported_abi_configuration_def)
  qed (use inv in \<open>simp_all add: project_inv_def project_current_def open_item_ok_def name_ok_def\<close>)
qed

lemma project_inv_integer:
  assumes inv: "project_inv cp s" and go: "\<not> project_stopped (project_integer v s)"
  shows "project_inv cp (project_integer v s) \<and> ph_pending (project_integer v s) = pf_none"
proof -
  have run: "\<not> project_stopped s" "ph_stack s \<noteq> []" using go by (auto simp: project_integer_def split: if_splits)
  from go run consider (version) "project_current s = pc_root" "ph_pending s = pf_version"
      "project_integer v s = s\<lparr>ph_candidate := (ph_candidate s)\<lparr>prj_version := nat v\<rparr>, ph_pending := pf_none\<rparr>"
    | (pack) "project_current s = pc_abi" "ph_pending s = pf_pack" "is_supported_abi_pack (nat v)"
      "project_integer v s = s\<lparr>ph_candidate := (ph_candidate s)\<lparr>prj_abi :=
         (prj_abi (ph_candidate s))\<lparr>abi_pack := nat v\<rparr>\<rparr>, ph_pending := pf_none\<rparr>"
    by (auto simp: project_integer_def project_done_def project_stopped_def project_fail_member_def split: if_splits)
  then show ?thesis
    by cases (use inv in \<open>simp_all add: project_inv_def project_current_def open_item_ok_def name_ok_def
      is_supported_abi_configuration_def\<close>)
qed

text \<open>Every event but a key leaves no property pending.\<close>

lemma project_inv_event:
  assumes "project_inv cp s" "\<not> project_stopped (project_event cp ev s)" "needs_value_first ev \<Longrightarrow> ph_pending s = pf_none"
  shows "project_inv cp (project_event cp ev s) \<and>
    (\<not> is_key ev \<longrightarrow> \<not> is_location ev \<longrightarrow> ph_pending (project_event cp ev s) = pf_none)"
  using assms
  by (cases ev)
    (simp_all add: project_inv_location project_inv_object_begin project_inv_object_end project_inv_array_begin
      project_inv_array_end project_inv_key project_inv_string project_inv_integer
      project_reject_scalar_def split: if_splits)

interpretation pj: schema_handler "\<lambda>s ev. project_event cp ev s" project_stopped "\<lambda>s. ph_pending s = pf_none" "project_inv cp"
  for cp
proof
  fix s ev
  show "project_stopped s \<Longrightarrow> project_stopped (project_event cp ev s)" by (rule project_event_stopped)
  assume inv: "project_inv cp s" and go: "\<not> project_stopped (project_event cp ev s)"
  show "\<not> is_key ev \<Longrightarrow> needs_value_first ev \<or> is_location ev \<Longrightarrow> ph_pending s = pf_none \<Longrightarrow>
      ph_pending (project_event cp ev s) = pf_none"
    using project_inv_event [OF inv go] by (cases ev) simp_all
  show "\<not> needs_value_first ev \<Longrightarrow> \<not> is_location ev \<Longrightarrow> ph_pending (project_event cp ev s) = pf_none"
    using project_inv_event [OF inv go] by (cases ev) simp_all
  show "(needs_value_first ev \<Longrightarrow> ph_pending s = pf_none) \<Longrightarrow> project_inv cp (project_event cp ev s)"
    using project_inv_event [OF inv go] by blast
qed

lemma project_run_eq: "project_run cp events = pj.run cp project_handler_init events"
  by (simp add: project_run_def pj.run_def)

section \<open>Results\<close>

lemma load_project_configuration_ok:
  assumes "load_project_configuration input configuration_path operation diagnostics out = (st_ok, diagnostics', cfg)"
  shows "result_code (snd (parse_json input)) = je_none" "diagnostics' = diagnostics"
    "project_valid (project_run configuration_path (fst (parse_json input)))" "prj_version cfg = 1"
    "cfg = ph_candidate (project_run configuration_path (fst (parse_json input)))"
  using assms
  by (auto simp: load_project_configuration_def current_project_configuration_version_def Let_def
      split: prod.splits if_splits)

text \<open>
  A Project configuration that is accepted is usable: its version is 1, its name is not empty, its ABI
  is a supported one, and every root is a nonempty configured path resolved against the configuration file,
  with \<^verbatim>\<open>canonical_path\<close> set exactly for the absolute ones; all of them are when the configuration file
  was named by an absolute path. Nothing is reported.
\<close>

theorem accepted_project_configuration:
  assumes "load_project_configuration input configuration_path operation diagnostics out = (st_ok, diagnostics', cfg)"
  shows "diagnostics' = diagnostics \<and> prj_version cfg = 1 \<and> prj_name cfg \<noteq> [] \<and> prj_materialized cfg \<and>
    is_supported_abi_configuration (prj_abi cfg) \<and>
    list_all (item_ok configuration_path) (prj_project cfg) \<and>
    (path_is_absolute configuration_path \<longrightarrow> list_all pit_canonical_path (prj_project cfg))"
proof -
  let ?s = "project_run configuration_path (fst (parse_json input))"
  note ok = load_project_configuration_ok [OF assms]
  have go: "\<not> project_stopped ?s" using ok(3) by (simp add: project_valid_def project_stopped_def)
  have inv: "project_inv configuration_path ?s" "ph_pending ?s = pf_none"
    using pj.parsed_inv [OF ok(1) project_inv_init] go
    by (simp_all add: project_run_eq) (simp_all add: project_handler_init_def)
  have "item_ok configuration_path item \<Longrightarrow> path_is_absolute configuration_path \<Longrightarrow> pit_canonical_path item" for item
    using resolve_canonical(1) by (auto simp: item_ok_def)
  then have "path_is_absolute configuration_path \<longrightarrow> list_all pit_canonical_path (prj_project cfg)"
    using inv ok(5) by (auto simp: project_inv_def list_all_iff)
  moreover have "prj_name cfg \<noteq> []"
    using ok(3,5) inv by (simp add: project_valid_def project_inv_def name_ok_def)
  ultimately show ?thesis using ok inv by (simp add: project_inv_def)
qed

definition sample_project_json :: string where
  "sample_project_json =
     map (\<lambda>c. if c = CHR ''^'' then CHR 0x22 else c)
     (''{^version^:1,^name^:^demo^,^project^:[{^path^:^../a.h^,^role^:^type^}],'' @
      ''^configuration^:{^abi^:{^target^:^posix-x64^,^pack^:4}}}'')"

definition sample_project_configuration :: project_configuration where
  "sample_project_configuration =
     \<lparr>prj_version = 1, prj_name = ''demo'',
      prj_project = [\<lparr>pit_path = ''/srv/a.h'', pit_role = role_type, pit_canonical_path = True\<rparr>],
      prj_abi = \<lparr>abi_target_of = posix_x64, abi_pack = 4\<rparr>, prj_materialized = True\<rparr>"

lemma sample_project_loaded:
  "load_project_configuration sample_project_json ''/srv/p/project.json'' 3 [] default_project_configuration =
     (st_ok, [], sample_project_configuration)"
  by code_simp

theorem accepted_project_configuration_witness:
  "load_project_configuration sample_project_json ''/srv/p/project.json'' 3 [] default_project_configuration =
     (st_ok, [], sample_project_configuration) \<and>
   path_is_absolute ''/srv/p/project.json'' \<and> list_all pit_canonical_path (prj_project sample_project_configuration)"
  using accepted_project_configuration [OF sample_project_loaded] sample_project_loaded
  by (simp add: path_is_absolute_def)

text \<open>
  Loading a Project configuration is transactional and reports exactly once: it succeeds, or it
  leaves the output as it was and adds one diagnostic, of error or fatal severity and from the project domain
  of the catalogue.
\<close>

theorem load_project_configuration_transactional:
  "case load_project_configuration_file contents configuration_path operation diagnostics out of
     (st, diagnostics', cfg) \<Rightarrow>
       st = st_ok \<and> diagnostics' = diagnostics \<or>
       st \<noteq> st_ok \<and> cfg = out \<and> reported_once dom_project operation diagnostics diagnostics'"
proof -
  have "reported_once dom_project operation diagnostics (config_emit diagnostics d operation offset detail)"
    if "d \<in> {project_initialization_failed, project_invalid_json, project_invalid_configuration,
      project_unsupported_configuration_version, project_configuration_read_failed}" for d offset detail
  proof -
    have "d \<in> set diagnostic_descriptors" "desc_severity d \<in> {sev_error, sev_fatal}" "desc_domain d = dom_project"
      using that by (auto simp: diagnostic_descriptors_def project_initialization_failed_def project_invalid_json_def
          project_invalid_configuration_def project_unsupported_configuration_version_def
          project_configuration_read_failed_def)
    then show ?thesis using config_emit_reported by metis
  qed
  then show ?thesis
    by (simp add: load_project_configuration_file_def load_project_configuration_def Let_def
        split: option.splits prod.splits)
qed

end
