(* ===== verification/Byte_Arena.thy ===== *)
theory Byte_Arena
  imports Prelude
begin

text \<open>
  The concurrent byte arena, \<^verbatim>\<open>src/server_engine/project/storage/byte_arena.cpp\<close>. Calls of \<^verbatim>\<open>allocate\<close> run
  interleaved: each access to an atomic variable is one step of one call, and the steps of all calls are
  interleaved arbitrarily. Pages are named by their position in the list of the pages ever made; what
  \<^verbatim>\<open>operator new\<close> returns for a page is an argument of the step. Sizes, alignments and counters are 64-bit
  words, so that \<^verbatim>\<open>fetch_add\<close> wraps around as it does in the code.
\<close>

section \<open>Alignment\<close>

definition align_up :: "u64 \<Rightarrow> u64 \<Rightarrow> u64" where
  "align_up v alignment = (v + alignment - 1) AND NOT (alignment - 1)"

definition valid_alignment :: "u64 \<Rightarrow> bool" where
  "valid_alignment alignment \<longleftrightarrow> alignment \<noteq> 0 \<and> alignment AND (alignment - 1) = 0"

section \<open>Pages\<close>

text \<open>
  \<open>pg_live\<close> is false for a candidate that was deleted after losing its exchange. \<open>pg_base\<close> is
  the address of the page's bytes.
\<close>

record arena_page =
  pg_base :: nat
  pg_used :: u64
  pg_capacity :: u64
  pg_next_owned :: "nat option"
  pg_live :: bool

record byte_arena =
  ar_pages :: "arena_page list"
  ar_current :: "nat option"
  ar_owned :: "nat option"
  ar_reserved_bytes :: u64
  ar_reserved_pages :: u64

definition arena_init :: byte_arena where
  "arena_init = \<lparr>ar_pages = [], ar_current = None, ar_owned = None, ar_reserved_bytes = 0, ar_reserved_pages = 0\<rparr>"

definition default_page_size :: u64 where
  "default_page_size = 64 * 1024"

definition page_capacity :: "u64 \<Rightarrow> u64" where
  "page_capacity minimum_capacity = max default_page_size minimum_capacity"

definition make_page :: "nat option \<Rightarrow> u64 \<Rightarrow> byte_arena \<Rightarrow> (nat \<times> byte_arena) option" where
  "make_page block minimum_capacity s =
     (case block of
        None \<Rightarrow> None
      | Some base \<Rightarrow> Some (length (ar_pages s),
          s\<lparr>ar_pages := ar_pages s @ [\<lparr>pg_base = base, pg_used = 0, pg_capacity = page_capacity minimum_capacity,
            pg_next_owned = None, pg_live = True\<rparr>]\<rparr>))"

definition delete_page :: "nat \<Rightarrow> byte_arena \<Rightarrow> byte_arena" where
  "delete_page p s = s\<lparr>ar_pages := (ar_pages s)[p := (ar_pages s ! p)\<lparr>pg_live := False\<rparr>]\<rparr>"

definition own_page :: "nat \<Rightarrow> byte_arena \<Rightarrow> byte_arena" where
  "own_page p s =
     s\<lparr>ar_pages := (ar_pages s)[p := (ar_pages s ! p)\<lparr>pg_next_owned := ar_owned s\<rparr>],
       ar_owned := Some p,
       ar_reserved_bytes := ar_reserved_bytes s + pg_capacity (ar_pages s ! p),
       ar_reserved_pages := ar_reserved_pages s + 1\<rparr>"

section \<open>A call of allocate\<close>

text \<open>
  Where a call stands: at the load of \<^verbatim>\<open>current_page\<close>; holding a candidate for the null current page;
  about to own a page it installed (and then to use it, or to start over); about to reserve on a page; after
  a reservation that did not fit; holding a candidate to replace a page; or finished, with the page and the
  offset of the result.
\<close>

datatype arena_pc =
    ap_load
  | ap_first nat
  | ap_own nat bool
  | ap_reserve nat
  | ap_refill nat
  | ap_install nat nat
  | ap_done status_code "(nat \<times> u64) option"

record arena_call =
  ac_size :: u64
  ac_alignment :: u64
  ac_pc :: arena_pc

definition reservation_of :: "arena_call \<Rightarrow> u64" where
  "reservation_of c = ac_size c + ac_alignment c - 1"

definition allocate_begin :: "u64 \<Rightarrow> u64 \<Rightarrow> arena_call" where
  "allocate_begin n alignment =
     \<lparr>ac_size = n, ac_alignment = alignment,
      ac_pc =
        (if n = 0 \<or> \<not> valid_alignment alignment then ap_done st_invalid_argument None
         else if n > - 1 - (alignment - 1) then ap_done st_not_available None
         else ap_load)\<rparr>"

definition reserve_step :: "nat \<Rightarrow> arena_call \<Rightarrow> byte_arena \<Rightarrow> arena_pc \<times> byte_arena" where
  "reserve_step p c s =
     (let page = ar_pages s ! p;
          offset = pg_used page;
          s' = s\<lparr>ar_pages := (ar_pages s)[p := page\<lparr>pg_used := offset + reservation_of c\<rparr>]\<rparr>;
          aligned = align_up offset (ac_alignment c)
      in if offset \<le> pg_capacity page \<and> aligned \<le> pg_capacity page \<and> ac_size c \<le> pg_capacity page - aligned
         then (ap_done st_ok (Some (p, aligned)), s')
         else (ap_refill p, s'))"

fun arena_pc_step :: "nat option \<Rightarrow> arena_call \<Rightarrow> arena_pc \<Rightarrow> byte_arena \<Rightarrow> arena_pc \<times> byte_arena" where
  "arena_pc_step block c ap_load s =
     (case ar_current s of
        Some p \<Rightarrow> (ap_reserve p, s)
      | None \<Rightarrow>
          (case make_page block (reservation_of c) s of
             None \<Rightarrow> (ap_done st_initialization_failed None, s)
           | Some (candidate, s') \<Rightarrow> (ap_first candidate, s')))"
| "arena_pc_step block c (ap_first candidate) s =
     (if ar_current s = None then (ap_own candidate True, s\<lparr>ar_current := Some candidate\<rparr>)
      else (ap_load, delete_page candidate s))"
| "arena_pc_step block c (ap_own p first) s = (if first then ap_reserve p else ap_load, own_page p s)"
| "arena_pc_step block c (ap_reserve p) s = reserve_step p c s"
| "arena_pc_step block c (ap_refill p) s =
     (case make_page block (reservation_of c) s of
        None \<Rightarrow> (ap_done st_initialization_failed None, s)
      | Some (candidate, s') \<Rightarrow> (ap_install p candidate, s'))"
| "arena_pc_step block c (ap_install p candidate) s =
     (if ar_current s = Some p then (ap_own candidate False, s\<lparr>ar_current := Some candidate\<rparr>)
      else (ap_load, delete_page candidate s))"
| "arena_pc_step block c (ap_done st out) s = (ap_done st out, s)"

definition arena_step :: "nat option \<Rightarrow> arena_call \<Rightarrow> byte_arena \<Rightarrow> arena_call \<times> byte_arena" where
  "arena_step block c s = (case arena_pc_step block c (ac_pc c) s of (pc, s') \<Rightarrow> (c\<lparr>ac_pc := pc\<rparr>, s'))"

section \<open>Interleaved calls\<close>

text \<open>
  The calls made so far, with the arena they share and a log of their reservations: which call reserved how
  much on which page.
\<close>

record arena_system =
  sys_arena :: byte_arena
  sys_calls :: "arena_call list"
  sys_log :: "(nat \<times> nat \<times> u64) list"

text \<open>
  What \<^verbatim>\<open>operator new\<close> may return for a page: nothing, or a block aligned to
  \<^verbatim>\<open>__STDCPP_DEFAULT_NEW_ALIGNMENT__\<close> (16), of at most \<^verbatim>\<open>PTRDIFF_MAX\<close> bytes, apart from the blocks in use.
\<close>

definition apart :: "nat \<Rightarrow> nat \<Rightarrow> nat \<Rightarrow> nat \<Rightarrow> bool" where
  "apart a m b n \<longleftrightarrow> a + m \<le> b \<or> b + n \<le> a"

definition block_ok :: "byte_arena \<Rightarrow> u64 \<Rightarrow> nat option \<Rightarrow> bool" where
  "block_ok s capacity block \<longleftrightarrow>
     (case block of
        None \<Rightarrow> True
      | Some base \<Rightarrow> 16 dvd base \<and> unat capacity < 2 ^ 63 \<and>
          list_all (\<lambda>p. pg_live p \<longrightarrow> apart base (unat capacity) (pg_base p) (unat (pg_capacity p))) (ar_pages s))"

fun log_entry :: "nat \<Rightarrow> arena_call \<Rightarrow> arena_pc \<Rightarrow> (nat \<times> nat \<times> u64) list" where
  "log_entry i c (ap_reserve p) = [(i, p, reservation_of c)]"
| "log_entry i c _ = []"

inductive arena_reach :: "arena_system \<Rightarrow> bool" where
  init: "arena_reach \<lparr>sys_arena = arena_init, sys_calls = [], sys_log = []\<rparr>"
| begin_call: "arena_reach s \<Longrightarrow> arena_reach (s\<lparr>sys_calls := sys_calls s @ [allocate_begin n alignment]\<rparr>)"
| step_call: "arena_reach s \<Longrightarrow> i < length (sys_calls s) \<Longrightarrow> c = sys_calls s ! i \<Longrightarrow>
    block_ok (sys_arena s) (page_capacity (reservation_of c)) block \<Longrightarrow>
    arena_step block c (sys_arena s) = (c', a') \<Longrightarrow>
    arena_reach (s\<lparr>sys_arena := a', sys_calls := (sys_calls s)[i := c'],
      sys_log := sys_log s @ log_entry i c (ac_pc c)\<rparr>)"

section \<open>Alignment arithmetic\<close>

lemma unat_u64_less: "unat (x :: u64) < 2 ^ 64"
  by (rule order_less_le_trans [OF unsigned_less]) simp

lemma nat_power_of_two:
  fixes n :: nat
  assumes "n \<noteq> 0" "n AND (n - 1) = 0"
  shows "\<exists>k. n = 2 ^ k"
  using assms
proof (induction n rule: less_induct)
  case (less n)
  show ?case
  proof (cases "even n")
    case True
    then obtain m where m: "n = 2 * m" by blast
    with less.prems have "m \<noteq> 0" by simp
    then have "n - 1 = 1 + 2 * (m - 1)" using m by simp
    then have "n AND (n - 1) = 2 * (m AND (m - 1))" using m by (simp add: and_nat_rec [of "2 * m"])
    then obtain k where "m = 2 ^ k" using less.IH [of m] less.prems m \<open>m \<noteq> 0\<close> by auto
    then have "n = 2 ^ Suc k" using m by simp
    then show ?thesis by blast
  next
    case False
    then obtain m where m: "n = 1 + 2 * m" using oddE by (metis add.commute)
    then have "n AND (n - 1) = 2 * m" by (simp add: and_nat_rec [of "Suc (2 * m)"])
    then have "n = 2 ^ 0" using less.prems m by simp
    then show ?thesis by blast
  qed
qed

lemma valid_alignment_power:
  assumes "valid_alignment a"
  obtains k where "k < 64" "a = 2 ^ k" "unat a = 2 ^ k"
proof -
  have "unat (a AND (a - 1)) = unat a AND unat (a - 1)" by (simp add: unsigned_and_eq)
  then have "unat a AND (unat a - 1) = 0" "unat a \<noteq> 0"
    using assms by (simp_all add: valid_alignment_def unat_minus_one unat_eq_zero)
  then obtain k where k: "unat a = 2 ^ k" using nat_power_of_two by blast
  moreover have "k < 64"
  proof (rule ccontr)
    assume "\<not> k < 64"
    then have "(2 :: nat) ^ 64 \<le> 2 ^ k" by (intro power_increasing) auto
    with k unat_u64_less [of a] show False by simp
  qed
  moreover have "a = 2 ^ k" using arg_cong [OF k, of "of_nat :: nat \<Rightarrow> u64"] by simp
  ultimately show thesis using that by blast
qed

lemma and_not_mask: "unat (x AND NOT (mask k :: u64)) = unat x div 2 ^ k * 2 ^ k"
proof -
  have "x AND NOT (mask k) = push_bit k (drop_bit k x)"
    by (rule bit_eqI) (auto simp: bit_and_iff bit_not_iff bit_mask_iff bit_push_bit_iff bit_drop_bit_eq dest: bit_imp_le_length)
  moreover have "unat (push_bit k (drop_bit k x)) = (unat x div 2 ^ k * 2 ^ k) mod 2 ^ 64"
    by (simp only: unsigned_push_bit_eq unsigned_drop_bit_eq)
      (simp add: drop_bit_eq_div push_bit_eq_mult take_bit_eq_mod mod_less [OF unat_u64_less, simplified])
  moreover have "unat x div 2 ^ k * 2 ^ k < 2 ^ 64"
    by (rule le_less_trans [OF div_times_less_eq_dividend unat_u64_less])
  ultimately show ?thesis by simp
qed

lemma align_up_bounds:
  assumes "valid_alignment a" "unat v < 2 ^ 63"
  shows "unat v \<le> unat (align_up v a)" "unat (align_up v a) \<le> unat v + (unat a - 1)" "unat a dvd unat (align_up v a)"
proof -
  obtain k where k: "k < 64" "a = 2 ^ k" "unat a = 2 ^ k" using valid_alignment_power [OF assms(1)] .
  have "(2 :: nat) ^ k \<le> 2 ^ 63" using k(1) by (intro power_increasing) auto
  then have sum: "unat (v + (a - 1)) = unat v + (2 ^ k - 1)"
    using assms k by (subst unat_add_lem [THEN iffD1]) (auto simp: valid_alignment_def unat_minus_one)
  have mask: "a - 1 = mask k" using k(2) by (simp add: mask_eq_exp_minus_1)
  have "align_up v a = (v + (a - 1)) AND NOT (a - 1)" by (simp add: align_up_def add_diff_eq)
  then have up: "unat (align_up v a) = (unat v + (2 ^ k - 1)) div 2 ^ k * 2 ^ k"
    using and_not_mask [of "v + (a - 1)" k] unfolding mask sum [unfolded mask] by simp
  then show "unat a dvd unat (align_up v a)" by (simp add: k(3))
  show "unat (align_up v a) \<le> unat v + (unat a - 1)" unfolding up k(3) by (rule div_times_less_eq_dividend)
  have "m < m div 2 ^ k * 2 ^ k + 2 ^ k" for m :: nat
    using dividend_less_div_times [of "2 ^ k" m] by (simp add: add.commute)
  from this [of "unat v + (2 ^ k - 1)"] show "unat v \<le> unat (align_up v a)" unfolding up by simp
qed

section \<open>The invariant\<close>

fun held :: "arena_pc \<Rightarrow> nat option" where
  "held (ap_first candidate) = Some candidate"
| "held (ap_install p candidate) = Some candidate"
| "held _ = None"

fun uses :: "arena_pc \<Rightarrow> nat option" where
  "uses (ap_own p first) = Some p"
| "uses (ap_reserve p) = Some p"
| "uses (ap_refill p) = Some p"
| "uses (ap_install p candidate) = Some p"
| "uses (ap_done st (Some out)) = Some (fst out)"
| "uses _ = None"

definition reserved_on :: "nat \<Rightarrow> (nat \<times> nat \<times> u64) list \<Rightarrow> nat" where
  "reserved_on p log = (\<Sum>(i, q, r) \<leftarrow> log. if q = p then unat r else 0)"

lemma reserved_on_simps [simp]:
  "reserved_on p [] = 0" "reserved_on p (log @ log') = reserved_on p log + reserved_on p log'"
  "reserved_on p ((i, q, r) # log) = (if q = p then unat r else 0) + reserved_on p log"
  by (simp_all add: reserved_on_def)

text \<open>No page counter wraps around: less than \<^verbatim>\<open>2^64\<close> bytes were requested of each page in all.\<close>

definition no_wrap :: "(nat \<times> nat \<times> u64) list \<Rightarrow> bool" where
  "no_wrap log \<longleftrightarrow> (\<forall>p. reserved_on p log < 2 ^ 64)"

lemma no_wrap_append: "no_wrap (log @ log') \<Longrightarrow> no_wrap log"
  by (auto simp: no_wrap_def intro: le_less_trans [OF le_add1])

definition call_ok :: "arena_call \<Rightarrow> bool" where
  "call_ok c \<longleftrightarrow>
     (\<exists>st. ac_pc c = ap_done st None \<and> st \<noteq> st_ok) \<or>
     valid_alignment (ac_alignment c) \<and> unat (reservation_of c) = unat (ac_size c) + (unat (ac_alignment c) - 1)"

definition page_ok :: "(nat \<times> nat \<times> u64) list \<Rightarrow> nat \<Rightarrow> arena_page \<Rightarrow> bool" where
  "page_ok log p page \<longleftrightarrow>
     unat (pg_used page) = reserved_on p log \<and> unat (pg_capacity page) < 2 ^ 63 \<and> 16 dvd pg_base page"

definition pages_apart :: "arena_page list \<Rightarrow> bool" where
  "pages_apart pages \<longleftrightarrow>
     (\<forall>p q. p < q \<longrightarrow> q < length pages \<longrightarrow> pg_live (pages ! p) \<longrightarrow> pg_live (pages ! q) \<longrightarrow>
        apart (pg_base (pages ! p)) (unat (pg_capacity (pages ! p))) (pg_base (pages ! q)) (unat (pg_capacity (pages ! q))))"

text \<open>A page that other calls may know: it is or was current.\<close>

definition public :: "byte_arena \<Rightarrow> arena_call list \<Rightarrow> nat \<Rightarrow> bool" where
  "public a calls p \<longleftrightarrow> ar_current a = Some p \<or> (\<exists>i < length calls. uses (ac_pc (calls ! i)) = Some p)"

definition holds :: "arena_call list \<Rightarrow> nat \<Rightarrow> nat \<Rightarrow> bool" where
  "holds calls i candidate \<longleftrightarrow> i < length calls \<and> held (ac_pc (calls ! i)) = Some candidate"

text \<open>The result of a finished call lies in a reservation of its own.\<close>

definition grant_ok :: "byte_arena \<Rightarrow> (nat \<times> nat \<times> u64) list \<Rightarrow> nat \<Rightarrow> arena_call \<Rightarrow> nat \<Rightarrow> u64 \<Rightarrow> bool" where
  "grant_ok a log i c p off \<longleftrightarrow>
     unat off + unat (ac_size c) \<le> unat (pg_capacity (ar_pages a ! p)) \<and> unat (ac_alignment c) dvd unat off \<and>
     (\<exists>k < length log. log ! k = (i, p, reservation_of c) \<and> reserved_on p (take k log) \<le> unat off \<and>
        unat off + unat (ac_size c) \<le> reserved_on p (take k log) + unat (reservation_of c))"

definition arena_inv :: "byte_arena \<Rightarrow> arena_call list \<Rightarrow> (nat \<times> nat \<times> u64) list \<Rightarrow> bool" where
  "arena_inv a calls log \<longleftrightarrow>
     (\<forall>p < length (ar_pages a). page_ok log p (ar_pages a ! p)) \<and> pages_apart (ar_pages a) \<and>
     (\<forall>p. public a calls p \<longrightarrow> p < length (ar_pages a) \<and> pg_live (ar_pages a ! p)) \<and>
     (\<forall>i candidate. holds calls i candidate \<longrightarrow> candidate < length (ar_pages a) \<and> pg_live (ar_pages a ! candidate) \<and>
        \<not> public a calls candidate \<and> (\<forall>j. holds calls j candidate \<longrightarrow> j = i)) \<and>
     (\<forall>(i, p, r) \<in> set log. p < length (ar_pages a)) \<and>
     (\<forall>i < length calls. call_ok (calls ! i)) \<and>
     (\<forall>i < length calls. \<forall>st p off. ac_pc (calls ! i) = ap_done st (Some (p, off)) \<longrightarrow> grant_ok a log i (calls ! i) p off)"

lemma public_update:
  "i < length calls \<Longrightarrow> public a (calls[i := c]) p \<longleftrightarrow>
     ar_current a = Some p \<or> uses (ac_pc c) = Some p \<or> (\<exists>j < length calls. j \<noteq> i \<and> uses (ac_pc (calls ! j)) = Some p)"
  by (auto simp: public_def nth_list_update)

lemma holds_update:
  "i < length calls \<Longrightarrow> holds (calls[i := c]) j d \<longleftrightarrow> (if j = i then held (ac_pc c) = Some d else holds calls j d)"
  by (auto simp: holds_def)

lemma arena_inv_facts:
  assumes "arena_inv a calls log"
  shows "p < length (ar_pages a) \<Longrightarrow> page_ok log p (ar_pages a ! p)" "pages_apart (ar_pages a)"
    "public a calls p \<Longrightarrow> p < length (ar_pages a) \<and> pg_live (ar_pages a ! p)"
    "holds calls i d \<Longrightarrow> d < length (ar_pages a) \<and> pg_live (ar_pages a ! d) \<and> \<not> public a calls d"
    "holds calls i d \<Longrightarrow> holds calls j d \<Longrightarrow> j = i"
    "(i, p, r) \<in> set log \<Longrightarrow> p < length (ar_pages a)"
    "i < length calls \<Longrightarrow> call_ok (calls ! i)"
    "i < length calls \<Longrightarrow> ac_pc (calls ! i) = ap_done st (Some (p, off)) \<Longrightarrow> grant_ok a log i (calls ! i) p off"
  using assms unfolding arena_inv_def by blast+

text \<open>
  One call moves and the arena changes: what has to be shown of the pages, of the page the call then uses and
  of the candidate it then holds.
\<close>

lemma arena_inv_move:
  assumes inv: "arena_inv a calls log" and i: "i < length calls" and c': "c' = (calls ! i)\<lparr>ac_pc := pc\<rparr>"
    and pages: "length (ar_pages a) \<le> length (ar_pages a')" "pages_apart (ar_pages a')"
      "\<And>p. p < length (ar_pages a') \<Longrightarrow> page_ok (log @ log') p (ar_pages a' ! p)"
      "\<And>p. p < length (ar_pages a) \<Longrightarrow> \<not> holds calls i p \<Longrightarrow> pg_live (ar_pages a ! p) \<Longrightarrow> pg_live (ar_pages a' ! p)"
      "\<And>p. p < length (ar_pages a) \<Longrightarrow> pg_capacity (ar_pages a' ! p) = pg_capacity (ar_pages a ! p)"
    and current: "\<And>p. ar_current a' = Some p \<Longrightarrow> ar_current a = Some p \<or> uses pc = Some p"
    and uses: "\<And>p. uses pc = Some p \<Longrightarrow> public a calls p \<or> holds calls i p \<and> held pc \<noteq> Some p \<and> pg_live (ar_pages a' ! p)"
    and held: "\<And>d. held pc = Some d \<Longrightarrow> d < length (ar_pages a') \<and> pg_live (ar_pages a' ! d) \<and>
        (holds calls i d \<or> length (ar_pages a) \<le> d)"
    and log': "\<And>j p r. (j, p, r) \<in> set log' \<Longrightarrow> p < length (ar_pages a')"
    and ok: "call_ok c'"
    and grant: "\<And>st p off. pc = ap_done st (Some (p, off)) \<Longrightarrow> grant_ok a' (log @ log') i c' p off"
  shows "arena_inv a' (calls[i := c']) (log @ log')"
proof -
  note facts = arena_inv_facts [OF inv]
  let ?calls = "calls[i := c']"
  have pc: "ac_pc c' = pc" by (simp add: c')
  have public: "public a calls p \<or> holds calls i p \<and> held pc \<noteq> Some p \<and> pg_live (ar_pages a' ! p)"
    if "public a' ?calls p" for p
    using that i current [of p] uses [of p] by (auto simp: public_update pc) (auto simp: public_def)
  have "p < length (ar_pages a') \<and> pg_live (ar_pages a' ! p)" if p: "public a' ?calls p" for p
    using public [OF p]
  proof
    assume q: "public a calls p"
    then have "p < length (ar_pages a)" "pg_live (ar_pages a ! p)" "\<not> holds calls i p" using facts(3,4) by blast+
    then show ?thesis using pages(1,4) by (meson less_le_trans)
  next
    assume "holds calls i p \<and> held pc \<noteq> Some p \<and> pg_live (ar_pages a' ! p)"
    then show ?thesis using facts(4) pages(1) by (meson less_le_trans)
  qed
  moreover have "d < length (ar_pages a') \<and> pg_live (ar_pages a' ! d) \<and> \<not> public a' ?calls d \<and> (\<forall>k. holds ?calls k d \<longrightarrow> k = j)"
    if j: "holds ?calls j d" for j d
  proof (cases "j = i")
    case True
    then have d: "held pc = Some d" using j i by (simp add: holds_update pc)
    then have new: "holds calls i d \<or> length (ar_pages a) \<le> d" using held by blast
    have "\<not> public a calls d" "\<And>k. holds calls k d \<Longrightarrow> k = i"
      using new facts(3,4,5) by (metis leD)+
    moreover have "\<not> public a' ?calls d" using public [of d] d \<open>\<not> public a calls d\<close> by blast
    ultimately show ?thesis using d held [of d] True i by (auto simp: holds_update pc split: if_splits)
  next
    case False
    then have old: "holds calls j d" using j i by (simp add: holds_update)
    then have facts': "d < length (ar_pages a)" "pg_live (ar_pages a ! d)" "\<not> public a calls d" "\<not> holds calls i d"
      using facts(4,5) False by blast+
    then have "\<not> public a' ?calls d" using public [of d] by blast
    moreover have "held pc \<noteq> Some d" using held [of d] facts'(1,4) by (metis leD)
    moreover have "pg_live (ar_pages a' ! d)" using pages(4) facts' by blast
    ultimately show ?thesis using facts'(1) pages(1) facts(5) old i by (auto simp: holds_update pc split: if_splits)
  qed
  moreover have "p < length (ar_pages a')" if "(j, p, r) \<in> set (log @ log')" for j p r
    using that facts(6) log' pages(1) by (auto intro: less_le_trans)
  moreover have "grant_ok a' (log @ log') j (?calls ! j) p off"
    if "j < length ?calls" "ac_pc (?calls ! j) = ap_done st (Some (p, off))" for j st p off
  proof (cases "j = i")
    case True
    then show ?thesis using that grant pc i by simp
  next
    case False
    then have j: "j < length calls" "ac_pc (calls ! j) = ap_done st (Some (p, off))" using that by simp_all
    have "public a calls p" using j by (force simp: public_def)
    then have "pg_capacity (ar_pages a' ! p) = pg_capacity (ar_pages a ! p)" using facts(3) pages(5) by blast
    then show ?thesis using facts(8) [OF j] False
      by (auto simp: grant_ok_def nth_append intro: exI [where x = "_ :: nat"])
  qed
  moreover have "call_ok (?calls ! j)" if "j < length ?calls" for j
    using that facts(7) ok i by (cases "j = i") simp_all
  ultimately show ?thesis unfolding arena_inv_def using pages(2,3) by blast
qed

lemma arena_inv_begin:
  assumes "arena_inv a calls log"
  shows "arena_inv a (calls @ [allocate_begin n alignment]) log"
proof -
  let ?c = "allocate_begin n alignment"
  have none: "uses (ac_pc ?c) = None" "held (ac_pc ?c) = None" by (simp_all add: allocate_begin_def)
  have "call_ok ?c"
  proof (cases "n = 0 \<or> \<not> valid_alignment alignment \<or> n > - 1 - (alignment - 1)")
    case True
    then show ?thesis by (auto simp: call_ok_def allocate_begin_def)
  next
    case False
    then have "alignment \<noteq> 0" "unat n \<le> unat (- 1 - (alignment - 1))"
      by (simp_all add: valid_alignment_def not_less word_le_nat_alt)
    moreover have "unat (- 1 - (alignment - 1) :: u64) = 2 ^ 64 - 1 - (unat alignment - 1)"
      using \<open>alignment \<noteq> 0\<close> by (subst unat_sub) (simp_all add: unat_minus_one unsigned_minus_1_eq_mask mask_eq_exp_minus_1)
    moreover have "unat alignment < 2 ^ 64" by (rule unat_u64_less)
    ultimately have "unat n + unat (alignment - 1) < 2 ^ 64" by (simp add: unat_minus_one)
    then have "unat (n + (alignment - 1)) = unat n + unat (alignment - 1)" by (subst unat_add_lem [THEN iffD1]) simp_all
    then have "unat (n + alignment - 1) = unat n + (unat alignment - 1)"
      using \<open>alignment \<noteq> 0\<close> by (simp add: add_diff_eq unat_minus_one)
    with False show ?thesis by (simp add: call_ok_def allocate_begin_def reservation_of_def)
  qed
  moreover have "public a (calls @ [?c]) p \<longleftrightarrow> public a calls p" "holds (calls @ [?c]) i d \<longleftrightarrow> holds calls i d" for p i d
    using none by (auto simp: public_def holds_def nth_append less_Suc_eq)
  moreover have "ac_pc ?c \<noteq> ap_done st (Some out)" for st out by (simp add: allocate_begin_def)
  ultimately show ?thesis
    using assms unfolding arena_inv_def by (auto simp: nth_append less_Suc_eq)
qed

lemma page_ok_append [simp]: "page_ok (log @ []) = page_ok log" by simp

lemma arena_inv_same:
  assumes inv: "arena_inv a calls log" and i: "i < length calls"
    and pc: "held pc = None" "\<And>p. uses pc = Some p \<Longrightarrow> public a calls p" "call_ok ((calls ! i)\<lparr>ac_pc := pc\<rparr>)"
      "\<And>st out. pc \<noteq> ap_done st (Some out)"
  shows "arena_inv a (calls[i := (calls ! i)\<lparr>ac_pc := pc\<rparr>]) log"
  using arena_inv_move [OF inv i refl, of a "[]" pc] arena_inv_facts [OF inv] pc by simp

lemma pages_apart_append:
  assumes "pages_apart (ar_pages a)" "block_ok a (page_capacity r) (Some base)"
  shows "pages_apart (ar_pages a @ [\<lparr>pg_base = base, pg_used = 0, pg_capacity = page_capacity r,
    pg_next_owned = None, pg_live = True\<rparr>])"
  using assms by (auto simp: pages_apart_def block_ok_def nth_append less_Suc_eq list_all_length apart_def)

lemma arena_inv_make_page:
  assumes inv: "arena_inv a calls log" and i: "i < length calls"
    and made: "make_page (Some base) r a = Some (d, a')" "block_ok a (page_capacity r) (Some base)"
    and pc: "held pc = Some d" "\<And>p. uses pc = Some p \<Longrightarrow> public a calls p" "call_ok ((calls ! i)\<lparr>ac_pc := pc\<rparr>)"
      "\<And>st out. pc \<noteq> ap_done st (Some out)"
  shows "arena_inv a' (calls[i := (calls ! i)\<lparr>ac_pc := pc\<rparr>]) log"
proof -
  have a': "ar_current a' = ar_current a" "d = length (ar_pages a)"
    "ar_pages a' = ar_pages a @ [\<lparr>pg_base = base, pg_used = 0, pg_capacity = page_capacity r,
       pg_next_owned = None, pg_live = True\<rparr>]"
    using made(1) by (auto simp: make_page_def)
  have none: "reserved_on d log = 0"
  proof -
    have "\<forall>(i, p, r) \<in> set log. p \<noteq> d" using arena_inv_facts(6) [OF inv] a'(2) by fastforce
    then show ?thesis unfolding reserved_on_def by (induction log) auto
  qed
  have "arena_inv a' (calls[i := (calls ! i)\<lparr>ac_pc := pc\<rparr>]) (log @ [])"
  proof (rule arena_inv_move [OF inv i refl])
    show "pages_apart (ar_pages a')" using pages_apart_append [OF arena_inv_facts(2) [OF inv] made(2)] a' by simp
    show "page_ok (log @ []) p (ar_pages a' ! p)" if "p < length (ar_pages a')" for p
      using that a' none made(2) arena_inv_facts(1) [OF inv, of p]
      by (auto simp: nth_append less_Suc_eq page_ok_def block_ok_def)
  qed (use pc a' in \<open>auto simp: nth_append\<close>)
  then show ?thesis by simp
qed

lemma arena_inv_install:
  assumes inv: "arena_inv a calls log" and i: "i < length calls"
    and d: "holds calls i d" and ok: "call_ok ((calls ! i)\<lparr>ac_pc := ap_own d first\<rparr>)"
  shows "arena_inv (a\<lparr>ar_current := Some d\<rparr>) (calls[i := (calls ! i)\<lparr>ac_pc := ap_own d first\<rparr>]) log"
  using arena_inv_move [OF inv i refl, of "a\<lparr>ar_current := Some d\<rparr>" "[]" "ap_own d first"]
    arena_inv_facts [OF inv] d ok by simp

lemma arena_inv_delete:
  assumes inv: "arena_inv a calls log" and i: "i < length calls"
    and d: "holds calls i d" and ok: "call_ok ((calls ! i)\<lparr>ac_pc := ap_load\<rparr>)"
  shows "arena_inv (delete_page d a) (calls[i := (calls ! i)\<lparr>ac_pc := ap_load\<rparr>]) log"
proof -
  note facts = arena_inv_facts [OF inv]
  have len: "d < length (ar_pages a)" using facts(4) d by blast
  then have page: "ar_pages (delete_page d a) ! p = (if p = d then (ar_pages a ! d)\<lparr>pg_live := False\<rparr> else ar_pages a ! p)" for p
    by (simp add: delete_page_def)
  have "arena_inv (delete_page d a) (calls[i := (calls ! i)\<lparr>ac_pc := ap_load\<rparr>]) (log @ [])"
  proof (rule arena_inv_move [OF inv i refl])
    show "pages_apart (ar_pages (delete_page d a))"
      using facts(2) by (auto simp: pages_apart_def page) (auto simp: delete_page_def)
    show "page_ok (log @ []) p (ar_pages (delete_page d a) ! p)" if "p < length (ar_pages (delete_page d a))" for p
      using that facts(1) by (auto simp: page page_ok_def) (auto simp: delete_page_def page_ok_def)
  qed (use d ok len in \<open>auto simp: delete_page_def nth_list_update\<close>)
  then show ?thesis by simp
qed

lemma arena_inv_own:
  assumes inv: "arena_inv a calls log" and i: "i < length calls"
    and p: "public a calls p" and pc: "pc = ap_reserve p \<or> pc = ap_load" and ok: "call_ok ((calls ! i)\<lparr>ac_pc := pc\<rparr>)"
  shows "arena_inv (own_page p a) (calls[i := (calls ! i)\<lparr>ac_pc := pc\<rparr>]) log"
proof -
  note facts = arena_inv_facts [OF inv]
  have "p < length (ar_pages a)" using facts(3) p by blast
  then have page: "ar_pages (own_page p a) ! q =
      (if q = p then (ar_pages a ! p)\<lparr>pg_next_owned := ar_owned a\<rparr> else ar_pages a ! q)" for q
    by (simp add: own_page_def)
  have len: "length (ar_pages (own_page p a)) = length (ar_pages a)" "ar_current (own_page p a) = ar_current a"
    by (simp_all add: own_page_def)
  have "arena_inv (own_page p a) (calls[i := (calls ! i)\<lparr>ac_pc := pc\<rparr>]) (log @ [])"
  proof (rule arena_inv_move [OF inv i refl])
    show "pages_apart (ar_pages (own_page p a))" using facts(2) by (auto simp: pages_apart_def page len)
    show "page_ok (log @ []) q (ar_pages (own_page p a) ! q)" if "q < length (ar_pages (own_page p a))" for q
      using that facts(1) by (auto simp: page page_ok_def len)
  qed (use p pc ok in \<open>auto simp: page len\<close>)
  then show ?thesis by simp
qed

lemma arena_inv_reserve:
  assumes inv: "arena_inv a calls log" and i: "i < length calls" and c: "ac_pc (calls ! i) = ap_reserve p"
    and wrap: "no_wrap (log @ [(i, p, reservation_of (calls ! i))])" and step: "reserve_step p (calls ! i) a = (pc, a')"
  shows "arena_inv a' (calls[i := (calls ! i)\<lparr>ac_pc := pc\<rparr>]) (log @ [(i, p, reservation_of (calls ! i))])"
proof -
  note facts = arena_inv_facts [OF inv]
  let ?c = "calls ! i" and ?page = "ar_pages a ! p"
  let ?r = "reservation_of ?c" and ?aligned = "align_up (pg_used ?page) (ac_alignment ?c)"
  have public: "public a calls p" using c i by (auto simp: public_def)
  then have p: "p < length (ar_pages a)" using facts(3) by blast
  note ok = facts(1) [OF p, unfolded page_ok_def]
  have a': "ar_current a' = ar_current a" "ar_pages a' = (ar_pages a)[p := ?page\<lparr>pg_used := pg_used ?page + ?r\<rparr>]"
    using step by (auto simp: reserve_step_def Let_def split: if_splits)
  have page: "ar_pages a' ! q = (if q = p then ?page\<lparr>pg_used := pg_used ?page + ?r\<rparr> else ar_pages a ! q)" for q
    using p by (simp add: a')
  have "reserved_on p log + unat ?r < 2 ^ 64" using wrap by (auto simp: no_wrap_def dest: spec [of _ p])
  then have used: "unat (pg_used ?page + ?r) = reserved_on p log + unat ?r"
    using ok by (subst unat_add_lem [THEN iffD1]) simp_all
  have call: "valid_alignment (ac_alignment ?c)" "unat ?r = unat (ac_size ?c) + (unat (ac_alignment ?c) - 1)"
    using facts(7) [OF i] c by (auto simp: call_ok_def)
  have pc: "pc = ap_refill p \<or> pc = ap_done st_ok (Some (p, ?aligned)) \<and> pg_used ?page \<le> pg_capacity ?page \<and>
      ?aligned \<le> pg_capacity ?page \<and> ac_size ?c \<le> pg_capacity ?page - ?aligned"
    using step by (auto simp: reserve_step_def Let_def split: if_splits)
  show ?thesis
  proof (rule arena_inv_move [OF inv i refl])
    show "pages_apart (ar_pages a')" using facts(2) by (auto simp: pages_apart_def page) (auto simp: a')
    show "page_ok (log @ [(i, p, ?r)]) q (ar_pages a' ! q)" if "q < length (ar_pages a')" for q
      using that facts(1) [of q] ok used by (auto simp: page page_ok_def a')
    show "call_ok (?c\<lparr>ac_pc := pc\<rparr>)" using call by (simp add: call_ok_def reservation_of_def)
    show "grant_ok a' (log @ [(i, p, ?r)]) i (?c\<lparr>ac_pc := pc\<rparr>) q off" if "pc = ap_done st (Some (q, off))" for st q off
    proof -
      have q: "q = p" "off = ?aligned" and fits: "unat (pg_used ?page) \<le> unat (pg_capacity ?page)"
        "?aligned \<le> pg_capacity ?page" "ac_size ?c \<le> pg_capacity ?page - ?aligned"
        using that pc by (auto simp: word_le_nat_alt)
      have "unat (pg_used ?page) < 2 ^ 63" using fits(1) ok by simp
      note bounds = align_up_bounds [OF call(1) this]
      have "unat ?aligned + unat (ac_size ?c) \<le> unat (pg_capacity ?page)"
        using fits(2,3) by (simp add: word_le_nat_alt unat_sub)
      moreover have "reservation_of (?c\<lparr>ac_pc := pc\<rparr>) = ?r" by (simp add: reservation_of_def)
      ultimately show ?thesis
        using bounds ok call(2) by (auto simp: grant_ok_def q page intro!: exI [of _ "length log"])
    qed
  qed (use public p pc in \<open>auto simp: a' nth_list_update\<close>)
qed

text \<open>Every step of every call keeps the invariant.\<close>

lemma arena_inv_step:
  assumes inv: "arena_inv a calls log" and i: "i < length calls" and c: "c = calls ! i"
    and block: "block_ok a (page_capacity (reservation_of c)) block"
    and wrap: "no_wrap (log @ log_entry i c (ac_pc c))" and step: "arena_step block c a = (c', a')"
  shows "arena_inv a' (calls[i := c']) (log @ log_entry i c (ac_pc c))"
proof -
  obtain pc where pc: "arena_pc_step block c (ac_pc c) a = (pc, a')" "c' = c\<lparr>ac_pc := pc\<rparr>"
    using step by (auto simp: arena_step_def split: prod.splits)
  have ok: "call_ok (c\<lparr>ac_pc := pc'\<rparr>)" if "\<And>st. ac_pc c \<noteq> ap_done st None" for pc'
    using that arena_inv_facts(7) [OF inv i] c by (auto simp: call_ok_def reservation_of_def)
  have failed: "call_ok (c\<lparr>ac_pc := ap_done st_initialization_failed None\<rparr>)" by (simp add: call_ok_def)
  have uses: "uses (ac_pc c) = Some p \<Longrightarrow> public a calls p" for p using i c by (auto simp: public_def)
  have held: "held (ac_pc c) = Some d \<Longrightarrow> holds calls i d" for d using i c by (simp add: holds_def)
  show ?thesis
  proof (cases "ac_pc c")
    case ap_load
    then consider (reserve) p where "ar_current a = Some p" "pc = ap_reserve p" "a' = a"
      | (failed) "pc = ap_done st_initialization_failed None" "a' = a"
      | (first) base d where "block = Some base" "make_page block (reservation_of c) a = Some (d, a')" "pc = ap_first d"
      using pc by (auto simp: make_page_def split: option.splits)
    then show ?thesis
    proof cases
      case reserve
      then show ?thesis using ap_load pc(2) ok c arena_inv_same [OF inv i, of pc] by (simp add: public_def)
    next
      case failed
      then show ?thesis using ap_load pc(2) \<open>call_ok _\<close> c arena_inv_same [OF inv i, of pc] by simp
    next
      case first
      then show ?thesis using ap_load pc(2) ok c block arena_inv_make_page [OF inv i, of base "reservation_of c" d a' pc] by simp
    qed
  next
    case (ap_first d)
    then show ?thesis
      using pc ok held c arena_inv_install [OF inv i, of d True] arena_inv_delete [OF inv i, of d] by (auto split: if_splits)
  next
    case (ap_own p first)
    then show ?thesis using pc ok uses c arena_inv_own [OF inv i, of p pc] by (auto split: if_splits)
  next
    case (ap_reserve p)
    then show ?thesis using pc wrap c arena_inv_reserve [OF inv i, of p pc a'] by simp
  next
    case (ap_refill p)
    then consider (failed) "pc = ap_done st_initialization_failed None" "a' = a"
      | (install) base d where "block = Some base" "make_page block (reservation_of c) a = Some (d, a')" "pc = ap_install p d"
      using pc by (auto simp: make_page_def split: option.splits)
    then show ?thesis
    proof cases
      case failed
      then show ?thesis using ap_refill pc(2) \<open>call_ok _\<close> c arena_inv_same [OF inv i, of pc] by simp
    next
      case install
      then show ?thesis
        using ap_refill pc(2) ok uses c block arena_inv_make_page [OF inv i, of base "reservation_of c" d a' pc] by simp
    qed
  next
    case (ap_install p d)
    then show ?thesis
      using pc ok held c arena_inv_install [OF inv i, of d False] arena_inv_delete [OF inv i, of d] by (auto split: if_splits)
  next
    case (ap_done st out)
    then have "c' = c" "a' = a" using pc by simp_all
    then show ?thesis using inv ap_done c by simp
  qed
qed

lemma arena_reach_inv:
  "arena_reach s \<Longrightarrow> no_wrap (sys_log s) \<Longrightarrow> arena_inv (sys_arena s) (sys_calls s) (sys_log s)"
proof (induction rule: arena_reach.induct)
  case init
  show ?case by (simp add: arena_inv_def arena_init_def pages_apart_def public_def holds_def)
next
  case (begin_call s n alignment)
  then show ?case using arena_inv_begin by simp
next
  case (step_call s i c block c' a')
  then have "arena_inv (sys_arena s) (sys_calls s) (sys_log s)" using no_wrap_append by auto
  with step_call show ?case using arena_inv_step by simp
qed

section \<open>Results\<close>


definition result_address :: "byte_arena \<Rightarrow> nat \<times> u64 \<Rightarrow> nat" where
  "result_address a out = pg_base (ar_pages a ! fst out) + unat (snd out)"



section \<open>Running a schedule\<close>

datatype arena_event = ae_begin u64 u64 | ae_step nat "nat option"

primrec arena_exec1 :: "arena_event \<Rightarrow> arena_system \<Rightarrow> arena_system option" where
  "arena_exec1 (ae_begin n alignment) s = Some (s\<lparr>sys_calls := sys_calls s @ [allocate_begin n alignment]\<rparr>)"
| "arena_exec1 (ae_step i block) s =
     (if i < length (sys_calls s) \<and>
         block_ok (sys_arena s) (page_capacity (reservation_of (sys_calls s ! i))) block
      then (case arena_step block (sys_calls s ! i) (sys_arena s) of (c', a') \<Rightarrow>
        Some (s\<lparr>sys_arena := a', sys_calls := (sys_calls s)[i := c'],
          sys_log := sys_log s @ log_entry i (sys_calls s ! i) (ac_pc (sys_calls s ! i))\<rparr>))
      else None)"

primrec arena_exec :: "arena_event list \<Rightarrow> arena_system \<Rightarrow> arena_system option" where
  "arena_exec [] s = Some s"
| "arena_exec (e # es) s = (case arena_exec1 e s of None \<Rightarrow> None | Some s' \<Rightarrow> arena_exec es s')"

lemma arena_exec_reach: "arena_reach s \<Longrightarrow> arena_exec es s = Some s' \<Longrightarrow> arena_reach s'"
proof (induction es arbitrary: s)
  case (Cons e es)
  then obtain t where t: "arena_exec1 e s = Some t" "arena_exec es t = Some s'" by (auto split: option.splits)
  have "arena_reach t"
    using Cons.prems(1) t(1) by (cases e) (auto intro: arena_reach.intros split: if_splits prod.splits)
  then show ?case using Cons.IH t(2) by blast
qed simp

definition arena_start :: arena_system where
  "arena_start = \<lparr>sys_arena = arena_init, sys_calls = [], sys_log = []\<rparr>"

lemma arena_exec_start: "arena_exec es arena_start = Some s \<Longrightarrow> arena_reach s"
  using arena_exec_reach [OF arena_reach.init] by (simp add: arena_start_def)

text \<open>Two calls race for the first page; the second loses its exchange and both share the page.\<close>

definition arena_race :: "arena_event list" where
  "arena_race = [ae_begin 24 8, ae_begin 40 8, ae_step 0 (Some 4096), ae_step 1 (Some 131072), ae_step 0 None,
     ae_step 1 None, ae_step 0 None, ae_step 1 None, ae_step 1 None, ae_step 0 None]"

definition arena_race_end :: arena_system where
  "arena_race_end =
     \<lparr>sys_arena = \<lparr>ar_pages =
        [\<lparr>pg_base = 4096, pg_used = 78, pg_capacity = 65536, pg_next_owned = None, pg_live = True\<rparr>,
         \<lparr>pg_base = 131072, pg_used = 0, pg_capacity = 65536, pg_next_owned = None, pg_live = False\<rparr>],
        ar_current = Some 0, ar_owned = Some 0, ar_reserved_bytes = 65536, ar_reserved_pages = 1\<rparr>,
      sys_calls = [\<lparr>ac_size = 24, ac_alignment = 8, ac_pc = ap_done st_ok (Some (0, 48))\<rparr>,
        \<lparr>ac_size = 40, ac_alignment = 8, ac_pc = ap_done st_ok (Some (0, 0))\<rparr>],
      sys_log = [(1, 0, 47), (0, 0, 31)]\<rparr>"

lemmas arena_eval = allocate_begin_def valid_alignment_def block_ok_def page_capacity_def default_page_size_def
  reservation_of_def arena_step_def make_page_def delete_page_def own_page_def reserve_step_def align_up_def apart_def
  arena_start_def arena_init_def Let_def

lemma arena_race_runs: "arena_exec arena_race arena_start = Some arena_race_end"
  by (simp add: arena_race_def arena_race_end_def arena_eval)




section \<open>A call that runs alone\<close>

definition arena_alone :: "nat \<Rightarrow> nat option \<Rightarrow> arena_call \<times> byte_arena \<Rightarrow> arena_call \<times> byte_arena" where
  "arena_alone n block = (\<lambda>(c, a). arena_step block c a) ^^ n"

lemma arena_alone_Suc:
  "arena_alone (Suc n) block (c, a) = arena_alone n block (arena_step block c a)" "arena_alone 0 block (c, a) = (c, a)"
  by (simp_all add: arena_alone_def funpow_swap1)

lemma arena_alone_done:
  assumes "ac_pc c = ap_done st out"
  shows "arena_alone n block (c, a) = (c, a)"
proof -
  have "arena_step block c a = (c, a)" using assms by (cases c) (simp add: arena_step_def)
  then show ?thesis by (induction n) (simp_all add: arena_alone_Suc)
qed

lemma align_up_zero: "align_up 0 a = 0"
  by (rule bit_eqI) (simp add: align_up_def bit_and_iff bit_not_iff)

text \<open>A fresh page always serves the request it was made for.\<close>

lemma fresh_page_serves:
  assumes "ar_pages a ! p = \<lparr>pg_base = base, pg_used = 0, pg_capacity = page_capacity (reservation_of c),
    pg_next_owned = nxt, pg_live = True\<rparr>" "unat (reservation_of c) = unat (ac_size c) + (unat (ac_alignment c) - 1)"
  shows "fst (reserve_step p c a) = ap_done st_ok (Some (p, 0))"
proof -
  have "ac_size c \<le> reservation_of c" using assms(2) by (simp add: word_le_nat_alt)
  then have "ac_size c \<le> page_capacity (reservation_of c)" by (simp add: page_capacity_def max.coboundedI2)
  then show ?thesis using assms(1) by (simp add: reserve_step_def align_up_zero Let_def)
qed

lemma reserve_alone:
  assumes "ac_pc c = ap_reserve p" "fst (reserve_step p c a) = ap_done st out"
  shows "ac_pc (fst (arena_alone (Suc n) block (c, a))) = ap_done st out"
proof -
  have "ac_pc (fst (arena_step block c a)) = ap_done st out" using assms by (cases "reserve_step p c a") (simp add: arena_step_def)
  then show ?thesis
    by (cases "arena_step block c a") (simp add: arena_alone_Suc arena_alone_done)
qed

text \<open>
  C23. A call that runs alone returns: from any reachable arena, seven steps of a valid request finish with a
  result, provided \<^verbatim>\<open>operator new\<close> delivers when a page is needed.
\<close>

theorem arena_call_returns:
  assumes "arena_reach s" "no_wrap (sys_log s)" "c = allocate_begin n alignment" "ac_pc c = ap_load"
  shows "\<exists>out. ac_pc (fst (arena_alone 7 (Some base) (c, sys_arena s))) = ap_done st_ok (Some out)"
proof -
  let ?a = "sys_arena s"
  have inv: "arena_inv ?a (sys_calls s @ [c]) (sys_log s)"
    using arena_inv_begin [OF arena_reach_inv [OF assms(1,2)]] assms(3) by simp
  have r: "unat (reservation_of c) = unat (ac_size c) + (unat (ac_alignment c) - 1)"
    using arena_inv_facts(7) [OF inv, of "length (sys_calls s)"] assms(4) by (auto simp: call_ok_def nth_append)
  have same: "reservation_of (c\<lparr>ac_pc := pc\<rparr>) = reservation_of c" for pc by (simp add: reservation_of_def)
  have steps: "arena_step (Some base) (c\<lparr>ac_pc := ap_own p first\<rparr>) a =
      (c\<lparr>ac_pc := if first then ap_reserve p else ap_load\<rparr>, own_page p a)"
    "ar_current a = Some p \<Longrightarrow> arena_step (Some base) (c\<lparr>ac_pc := ap_load\<rparr>) a = (c\<lparr>ac_pc := ap_reserve p\<rparr>, a)" for p first a
    by (simp_all add: arena_step_def)
  have c: "c = c\<lparr>ac_pc := ap_load\<rparr>" using assms(4) by (cases c) simp
  let ?fresh = "\<lparr>pg_base = base, pg_used = 0, pg_capacity = page_capacity (reservation_of c), pg_next_owned = None, pg_live = True\<rparr>"
  have made: "\<exists>out. ac_pc (fst (arena_alone (Suc m) (Some base) (c\<lparr>ac_pc := ap_reserve d\<rparr>, own_page d (a\<lparr>ar_pages := ar_pages a @ [?fresh], ar_current := Some d\<rparr>)))) =
      ap_done st_ok (Some out)" if "d = length (ar_pages a)" for d a m
  proof -
    let ?a = "own_page d (a\<lparr>ar_pages := ar_pages a @ [?fresh], ar_current := Some d\<rparr>)" and ?c = "c\<lparr>ac_pc := ap_reserve d\<rparr>"
    have "ar_pages ?a ! d = ?fresh\<lparr>pg_next_owned := ar_owned a\<rparr>" using that by (simp add: own_page_def)
    then have "fst (reserve_step d ?c ?a) = ap_done st_ok (Some (d, 0))" using r same by (intro fresh_page_serves) simp_all
    then show ?thesis using reserve_alone [of ?c d ?a] by auto
  qed
  show ?thesis
  proof (cases "ar_current ?a")
    case None
    let ?d = "length (ar_pages ?a)" and ?a1 = "?a\<lparr>ar_pages := ar_pages ?a @ [?fresh]\<rparr>"
    have "arena_step (Some base) c ?a = (c\<lparr>ac_pc := ap_first ?d\<rparr>, ?a1)"
      "arena_step (Some base) (c\<lparr>ac_pc := ap_first ?d\<rparr>) ?a1 = (c\<lparr>ac_pc := ap_own ?d True\<rparr>, ?a1\<lparr>ar_current := Some ?d\<rparr>)"
      using None assms(4) by (simp_all add: arena_step_def make_page_def)
    then show ?thesis using made [of ?d ?a 3] by (simp add: numeral_eq_Suc arena_alone_Suc steps)
  next
    case (Some p)
    obtain pc a1 where res: "reserve_step p (c\<lparr>ac_pc := ap_reserve p\<rparr>) ?a = (pc, a1)" by fastforce
    have load: "arena_step (Some base) c ?a = (c\<lparr>ac_pc := ap_reserve p\<rparr>, ?a)" using steps(2) [OF Some] c by simp
    show ?thesis
    proof (cases "pc = ap_refill p")
      case False
      then obtain out where "pc = ap_done st_ok (Some out)"
        using res by (auto simp: reserve_step_def Let_def split: if_splits)
      then show ?thesis
        using load res reserve_alone [of "c\<lparr>ac_pc := ap_reserve p\<rparr>" p ?a st_ok "Some out" 5 "Some base"]
        by (simp add: numeral_eq_Suc arena_alone_Suc)
    next
      case True
      let ?d = "length (ar_pages a1)" and ?a2 = "a1\<lparr>ar_pages := ar_pages a1 @ [?fresh]\<rparr>"
      have "ar_current a1 = Some p" using res Some by (auto simp: reserve_step_def Let_def split: if_splits)
      then have "arena_step (Some base) (c\<lparr>ac_pc := ap_reserve p\<rparr>) ?a = (c\<lparr>ac_pc := ap_refill p\<rparr>, a1)"
        "arena_step (Some base) (c\<lparr>ac_pc := ap_refill p\<rparr>) a1 = (c\<lparr>ac_pc := ap_install p ?d\<rparr>, ?a2)"
        "arena_step (Some base) (c\<lparr>ac_pc := ap_install p ?d\<rparr>) ?a2 = (c\<lparr>ac_pc := ap_own ?d False\<rparr>, ?a2\<lparr>ar_current := Some ?d\<rparr>)"
        "ar_current (own_page ?d (?a2\<lparr>ar_current := Some ?d\<rparr>)) = Some ?d"
        using res True same by (simp_all add: arena_step_def make_page_def own_page_def)
      then show ?thesis using load made [of ?d a1 0] by (simp add: numeral_eq_Suc arena_alone_Suc steps)
    qed
  qed
qed

theorem arena_call_returns_witness:
  "\<exists>out. ac_pc (fst (arena_alone 7 (Some 1048576) (allocate_begin 65536 8, sys_arena arena_race_end))) = ap_done st_ok (Some out)"
proof (rule arena_call_returns [OF arena_exec_start [OF arena_race_runs] _ refl])
  show "no_wrap (sys_log arena_race_end)" by (auto simp: no_wrap_def reserved_on_def arena_race_end_def)
  show "ac_pc (allocate_begin 65536 8) = ap_load" by (simp add: allocate_begin_def valid_alignment_def)
qed

section \<open>Alignments beyond that of operator new\<close>

text \<open>
  \<^verbatim>\<open>allocate\<close> accepts every power of two but aligns only the offset in the page: a request for 64-byte alignment
  can get an address that is not a multiple of 64.
\<close>

lemma overaligned_result:
  "\<exists>s out. arena_reach s \<and> ac_pc (sys_calls s ! 0) = ap_done st_ok (Some out) \<and> ac_alignment (sys_calls s ! 0) = 64 \<and>
     \<not> 64 dvd result_address (sys_arena s) out"
proof -
  let ?run = "[ae_begin 8 64, ae_step 0 (Some 16), ae_step 0 None, ae_step 0 None, ae_step 0 None]"
  obtain s where s: "arena_exec ?run arena_start = Some s" "ac_pc (sys_calls s ! 0) = ap_done st_ok (Some (0, 0))"
    "ac_alignment (sys_calls s ! 0) = 64" "result_address (sys_arena s) (0, 0) = 16"
    by (simp add: arena_eval result_address_def)
  have "\<not> 64 dvd (16 :: nat)" by simp
  then show ?thesis using s arena_exec_start [OF s(1)] by metis
qed

end
