(* ===== verification/Bucket_Chain.thy ===== *)
theory Bucket_Chain
  imports Prelude
begin

text \<open>
  Hash chains that grow only at their front: what the String Table and the Identity Space share. A node is
  named by a nonzero address, 0 is the null link. A thread that wants to add a node scans the chain from the
  head it has loaded and then exchanges that head for its node; the exchange succeeds only when nobody else
  has linked a node in between.
\<close>

section \<open>Hash finalizer\<close>

text \<open>\<^verbatim>\<open>mix64\<close>, which both \<^verbatim>\<open>string_table.cpp\<close> and \<^verbatim>\<open>identity_space.cpp\<close> define.\<close>

definition mix64 :: "u64 \<Rightarrow> u64" where
  "mix64 v0 =
     (let v1 = v0 XOR drop_bit 30 v0;
          v2 = v1 * 0xbf58476d1ce4e5b9;
          v3 = v2 XOR drop_bit 27 v2;
          v4 = v3 * 0x94d049bb133111eb
      in v4 XOR drop_bit 31 v4)"

section \<open>Chains\<close>

primrec path :: "('p :: zero \<Rightarrow> 'p) \<Rightarrow> 'p \<Rightarrow> 'p list \<Rightarrow> bool" where
  "path link p [] \<longleftrightarrow> p = 0"
| "path link p (x # xs) \<longleftrightarrow> p = x \<and> x \<noteq> 0 \<and> path link (link x) xs"

lemma path_unique: "path link p xs \<Longrightarrow> path link p ys \<Longrightarrow> xs = ys"
proof (induction xs arbitrary: p ys)
  case Nil
  then show ?case by (cases ys) simp_all
next
  case (Cons x xs)
  then show ?case by (cases ys) auto
qed

lemma path_suffix: "path link p (xs @ y # ys) \<Longrightarrow> path link y (y # ys)"
  by (induction xs arbitrary: p) auto

lemma path_nonzero: "path link p xs \<Longrightarrow> 0 \<notin> set xs"
  by (induction xs arbitrary: p) auto

lemma path_distinct: "path link p xs \<Longrightarrow> distinct xs"
proof (induction xs arbitrary: p)
  case (Cons x xs)
  have "x \<notin> set xs"
  proof
    assume "x \<in> set xs"
    then obtain us vs where xs: "xs = us @ x # vs" by (meson split_list)
    then have "path link x (x # vs)" using Cons.prems path_suffix [of link p "x # us" x vs] by simp
    moreover have "path link x (x # xs)" using Cons.prems by simp
    ultimately have "vs = xs" using path_unique by blast
    with xs show False by simp
  qed
  with Cons show ?case by auto
qed simp

lemma path_cong: "path link p xs \<Longrightarrow> (\<And>x. x \<in> set xs \<Longrightarrow> link' x = link x) \<Longrightarrow> path link' p xs"
  by (induction xs arbitrary: p) auto

section \<open>Walking a chain\<close>

text \<open>\<open>usable\<close> is the check each loop makes on a node before it reads it.\<close>

datatype 'p chain_result = cr_absent | cr_broken | cr_found 'p

fun chain_find :: "nat \<Rightarrow> ('p :: zero \<Rightarrow> 'p) \<Rightarrow> ('p \<Rightarrow> bool) \<Rightarrow> ('p \<Rightarrow> bool) \<Rightarrow> 'p \<Rightarrow> 'p chain_result" where
  "chain_find 0 link usable matches p = cr_broken"
| "chain_find (Suc fuel) link usable matches p =
     (if p = 0 then cr_absent
      else if \<not> usable p then cr_broken
      else if matches p then cr_found p
      else chain_find fuel link usable matches (link p))"

lemma chain_find_path:
  assumes "path link p xs" "length xs < fuel" "\<And>x. x \<in> set xs \<Longrightarrow> usable x"
  shows "chain_find fuel link usable matches p = (case find matches xs of None \<Rightarrow> cr_absent | Some x \<Rightarrow> cr_found x)"
  using assms
proof (induction xs arbitrary: p fuel)
  case Nil
  then show ?case by (cases fuel) simp_all
next
  case (Cons x xs)
  then show ?case by (cases fuel) auto
qed

section \<open>An index of chains\<close>

definition index_ok ::
    "(nat \<Rightarrow> 'p :: zero) \<Rightarrow> ('p \<Rightarrow> 'p) \<Rightarrow> ('p \<Rightarrow> 'k) \<Rightarrow> ('k \<Rightarrow> nat) \<Rightarrow> (nat \<Rightarrow> 'p list) \<Rightarrow> bool" where
  "index_ok head link key bucket nodes \<longleftrightarrow>
     (\<forall>b. path link (head b) (nodes b) \<and> (\<forall>x \<in> set (nodes b). bucket (key x) = b) \<and> distinct (map key (nodes b)))"

lemma index_okD:
  assumes "index_ok head link key bucket nodes"
  shows "path link (head b) (nodes b)" "x \<in> set (nodes b) \<Longrightarrow> bucket (key x) = b" "distinct (map key (nodes b))"
  using assms unfolding index_ok_def by blast+

text \<open>A key occurs at most once in the whole index.\<close>

lemma index_unique:
  assumes "index_ok head link key bucket nodes" "x \<in> set (nodes b)" "y \<in> set (nodes c)" "key x = key y"
  shows "x = y"
proof -
  have "b = c" using index_okD(2) assms by metis
  then show ?thesis using index_okD(3) [OF assms(1), of b] assms by (auto simp: distinct_map inj_on_def)
qed

lemma index_frame:
  assumes "index_ok head link key bucket nodes" "\<And>b x. x \<in> set (nodes b) \<Longrightarrow> link' x = link x \<and> key' x = key x"
    "\<And>b. head' b = head b"
  shows "index_ok head' link' key' bucket nodes"
proof -
  have "path link' (head b) (nodes b)" "map key' (nodes b) = map key (nodes b)" for b
    using index_okD(1) [OF assms(1)] assms(2) path_cong by (blast, simp)
  then show ?thesis using assms unfolding index_ok_def by metis
qed

text \<open>Linking a node whose key is new.\<close>

lemma index_link:
  assumes ok: "index_ok head link key bucket nodes" and x: "x \<noteq> 0" "\<And>b. x \<notin> set (nodes b)"
    and key: "key x \<notin> key ` set (nodes (bucket (key x)))" "link x = head (bucket (key x))"
  defines "b \<equiv> bucket (key x)"
  shows "index_ok (head(b := x)) link key bucket (nodes(b := x # nodes b))"
  using assms by (auto simp: index_ok_def)

text \<open>
  What a thread knows after scanning from the head \<open>h\<close> it has loaded: the nodes from there on do not have the
  key. The chain may have grown in front of \<open>h\<close>.
\<close>

definition loaded :: "('p :: zero \<Rightarrow> 'p) \<Rightarrow> 'p \<Rightarrow> 'p list \<Rightarrow> bool" where
  "loaded link h chain \<longleftrightarrow> (\<exists>zs ys. chain = zs @ ys \<and> path link h ys)"

definition scanned :: "('p :: zero \<Rightarrow> 'p) \<Rightarrow> ('p \<Rightarrow> 'k) \<Rightarrow> 'k \<Rightarrow> 'p \<Rightarrow> 'p list \<Rightarrow> bool" where
  "scanned link key k h chain \<longleftrightarrow> (\<exists>zs ys. chain = zs @ ys \<and> path link h ys \<and> k \<notin> key ` set ys)"

lemma loaded_head: "path link h chain \<Longrightarrow> loaded link h chain"
  unfolding loaded_def by (metis append_Nil)

lemma loaded_grow:
  assumes "loaded link h chain" "\<And>x. x \<in> set chain \<Longrightarrow> link' x = link x"
  shows "loaded link' h chain" "loaded link' h (y # chain)"
proof -
  obtain zs ys where ys: "chain = zs @ ys" "path link h ys" using assms(1) by (auto simp: loaded_def)
  then have "path link' h ys" using assms(2) by (auto intro: path_cong)
  with ys show "loaded link' h chain" "loaded link' h (y # chain)" unfolding loaded_def by (blast, metis append_Cons)
qed

lemma scanned_grow:
  assumes "scanned link key k h chain" "\<And>x. x \<in> set chain \<Longrightarrow> link' x = link x \<and> key' x = key x"
  shows "scanned link' key' k h chain" "scanned link' key' k h (y # chain)"
proof -
  obtain zs ys where ys: "chain = zs @ ys" "path link h ys" "k \<notin> key ` set ys" using assms(1) by (auto simp: scanned_def)
  then have "path link' h ys" using assms(2) by (auto intro: path_cong)
  moreover have "k \<notin> key' ` set ys" using ys assms(2) by auto
  ultimately show "scanned link' key' k h chain" "scanned link' key' k h (y # chain)"
    using ys(1) unfolding scanned_def by (blast, metis append_Cons)
qed

text \<open>When the exchange succeeds the loaded head is still the head, so the whole chain was scanned.\<close>

lemma scanned_head: "scanned link key k h chain \<Longrightarrow> path link h chain \<Longrightarrow> k \<notin> key ` set chain"
  unfolding scanned_def by (metis path_unique)

text \<open>The scan itself, from a loaded head.\<close>

lemma scan_loaded:
  assumes "loaded link h chain" "length chain < fuel" "\<And>x. x \<in> set chain \<Longrightarrow> usable x"
    "\<And>x. x \<in> set chain \<Longrightarrow> matches x \<longleftrightarrow> key x = k"
  shows "chain_find fuel link usable matches h = cr_absent \<and> scanned link key k h chain \<or>
    (\<exists>x \<in> set chain. chain_find fuel link usable matches h = cr_found x \<and> key x = k)"
proof -
  obtain zs ys where ys: "chain = zs @ ys" "path link h ys" using assms(1) by (auto simp: loaded_def)
  have find: "chain_find fuel link usable matches h = (case find matches ys of None \<Rightarrow> cr_absent | Some x \<Rightarrow> cr_found x)"
    using ys assms by (intro chain_find_path) auto
  show ?thesis
  proof (cases "find matches ys")
    case None
    then have "k \<notin> key ` set ys" using assms(4) ys by (auto simp: find_None_iff)
    with None find ys show ?thesis unfolding scanned_def by auto
  next
    case (Some x)
    then have "x \<in> set ys" "matches x" by (auto simp: find_Some_iff)
    with Some find ys assms(4) show ?thesis by auto
  qed
qed

end
