(* ===== verification/Canonical_Store.thy ===== *)
theory Canonical_Store
  imports Prelude
begin

text \<open>
  The contract of a canonicalising store, which both the String Table and the Identity Space offer to the
  parser: interning a key gives a number; keys and numbers correspond one to one for as long as the store's
  counter lasts; and a number once given stays.
\<close>

locale canonical_store =
  fixes reach :: "'s \<Rightarrow> bool"
    and lasting :: "'s \<Rightarrow> bool"
    and known :: "'s \<Rightarrow> 'k \<Rightarrow> 'i \<Rightarrow> bool"
    and intern :: "'k \<Rightarrow> 's \<Rightarrow> 'i option \<times> 's"
  assumes intern_reach: "reach s \<Longrightarrow> reach (snd (intern k s))"
    and intern_lasting: "reach s \<Longrightarrow> lasting (snd (intern k s)) \<Longrightarrow> lasting s"
    and intern_known: "reach s \<Longrightarrow> intern k s = (Some i, s') \<Longrightarrow> known s' k i"
    and known_stays: "reach s \<Longrightarrow> intern k s = (r, s') \<Longrightarrow> known s l j \<Longrightarrow> known s' l j"
    and known_unique: "reach s \<Longrightarrow> lasting s \<Longrightarrow> known s k i \<Longrightarrow> known s l j \<Longrightarrow> i = j \<longleftrightarrow> k = l"
begin

primrec intern_all :: "'k list \<Rightarrow> 's \<Rightarrow> 'i option list \<times> 's" where
  "intern_all [] s = ([], s)"
| "intern_all (k # ks) s =
     (let (r, s1) = intern k s; (rs, s2) = intern_all ks s1 in (r # rs, s2))"

lemma intern_all_reach: "reach s \<Longrightarrow> reach (snd (intern_all ks s))"
proof (induction ks arbitrary: s)
  case (Cons k ks)
  obtain r s1 where s1: "intern k s = (r, s1)" by fastforce
  then have "reach s1" using intern_reach [OF Cons.prems(1), of k] by simp
  then show ?case using Cons.IH [of s1] s1 by (auto split: prod.splits)
qed simp

lemma intern_all_lasting: "reach s \<Longrightarrow> lasting (snd (intern_all ks s)) \<Longrightarrow> lasting s"
proof (induction ks arbitrary: s)
  case (Cons k ks)
  obtain r s1 where s1: "intern k s = (r, s1)" by fastforce
  then have "reach s1" using intern_reach [OF Cons.prems(1), of k] by simp
  then have "lasting s1" using Cons.IH [of s1] Cons.prems(2) s1 by (auto split: prod.splits)
  then show ?case using intern_lasting [OF Cons.prems(1), of k] s1 by simp
qed simp

lemma intern_all_stays: "reach s \<Longrightarrow> known s l j \<Longrightarrow> known (snd (intern_all ks s)) l j"
proof (induction ks arbitrary: s)
  case (Cons k ks)
  obtain r s1 where s1: "intern k s = (r, s1)" by fastforce
  then have "reach s1" "known s1 l j" using intern_reach [OF Cons.prems(1), of k] known_stays [OF Cons.prems(1) s1 Cons.prems(2)] by simp_all
  then show ?case using Cons.IH [of s1] s1 by (auto split: prod.splits)
qed simp

lemma intern_all_known:
  "reach s \<Longrightarrow> intern_all ks s = (rs, s') \<Longrightarrow>
     length rs = length ks \<and> (\<forall>a < length ks. \<forall>i. rs ! a = Some i \<longrightarrow> known s' (ks ! a) i)"
proof (induction ks arbitrary: s rs)
  case (Cons k ks)
  obtain r s1 where s1: "intern k s = (r, s1)" by fastforce
  obtain rs1 where rest: "intern_all ks s1 = (rs1, s')" "rs = r # rs1" using Cons.prems(2) s1 by (auto split: prod.splits)
  have reach: "reach s1" using intern_reach [OF Cons.prems(1), of k] s1 by simp
  have "known s' k i" if "r = Some i" for i
    using intern_all_stays [OF reach, of k i ks] intern_known [OF Cons.prems(1)] s1 that rest by simp
  then show ?case using Cons.IH [OF reach rest(1)] rest(2) by (auto simp: less_Suc_eq_0_disj)
qed simp

text \<open>Equal keys and only they get equal numbers.\<close>

lemma intern_all_injective:
  assumes "reach s" "intern_all ks s = (rs, s')" "lasting s'" "a < length ks" "b < length ks"
    "rs ! a = Some i" "rs ! b = Some j"
  shows "i = j \<longleftrightarrow> ks ! a = ks ! b"
proof -
  have "known s' (ks ! a) i" "known s' (ks ! b) j" using intern_all_known [OF assms(1,2)] assms(4-7) by blast+
  moreover have "reach s'" using intern_all_reach [OF assms(1), of ks] assms(2) by simp
  ultimately show ?thesis using known_unique assms(3) by blast
qed

end

end
