(* ===== verification/String_Table.thy ===== *)
theory String_Table
  imports Bucket_Chain Canonical_Store
begin

text \<open>
  The String Table, \<^verbatim>\<open>src/server_engine/project/string/string_table.cpp\<close>: text atoms interned concurrently
  into hash chains, with direct pages from identifier to record and an optional persisted baseline. A call
  of \<^verbatim>\<open>intern\<close> is a sequence of steps, one per access to a shared atomic variable; calls are interleaved
  arbitrarily. Records are named by their position in the list of all records, counted from 1; the bytes of
  a record come from the byte arena, whose ranges do not overlap. The compiled image behind the baseline is
  an argument: its string lookups as functions.
\<close>

section \<open>Data\<close>

record string_baseline =
  bl_slot_count :: nat
  bl_live_count :: nat
  bl_find :: "string \<Rightarrow> nat option"
  bl_string :: "nat \<Rightarrow> string"
  bl_at_slot :: "nat \<Rightarrow> nat"

text \<open>The bytes that follow a record are its text; \<^verbatim>\<open>length\<close> is their number.\<close>

record string_record =
  sr_hash :: u64
  sr_next :: nat
  sr_id :: nat
  sr_text :: string

record string_table =
  tb_baseline :: "string_baseline option"
  tb_baseline_slots :: nat
  tb_baseline_live :: nat
  tb_dense_mode :: bool
  tb_dense :: "(nat \<Rightarrow> nat) option"
  tb_bucket_pages :: "nat \<Rightarrow> (nat \<Rightarrow> nat) option"
  tb_pages :: "(nat \<Rightarrow> (nat \<Rightarrow> nat) option) option"
  tb_records :: "string_record list"
  tb_next_id :: nat
  tb_live_count :: nat
  tb_bucket_page_bytes :: nat
  tb_page_bytes :: nat

definition tb_bucket_count :: nat where "tb_bucket_count = 2 ^ 20"

definition tb_bucket_page_shift :: nat where "tb_bucket_page_shift = 10"

definition tb_page_shift :: nat where "tb_page_shift = 12"

definition tb_page_count :: nat where "tb_page_count = 2 ^ 16"

definition tb_maximum_id :: nat where "tb_maximum_id = tb_page_count * 2 ^ tb_page_shift"

text \<open>\<open>dense_granted\<close> and \<open>pages_granted\<close> say whether the two allocations succeed.\<close>

definition initialize_indexes :: "bool \<Rightarrow> bool \<Rightarrow> bool \<Rightarrow> string_table \<Rightarrow> string_table" where
  "initialize_indexes dense_buckets dense_granted pages_granted t =
     t\<lparr>tb_dense_mode := dense_buckets,
       tb_bucket_pages := (\<lambda>_. None),
       tb_dense := (if dense_buckets \<and> dense_granted then Some (\<lambda>_. 0) else None),
       tb_pages := (if pages_granted then Some (\<lambda>_. None) else None)\<rparr>"

definition blank_table :: string_table where
  "blank_table =
     \<lparr>tb_baseline = None, tb_baseline_slots = 0, tb_baseline_live = 0, tb_dense_mode = True, tb_dense = None,
      tb_bucket_pages = (\<lambda>_. None), tb_pages = None, tb_records = [], tb_next_id = 1, tb_live_count = 0,
      tb_bucket_page_bytes = 0, tb_page_bytes = 0\<rparr>"

definition string_table_new :: "bool \<Rightarrow> bool \<Rightarrow> string_table" where
  "string_table_new dense_granted pages_granted = initialize_indexes True dense_granted pages_granted blank_table"

definition string_table_on :: "string_baseline \<Rightarrow> bool \<Rightarrow> string_table" where
  "string_table_on b pages_granted =
     initialize_indexes False False pages_granted
       (blank_table\<lparr>tb_baseline := Some b, tb_baseline_slots := bl_slot_count b, tb_baseline_live := bl_live_count b,
          tb_next_id := (if bl_slot_count b < 2 ^ 32 - 1 then bl_slot_count b + 1 else 0)\<rparr>)"

section \<open>Buckets and pages\<close>

definition hash_byte :: "u64 \<Rightarrow> char \<Rightarrow> u64" where
  "hash_byte hash c = (hash XOR of_char c) * 1099511628211"

definition hash_text :: "string \<Rightarrow> u64" where
  "hash_text v = mix64 (foldl hash_byte 1469598103934665603 v)"

definition bucket_of :: "string \<Rightarrow> nat" where
  "bucket_of v = unat (hash_text v) mod tb_bucket_count"

definition ensure_bucket_slot :: "bool \<Rightarrow> nat \<Rightarrow> string_table \<Rightarrow> string_table option" where
  "ensure_bucket_slot granted index t =
     (if index \<ge> tb_bucket_count then None
      else if tb_dense_mode t then (if tb_dense t \<noteq> None then Some t else None)
      else
        let directory = index div 2 ^ tb_bucket_page_shift in
        (case tb_bucket_pages t directory of
           Some page \<Rightarrow> Some t
         | None \<Rightarrow>
             if granted
             then Some (t\<lparr>tb_bucket_pages := (tb_bucket_pages t)(directory \<mapsto> (\<lambda>_. 0)),
               tb_bucket_page_bytes := tb_bucket_page_bytes t + 8 * 2 ^ tb_bucket_page_shift\<rparr>)
             else None))"

text \<open>\<^verbatim>\<open>bucket_slot\<close> and the load through it: \<^const>\<open>None\<close> for the null slot.\<close>

definition bucket_load :: "string_table \<Rightarrow> nat \<Rightarrow> nat option" where
  "bucket_load t index =
     (if index \<ge> tb_bucket_count then None
      else if tb_dense_mode t then map_option (\<lambda>page. page index) (tb_dense t)
      else map_option (\<lambda>page. page (index mod 2 ^ tb_bucket_page_shift))
        (tb_bucket_pages t (index div 2 ^ tb_bucket_page_shift)))"

definition bucket_store :: "nat \<Rightarrow> nat \<Rightarrow> string_table \<Rightarrow> string_table" where
  "bucket_store index v t =
     (if tb_dense_mode t then t\<lparr>tb_dense := map_option (\<lambda>page. page(index := v)) (tb_dense t)\<rparr>
      else
        let directory = index div 2 ^ tb_bucket_page_shift in
        t\<lparr>tb_bucket_pages := (tb_bucket_pages t)(directory :=
            map_option (\<lambda>page. page(index mod 2 ^ tb_bucket_page_shift := v)) (tb_bucket_pages t directory))\<rparr>)"

definition ensure_record_page :: "bool \<Rightarrow> nat \<Rightarrow> string_table \<Rightarrow> string_table option" where
  "ensure_record_page granted raw t =
     (case tb_pages t of
        None \<Rightarrow> None
      | Some pages \<Rightarrow>
          if raw = 0 then None
          else
            let page_index = (raw - 1) div 2 ^ tb_page_shift in
            if page_index \<ge> tb_page_count then None
            else (case pages page_index of
                    Some page \<Rightarrow> Some t
                  | None \<Rightarrow>
                      if granted
                      then Some (t\<lparr>tb_pages := Some (pages(page_index \<mapsto> (\<lambda>_. 0))),
                        tb_page_bytes := tb_page_bytes t + 8 * 2 ^ tb_page_shift\<rparr>)
                      else None))"

text \<open>\<^verbatim>\<open>page\<close> and the load of the slot of an identifier; 0 stands for a null page or slot.\<close>

definition slot_load :: "string_table \<Rightarrow> nat \<Rightarrow> nat" where
  "slot_load t raw =
     (case tb_pages t of
        None \<Rightarrow> 0
      | Some pages \<Rightarrow>
          if raw = 0 \<or> (raw - 1) div 2 ^ tb_page_shift \<ge> tb_page_count then 0
          else (case pages ((raw - 1) div 2 ^ tb_page_shift) of
                  None \<Rightarrow> 0
                | Some page \<Rightarrow> page ((raw - 1) mod 2 ^ tb_page_shift)))"

definition slot_store :: "nat \<Rightarrow> nat \<Rightarrow> string_table \<Rightarrow> string_table" where
  "slot_store raw v t =
     t\<lparr>tb_pages := map_option (\<lambda>pages. pages((raw - 1) div 2 ^ tb_page_shift :=
         map_option (\<lambda>page. page((raw - 1) mod 2 ^ tb_page_shift := v)) (pages ((raw - 1) div 2 ^ tb_page_shift))))
       (tb_pages t)\<rparr>"

section \<open>Lookup\<close>

definition record_at :: "string_table \<Rightarrow> nat \<Rightarrow> string_record" where
  "record_at t x = tb_records t ! (x - 1)"

definition record_matches :: "string_table \<Rightarrow> string \<Rightarrow> u64 \<Rightarrow> nat \<Rightarrow> bool" where
  "record_matches t v hash x \<longleftrightarrow>
     sr_hash (record_at t x) = hash \<and> length (sr_text (record_at t x)) = length v \<and>
     (v = [] \<or> sr_text (record_at t x) = v)"

text \<open>No chain is longer than the number of records.\<close>

definition walk_records :: "string_table \<Rightarrow> string \<Rightarrow> u64 \<Rightarrow> nat \<Rightarrow> nat chain_result" where
  "walk_records t v hash head =
     chain_find (Suc (length (tb_records t))) (\<lambda>x. sr_next (record_at t x)) (\<lambda>_. True) (record_matches t v hash) head"

definition find_record :: "string_table \<Rightarrow> string \<Rightarrow> u64 \<Rightarrow> nat" where
  "find_record t v hash =
     (case bucket_load t (unat hash mod tb_bucket_count) of
        None \<Rightarrow> 0
      | Some head \<Rightarrow> (case walk_records t v hash head of cr_found x \<Rightarrow> x | _ \<Rightarrow> 0))"

definition string_find :: "string_table \<Rightarrow> string \<Rightarrow> nat" where
  "string_find t v =
     (if v = [] then 0
      else
        let found = find_record t v (hash_text v) in
        if found \<noteq> 0 then sr_id (record_at t found)
        else (case tb_baseline t of
                None \<Rightarrow> 0
              | Some b \<Rightarrow> (case bl_find b v of None \<Rightarrow> 0 | Some output \<Rightarrow> output)))"

definition string_get :: "string_table \<Rightarrow> nat \<Rightarrow> string" where
  "string_get t i =
     (if i = 0 then []
      else (case tb_baseline t of
              Some b \<Rightarrow>
                if i \<le> tb_baseline_slots t then bl_string b i
                else (let x = slot_load t i in if x = 0 then [] else sr_text (record_at t x))
            | None \<Rightarrow> (let x = slot_load t i in if x = 0 then [] else sr_text (record_at t x))))"

definition string_at_slot :: "string_table \<Rightarrow> nat \<Rightarrow> nat" where
  "string_at_slot t index =
     (if index \<ge> tb_maximum_id then 0
      else if tb_baseline t \<noteq> None \<and> index < tb_baseline_slots t
        then (case tb_baseline t of Some b \<Rightarrow> bl_at_slot b index | None \<Rightarrow> 0)
      else
        let raw = to_u32 (index + 1); x = slot_load t raw in
        if x \<noteq> 0 \<and> sr_id (record_at t x) = raw then raw else 0)"

definition string_size :: "string_table \<Rightarrow> nat" where
  "string_size t = tb_baseline_live t + tb_live_count t"

definition string_slot_count :: "string_table \<Rightarrow> nat" where
  "string_slot_count t = (if tb_next_id t > 1 then tb_next_id t - 1 else 0)"

section \<open>Interning\<close>

text \<open>
  Where a call stands, with the address of its candidate record, the identifier it drew and the head it
  loaded.
\<close>

datatype intern_pc =
    ip_start
  | ip_bucket
  | ip_allocate
  | ip_identify nat
  | ip_page nat nat
  | ip_load nat nat
  | ip_scan nat nat nat
  | ip_exchange nat nat nat
  | ip_done status_code nat

definition update_record :: "nat \<Rightarrow> (string_record \<Rightarrow> string_record) \<Rightarrow> string_table \<Rightarrow> string_table" where
  "update_record x f t = t\<lparr>tb_records := (tb_records t)[x - 1 := f (record_at t x)]\<rparr>"

definition head_of :: "string_table \<Rightarrow> nat \<Rightarrow> nat" where
  "head_of t b = (case bucket_load t b of None \<Rightarrow> 0 | Some h \<Rightarrow> h)"

definition sizeof_record :: nat where "sizeof_record = 24"

text \<open>
  One step of \<^verbatim>\<open>intern\<close> of the text \<open>v\<close>. \<open>granted\<close> says whether an allocation succeeds, and for the weak
  exchange that it does not fail spuriously.
\<close>

fun intern_step :: "bool \<Rightarrow> string \<Rightarrow> intern_pc \<Rightarrow> string_table \<Rightarrow> intern_pc \<times> string_table" where
  "intern_step granted v ip_start t =
     (if v = [] then (ip_done st_invalid_argument 0, t)
      else if tb_pages t = None then (ip_done st_not_available 0, t)
      else if length v > u32_max then (ip_done st_not_available 0, t)
      else if sizeof_record > u64_max - length v then (ip_done st_not_available 0, t)
      else
        let existing = string_find t v in
        if existing \<noteq> 0 then (ip_done st_ok existing, t) else (ip_bucket, t))"
| "intern_step granted v ip_bucket t =
     (case ensure_bucket_slot granted (bucket_of v) t of
        None \<Rightarrow> (ip_done st_not_available 0, t)
      | Some t' \<Rightarrow> (ip_allocate, t'))"
| "intern_step granted v ip_allocate t =
     (if granted
      then (ip_identify (length (tb_records t) + 1),
            t\<lparr>tb_records := tb_records t @ [\<lparr>sr_hash = hash_text v, sr_next = 0, sr_id = 0, sr_text = v\<rparr>]\<rparr>)
      else (ip_done st_initialization_failed 0, t))"
| "intern_step granted v (ip_identify x) t =
     (let raw = tb_next_id t;
          t' = t\<lparr>tb_next_id := to_u32 (raw + 1)\<rparr>
      in if raw = 0 \<or> raw > tb_maximum_id then (ip_done st_not_available 0, t')
         else (ip_page x raw, update_record x (\<lambda>r. r\<lparr>sr_id := raw\<rparr>) t'))"
| "intern_step granted v (ip_page x raw) t =
     (case ensure_record_page granted raw t of
        None \<Rightarrow> (ip_done st_not_available 0, t)
      | Some t' \<Rightarrow> (ip_load x raw, slot_store raw x t'))"
| "intern_step granted v (ip_load x raw) t = (ip_scan x raw (head_of t (bucket_of v)), t)"
| "intern_step granted v (ip_scan x raw head) t =
     (case walk_records t v (hash_text v) head of
        cr_found item \<Rightarrow> (ip_done st_ok (sr_id (record_at t item)), slot_store raw 0 t)
      | _ \<Rightarrow> (ip_exchange x raw head, update_record x (\<lambda>r. r\<lparr>sr_next := head\<rparr>) t))"
| "intern_step granted v (ip_exchange x raw head) t =
     (if granted \<and> head_of t (bucket_of v) = head
      then (ip_done st_ok raw,
            (bucket_store (bucket_of v) x t)\<lparr>tb_live_count := tb_live_count t + 1\<rparr>)
      else (ip_scan x raw (head_of t (bucket_of v)), t))"
| "intern_step granted v (ip_done st i) t = (ip_done st i, t)"

section \<open>Interleaved calls\<close>

text \<open>The table with the calls made so far and the number of identifiers they drew.\<close>

record string_system =
  ss_table :: string_table
  ss_calls :: "(string \<times> intern_pc) list"
  ss_draws :: nat

fun draws_of :: "intern_pc \<Rightarrow> nat" where
  "draws_of (ip_identify x) = 1"
| "draws_of _ = 0"

text \<open>
  What the table relies on from the compiled image: its lookup returns an identifier in its range whose text
  is the one looked up.
\<close>

definition baseline_ok :: "string_baseline \<Rightarrow> bool" where
  "baseline_ok b \<longleftrightarrow> (\<forall>v i. bl_find b v = Some i \<longrightarrow> 0 < i \<and> i \<le> bl_slot_count b \<and> bl_string b i = v)"

inductive string_reach :: "string_system \<Rightarrow> bool" where
  fresh_table: "string_reach \<lparr>ss_table = string_table_new dense_granted pages_granted, ss_calls = [], ss_draws = 0\<rparr>"
| baseline_table: "baseline_ok b \<Longrightarrow>
    string_reach \<lparr>ss_table = string_table_on b pages_granted, ss_calls = [], ss_draws = 0\<rparr>"
| begin_intern: "string_reach s \<Longrightarrow> string_reach (s\<lparr>ss_calls := ss_calls s @ [(v, ip_start)]\<rparr>)"
| step_intern: "string_reach s \<Longrightarrow> i < length (ss_calls s) \<Longrightarrow> ss_calls s ! i = (v, pc) \<Longrightarrow>
    intern_step granted v pc (ss_table s) = (pc', t') \<Longrightarrow>
    string_reach (s\<lparr>ss_table := t', ss_calls := (ss_calls s)[i := (v, pc')], ss_draws := ss_draws s + draws_of pc\<rparr>)"

section \<open>Buckets and slots as memory cells\<close>

lemma bucket_index_eq:
  "(i :: nat) div 2 ^ k = j div 2 ^ k \<and> i mod 2 ^ k = j mod 2 ^ k \<longleftrightarrow> i = j"
  by (metis div_mult_mod_eq)

lemma bucket_load_store:
  assumes "bucket_load t b \<noteq> None"
  shows "bucket_load (bucket_store b v t) c = (if c = b then Some v else bucket_load t c)"
  using assms bucket_index_eq [of b tb_bucket_page_shift c]
  by (auto simp: bucket_load_def bucket_store_def Let_def split: option.splits if_splits)

lemma head_of_store: "bucket_load t b \<noteq> None \<Longrightarrow> head_of (bucket_store b v t) = (head_of t)(b := v)"
  by (auto simp: head_of_def bucket_load_store)

lemma bucket_store_frame [simp]:
  "tb_records (bucket_store b v t) = tb_records t" "tb_pages (bucket_store b v t) = tb_pages t"
  "tb_baseline (bucket_store b v t) = tb_baseline t" "tb_baseline_slots (bucket_store b v t) = tb_baseline_slots t"
  "tb_next_id (bucket_store b v t) = tb_next_id t"
  by (simp_all add: bucket_store_def Let_def)

lemma bucket_load_live [simp]: "bucket_load (t\<lparr>tb_live_count := n\<rparr>) = bucket_load t"
  by (simp add: bucket_load_def fun_eq_iff)

lemma next_id_frame [simp]:
  "bucket_load (t\<lparr>tb_next_id := n\<rparr>) = bucket_load t" "slot_load (t\<lparr>tb_next_id := n\<rparr>) = slot_load t"
  "head_of (t\<lparr>tb_next_id := n\<rparr>) = head_of t"
  by (simp_all add: bucket_load_def slot_load_def head_of_def fun_eq_iff)

lemma ensure_bucket_slot_ok:
  assumes "ensure_bucket_slot granted b t = Some t'"
  shows "bucket_load t' b \<noteq> None" "head_of t' = head_of t" "\<And>c. bucket_load t c \<noteq> None \<Longrightarrow> bucket_load t' c \<noteq> None"
    "tb_records t' = tb_records t" "tb_pages t' = tb_pages t" "tb_baseline t' = tb_baseline t"
    "tb_baseline_slots t' = tb_baseline_slots t" "tb_next_id t' = tb_next_id t"
  using assms by (auto simp: ensure_bucket_slot_def bucket_load_def head_of_def Let_def split: if_splits option.splits)

lemma slot_load_store:
  assumes "tb_pages t = Some pages" "pages ((raw - 1) div 2 ^ tb_page_shift) = Some page"
    "raw \<noteq> 0" "(raw - 1) div 2 ^ tb_page_shift < tb_page_count"
  shows "slot_load (slot_store raw x t) r = (if r = raw then x else slot_load t r)"
proof -
  define at where "at = (\<lambda>r :: nat. (r - 1) div 2 ^ tb_page_shift)"
  define within where "within = (\<lambda>r :: nat. (r - 1) mod 2 ^ tb_page_shift)"
  have load: "slot_load u r = (case tb_pages u of None \<Rightarrow> 0 | Some pages \<Rightarrow>
      if r = 0 \<or> at r \<ge> tb_page_count then 0 else (case pages (at r) of None \<Rightarrow> 0 | Some page \<Rightarrow> page (within r)))" for u
    unfolding slot_load_def at_def within_def by (rule refl)
  have store: "tb_pages (slot_store raw x t) = Some (pages(at raw \<mapsto> page(within raw := x)))"
    using assms(1,2) by (simp add: slot_store_def at_def within_def)
  have raw: "pages (at raw) = Some page" "at raw < tb_page_count" using assms(2,4) by (simp_all add: at_def)
  have same: "at r = at raw \<Longrightarrow> within r = within raw \<Longrightarrow> r \<noteq> 0 \<Longrightarrow> r = raw"
    using bucket_index_eq [of "r - 1" tb_page_shift "raw - 1"] assms(3) by (simp add: at_def within_def)
  show ?thesis
  proof (cases "at r = at raw")
    case True
    then show ?thesis using raw same assms(1,3) by (auto simp: load store)
  next
    case False
    then show ?thesis using assms(1) by (auto simp: load store)
  qed
qed

lemma ensure_record_page_slots:
  assumes "ensure_record_page granted raw t = Some t'"
  obtains pages page where "tb_pages t' = Some pages" "pages ((raw - 1) div 2 ^ tb_page_shift) = Some page"
    "raw \<noteq> 0" "(raw - 1) div 2 ^ tb_page_shift < tb_page_count" "slot_load t' = slot_load t"
proof -
  obtain pages where pages: "tb_pages t = Some pages" and raw: "raw \<noteq> 0" "(raw - 1) div 2 ^ tb_page_shift < tb_page_count"
    using assms by (auto simp: ensure_record_page_def Let_def split: option.splits if_splits)
  show thesis
  proof (cases "pages ((raw - 1) div 2 ^ tb_page_shift)")
    case (Some page)
    then have "t' = t" using assms pages raw by (simp add: ensure_record_page_def Let_def)
    then show thesis using that pages raw Some by blast
  next
    case None
    then have t': "tb_pages t' = Some (pages((raw - 1) div 2 ^ tb_page_shift \<mapsto> (\<lambda>_. 0)))"
      using assms pages raw by (auto simp: ensure_record_page_def Let_def split: if_splits)
    then have "slot_load t' = slot_load t" using pages None by (auto simp: slot_load_def fun_eq_iff split: option.splits)
    then show thesis using that t' raw by simp
  qed
qed

lemma ensure_record_page_ok:
  assumes "ensure_record_page granted raw t = Some t'"
  shows "bucket_load t' c = bucket_load t c" "tb_records t' = tb_records t" "tb_pages t' \<noteq> None" "tb_pages t \<noteq> None"
    "tb_baseline t' = tb_baseline t" "tb_baseline_slots t' = tb_baseline_slots t" "tb_next_id t' = tb_next_id t"
  using assms by (auto simp: ensure_record_page_def bucket_load_def Let_def split: if_splits option.splits)

lemma slot_store_frame [simp]:
  "bucket_load (slot_store raw x t) = bucket_load t" "tb_records (slot_store raw x t) = tb_records t"
  "tb_baseline (slot_store raw x t) = tb_baseline t" "tb_baseline_slots (slot_store raw x t) = tb_baseline_slots t"
  "tb_next_id (slot_store raw x t) = tb_next_id t" "(tb_pages (slot_store raw x t) = None) \<longleftrightarrow> tb_pages t = None"
  by (auto simp: slot_store_def bucket_load_def fun_eq_iff)

lemma slot_clear:
  assumes "slot_load t raw \<noteq> 0"
  shows "slot_load (slot_store raw 0 t) r = (if r = raw then 0 else slot_load t r)"
proof -
  obtain pages page where "tb_pages t = Some pages" "pages ((raw - 1) div 2 ^ tb_page_shift) = Some page"
    "raw \<noteq> 0" "(raw - 1) div 2 ^ tb_page_shift < tb_page_count"
    using assms by (auto simp: slot_load_def split: option.splits if_splits)
  then show ?thesis by (rule slot_load_store)
qed

lemma update_record_frame [simp]:
  "bucket_load (update_record x f t) = bucket_load t" "slot_load (update_record x f t) = slot_load t"
  "tb_baseline (update_record x f t) = tb_baseline t" "tb_baseline_slots (update_record x f t) = tb_baseline_slots t"
  "tb_next_id (update_record x f t) = tb_next_id t" "tb_pages (update_record x f t) = tb_pages t"
  "length (tb_records (update_record x f t)) = length (tb_records t)"
  by (auto simp: update_record_def bucket_load_def slot_load_def fun_eq_iff)

lemma record_at_update:
  "0 < x \<Longrightarrow> x \<le> length (tb_records t) \<Longrightarrow> 0 < y \<Longrightarrow>
     record_at (update_record x f t) y = (if y = x then f (record_at t x) else record_at t y)"
  by (auto simp: record_at_def update_record_def nth_list_update)

section \<open>The invariant\<close>

abbreviation link_of :: "string_table \<Rightarrow> nat \<Rightarrow> nat" where "link_of t x \<equiv> sr_next (record_at t x)"

abbreviation text_of :: "string_table \<Rightarrow> nat \<Rightarrow> string" where "text_of t x \<equiv> sr_text (record_at t x)"

abbreviation id_of :: "string_table \<Rightarrow> nat \<Rightarrow> nat" where "id_of t x \<equiv> sr_id (record_at t x)"

definition in_range :: "string_table \<Rightarrow> nat \<Rightarrow> bool" where
  "in_range t x \<longleftrightarrow> 0 < x \<and> x \<le> length (tb_records t)"

definition fresh_text :: "string_table \<Rightarrow> string \<Rightarrow> bool" where
  "fresh_text t v \<longleftrightarrow> v \<noteq> [] \<and> (\<forall>b. tb_baseline t = Some b \<longrightarrow> bl_find b v = None)"

definition published :: "string_table \<Rightarrow> nat \<Rightarrow> bool" where
  "published t x \<longleftrightarrow> in_range t x \<and> sr_hash (record_at t x) = hash_text (text_of t x) \<and> fresh_text t (text_of t x) \<and>
     id_of t x \<noteq> 0 \<and> slot_load t (id_of t x) = x"

definition ids_ok :: "string_table \<Rightarrow> nat \<Rightarrow> bool" where
  "ids_ok t draws \<longleftrightarrow> tb_next_id t = tb_baseline_slots t + 1 + draws \<and>
     (\<forall>x. in_range t x \<longrightarrow> id_of t x \<noteq> 0 \<longrightarrow> tb_baseline_slots t < id_of t x \<and> id_of t x < tb_next_id t) \<and>
     (\<forall>x y. in_range t x \<longrightarrow> in_range t y \<longrightarrow> id_of t x \<noteq> 0 \<longrightarrow> id_of t x = id_of t y \<longrightarrow> x = y)"

lemma ids_okD:
  assumes "ids_ok t draws"
  shows "tb_next_id t = tb_baseline_slots t + 1 + draws"
    "in_range t x \<Longrightarrow> id_of t x \<noteq> 0 \<Longrightarrow> tb_baseline_slots t < id_of t x \<and> id_of t x < tb_baseline_slots t + 1 + draws"
    "in_range t x \<Longrightarrow> in_range t y \<Longrightarrow> id_of t x \<noteq> 0 \<Longrightarrow> id_of t x = id_of t y \<Longrightarrow> x = y"
  using assms unfolding ids_ok_def by (blast, metis, blast)

text \<open>The identifiers stay as they are; more may have been drawn.\<close>

lemma ids_frame:
  assumes "ids_ok t draws" "\<And>y. in_range t' y \<Longrightarrow> in_range t y \<and> id_of t' y = id_of t y"
    "tb_next_id t' = tb_next_id t + (draws' - draws)" "draws \<le> draws'" "tb_baseline_slots t' = tb_baseline_slots t"
  shows "ids_ok t' draws'"
proof -
  note old = ids_okD [OF assms(1)]
  have "tb_next_id t' = tb_baseline_slots t' + 1 + draws'" using old(1) assms(3-5) by simp
  moreover have "tb_baseline_slots t' < id_of t' x \<and> id_of t' x < tb_baseline_slots t' + 1 + draws'"
    if "in_range t' x" "id_of t' x \<noteq> 0" for x using old(2) [of x] assms(2) [OF that(1)] that assms(4,5) by simp
  moreover have "x = y" if "in_range t' x" "in_range t' y" "id_of t' x \<noteq> 0" "id_of t' x = id_of t' y" for x y
    using old(3) [of x y] assms(2) that by simp
  ultimately show ?thesis unfolding ids_ok_def by metis
qed

definition candidate :: "string_table \<Rightarrow> string \<Rightarrow> nat \<Rightarrow> bool" where
  "candidate t v x \<longleftrightarrow> in_range t x \<and> sr_hash (record_at t x) = hash_text v \<and> text_of t x = v \<and> fresh_text t v \<and>
     bucket_load t (bucket_of v) \<noteq> None"

text \<open>What a call has achieved at each point; \<open>nodes\<close> are the chains of the published records.\<close>

fun call_inv :: "string_table \<Rightarrow> (nat \<Rightarrow> nat list) \<Rightarrow> string \<Rightarrow> intern_pc \<Rightarrow> bool" where
  "call_inv t nodes v ip_start \<longleftrightarrow> True"
| "call_inv t nodes v ip_bucket \<longleftrightarrow> fresh_text t v"
| "call_inv t nodes v ip_allocate \<longleftrightarrow> fresh_text t v \<and> bucket_load t (bucket_of v) \<noteq> None"
| "call_inv t nodes v (ip_identify x) \<longleftrightarrow> candidate t v x \<and> id_of t x = 0"
| "call_inv t nodes v (ip_page x raw) \<longleftrightarrow> candidate t v x \<and> id_of t x = raw \<and> raw \<noteq> 0"
| "call_inv t nodes v (ip_load x raw) \<longleftrightarrow> candidate t v x \<and> id_of t x = raw \<and> raw \<noteq> 0 \<and> slot_load t raw = x"
| "call_inv t nodes v (ip_scan x raw h) \<longleftrightarrow> candidate t v x \<and> id_of t x = raw \<and> raw \<noteq> 0 \<and> slot_load t raw = x \<and>
     loaded (link_of t) h (nodes (bucket_of v))"
| "call_inv t nodes v (ip_exchange x raw h) \<longleftrightarrow> candidate t v x \<and> id_of t x = raw \<and> raw \<noteq> 0 \<and> slot_load t raw = x \<and>
     scanned (link_of t) (text_of t) v h (nodes (bucket_of v)) \<and> link_of t x = h"
| "call_inv t nodes v (ip_done st i) \<longleftrightarrow>
     (st = st_ok \<longrightarrow> v \<noteq> [] \<and> ((\<exists>x \<in> set (nodes (bucket_of v)). text_of t x = v \<and> id_of t x = i) \<or>
        (\<exists>b. tb_baseline t = Some b \<and> bl_find b v = Some i)))"

fun own :: "intern_pc \<Rightarrow> nat option" where
  "own (ip_identify x) = Some x"
| "own (ip_page x raw) = Some x"
| "own (ip_load x raw) = Some x"
| "own (ip_scan x raw h) = Some x"
| "own (ip_exchange x raw h) = Some x"
| "own _ = None"

definition string_inv :: "string_table \<Rightarrow> (nat \<Rightarrow> nat list) \<Rightarrow> (string \<times> intern_pc) list \<Rightarrow> nat \<Rightarrow> bool" where
  "string_inv t nodes calls draws \<longleftrightarrow>
     index_ok (head_of t) (link_of t) (text_of t) bucket_of nodes \<and> (\<forall>b. \<forall>x \<in> set (nodes b). published t x) \<and>
     ids_ok t draws \<and> (\<forall>b. tb_baseline t = Some b \<longrightarrow> baseline_ok b \<and> tb_baseline_slots t = bl_slot_count b) \<and>
     (\<forall>i < length calls. call_inv t nodes (fst (calls ! i)) (snd (calls ! i))) \<and>
     (\<forall>i < length calls. \<forall>x. own (snd (calls ! i)) = Some x \<longrightarrow> (\<forall>b. x \<notin> set (nodes b)) \<and>
        (\<forall>j < length calls. own (snd (calls ! j)) = Some x \<longrightarrow> j = i))"

lemma string_inv_facts:
  assumes "string_inv t nodes calls draws"
  shows "index_ok (head_of t) (link_of t) (text_of t) bucket_of nodes" "x \<in> set (nodes b) \<Longrightarrow> published t x"
    "ids_ok t draws" "tb_baseline t = Some bl \<Longrightarrow> baseline_ok bl \<and> tb_baseline_slots t = bl_slot_count bl"
    "i < length calls \<Longrightarrow> calls ! i = (v, pc) \<Longrightarrow> call_inv t nodes v pc"
    "i < length calls \<Longrightarrow> own (snd (calls ! i)) = Some x \<Longrightarrow> x \<notin> set (nodes b)"
    "i < length calls \<Longrightarrow> own (snd (calls ! i)) = Some x \<Longrightarrow> j < length calls \<Longrightarrow> own (snd (calls ! j)) = Some x \<Longrightarrow> j = i"
  using assms unfolding string_inv_def by (blast, blast, blast, blast, fastforce, blast, blast)

lemma own_in_range: "call_inv t nodes v pc \<Longrightarrow> own pc = Some x \<Longrightarrow> in_range t x"
  by (cases pc) (auto simp: candidate_def)

text \<open>A step of one call touches at most its own record \<open>x\<close>, which it may put at the front of a chain.\<close>

definition frame :: "string_table \<Rightarrow> (nat \<Rightarrow> nat list) \<Rightarrow> nat \<Rightarrow> string_table \<Rightarrow> (nat \<Rightarrow> nat list) \<Rightarrow> bool" where
  "frame t nodes x t' nodes' \<longleftrightarrow>
     length (tb_records t) \<le> length (tb_records t') \<and> tb_baseline t' = tb_baseline t \<and>
     tb_baseline_slots t' = tb_baseline_slots t \<and> (\<forall>b. bucket_load t b \<noteq> None \<longrightarrow> bucket_load t' b \<noteq> None) \<and>
     (\<forall>y. in_range t y \<longrightarrow> y \<noteq> x \<longrightarrow> record_at t' y = record_at t y \<and>
        (id_of t y \<noteq> 0 \<longrightarrow> slot_load t' (id_of t y) = slot_load t (id_of t y))) \<and>
     (\<forall>b. nodes' b = nodes b \<or> nodes' b = x # nodes b)"

lemma frameD:
  assumes "frame t nodes x t' nodes'"
  shows "length (tb_records t) \<le> length (tb_records t')" "tb_baseline t' = tb_baseline t"
    "tb_baseline_slots t' = tb_baseline_slots t" "bucket_load t b \<noteq> None \<Longrightarrow> bucket_load t' b \<noteq> None"
    "in_range t y \<Longrightarrow> y \<noteq> x \<Longrightarrow> record_at t' y = record_at t y"
    "in_range t y \<Longrightarrow> y \<noteq> x \<Longrightarrow> id_of t y \<noteq> 0 \<Longrightarrow> slot_load t' (id_of t y) = slot_load t (id_of t y)"
    "nodes' b = nodes b \<or> nodes' b = x # nodes b"
  using assms unfolding frame_def by blast+

lemma frame_in_range: "frame t nodes x t' nodes' \<Longrightarrow> in_range t y \<Longrightarrow> in_range t' y"
  unfolding in_range_def using frameD(1) by fastforce

lemma frame_candidate:
  assumes "frame t nodes x t' nodes'" "candidate t v y" "y \<noteq> x"
  shows "candidate t' v y" "id_of t' y = id_of t y" "link_of t' y = link_of t y"
    "id_of t y \<noteq> 0 \<Longrightarrow> slot_load t' (id_of t y) = slot_load t (id_of t y)"
proof -
  have y: "in_range t y" using assms(2) by (simp add: candidate_def)
  note same = frameD(5,6) [OF assms(1) y assms(3)]
  show "candidate t' v y"
    using assms(2) same frame_in_range [OF assms(1) y] frameD(2,4) [OF assms(1)]
    by (simp add: candidate_def fresh_text_def)
  show "id_of t' y = id_of t y" "link_of t' y = link_of t y" using same by simp_all
  show "id_of t y \<noteq> 0 \<Longrightarrow> slot_load t' (id_of t y) = slot_load t (id_of t y)" using same by simp
qed

lemma frame_call:
  assumes fr: "frame t nodes x t' nodes'" and c: "call_inv t nodes v pc" "own pc \<noteq> Some x"
    and nodes: "\<And>b y. y \<in> set (nodes b) \<Longrightarrow> in_range t y \<and> y \<noteq> x"
  shows "call_inv t' nodes' v pc"
proof -
  have same: "record_at t' y = record_at t y" if "y \<in> set (nodes b)" for y b
    using nodes [OF that] frameD(5) [OF fr] by blast
  have fresh: "fresh_text t' w = fresh_text t w" for w using frameD(2) [OF fr] by (simp add: fresh_text_def)
  have grown: "nodes' b = nodes b \<or> nodes' b = x # nodes b" for b by (rule frameD(7) [OF fr])
  have load: "loaded (link_of t') h (nodes' b)" if "loaded (link_of t) h (nodes b)" for h b
    using loaded_grow [OF that, where link' = "link_of t'"] same grown [of b] by auto
  have scan: "scanned (link_of t') (text_of t') w h (nodes' b)" if "scanned (link_of t) (text_of t) w h (nodes b)" for w h b
    using scanned_grow [OF that, where link' = "link_of t'" and key' = "text_of t'"] same grown [of b] by auto
  have found: "\<exists>y \<in> set (nodes' b). text_of t' y = w \<and> id_of t' y = i"
    if "\<exists>y \<in> set (nodes b). text_of t y = w \<and> id_of t y = i" for b w i
    using that same grown [of b] by (metis list.set_intros(2))
  show ?thesis
  proof (cases pc)
    case (ip_done st i)
    then show ?thesis using c(1) found [of "bucket_of v" v i] frameD(2) [OF fr] by simp blast
  qed (use c fresh load scan frame_candidate [OF fr] frameD(4) [OF fr] in auto)
qed

lemma string_inv_move:
  assumes inv: "string_inv t nodes calls draws" and i: "i < length calls" "calls ! i = (v, pc)"
    and fr: "frame t nodes x t' nodes'" and x: "own pc = Some x \<or> own pc = None \<and> \<not> in_range t x"
    and index: "index_ok (head_of t') (link_of t') (text_of t') bucket_of nodes'"
    and pub: "\<And>b. x \<in> set (nodes' b) \<Longrightarrow> published t' x"
    and ids: "ids_ok t' draws'"
    and call: "call_inv t' nodes' v pc'" and owned: "\<And>y. own pc' = Some y \<Longrightarrow> y = x \<and> (\<forall>b. x \<notin> set (nodes' b))"
  shows "string_inv t' nodes' (calls[i := (v, pc')]) draws'"
proof -
  note facts = string_inv_facts [OF inv]
  have range: "in_range t y \<and> y \<noteq> x" if "y \<in> set (nodes b)" for b y
    using facts(2) [OF that] facts(6) [OF i(1), of x b] that x i(2) by (auto simp: published_def)
  have others: "own (snd (calls ! j)) \<noteq> Some x" if "j < length calls" "j \<noteq> i" for j
    using x facts(7) [OF i(1), of x j] i(2) that own_in_range facts(5) [OF that(1)]
    by (metis prod.collapse snd_conv)
  have "published t' y" if y: "y \<in> set (nodes' b)" for b y
  proof (cases "y = x")
    case False
    then have mem: "y \<in> set (nodes b)" using y frameD(7) [OF fr, of b] by auto
    note same = frameD(5,6) [OF fr, of y]
    show ?thesis
      using facts(2) [OF mem] range [OF mem] same frame_in_range [OF fr] frameD(2) [OF fr]
      by (auto simp: published_def fresh_text_def)
  qed (use pub y in blast)
  moreover have "call_inv t' nodes' (fst (calls[i := (v, pc')] ! j)) (snd (calls[i := (v, pc')] ! j))" if "j < length calls" for j
    using that call frame_call [OF fr, of "fst (calls ! j)" "snd (calls ! j)"] facts(5) [of j] others range i(1)
    by (cases "j = i") auto
  moreover have "(\<forall>b. y \<notin> set (nodes' b)) \<and> (\<forall>k < length calls. own (snd (calls[i := (v, pc')] ! k)) = Some y \<longrightarrow> k = j)"
    if "j < length calls" "own (snd (calls[i := (v, pc')] ! j)) = Some y" for j y
  proof (cases "j = i")
    case True
    then have "y = x" "\<forall>b. x \<notin> set (nodes' b)" using that owned i(1) by auto
    then show ?thesis using others True i(1) by (auto simp: nth_list_update split: if_splits)
  next
    case False
    then have "own (snd (calls ! j)) = Some y" "y \<noteq> x" using that others by auto
    moreover have "y \<notin> set (nodes' b)" for b
      using facts(6) [OF that(1) \<open>own (snd (calls ! j)) = Some y\<close>, of b] frameD(7) [OF fr, of b] \<open>y \<noteq> x\<close> by auto
    ultimately show ?thesis
      using facts(7) [OF that(1)] owned False i(1) by (auto simp: nth_list_update split: if_splits)
  qed
  moreover have "\<forall>b. tb_baseline t' = Some b \<longrightarrow> baseline_ok b \<and> tb_baseline_slots t' = bl_slot_count b"
    using facts(4) frameD(2,3) [OF fr] by simp
  ultimately show ?thesis
    unfolding string_inv_def length_list_update using index ids by blast
qed

section \<open>Walks\<close>

lemma nodes_short:
  assumes "string_inv t nodes calls draws"
  shows "length (nodes b) < Suc (length (tb_records t))"
proof -
  note facts = string_inv_facts [OF assms]
  have "distinct (nodes b)" using path_distinct index_okD(1) [OF facts(1)] by blast
  moreover have "set (nodes b) \<subseteq> {0 <.. length (tb_records t)}"
    using facts(2) by (auto simp: published_def in_range_def)
  ultimately have "length (nodes b) \<le> length (tb_records t)"
    using card_mono [of "{0 <.. length (tb_records t)}" "set (nodes b)"] by (simp add: distinct_card)
  then show ?thesis by simp
qed

lemma walk_records_loaded:
  assumes "string_inv t nodes calls draws" "loaded (link_of t) h (nodes (bucket_of v))" "v \<noteq> []"
  shows "walk_records t v (hash_text v) h = cr_absent \<and> scanned (link_of t) (text_of t) v h (nodes (bucket_of v)) \<or>
    (\<exists>x \<in> set (nodes (bucket_of v)). walk_records t v (hash_text v) h = cr_found x \<and> text_of t x = v)"
  unfolding walk_records_def
proof (rule scan_loaded [OF assms(2)])
  show "length (nodes (bucket_of v)) < Suc (length (tb_records t))" by (rule nodes_short [OF assms(1)])
  show "record_matches t v (hash_text v) x \<longleftrightarrow> text_of t x = v" if "x \<in> set (nodes (bucket_of v))" for x
    using string_inv_facts(2) [OF assms(1) that] assms(3) by (auto simp: record_matches_def published_def)
qed simp

text \<open>A published text is found; any other text is looked up in the baseline.\<close>

lemma string_find_cases:
  assumes inv: "string_inv t nodes calls draws" and v: "v \<noteq> []"
  obtains (local) x where "x \<in> set (nodes (bucket_of v))" "text_of t x = v" "string_find t v = id_of t x"
  | (baseline) "v \<notin> text_of t ` set (nodes (bucket_of v))"
      "string_find t v = (case tb_baseline t of None \<Rightarrow> 0 | Some b \<Rightarrow> (case bl_find b v of None \<Rightarrow> 0 | Some i \<Rightarrow> i))"
proof -
  note facts = string_inv_facts [OF inv]
  have path: "path (link_of t) (head_of t (bucket_of v)) (nodes (bucket_of v))" by (rule index_okD(1) [OF facts(1)])
  have b: "unat (hash_text v) mod tb_bucket_count = bucket_of v" by (simp add: bucket_of_def)
  show thesis
  proof (cases "bucket_load t (bucket_of v)")
    case None
    then have "nodes (bucket_of v) = []" using path by (cases "nodes (bucket_of v)") (simp_all add: head_of_def)
    with None v b show thesis by (intro baseline) (simp_all add: string_find_def find_record_def)
  next
    case (Some h)
    then have h: "path (link_of t) h (nodes (bucket_of v))" using path by (simp add: head_of_def)
    from walk_records_loaded [OF inv loaded_head [OF h] v] show thesis
    proof
      assume absent: "walk_records t v (hash_text v) h = cr_absent \<and> scanned (link_of t) (text_of t) v h (nodes (bucket_of v))"
      note scanned_head [OF conjunct2 [OF absent] h]
      with absent Some v b show thesis by (intro baseline) (simp_all add: string_find_def find_record_def)
    next
      assume "\<exists>x \<in> set (nodes (bucket_of v)). walk_records t v (hash_text v) h = cr_found x \<and> text_of t x = v"
      then obtain x where x: "x \<in> set (nodes (bucket_of v))" "walk_records t v (hash_text v) h = cr_found x" "text_of t x = v"
        by blast
      moreover have "x \<noteq> 0" using facts(2) [OF x(1)] by (simp add: published_def in_range_def)
      ultimately have "string_find t v = id_of t x" using Some v b by (simp add: string_find_def find_record_def)
      with x show thesis by (intro local)
    qed
  qed
qed

section \<open>Every step keeps the invariant\<close>

lemma string_inv_quiet:
  assumes inv: "string_inv t nodes calls draws" and i: "i < length calls" "calls ! i = (v, pc)"
    and same: "tb_records t' = tb_records t" "head_of t' = head_of t" "slot_load t' = slot_load t"
      "tb_baseline t' = tb_baseline t" "tb_baseline_slots t' = tb_baseline_slots t"
      "\<And>b. bucket_load t b \<noteq> None \<Longrightarrow> bucket_load t' b \<noteq> None"
      "tb_next_id t' = tb_next_id t + (draws' - draws)" "draws \<le> draws'"
    and call: "call_inv t' nodes v pc'" and own: "own pc' = None \<or> own pc' = own pc"
  shows "string_inv t' nodes (calls[i := (v, pc')]) draws'"
proof -
  note facts = string_inv_facts [OF inv]
  define x where "x = (case own pc of None \<Rightarrow> 0 | Some x \<Rightarrow> x)"
  have rec: "record_at t' = record_at t" using same(1) by (simp add: record_at_def fun_eq_iff)
  show ?thesis
  proof (rule string_inv_move [OF inv i])
    show "frame t nodes x t' nodes" using same rec by (simp add: frame_def)
    show "own pc = Some x \<or> own pc = None \<and> \<not> in_range t x" by (auto simp: x_def in_range_def split: option.splits)
    show "index_ok (head_of t') (link_of t') (text_of t') bucket_of nodes" using facts(1) same(2) rec by simp
    show "ids_ok t' draws'" using same rec by (intro ids_frame [OF facts(3)]) (simp_all add: in_range_def)
    show "published t' x" if "x \<in> set (nodes b)" for b
      using facts(2) [OF that] same rec by (simp add: published_def in_range_def fresh_text_def)
    show "y = x \<and> (\<forall>b. x \<notin> set (nodes b))" if "own pc' = Some y" for y
    proof -
      have "own pc = Some y" using that own by auto
      then show ?thesis using facts(6) [OF i(1)] i(2) by (simp add: x_def)
    qed
  qed (rule call)
qed

lemma string_inv_allocate:
  assumes inv: "string_inv t nodes calls draws" and i: "i < length calls" "calls ! i = (v, ip_allocate)"
  defines "t' \<equiv> t\<lparr>tb_records := tb_records t @ [\<lparr>sr_hash = hash_text v, sr_next = 0, sr_id = 0, sr_text = v\<rparr>]\<rparr>"
  shows "string_inv t' nodes (calls[i := (v, ip_identify (length (tb_records t) + 1))]) draws"
proof -
  note facts = string_inv_facts [OF inv]
  let ?x = "length (tb_records t) + 1"
  have same: "bucket_load t' = bucket_load t" "slot_load t' = slot_load t" "head_of t' = head_of t"
    by (simp_all add: t'_def bucket_load_def slot_load_def head_of_def fun_eq_iff)
  have old: "record_at t' y = record_at t y" if "in_range t y" for y
    using that by (auto simp: record_at_def t'_def in_range_def nth_append)
  have new: "record_at t' ?x = \<lparr>sr_hash = hash_text v, sr_next = 0, sr_id = 0, sr_text = v\<rparr>"
    by (simp add: record_at_def t'_def)
  have range: "in_range t' y \<longleftrightarrow> in_range t y \<or> y = ?x" for y by (auto simp: in_range_def t'_def)
  have none: "?x \<notin> set (nodes b)" for b using facts(2) [of ?x b] by (auto simp: published_def in_range_def)
  have call: "fresh_text t v" "bucket_load t (bucket_of v) \<noteq> None" using facts(5) [OF i] by simp_all
  show ?thesis
  proof (rule string_inv_move [OF inv i, of ?x])
    show "frame t nodes ?x t' nodes" using same old by (simp add: frame_def) (simp add: t'_def)
    show "own ip_allocate = Some ?x \<or> own ip_allocate = None \<and> \<not> in_range t ?x" by (simp add: in_range_def)
    show "index_ok (head_of t') (link_of t') (text_of t') bucket_of nodes"
      using old facts(2) same by (intro index_frame [OF facts(1)]) (auto simp: published_def)
    show "ids_ok t' draws" using facts(3) old new range by (auto simp: ids_ok_def) (auto simp: t'_def)
    show "call_inv t' nodes v (ip_identify ?x)"
      using call new same range by (simp add: candidate_def fresh_text_def) (simp add: t'_def)
  qed (use none in auto)
qed

lemma string_inv_identify:
  assumes inv: "string_inv t nodes calls draws" and i: "i < length calls" "calls ! i = (v, ip_identify x)"
    and bound: "tb_baseline_slots t + draws + 2 < 2 ^ 32"
  defines "raw \<equiv> tb_next_id t"
  defines "t' \<equiv> update_record x (\<lambda>r. r\<lparr>sr_id := raw\<rparr>) (t\<lparr>tb_next_id := to_u32 (raw + 1)\<rparr>)"
  shows "string_inv t' nodes (calls[i := (v, ip_page x raw)]) (draws + 1)"
proof -
  note facts = string_inv_facts [OF inv]
  have call: "candidate t v x" "id_of t x = 0" using facts(5) [OF i] by simp_all
  then have x: "0 < x" "x \<le> length (tb_records t)" by (simp_all add: candidate_def in_range_def)
  have raw: "raw = tb_baseline_slots t + 1 + draws" using facts(3) by (simp add: raw_def ids_ok_def)
  then have next_id: "tb_next_id t' = raw + 1" using bound by (simp add: t'_def)
  have same: "bucket_load t' = bucket_load t" "slot_load t' = slot_load t" "head_of t' = head_of t"
    "tb_baseline t' = tb_baseline t" "tb_baseline_slots t' = tb_baseline_slots t" "in_range t' = in_range t"
    by (simp_all add: t'_def bucket_load_def slot_load_def head_of_def in_range_def update_record_def fun_eq_iff)
  have rec: "record_at t' y = (if y = x then (record_at t x)\<lparr>sr_id := raw\<rparr> else record_at t y)" if "in_range t y" for y
    using that x by (simp add: t'_def record_at_update in_range_def) (simp add: record_at_def)
  have none: "x \<notin> set (nodes b)" for b using facts(6) [OF i(1)] i(2) by simp
  have nodes: "record_at t' y = record_at t y" if "y \<in> set (nodes b)" for y b
    using rec [of y] facts(2) [OF that] that none by (auto simp: published_def)
  have new: "record_at t' x = (record_at t x)\<lparr>sr_id := raw\<rparr>" using rec [of x] x by (simp add: in_range_def)
  show ?thesis
  proof (rule string_inv_move [OF inv i, of x])
    show "frame t nodes x t' nodes" using same rec by (simp add: frame_def) (simp add: t'_def)
    show "index_ok (head_of t') (link_of t') (text_of t') bucket_of nodes"
      using nodes same by (intro index_frame [OF facts(1)]) auto
    show "ids_ok t' (draws + 1)" unfolding ids_ok_def
    proof (intro conjI allI impI)
      note old = ids_okD [OF facts(3)]
      show "tb_next_id t' = tb_baseline_slots t' + 1 + (draws + 1)" using next_id raw same by simp
      fix y assume y: "in_range t' y" "id_of t' y \<noteq> 0"
      then show "tb_baseline_slots t' < id_of t' y" "id_of t' y < tb_next_id t'"
        using rec [of y] old(2) [of y] same raw next_id by (auto split: if_splits)
      fix z assume z: "in_range t' z" "id_of t' y = id_of t' z"
      then show "y = z" using y rec [of y] rec [of z] old(2) [of y] old(2) [of z] old(3) [of y z] same raw
        by (auto split: if_splits)
    qed
    show "call_inv t' nodes v (ip_page x raw)"
      using call new same raw by (simp add: candidate_def fresh_text_def)
  qed (use none in auto)
qed

lemma string_inv_page:
  assumes inv: "string_inv t nodes calls draws" and i: "i < length calls" "calls ! i = (v, ip_page x raw)"
    and page: "ensure_record_page granted raw t = Some u"
  shows "string_inv (slot_store raw x u) nodes (calls[i := (v, ip_load x raw)]) draws"
proof -
  note facts = string_inv_facts [OF inv] and u = ensure_record_page_ok [OF page]
  let ?t = "slot_store raw x u"
  obtain pages pg where "tb_pages u = Some pages" "pages ((raw - 1) div 2 ^ tb_page_shift) = Some pg"
    "raw \<noteq> 0" "(raw - 1) div 2 ^ tb_page_shift < tb_page_count" "slot_load u = slot_load t"
    using ensure_record_page_slots [OF page] .
  then have slot: "slot_load ?t r = (if r = raw then x else slot_load t r)" for r
    using slot_load_store [of u pages raw pg x r] by simp
  have same: "bucket_load ?t = bucket_load t" "head_of ?t = head_of t" "tb_records ?t = tb_records t"
    using u by (simp_all add: head_of_def fun_eq_iff)
  then have rec: "record_at ?t = record_at t" "in_range ?t = in_range t" by (simp_all add: record_at_def in_range_def fun_eq_iff)
  have call: "candidate t v x" "id_of t x = raw" "raw \<noteq> 0" using facts(5) [OF i] by simp_all
  have other: "id_of t y \<noteq> raw" if "in_range t y" "y \<noteq> x" for y
    using facts(3) call that unfolding ids_ok_def candidate_def by metis
  have none: "x \<notin> set (nodes b)" for b using facts(6) [OF i(1)] i(2) by simp
  show ?thesis
  proof (rule string_inv_move [OF inv i, of x])
    show "frame t nodes x ?t nodes" using same rec u slot other by (simp add: frame_def)
    show "index_ok (head_of ?t) (link_of ?t) (text_of ?t) bucket_of nodes" using facts(1) same rec by simp
    show "ids_ok ?t draws" using u rec by (intro ids_frame [OF facts(3)]) simp_all
    show "call_inv ?t nodes v (ip_load x raw)"
      using call same rec slot u by (simp add: candidate_def fresh_text_def)
  qed (use none in auto)
qed

lemma string_inv_found:
  assumes inv: "string_inv t nodes calls draws" and i: "i < length calls" "calls ! i = (v, ip_scan x raw h)"
    and item: "item \<in> set (nodes (bucket_of v))" "text_of t item = v"
  shows "string_inv (slot_store raw 0 t) nodes (calls[i := (v, ip_done st_ok (id_of t item))]) draws"
proof -
  note facts = string_inv_facts [OF inv]
  let ?t = "slot_store raw 0 t"
  have call: "candidate t v x" "id_of t x = raw" "raw \<noteq> 0" "slot_load t raw = x" using facts(5) [OF i] by simp_all
  then have slot: "slot_load ?t r = (if r = raw then 0 else slot_load t r)" for r
    by (intro slot_clear) (simp add: candidate_def in_range_def)
  have same: "head_of ?t = head_of t" by (simp add: head_of_def fun_eq_iff)
  have rec: "record_at ?t = record_at t" "in_range ?t = in_range t" by (simp_all add: record_at_def in_range_def fun_eq_iff)
  have other: "id_of t y \<noteq> raw" if "in_range t y" "y \<noteq> x" for y
    using facts(3) call that unfolding ids_ok_def candidate_def by metis
  have none: "x \<notin> set (nodes b)" for b using facts(6) [OF i(1)] i(2) by simp
  show ?thesis
  proof (rule string_inv_move [OF inv i, of x])
    show "frame t nodes x ?t nodes" using rec slot other by (simp add: frame_def)
    show "index_ok (head_of ?t) (link_of ?t) (text_of ?t) bucket_of nodes" using facts(1) same rec by simp
    show "ids_ok ?t draws" using rec by (intro ids_frame [OF facts(3)]) simp_all
    show "call_inv ?t nodes v (ip_done st_ok (id_of t item))"
      using item rec call(1) by (auto simp: candidate_def fresh_text_def)
  qed (use none in auto)
qed

lemma string_inv_next:
  assumes inv: "string_inv t nodes calls draws" and i: "i < length calls" "calls ! i = (v, ip_scan x raw h)"
    and absent: "scanned (link_of t) (text_of t) v h (nodes (bucket_of v))"
  defines "t' \<equiv> update_record x (\<lambda>r. r\<lparr>sr_next := h\<rparr>) t"
  shows "string_inv t' nodes (calls[i := (v, ip_exchange x raw h)]) draws"
proof -
  note facts = string_inv_facts [OF inv]
  have call: "candidate t v x" "id_of t x = raw" "raw \<noteq> 0" "slot_load t raw = x" using facts(5) [OF i] by simp_all
  then have x: "0 < x" "x \<le> length (tb_records t)" by (simp_all add: candidate_def in_range_def)
  have same: "head_of t' = head_of t" "in_range t' = in_range t"
    by (simp_all add: t'_def head_of_def in_range_def fun_eq_iff)
  have rec: "record_at t' y = (if y = x then (record_at t x)\<lparr>sr_next := h\<rparr> else record_at t y)" if "0 < y" for y
    using x that by (simp add: t'_def record_at_update)
  have ids: "id_of t' y = id_of t y" "text_of t' y = text_of t y" if "in_range t y" for y
    using rec [of y] that by (simp_all add: in_range_def)
  have none: "x \<notin> set (nodes b)" for b using facts(6) [OF i(1)] i(2) by simp
  have nodes: "record_at t' y = record_at t y" if "y \<in> set (nodes b)" for y b
    using rec [of y] facts(2) [OF that] that none by (auto simp: published_def in_range_def)
  show ?thesis
  proof (rule string_inv_move [OF inv i, of x])
    show "frame t nodes x t' nodes" using rec by (simp add: frame_def in_range_def) (simp add: t'_def)
    show "index_ok (head_of t') (link_of t') (text_of t') bucket_of nodes"
      using nodes same by (intro index_frame [OF facts(1)]) auto
    show "ids_ok t' draws" using ids same by (intro ids_frame [OF facts(3)]) (simp_all add: t'_def)
    have "scanned (link_of t') (text_of t') v h (nodes (bucket_of v))"
      using nodes by (intro scanned_grow(1) [OF absent]) simp
    then show "call_inv t' nodes v (ip_exchange x raw h)"
      using call rec [OF x(1)] same by (simp add: candidate_def fresh_text_def) (simp add: t'_def)
  qed (use none in auto)
qed

lemma string_inv_exchange:
  assumes inv: "string_inv t nodes calls draws" and i: "i < length calls" "calls ! i = (v, ip_exchange x raw h)"
    and head: "head_of t (bucket_of v) = h"
  defines "t' \<equiv> (bucket_store (bucket_of v) x t)\<lparr>tb_live_count := tb_live_count t + 1\<rparr>"
    and "nodes' \<equiv> nodes(bucket_of v := x # nodes (bucket_of v))"
  shows "string_inv t' nodes' (calls[i := (v, ip_done st_ok raw)]) draws"
proof -
  note facts = string_inv_facts [OF inv]
  let ?b = "bucket_of v"
  have call: "candidate t v x" "id_of t x = raw" "raw \<noteq> 0" "slot_load t raw = x"
    "scanned (link_of t) (text_of t) v h (nodes ?b)" "link_of t x = h" using facts(5) [OF i] by simp_all
  have bucket: "bucket_load t ?b \<noteq> None" and same_text: "text_of t x = v" using call(1) by (simp_all add: candidate_def)
  have load: "bucket_load t' c = (if c = ?b then Some x else bucket_load t c)" for c
    using bucket_load_store [OF bucket, of x c] by (simp add: t'_def)
  then have heads: "head_of t' = (head_of t)(?b := x)" by (auto simp: head_of_def)
  have same: "record_at t' = record_at t" "in_range t' = in_range t" "slot_load t' = slot_load t" "tb_baseline t' = tb_baseline t"
    "tb_baseline_slots t' = tb_baseline_slots t" "tb_next_id t' = tb_next_id t" "tb_records t' = tb_records t"
    by (simp_all add: t'_def record_at_def in_range_def slot_load_def fun_eq_iff)
  have none: "x \<notin> set (nodes c)" for c using facts(6) [OF i(1)] i(2) by simp
  have path: "path (link_of t) h (nodes ?b)" using index_okD(1) [OF facts(1), of ?b] head by simp
  then have new: "v \<notin> text_of t ` set (nodes ?b)" using call(5) by (rule scanned_head [rotated])
  show ?thesis
  proof (rule string_inv_move [OF inv i, of x])
    show "frame t nodes x t' nodes'" using same load by (simp add: frame_def nodes'_def)
    have "x \<noteq> 0" using call(1) by (simp add: candidate_def in_range_def)
    then show "index_ok (head_of t') (link_of t') (text_of t') bucket_of nodes'"
      using index_link [OF facts(1), of x] none new same_text call(6) head by (simp add: heads same nodes'_def)
    show "ids_ok t' draws" using same by (intro ids_frame [OF facts(3)]) simp_all
    show "call_inv t' nodes' v (ip_done st_ok raw)"
      using same_text call(1,2) same by (simp add: nodes'_def candidate_def fresh_text_def)
    show "published t' x" using call(1-4) same_text same by (auto simp: published_def candidate_def fresh_text_def)
  qed auto
qed

lemma string_inv_begin:
  assumes "string_inv t nodes calls draws"
  shows "string_inv t nodes (calls @ [(v, ip_start)]) draws"
proof -
  let ?calls = "calls @ [(v, ip_start)]"
  have split: "j < length calls \<and> ?calls ! j = calls ! j \<or> j = length calls \<and> ?calls ! j = (v, ip_start)"
    if "j < length ?calls" for j using that by (auto simp: nth_append less_Suc_eq)
  note facts = string_inv_facts [OF assms]
  have "call_inv t nodes (fst (?calls ! j)) (snd (?calls ! j))" if "j < length ?calls" for j
    using split [OF that] facts(5) [of j] by auto
  moreover have "(\<forall>b. x \<notin> set (nodes b)) \<and> (\<forall>k < length ?calls. own (snd (?calls ! k)) = Some x \<longrightarrow> k = j)"
    if "j < length ?calls" "own (snd (?calls ! j)) = Some x" for j x
  proof -
    have j: "j < length calls" "own (snd (calls ! j)) = Some x" using split [OF that(1)] that(2) by auto
    have "k = j" if "k < length ?calls" "own (snd (?calls ! k)) = Some x" for k
      using split [OF that(1)] that(2) facts(7) [OF j, of k] by auto
    then show ?thesis using facts(6) [OF j] by blast
  qed
  ultimately show ?thesis using assms unfolding string_inv_def by blast
qed

lemma string_inv_start:
  assumes inv: "string_inv t nodes calls draws" and i: "i < length calls" "calls ! i = (v, ip_start)"
    and step: "intern_step granted v ip_start t = (pc', t')"
  shows "string_inv t' nodes (calls[i := (v, pc')]) draws"
proof -
  have t': "t' = t" using step by (auto simp: Let_def split: if_splits)
  consider (failed) st where "pc' = ip_done st 0" "st \<noteq> st_ok"
    | (existing) "v \<noteq> []" "pc' = ip_done st_ok (string_find t v)" "string_find t v \<noteq> 0"
    | (fresh) "v \<noteq> []" "pc' = ip_bucket" "string_find t v = 0"
    using step by (auto simp: Let_def split: if_splits)
  then have "call_inv t nodes v pc' \<and> own pc' = None"
  proof cases
    case failed
    then show ?thesis by simp
  next
    case existing
    from inv existing(1) show ?thesis
    proof (cases rule: string_find_cases)
      case (local x)
      then show ?thesis using existing(1,2) by auto
    next
      case baseline
      then show ?thesis using existing by (auto split: option.splits)
    qed
  next
    case fresh
    from inv fresh(1) show ?thesis
    proof (cases rule: string_find_cases)
      case (local x)
      then show ?thesis using fresh(3) string_inv_facts(2) [OF inv local(1)] by (simp add: published_def)
    next
      case baseline
      have "bl_find b v = None" if "tb_baseline t = Some b" for b
        using baseline(2) fresh(3) that string_inv_facts(4) [OF inv that] by (auto simp: baseline_ok_def split: option.splits)
      then show ?thesis using fresh(1,2) by (simp add: fresh_text_def)
    qed
  qed
  then show ?thesis using string_inv_quiet [OF inv i, of t' draws pc'] t' by simp
qed

lemma string_inv_step:
  assumes inv: "string_inv t nodes calls draws" and i: "i < length calls" "calls ! i = (v, pc)"
    and bound: "tb_baseline_slots t + draws + draws_of pc + 1 < 2 ^ 32"
    and step: "intern_step granted v pc t = (pc', t')"
  shows "\<exists>nodes'. string_inv t' nodes' (calls[i := (v, pc')]) (draws + draws_of pc)"
proof -
  note facts = string_inv_facts [OF inv]
  have call: "call_inv t nodes v pc" by (rule facts(5) [OF i])
  have quiet: "string_inv t nodes (calls[i := (v, q)]) draws"
    if "call_inv t nodes v q" "own q = None \<or> own q = own pc" for q
    using string_inv_quiet [OF inv i, of t draws q] that by simp
  show ?thesis
  proof (cases pc)
    case ip_start
    then show ?thesis using string_inv_start [OF inv, of i v] i step by auto
  next
    case ip_bucket
    show ?thesis
    proof (cases "ensure_bucket_slot granted (bucket_of v) t")
      case None
      then show ?thesis using ip_bucket step quiet [of pc'] by auto
    next
      case (Some u)
      note u = ensure_bucket_slot_ok [OF Some]
      have "pc' = ip_allocate" "t' = u" using Some ip_bucket step by simp_all
      moreover have "slot_load u = slot_load t" using u(5) by (simp add: slot_load_def fun_eq_iff)
      moreover have "call_inv u nodes v ip_allocate" using call ip_bucket u by (simp add: fresh_text_def)
      ultimately show ?thesis using u ip_bucket string_inv_quiet [OF inv i, of u draws ip_allocate] by auto
    qed
  next
    case ip_allocate
    then show ?thesis
      using step string_inv_allocate [OF inv, of i v] i quiet [of pc'] by (auto split: if_splits)
  next
    case (ip_identify x)
    let ?raw = "tb_next_id t"
    have raw: "?raw = tb_baseline_slots t + 1 + draws" using facts(3) by (rule ids_okD(1))
    show ?thesis
    proof (cases "?raw = 0 \<or> ?raw > tb_maximum_id")
      case True
      then have "pc' = ip_done st_not_available 0" "t' = t\<lparr>tb_next_id := ?raw + 1\<rparr>"
        using step ip_identify bound raw by (auto simp: Let_def)
      then show ?thesis
        using string_inv_quiet [OF inv i, of t' "draws + 1" pc'] ip_identify by auto
    next
      case False
      then show ?thesis
        using step ip_identify bound string_inv_identify [OF inv, of i v x] i by (auto simp: Let_def)
    qed
  next
    case (ip_page x raw)
    show ?thesis
    proof (cases "ensure_record_page granted raw t")
      case None
      then show ?thesis using ip_page step quiet [of pc'] by auto
    next
      case (Some u)
      then show ?thesis using ip_page step string_inv_page [OF inv, of i v x raw granted u] i by auto
    qed
  next
    case (ip_load x raw)
    have "loaded (link_of t) (head_of t (bucket_of v)) (nodes (bucket_of v))"
      by (rule loaded_head [OF index_okD(1) [OF facts(1)]])
    then show ?thesis using ip_load step call quiet [of pc'] by auto
  next
    case (ip_scan x raw h)
    have "loaded (link_of t) h (nodes (bucket_of v))" "v \<noteq> []"
      using call ip_scan by (simp_all add: candidate_def fresh_text_def)
    from walk_records_loaded [OF inv this] show ?thesis
    proof
      assume "walk_records t v (hash_text v) h = cr_absent \<and> scanned (link_of t) (text_of t) v h (nodes (bucket_of v))"
      then show ?thesis using ip_scan step string_inv_next [OF inv, of i v x raw h] i by auto
    next
      assume "\<exists>y \<in> set (nodes (bucket_of v)). walk_records t v (hash_text v) h = cr_found y \<and> text_of t y = v"
      then obtain y where y: "y \<in> set (nodes (bucket_of v))" "walk_records t v (hash_text v) h = cr_found y" "text_of t y = v"
        by blast
      have "pc' = ip_done st_ok (id_of t y)" "t' = slot_store raw 0 t" "draws_of pc = 0" using ip_scan step y(2) by simp_all
      then show ?thesis using string_inv_found [OF inv i(1) _ y(1,3)] i(2) ip_scan by auto
    qed
  next
    case (ip_exchange x raw h)
    show ?thesis
    proof (cases "granted \<and> head_of t (bucket_of v) = h")
      case True
      then show ?thesis using ip_exchange step string_inv_exchange [OF inv, of i v x raw h] i by auto
    next
      case False
      have "loaded (link_of t) (head_of t (bucket_of v)) (nodes (bucket_of v))"
        by (rule loaded_head [OF index_okD(1) [OF facts(1)]])
      moreover have "pc' = ip_scan x raw (head_of t (bucket_of v))" "t' = t" using False ip_exchange step by auto
      ultimately show ?thesis using ip_exchange call quiet [of pc'] by (intro exI [of _ nodes]) simp
    qed
  next
    case (ip_done st k)
    then have "calls[i := (v, pc')] = calls" "t' = t" using step i ip_done by (auto simp: list_update_same_conv)
    then show ?thesis using inv ip_done by auto
  qed
qed

text \<open>No identifier counter wraps around.\<close>

definition ids_left :: "string_system \<Rightarrow> bool" where
  "ids_left s \<longleftrightarrow> tb_baseline_slots (ss_table s) + ss_draws s + 1 < 2 ^ 32"

lemma intern_step_slots: "intern_step granted v pc t = (pc', t') \<Longrightarrow> tb_baseline_slots t' = tb_baseline_slots t"
  by (cases pc) (auto simp: Let_def ensure_bucket_slot_def ensure_record_page_def slot_store_def update_record_def bucket_store_def
      split: if_splits option.splits chain_result.splits)

lemma string_reach_inv:
  "string_reach s \<Longrightarrow> ids_left s \<Longrightarrow> \<exists>nodes. string_inv (ss_table s) nodes (ss_calls s) (ss_draws s)"
proof (induction rule: string_reach.induct)
  case (fresh_table dense_granted pages_granted)
  have "string_inv (string_table_new dense_granted pages_granted) (\<lambda>_. []) [] 0"
    by (auto simp: string_inv_def index_ok_def head_of_def bucket_load_def ids_ok_def in_range_def
        string_table_new_def initialize_indexes_def blank_table_def split: option.splits)
  then show ?case by auto
next
  case (baseline_table b pages_granted)
  then have "string_inv (string_table_on b pages_granted) (\<lambda>_. []) [] 0"
    by (auto simp: string_inv_def index_ok_def head_of_def bucket_load_def ids_ok_def in_range_def ids_left_def
        string_table_on_def initialize_indexes_def blank_table_def split: option.splits)
  then show ?case by auto
next
  case (begin_intern s v)
  then show ?case using string_inv_begin by (fastforce simp: ids_left_def)
next
  case (step_intern s i v pc granted pc' t')
  have slots: "tb_baseline_slots t' = tb_baseline_slots (ss_table s)" by (rule intern_step_slots [OF step_intern.hyps(4)])
  have bound: "tb_baseline_slots (ss_table s) + ss_draws s + draws_of pc + 1 < 2 ^ 32"
    using step_intern.prems slots by (simp add: ids_left_def)
  then have "ids_left s" by (simp add: ids_left_def)
  then obtain nodes where "string_inv (ss_table s) nodes (ss_calls s) (ss_draws s)" using step_intern.IH by blast
  from string_inv_step [OF this step_intern.hyps(2,3) bound step_intern.hyps(4)] show ?case by simp
qed

section \<open>Results\<close>

text \<open>What a finished call has got.\<close>

lemma interned_cases:
  assumes inv: "string_inv t nodes calls draws" and i: "i < length calls" "calls ! i = (v, ip_done st_ok k)"
  obtains (local) x where "x \<in> set (nodes (bucket_of v))" "text_of t x = v" "id_of t x = k" "published t x"
      "tb_baseline_slots t < k"
  | (baseline) b where "tb_baseline t = Some b" "bl_find b v = Some k" "0 < k" "k \<le> tb_baseline_slots t" "bl_string b k = v"
proof -
  note facts = string_inv_facts [OF inv]
  from facts(5) [OF i] consider x where "x \<in> set (nodes (bucket_of v))" "text_of t x = v" "id_of t x = k"
    | b where "tb_baseline t = Some b" "bl_find b v = Some k" by auto
  then show thesis
  proof cases
    case (1 x)
    then have "published t x" using facts(2) by blast
    with 1 show thesis using local [of x] ids_okD(2) [OF facts(3), of x] by (simp add: published_def fresh_text_def)
  next
    case (2 b)
    then show thesis using baseline [of b] facts(4) [of b] by (simp add: baseline_ok_def)
  qed
qed

lemma published_get: "published t x \<Longrightarrow> tb_baseline_slots t < id_of t x \<Longrightarrow> string_get t (id_of t x) = text_of t x"
  by (auto simp: string_get_def published_def in_range_def split: option.splits)

lemma interned_get:
  assumes "string_inv t nodes calls draws" "i < length calls" "calls ! i = (v, ip_done st_ok k)"
  shows "string_get t k = v"
  using assms
proof (cases rule: interned_cases)
  case (local x)
  then show ?thesis using published_get [of t x] by simp
next
  case (baseline b)
  then show ?thesis by (simp add: string_get_def)
qed

lemma interned_nonempty:
  assumes "string_inv t nodes calls draws" "i < length calls" "calls ! i = (v, ip_done st_ok k)"
  shows "v \<noteq> []"
  using string_inv_facts(5) [OF assms] by simp

lemma interned_find:
  assumes inv: "string_inv t nodes calls draws" and i: "i < length calls" "calls ! i = (v, ip_done st_ok k)"
  shows "string_find t v = k"
  using inv i
proof (cases rule: interned_cases)
  case (local x)
  from inv interned_nonempty [OF inv i] show ?thesis
  proof (cases rule: string_find_cases)
    case l: (local y)
    then show ?thesis using index_unique [OF string_inv_facts(1) [OF inv], of x "bucket_of v" y "bucket_of v"] local(1-3) by simp
  next
    case baseline
    then show ?thesis using local(1,2) by auto
  qed
next
  case (baseline b)
  from inv interned_nonempty [OF inv i] show ?thesis
  proof (cases rule: string_find_cases)
    case (local y)
    then show ?thesis using string_inv_facts(2) [OF inv local(1)] baseline by (simp add: published_def fresh_text_def)
  next
    case b: baseline
    then show ?thesis using baseline by simp
  qed
qed


section \<open>Running a schedule\<close>

datatype string_event = se_begin string | se_step nat bool

primrec string_exec1 :: "string_event \<Rightarrow> string_system \<Rightarrow> string_system option" where
  "string_exec1 (se_begin v) s = Some (s\<lparr>ss_calls := ss_calls s @ [(v, ip_start)]\<rparr>)"
| "string_exec1 (se_step i granted) s =
     (if i < length (ss_calls s)
      then (case ss_calls s ! i of (v, pc) \<Rightarrow>
        (case intern_step granted v pc (ss_table s) of (pc', t') \<Rightarrow>
          Some (s\<lparr>ss_table := t', ss_calls := (ss_calls s)[i := (v, pc')], ss_draws := ss_draws s + draws_of pc\<rparr>)))
      else None)"

primrec string_exec :: "string_event list \<Rightarrow> string_system \<Rightarrow> string_system option" where
  "string_exec [] s = Some s"
| "string_exec (e # es) s = (case string_exec1 e s of None \<Rightarrow> None | Some s' \<Rightarrow> string_exec es s')"

lemma string_exec_reach: "string_reach s \<Longrightarrow> string_exec es s = Some s' \<Longrightarrow> string_reach s'"
proof (induction es arbitrary: s)
  case (Cons e es)
  then obtain t where t: "string_exec1 e s = Some t" "string_exec es t = Some s'" by (auto split: option.splits)
  have "string_reach t"
    using Cons.prems(1) t(1) by (cases e) (auto intro: string_reach.intros split: if_splits prod.splits)
  then show ?case using Cons.IH t(2) by blast
qed simp


definition string_start :: string_system where
  "string_start = \<lparr>ss_table = string_table_new True True, ss_calls = [], ss_draws = 0\<rparr>"

lemma string_start_reach: "string_reach string_start"
  unfolding string_start_def by (rule string_reach.fresh_table)

lemma bucket_of_fold: "unat (hash_text v) mod tb_bucket_count = bucket_of v"
  by (simp add: bucket_of_def)

lemma bucket_of_less: "\<not> tb_bucket_count \<le> bucket_of v"
  by (simp add: bucket_of_def tb_bucket_count_def)

lemmas string_eval = string_find_def find_record_def walk_records_def record_matches_def record_at_def update_record_def
  head_of_def slot_store_def slot_load_def ensure_record_page_def ensure_bucket_slot_def bucket_load_def bucket_store_def
  to_u32_def tb_page_shift_def tb_page_count_def tb_maximum_id_def string_table_new_def initialize_indexes_def
  blank_table_def sizeof_record_def Let_def bucket_of_fold bucket_of_less



section \<open>A call that runs alone\<close>




lemma head_of_update [simp]: "head_of (update_record x f t) = head_of t"
  by (simp add: head_of_def fun_eq_iff)




section \<open>The table as a canonical store\<close>

definition string_known :: "string_system \<Rightarrow> string \<Rightarrow> nat \<Rightarrow> bool" where
  "string_known s v k \<longleftrightarrow> (\<exists>i < length (ss_calls s). ss_calls s ! i = (v, ip_done st_ok k))"

text \<open>A call that runs to its end while the others wait.\<close>

definition string_intern :: "string \<Rightarrow> string_system \<Rightarrow> nat option \<times> string_system" where
  "string_intern v s =
     (let n = length (ss_calls s) in
      case string_exec (se_begin v # replicate 8 (se_step n True)) s of
        None \<Rightarrow> (None, s)
      | Some s' \<Rightarrow> (case snd (ss_calls s' ! n) of ip_done st k \<Rightarrow> if st = st_ok then Some k else None | _ \<Rightarrow> None, s'))"

lemma string_exec_alone:
  assumes "n < length (ss_calls s)"
  shows "\<exists>s'. string_exec (replicate m (se_step n True)) s = Some s' \<and> length (ss_calls s') = length (ss_calls s) \<and>
     (\<forall>i. i \<noteq> n \<longrightarrow> ss_calls s' ! i = ss_calls s ! i) \<and> fst (ss_calls s' ! n) = fst (ss_calls s ! n) \<and>
     tb_baseline_slots (ss_table s') = tb_baseline_slots (ss_table s) \<and> ss_draws s \<le> ss_draws s'"
  using assms
proof (induction m arbitrary: s)
  case (Suc m)
  obtain v pc where c: "ss_calls s ! n = (v, pc)" by fastforce
  obtain pc' t' where step: "intern_step True v pc (ss_table s) = (pc', t')" by fastforce
  let ?s = "s\<lparr>ss_table := t', ss_calls := (ss_calls s)[n := (v, pc')], ss_draws := ss_draws s + draws_of pc\<rparr>"
  have "string_exec1 (se_step n True) s = Some ?s" using Suc.prems c step by simp
  with Suc.IH [of ?s] Suc.prems c intern_step_slots [OF step] show ?case by auto
qed simp

lemma string_intern_run:
  obtains s' where "string_exec (se_begin v # replicate 8 (se_step (length (ss_calls s)) True)) s = Some s'"
    "length (ss_calls s') = Suc (length (ss_calls s))" "\<And>i. i < length (ss_calls s) \<Longrightarrow> ss_calls s' ! i = ss_calls s ! i"
    "fst (ss_calls s' ! length (ss_calls s)) = v" "ids_left s' \<Longrightarrow> ids_left s" "snd (string_intern v s) = s'"
proof -
  let ?n = "length (ss_calls s)" and ?s = "s\<lparr>ss_calls := ss_calls s @ [(v, ip_start)]\<rparr>"
  obtain s' where "string_exec (replicate 8 (se_step ?n True)) ?s = Some s'" "length (ss_calls s') = Suc ?n"
    "\<And>i. i \<noteq> ?n \<Longrightarrow> ss_calls s' ! i = ss_calls ?s ! i" "fst (ss_calls s' ! ?n) = v"
    "tb_baseline_slots (ss_table s') = tb_baseline_slots (ss_table s)" "ss_draws s \<le> ss_draws s'"
    using string_exec_alone [of ?n ?s 8] by auto
  then show thesis by (intro that [of s']) (simp_all add: nth_append ids_left_def string_intern_def)
qed

interpretation st: canonical_store string_reach ids_left string_known string_intern
proof
  fix s :: string_system and v :: string
  obtain s1 where run: "string_exec (se_begin v # replicate 8 (se_step (length (ss_calls s)) True)) s = Some s1"
    "length (ss_calls s1) = Suc (length (ss_calls s))" "\<And>i. i < length (ss_calls s) \<Longrightarrow> ss_calls s1 ! i = ss_calls s ! i"
    "fst (ss_calls s1 ! length (ss_calls s)) = v" "ids_left s1 \<Longrightarrow> ids_left s" "snd (string_intern v s) = s1"
    using string_intern_run [of v s] by blast
  show "string_reach s \<Longrightarrow> string_reach (snd (string_intern v s))" using string_exec_reach run by metis
  show "ids_left (snd (string_intern v s)) \<Longrightarrow> ids_left s" using run by simp
  show "string_intern v s = (Some k, s') \<Longrightarrow> string_known s' v k" for k s'
    using run by (auto simp: string_intern_def string_known_def split: intern_pc.splits if_splits intro!: exI [of _ "length (ss_calls s)"] prod_eqI)
  show "string_intern v s = (r, s') \<Longrightarrow> string_known s w l \<Longrightarrow> string_known s' w l" for r s' w l
    using run unfolding string_known_def by (metis less_Suc_eq snd_conv)
next
  fix s v k w l
  assume "string_reach s" "ids_left s" "string_known s v k" "string_known s w l"
  then obtain nodes i j where inv: "string_inv (ss_table s) nodes (ss_calls s) (ss_draws s)"
    and i: "i < length (ss_calls s)" "ss_calls s ! i = (v, ip_done st_ok k)"
    and j: "j < length (ss_calls s)" "ss_calls s ! j = (w, ip_done st_ok l)"
    using string_reach_inv unfolding string_known_def by blast
  show "k = l \<longleftrightarrow> v = w"
    using interned_get [OF inv i] interned_find [OF inv i] interned_get [OF inv j] interned_find [OF inv j] by metis
qed

text \<open>
  The names of a Source interned one after the other, in a table that other calls have used before, get
  equal identifiers exactly where the names are equal.
\<close>

theorem interned_names_injective:
  assumes "string_reach s" "st.intern_all names s = (ids, s')" "ids_left s'" "a < length names" "b < length names"
    "ids ! a = Some i" "ids ! b = Some j"
  shows "i = j \<longleftrightarrow> names ! a = names ! b"
  using assms by (rule st.intern_all_injective)

lemma interned_names_run:
  "\<exists>s. st.intern_all [''x'', ''x''] string_start = ([Some 1, Some 1], s) \<and> ss_draws s = 1 \<and> tb_baseline_slots (ss_table s) = 0"
proof -
  have eight: "replicate 8 e = [e, e, e, e, e, e, e, e]" for e :: string_event by (simp add: numeral_eq_Suc)
  show ?thesis by (simp add: string_start_def string_intern_def eight string_eval)
qed

theorem interned_names_injective_witness:
  "\<exists>s. st.intern_all [''x'', ''x''] string_start = ([Some 1, Some 1], s) \<and> ((1 :: nat) = 1 \<longleftrightarrow> ''x'' = ''x'')"
proof -
  obtain s where s: "st.intern_all [''x'', ''x''] string_start = ([Some 1, Some 1], s)" "ss_draws s = 1"
    "tb_baseline_slots (ss_table s) = 0" using interned_names_run by blast
  then have "ids_left s" by (simp add: ids_left_def)
  with interned_names_injective [OF string_start_reach s(1), of 0 1 1 1] s(1) show ?thesis by auto
qed

section \<open>The exhausted counter\<close>

text \<open>
  A table on a baseline with no identifier left starts its counter at the sentinel 0, but \<^verbatim>\<open>fetch_add\<close> moves it
  on: the first call fails, the next one draws the identifier 1 of the baseline.
\<close>

definition full_baseline :: string_baseline where
  "full_baseline = \<lparr>bl_slot_count = 2 ^ 32 - 1, bl_live_count = 1, bl_find = (\<lambda>v. if v = ''z'' then Some 1 else None),
     bl_string = (\<lambda>_. ''z''), bl_at_slot = (\<lambda>i. i + 1)\<rparr>"

lemma exhausted_counter_restarts:
  "\<exists>s. string_reach s \<and> ss_calls s = [(''a'', ip_done st_not_available 0), (''a'', ip_done st_ok 1)] \<and>
     string_get (ss_table s) 1 = ''z''"
proof -
  let ?s0 = "\<lparr>ss_table = string_table_on full_baseline True, ss_calls = [], ss_draws = 0\<rparr>"
  let ?run = "[se_begin ''a'', se_step 0 True, se_step 0 True, se_step 0 True, se_step 0 True, se_begin ''a'',
    se_step 1 True, se_step 1 True, se_step 1 True, se_step 1 True, se_step 1 True, se_step 1 True, se_step 1 True, se_step 1 True]"
  have "baseline_ok full_baseline" by (simp add: baseline_ok_def full_baseline_def)
  then have "string_reach ?s0" by (rule string_reach.baseline_table)
  moreover have "\<exists>s. string_exec ?run ?s0 = Some s \<and> string_get (ss_table s) 1 = ''z'' \<and>
      ss_calls s = [(''a'', ip_done st_not_available 0), (''a'', ip_done st_ok 1)]"
    by (simp add: string_eval string_table_on_def full_baseline_def string_get_def)
  ultimately show ?thesis using string_exec_reach by blast
qed

end
