(* ===== verification/Identity_Space.thy ===== *)
theory Identity_Space
  imports Bucket_Chain
begin

text \<open>
  The Identity Space, \<^verbatim>\<open>src/server_engine/project/identity\<close>: four-byte references that pack a kind and a
  slot, identity records in lazily made pages behind a two-level directory, and a concurrent index that
  makes \<open>(parent, local name)\<close> canonical and rejects a declaration of the same name with another kind. A
  call of \<^verbatim>\<open>resolve_declaration\<close> is a sequence of steps, one per access to a shared atomic variable; calls
  are interleaved arbitrarily. The compiled image behind the baseline is an argument: its identity lookups
  as functions.
\<close>

section \<open>References\<close>

datatype identity_kind = kind_root | kind_namespace | kind_type | kind_object

text \<open>String identifiers are 32-bit words here; 0 is the invalid one.\<close>

primrec kind_code :: "identity_kind \<Rightarrow> u32" where
  "kind_code kind_root = 0"
| "kind_code kind_namespace = 1"
| "kind_code kind_type = 2"
| "kind_code kind_object = 3"

text \<open>\<^verbatim>\<open>static_cast<identity_kind>\<close> of a two-bit value.\<close>

definition kind_of_code :: "u32 \<Rightarrow> identity_kind" where
  "kind_of_code w =
     (if w = 0 then kind_root else if w = 1 then kind_namespace else if w = 2 then kind_type else kind_object)"

definition kind_shift :: nat where "kind_shift = 30"

definition slot_mask :: u32 where "slot_mask = push_bit kind_shift 1 - 1"

definition ref_slot :: "u32 \<Rightarrow> u32" where
  "ref_slot r = r AND slot_mask"

definition ref_kind :: "u32 \<Rightarrow> identity_kind" where
  "ref_kind r = kind_of_code (drop_bit kind_shift r)"

definition ref_valid :: "u32 \<Rightarrow> bool" where
  "ref_valid r \<longleftrightarrow> ref_slot r \<noteq> 0"

definition make_ref :: "u32 \<Rightarrow> identity_kind \<Rightarrow> u32" where
  "make_ref slot kind = push_bit kind_shift (kind_code kind) OR slot"

definition identity_root :: u32 where
  "identity_root = make_ref 1 kind_root"

section \<open>The space\<close>

record identity_baseline =
  ib_slot_count :: nat
  ib_identity_count :: nat
  ib_find :: "u32 \<Rightarrow> u32 \<Rightarrow> identity_kind \<Rightarrow> u32 option"
  ib_valid :: "u32 \<Rightarrow> bool"
  ib_parent :: "u32 \<Rightarrow> u32"
  ib_name :: "u32 \<Rightarrow> u32"
  ib_at_slot :: "nat \<Rightarrow> u32"

record identity_record =
  ir_parent :: u32
  ir_name :: u32
  ir_fingerprint :: u32
  ir_next :: u32

definition blank_record :: identity_record where
  "blank_record = \<lparr>ir_parent = 0, ir_name = 0, ir_fingerprint = 0, ir_next = 0\<rparr>"

record identity_space =
  is_baseline :: "identity_baseline option"
  is_baseline_slots :: nat
  is_baseline_count :: nat
  is_root :: identity_record
  is_dense_mode :: bool
  is_dense :: "(nat \<Rightarrow> u32) option"
  is_bucket_pages :: "nat \<Rightarrow> (nat \<Rightarrow> u32) option"
  is_directories :: "nat \<Rightarrow> (nat \<Rightarrow> (nat \<Rightarrow> identity_record) option) option"
  is_next_slot :: u32
  is_identity_count :: nat
  is_allocated_pages :: nat
  is_bucket_bytes :: nat
  is_directory_bytes :: nat
  is_page_bytes :: nat

definition semantic_bucket_count :: nat where "semantic_bucket_count = 2 ^ 21"

definition semantic_bucket_page_shift :: nat where "semantic_bucket_page_shift = 11"

definition id_page_shift :: nat where "id_page_shift = 12"

definition directory_page_bits :: nat where "directory_page_bits = 9"

definition directory_count :: nat where
  "directory_count = 2 ^ (kind_shift - id_page_shift - directory_page_bits)"

definition root_identity_record :: identity_record where
  "root_identity_record = blank_record\<lparr>ir_fingerprint := 1\<rparr>"

definition identity_space_new :: "bool \<Rightarrow> identity_space" where
  "identity_space_new dense_granted =
     \<lparr>is_baseline = None, is_baseline_slots = 0, is_baseline_count = 0, is_root = root_identity_record,
      is_dense_mode = True, is_dense = (if dense_granted then Some (\<lambda>_. 0) else None),
      is_bucket_pages = (\<lambda>_. None), is_directories = (\<lambda>_. None), is_next_slot = 2, is_identity_count = 1,
      is_allocated_pages = 0, is_bucket_bytes = 0, is_directory_bytes = 0, is_page_bytes = 0\<rparr>"

definition identity_space_on :: "identity_baseline \<Rightarrow> identity_space" where
  "identity_space_on b =
     \<lparr>is_baseline = Some b, is_baseline_slots = ib_slot_count b, is_baseline_count = ib_identity_count b,
      is_root = root_identity_record, is_dense_mode = False, is_dense = None,
      is_bucket_pages = (\<lambda>_. None), is_directories = (\<lambda>_. None),
      is_next_slot = (if ib_slot_count b < unat slot_mask then of_nat (ib_slot_count b + 1) else 0),
      is_identity_count = 0, is_allocated_pages = 0, is_bucket_bytes = 0, is_directory_bytes = 0, is_page_bytes = 0\<rparr>"

section \<open>Hashing\<close>

definition semantic_hash_value :: "u32 \<Rightarrow> u32 \<Rightarrow> u64" where
  "semantic_hash_value parent name = mix64 (ucast parent XOR push_bit 32 (ucast name))"

definition semantic_fingerprint :: "u64 \<Rightarrow> u32" where
  "semantic_fingerprint hash =
     (let result = ucast (hash XOR drop_bit 32 hash) AND slot_mask in if result = 0 then 1 else result)"

definition packed_fingerprint :: "u32 \<Rightarrow> identity_kind \<Rightarrow> u32" where
  "packed_fingerprint fingerprint kind = fingerprint OR push_bit kind_shift (kind_code kind)"

definition semantic_bucket_of :: "u32 \<Rightarrow> u32 \<Rightarrow> nat" where
  "semantic_bucket_of parent name = unat (semantic_hash_value parent name) mod semantic_bucket_count"

section \<open>Buckets and pages\<close>

definition ensure_semantic_bucket :: "bool \<Rightarrow> nat \<Rightarrow> identity_space \<Rightarrow> identity_space option" where
  "ensure_semantic_bucket granted index s =
     (if index \<ge> semantic_bucket_count then None
      else if is_dense_mode s then (if is_dense s \<noteq> None then Some s else None)
      else
        let directory = index div 2 ^ semantic_bucket_page_shift in
        (case is_bucket_pages s directory of
           Some page \<Rightarrow> Some s
         | None \<Rightarrow>
             if granted
             then Some (s\<lparr>is_bucket_pages := (is_bucket_pages s)(directory \<mapsto> (\<lambda>_. 0)),
               is_bucket_bytes := is_bucket_bytes s + 4 * 2 ^ semantic_bucket_page_shift\<rparr>)
             else None))"

text \<open>\<^verbatim>\<open>semantic_bucket\<close> and the load through it: \<^const>\<open>None\<close> for the null bucket.\<close>

definition semantic_bucket_load :: "identity_space \<Rightarrow> nat \<Rightarrow> u32 option" where
  "semantic_bucket_load s index =
     (if index \<ge> semantic_bucket_count then None
      else if is_dense_mode s then map_option (\<lambda>page. page index) (is_dense s)
      else map_option (\<lambda>page. page (index mod 2 ^ semantic_bucket_page_shift))
        (is_bucket_pages s (index div 2 ^ semantic_bucket_page_shift)))"

definition semantic_bucket_store :: "nat \<Rightarrow> u32 \<Rightarrow> identity_space \<Rightarrow> identity_space" where
  "semantic_bucket_store index v s =
     (if is_dense_mode s then s\<lparr>is_dense := map_option (\<lambda>page. page(index := v)) (is_dense s)\<rparr>
      else
        let directory = index div 2 ^ semantic_bucket_page_shift in
        s\<lparr>is_bucket_pages := (is_bucket_pages s)(directory :=
            map_option (\<lambda>page. page(index mod 2 ^ semantic_bucket_page_shift := v)) (is_bucket_pages s directory))\<rparr>)"

definition page_number :: "u32 \<Rightarrow> nat" where
  "page_number slot = unat slot div 2 ^ id_page_shift"

definition directory_index :: "u32 \<Rightarrow> nat" where
  "directory_index slot = page_number slot div 2 ^ directory_page_bits"

definition page_index :: "u32 \<Rightarrow> nat" where
  "page_index slot = page_number slot mod 2 ^ directory_page_bits"

definition slot_index :: "u32 \<Rightarrow> nat" where
  "slot_index slot = unat slot mod 2 ^ id_page_shift"

definition ensure_directory :: "bool \<Rightarrow> nat \<Rightarrow> identity_space \<Rightarrow> identity_space option" where
  "ensure_directory granted index s =
     (if index \<ge> directory_count then None
      else (case is_directories s index of
              Some directory \<Rightarrow> Some s
            | None \<Rightarrow>
                if granted
                then Some (s\<lparr>is_directories := (is_directories s)(index \<mapsto> (\<lambda>_. None)),
                  is_directory_bytes := is_directory_bytes s + 8 * 2 ^ directory_page_bits\<rparr>)
                else None))"

definition ensure_identity_page :: "bool \<Rightarrow> u32 \<Rightarrow> identity_space \<Rightarrow> identity_space option" where
  "ensure_identity_page granted slot s =
     (if slot \<le> 1 \<or> slot > slot_mask then None
      else (case ensure_directory granted (directory_index slot) s of
              None \<Rightarrow> None
            | Some s' \<Rightarrow>
                (case is_directories s' (directory_index slot) of
                   None \<Rightarrow> None
                 | Some directory \<Rightarrow>
                     (case directory (page_index slot) of
                        Some page \<Rightarrow> Some s'
                      | None \<Rightarrow>
                          if granted
                          then Some (s'\<lparr>is_directories := (is_directories s')(directory_index slot \<mapsto>
                                directory(page_index slot \<mapsto> (\<lambda>_. blank_record))),
                              is_allocated_pages := is_allocated_pages s' + 1,
                              is_page_bytes := is_page_bytes s' + 16 * 2 ^ id_page_shift\<rparr>)
                          else None))))"

definition slot_record :: "identity_space \<Rightarrow> u32 \<Rightarrow> identity_record option" where
  "slot_record s slot =
     (if slot = 1 then Some (is_root s)
      else if slot = 0 \<or> slot > slot_mask then None
      else if directory_index slot \<ge> directory_count then None
      else (case is_directories s (directory_index slot) of
              None \<Rightarrow> None
            | Some directory \<Rightarrow> map_option (\<lambda>page. page (slot_index slot)) (directory (page_index slot))))"

text \<open>Assignment to the record of a slot that has a page.\<close>

definition store_record :: "u32 \<Rightarrow> identity_record \<Rightarrow> identity_space \<Rightarrow> identity_space" where
  "store_record slot r s =
     s\<lparr>is_directories := (is_directories s)(directory_index slot :=
         map_option (\<lambda>directory. directory(page_index slot :=
           map_option (\<lambda>page. page(slot_index slot := r)) (directory (page_index slot))))
         (is_directories s (directory_index slot)))\<rparr>"

definition published_record :: "identity_space \<Rightarrow> u32 \<Rightarrow> identity_record option" where
  "published_record s r =
     (if \<not> ref_valid r then None
      else (case slot_record s (ref_slot r) of
              None \<Rightarrow> None
            | Some item \<Rightarrow>
                if ref_slot r = 1 then (if ref_kind r = kind_root then Some item else None)
                else if ir_fingerprint item AND slot_mask \<noteq> 0 \<and>
                  kind_of_code (drop_bit kind_shift (ir_fingerprint item)) = ref_kind r \<and> ir_name item \<noteq> 0
                then Some item else None))"

section \<open>Lookup\<close>

definition identity_valid :: "identity_space \<Rightarrow> u32 \<Rightarrow> bool" where
  "identity_valid s r =
     (if \<not> ref_valid r then False
      else (case is_baseline s of
              Some b \<Rightarrow> if unat (ref_slot r) \<le> is_baseline_slots s then ib_valid b r else published_record s r \<noteq> None
            | None \<Rightarrow> published_record s r \<noteq> None))"

definition identity_parent :: "identity_space \<Rightarrow> u32 \<Rightarrow> u32" where
  "identity_parent s r =
     (case is_baseline s of
        Some b \<Rightarrow>
          if ref_valid r \<and> unat (ref_slot r) \<le> is_baseline_slots s then ib_parent b r
          else (case published_record s r of None \<Rightarrow> 0 | Some item \<Rightarrow> ir_parent item)
      | None \<Rightarrow> (case published_record s r of None \<Rightarrow> 0 | Some item \<Rightarrow> ir_parent item))"

definition identity_name :: "identity_space \<Rightarrow> u32 \<Rightarrow> u32" where
  "identity_name s r =
     (case is_baseline s of
        Some b \<Rightarrow>
          if ref_valid r \<and> unat (ref_slot r) \<le> is_baseline_slots s then ib_name b r
          else (case published_record s r of None \<Rightarrow> 0 | Some item \<Rightarrow> ir_name item)
      | None \<Rightarrow> (case published_record s r of None \<Rightarrow> 0 | Some item \<Rightarrow> ir_name item))"

definition identity_slot_count :: "identity_space \<Rightarrow> nat" where
  "identity_slot_count s = (if is_next_slot s > 1 then unat (is_next_slot s - 1) else 1)"

definition identity_size :: "identity_space \<Rightarrow> nat" where
  "identity_size s = is_baseline_count s + is_identity_count s"

definition identity_at_slot :: "identity_space \<Rightarrow> nat \<Rightarrow> u32" where
  "identity_at_slot s index =
     (if is_baseline s \<noteq> None \<and> index < is_baseline_slots s
      then (case is_baseline s of Some b \<Rightarrow> ib_at_slot b index | None \<Rightarrow> 0)
      else if index \<ge> identity_slot_count s \<or> index \<ge> unat slot_mask then 0
      else
        let slot = of_nat (index + 1) in
        if slot = 1 then identity_root
        else (case slot_record s slot of
                None \<Rightarrow> 0
              | Some item \<Rightarrow>
                  if ir_fingerprint item AND slot_mask = 0 \<or> ir_name item = 0 then 0
                  else
                    let kind = kind_of_code (drop_bit kind_shift (ir_fingerprint item)) in
                    if kind = kind_root then 0
                    else if published_record s (make_ref slot kind) \<noteq> None then make_ref slot kind else 0))"

section \<open>The chains\<close>

definition item_at :: "identity_space \<Rightarrow> u32 \<Rightarrow> identity_record" where
  "item_at s r = (case slot_record s (ref_slot r) of None \<Rightarrow> blank_record | Some item \<Rightarrow> item)"

definition item_matches :: "identity_space \<Rightarrow> u32 \<Rightarrow> u32 \<Rightarrow> u32 \<Rightarrow> u32 \<Rightarrow> bool" where
  "item_matches s parent name fingerprint r \<longleftrightarrow>
     ir_fingerprint (item_at s r) AND slot_mask = fingerprint \<and> ir_parent (item_at s r) = parent \<and> ir_name (item_at s r) = name"

text \<open>No chain is longer than the number of slots drawn.\<close>

definition walk_items :: "identity_space \<Rightarrow> u32 \<Rightarrow> u32 \<Rightarrow> u32 \<Rightarrow> u32 \<Rightarrow> u32 chain_result" where
  "walk_items s parent name fingerprint head =
     chain_find (Suc (unat (is_next_slot s))) (\<lambda>r. ir_next (item_at s r)) (\<lambda>r. published_record s r \<noteq> None)
       (item_matches s parent name fingerprint) head"

definition find_identity_record :: "identity_space \<Rightarrow> u32 \<Rightarrow> u32 \<Rightarrow> u64 \<Rightarrow> u32 \<Rightarrow> u32" where
  "find_identity_record s parent name hash fingerprint =
     (case semantic_bucket_load s (unat hash mod semantic_bucket_count) of
        None \<Rightarrow> 0
      | Some head \<Rightarrow> (case walk_items s parent name fingerprint head of cr_found r \<Rightarrow> r | _ \<Rightarrow> 0))"

definition identity_find :: "identity_space \<Rightarrow> u32 \<Rightarrow> u32 \<Rightarrow> identity_kind \<Rightarrow> u32" where
  "identity_find s parent name kind =
     (if \<not> ref_valid parent \<or> name = 0 \<or> kind = kind_root \<or> \<not> identity_valid s parent then 0
      else
        let hash = semantic_hash_value parent name;
            found = find_identity_record s parent name hash (semantic_fingerprint hash)
        in if ref_valid found then (if ref_kind found = kind then found else 0)
           else (case is_baseline s of
                   None \<Rightarrow> 0
                 | Some b \<Rightarrow> (case ib_find b parent name kind of None \<Rightarrow> 0 | Some existing \<Rightarrow> existing)))"

section \<open>Resolving a declaration\<close>

record identity_decl =
  de_parent :: u32
  de_name :: u32
  de_kind :: identity_kind

abbreviation bucket_of_decl :: "identity_decl \<Rightarrow> nat" where
  "bucket_of_decl d \<equiv> semantic_bucket_of (de_parent d) (de_name d)"

abbreviation fingerprint_of :: "identity_decl \<Rightarrow> u32" where
  "fingerprint_of d \<equiv> semantic_fingerprint (semantic_hash_value (de_parent d) (de_name d))"

text \<open>Where a call stands, with the slot or reference of its candidate and the head it loaded.\<close>

datatype resolve_pc =
    rp_start
  | rp_bucket
  | rp_slot
  | rp_page u32
  | rp_load u32
  | rp_scan u32 u32
  | rp_exchange u32 u32
  | rp_done status_code u32

definition semantic_head :: "identity_space \<Rightarrow> nat \<Rightarrow> u32" where
  "semantic_head s b = (case semantic_bucket_load s b of None \<Rightarrow> 0 | Some h \<Rightarrow> h)"

definition baseline_lookup :: "identity_baseline \<Rightarrow> identity_decl \<Rightarrow> resolve_pc" where
  "baseline_lookup b d =
     (case ib_find b (de_parent d) (de_name d) (de_kind d) of
        Some existing \<Rightarrow> rp_done st_ok existing
      | None \<Rightarrow>
          if list_ex (\<lambda>other. other \<noteq> de_kind d \<and> ib_find b (de_parent d) (de_name d) other \<noteq> None)
            [kind_namespace, kind_type, kind_object]
          then rp_done st_semantic_conflict 0 else rp_bucket)"

definition candidate_record :: "identity_decl \<Rightarrow> u32 \<Rightarrow> identity_record" where
  "candidate_record d link =
     \<lparr>ir_parent = de_parent d, ir_name = de_name d,
      ir_fingerprint = packed_fingerprint (fingerprint_of d) (de_kind d), ir_next = link\<rparr>"

definition discard_candidate :: "u32 \<Rightarrow> identity_space \<Rightarrow> identity_space" where
  "discard_candidate r s = store_record (ref_slot r) blank_record s"

text \<open>
  One step of the declaration \<open>d\<close>. \<open>granted\<close> says whether an allocation succeeds, and for the weak exchange
  that it does not fail spuriously. The exchange loop that draws a slot is one step: it ends when the
  exchange has succeeded.
\<close>

fun resolve_step :: "bool \<Rightarrow> identity_decl \<Rightarrow> resolve_pc \<Rightarrow> identity_space \<Rightarrow> resolve_pc \<times> identity_space" where
  "resolve_step granted d rp_start s =
     (if \<not> ref_valid (de_parent d) \<or> de_name d = 0 \<or> de_kind d = kind_root \<or> \<not> identity_valid s (de_parent d)
      then (rp_done st_invalid_argument 0, s)
      else
        let existing = find_identity_record s (de_parent d) (de_name d)
              (semantic_hash_value (de_parent d) (de_name d)) (fingerprint_of d)
        in if ref_valid existing
           then (if ref_kind existing \<noteq> de_kind d then (rp_done st_semantic_conflict 0, s)
                 else (rp_done st_ok existing, s))
           else (case is_baseline s of
                   None \<Rightarrow> (rp_bucket, s)
                 | Some b \<Rightarrow> (baseline_lookup b d, s)))"
| "resolve_step granted d rp_bucket s =
     (case ensure_semantic_bucket granted (bucket_of_decl d) s of
        None \<Rightarrow> (rp_done st_not_available 0, s)
      | Some s' \<Rightarrow> (rp_slot, s'))"
| "resolve_step granted d rp_slot s =
     (let slot = is_next_slot s in
      if slot = 0 \<or> slot > slot_mask then (rp_done st_not_available 0, s)
      else (rp_page slot, s\<lparr>is_next_slot := slot + 1\<rparr>))"
| "resolve_step granted d (rp_page slot) s =
     (case ensure_identity_page granted slot s of
        None \<Rightarrow> (rp_done st_not_available 0, s)
      | Some s' \<Rightarrow> (rp_load (make_ref slot (de_kind d)), store_record slot (candidate_record d 0) s'))"
| "resolve_step granted d (rp_load r) s = (rp_scan r (semantic_head s (bucket_of_decl d)), s)"
| "resolve_step granted d (rp_scan r head) s =
     (case walk_items s (de_parent d) (de_name d) (fingerprint_of d) head of
        cr_broken \<Rightarrow> (rp_done st_initialization_failed 0, discard_candidate r s)
      | cr_found existing \<Rightarrow>
          (if ref_kind existing \<noteq> de_kind d then (rp_done st_semantic_conflict 0, discard_candidate r s)
           else (rp_done st_ok existing, discard_candidate r s))
      | cr_absent \<Rightarrow> (rp_exchange r head, store_record (ref_slot r) ((item_at s r)\<lparr>ir_next := head\<rparr>) s))"
| "resolve_step granted d (rp_exchange r head) s =
     (if granted \<and> semantic_head s (bucket_of_decl d) = head
      then (rp_done st_ok r,
            (semantic_bucket_store (bucket_of_decl d) r s)\<lparr>is_identity_count := is_identity_count s + 1\<rparr>)
      else (rp_scan r (semantic_head s (bucket_of_decl d)), s))"
| "resolve_step granted d (rp_done st r) s = (rp_done st r, s)"

section \<open>Interleaved calls\<close>

record identity_system =
  id_space :: identity_space
  id_calls :: "(identity_decl \<times> resolve_pc) list"

text \<open>
  What the space relies on from the compiled image: a lookup returns a reference of its range, of the kind asked
  for and with the parent and name asked for; no name is declared with two kinds.
\<close>

definition identity_baseline_ok :: "identity_baseline \<Rightarrow> bool" where
  "identity_baseline_ok b \<longleftrightarrow>
     (\<forall>p n k r. ib_find b p n k = Some r \<longrightarrow> ref_valid r \<and> unat (ref_slot r) \<le> ib_slot_count b \<and> ref_kind r = k \<and>
        ib_valid b r \<and> ib_parent b r = p \<and> ib_name b r = n) \<and>
     (\<forall>p n k l q r. ib_find b p n k = Some q \<longrightarrow> ib_find b p n l = Some r \<longrightarrow> k = l)"

inductive identity_reach :: "identity_system \<Rightarrow> bool" where
  fresh_space: "identity_reach \<lparr>id_space = identity_space_new dense_granted, id_calls = []\<rparr>"
| baseline_space: "identity_baseline_ok b \<Longrightarrow> identity_reach \<lparr>id_space = identity_space_on b, id_calls = []\<rparr>"
| begin_resolve: "identity_reach s \<Longrightarrow> identity_reach (s\<lparr>id_calls := id_calls s @ [(d, rp_start)]\<rparr>)"
| step_resolve: "identity_reach s \<Longrightarrow> i < length (id_calls s) \<Longrightarrow> id_calls s ! i = (d, pc) \<Longrightarrow>
    resolve_step granted d pc (id_space s) = (pc', s') \<Longrightarrow>
    identity_reach (s\<lparr>id_space := s', id_calls := (id_calls s)[i := (d, pc')]\<rparr>)"

section \<open>Packing\<close>

lemma slot_mask_eq: "slot_mask = mask 30"
  by (simp add: slot_mask_def kind_shift_def mask_eq_exp_minus_1 push_bit_eq_mult)

lemma slot_mask_value: "slot_mask = 0x3fffffff"
  by (simp add: slot_mask_def kind_shift_def)

lemma slot_le_mask: "(slot :: u32) \<le> slot_mask \<longleftrightarrow> take_bit 30 slot = slot"
proof -
  have "slot \<le> slot_mask \<longleftrightarrow> unat slot < 2 ^ 30" by (auto simp: slot_mask_value word_le_nat_alt)
  also have "\<dots> \<longleftrightarrow> take_bit 30 (unat slot) = unat slot" by (simp add: take_bit_nat_eq_self_iff)
  also have "\<dots> \<longleftrightarrow> take_bit 30 slot = slot" by (metis unsigned_take_bit_eq word_unat_eq_iff)
  finally show ?thesis .
qed

lemma drop_kind: "drop_bit 30 (push_bit 30 (kind_code k)) = kind_code k" "kind_of_code (kind_code k) = k"
  by (cases k; simp add: kind_of_code_def)+

lemma ref_slot_take: "ref_slot r = take_bit 30 r"
  by (simp add: ref_slot_def slot_mask_eq take_bit_eq_mask)

lemma ref_slot_le [simp]: "ref_slot r \<le> slot_mask"
  by (simp add: slot_le_mask ref_slot_take)

lemma make_ref_slot [simp]: "slot \<le> slot_mask \<Longrightarrow> ref_slot (make_ref slot kind) = slot"
  by (simp add: ref_slot_take make_ref_def kind_shift_def take_bit_or take_bit_push_bit slot_le_mask)

lemma make_ref_kind [simp]: "slot \<le> slot_mask \<Longrightarrow> ref_kind (make_ref slot kind) = kind"
  using take_bit_eq_self_iff_drop_bit_eq_0 [of 30 slot]
  by (simp add: ref_kind_def make_ref_def kind_shift_def drop_bit_or slot_le_mask drop_kind del: push_bit_numeral)

lemma top_bits: "drop_bit 30 r < (4 :: u32)"
proof -
  have "unat (drop_bit 30 r) = unat r div 2 ^ 30" by (simp add: drop_bit_eq_div unat_div)
  moreover have "unat r < 2 ^ 32" by (rule order_less_le_trans [OF unsigned_less]) simp
  ultimately show ?thesis by (simp add: word_less_nat_alt)
qed

lemma code_of_kind: "w < 4 \<Longrightarrow> kind_code (kind_of_code w) = w"
proof -
  assume "w < 4"
  then have "unat w \<in> {0, 1, 2, 3}" by (auto simp: word_less_nat_alt)
  then have "w = 0 \<or> w = 1 \<or> w = 2 \<or> w = 3" by (simp add: word_unat_eq_iff)
  then show ?thesis by (auto simp: kind_of_code_def)
qed

lemma make_ref_again: "make_ref (ref_slot r) (ref_kind r) = r"
proof -
  have "make_ref (ref_slot r) (ref_kind r) = push_bit 30 (drop_bit 30 r) OR take_bit 30 r"
    by (simp add: make_ref_def ref_kind_def kind_shift_def code_of_kind [OF top_bits] ref_slot_take del: push_bit_numeral)
  also have "\<dots> = r" by (rule bit_eqI) (auto simp: bit_or_iff bit_push_bit_iff bit_drop_bit_eq bit_take_bit_iff dest: bit_imp_le_length)
  finally show ?thesis .
qed

lemma ref_eqI: "ref_slot r = ref_slot q \<Longrightarrow> ref_kind r = ref_kind q \<Longrightarrow> r = q"
  by (metis make_ref_again)

text \<open>
  Packing loses nothing: a slot of at most 30 bits and a kind are read back from their reference, every
  32-bit value is the packing of its own slot and kind, and two references are equal exactly when their
  slots and kinds are.
\<close>

lemma reference_round_trip:
  "(slot \<le> slot_mask \<longrightarrow> ref_slot (make_ref slot kind) = slot \<and> ref_kind (make_ref slot kind) = kind) \<and>
   make_ref (ref_slot r) (ref_kind r) = r \<and>
   (r = q \<longleftrightarrow> ref_slot r = ref_slot q \<and> ref_kind r = ref_kind q)"
  by (auto simp: make_ref_again intro: ref_eqI)

lemma packed_fingerprint_eq: "packed_fingerprint f k = make_ref f k"
  by (simp add: packed_fingerprint_def make_ref_def or.commute)

lemma semantic_fingerprint_ok [simp]: "semantic_fingerprint hash \<noteq> 0" "semantic_fingerprint hash \<le> slot_mask"
  by (simp_all add: semantic_fingerprint_def Let_def flip: ref_slot_def) (simp add: slot_mask_value)

section \<open>Buckets and records as memory cells\<close>

lemma split_index_eq: "(i :: nat) div n = j div n \<and> i mod n = j mod n \<longleftrightarrow> i = j"
  by (metis div_mult_mod_eq)

lemma semantic_load_store:
  assumes "semantic_bucket_load s b \<noteq> None"
  shows "semantic_bucket_load (semantic_bucket_store b v s) c = (if c = b then Some v else semantic_bucket_load s c)"
  using assms split_index_eq [of b "2 ^ semantic_bucket_page_shift" c]
  by (auto simp: semantic_bucket_load_def semantic_bucket_store_def Let_def split: option.splits if_splits)

lemma semantic_store_frame [simp]:
  "is_directories (semantic_bucket_store b v s) = is_directories s" "is_root (semantic_bucket_store b v s) = is_root s"
  "is_baseline (semantic_bucket_store b v s) = is_baseline s" "is_baseline_slots (semantic_bucket_store b v s) = is_baseline_slots s"
  "is_next_slot (semantic_bucket_store b v s) = is_next_slot s"
  by (simp_all add: semantic_bucket_store_def Let_def)

lemma ensure_semantic_bucket_ok:
  assumes "ensure_semantic_bucket granted b s = Some s'"
  shows "semantic_bucket_load s' b \<noteq> None" "semantic_head s' = semantic_head s"
    "\<And>c. semantic_bucket_load s c \<noteq> None \<Longrightarrow> semantic_bucket_load s' c \<noteq> None"
    "is_directories s' = is_directories s" "is_root s' = is_root s" "is_baseline s' = is_baseline s"
    "is_baseline_slots s' = is_baseline_slots s" "is_next_slot s' = is_next_slot s"
  using assms
  by (auto simp: ensure_semantic_bucket_def semantic_bucket_load_def semantic_head_def Let_def split: if_splits option.splits)

text \<open>The record of a slot; a slot without a page reads as a blank record.\<close>

definition cell :: "identity_space \<Rightarrow> u32 \<Rightarrow> identity_record" where
  "cell s slot = (case slot_record s slot of None \<Rightarrow> blank_record | Some item \<Rightarrow> item)"

definition has_page :: "identity_space \<Rightarrow> u32 \<Rightarrow> bool" where
  "has_page s slot \<longleftrightarrow> slot_record s slot \<noteq> None"

lemma item_at_cell: "item_at s r = cell s (ref_slot r)"
  by (simp add: item_at_def cell_def)

lemma slot_record_cong: "is_directories s' = is_directories s \<Longrightarrow> is_root s' = is_root s \<Longrightarrow> slot_record s' = slot_record s"
  by (simp add: slot_record_def fun_eq_iff)

lemma slot_indexes: "directory_index p = directory_index q \<Longrightarrow> page_index p = page_index q \<Longrightarrow> slot_index p = slot_index q \<Longrightarrow> p = q"
  using split_index_eq [of "page_number p" "2 ^ directory_page_bits" "page_number q"]
    split_index_eq [of "unat p" "2 ^ id_page_shift" "unat q"]
  by (simp add: directory_index_def page_index_def slot_index_def page_number_def word_unat_eq_iff)

lemma slot_record_store:
  assumes "has_page s slot" "slot \<noteq> 1"
  shows "slot_record (store_record slot x s) q = (if q = slot then Some x else slot_record s q)"
proof -
  obtain directory page where d: "is_directories s (directory_index slot) = Some directory" "directory (page_index slot) = Some page"
    and slot: "slot \<noteq> 0" "\<not> slot > slot_mask" "\<not> directory_index slot \<ge> directory_count"
    using assms by (auto simp: has_page_def slot_record_def split: if_splits option.splits)
  have store: "is_directories (store_record slot x s) = (is_directories s)(directory_index slot \<mapsto>
      directory(page_index slot \<mapsto> page(slot_index slot := x)))" "is_root (store_record slot x s) = is_root s"
    using d by (simp_all add: store_record_def)
  show ?thesis
  proof (cases "directory_index q = directory_index slot \<and> page_index q = page_index slot")
    case True
    then show ?thesis using d slot assms(2) slot_indexes [of q slot] by (auto simp: slot_record_def store)
  next
    case False
    then have "q \<noteq> slot" by auto
    moreover have "(case is_directories (store_record slot x s) (directory_index q) of None \<Rightarrow> None
        | Some directory \<Rightarrow> map_option (\<lambda>page. page (slot_index q)) (directory (page_index q))) =
      (case is_directories s (directory_index q) of None \<Rightarrow> None
        | Some directory \<Rightarrow> map_option (\<lambda>page. page (slot_index q)) (directory (page_index q)))"
      using False d by (cases "directory_index q = directory_index slot") (simp_all add: store)
    ultimately show ?thesis unfolding slot_record_def store(2) by simp
  qed
qed

lemma cell_store: "has_page s slot \<Longrightarrow> slot \<noteq> 1 \<Longrightarrow> cell (store_record slot x s) q = (if q = slot then x else cell s q)"
  by (simp add: cell_def slot_record_store)

lemma has_page_store: "has_page s slot \<Longrightarrow> slot \<noteq> 1 \<Longrightarrow> has_page (store_record slot x s) q \<longleftrightarrow> has_page s q"
  by (auto simp: has_page_def slot_record_store)

lemma store_record_frame [simp]:
  "semantic_bucket_load (store_record slot x s) = semantic_bucket_load s" "is_baseline (store_record slot x s) = is_baseline s"
  "is_baseline_slots (store_record slot x s) = is_baseline_slots s" "is_next_slot (store_record slot x s) = is_next_slot s"
  "semantic_head (store_record slot x s) = semantic_head s"
  by (simp_all add: store_record_def semantic_bucket_load_def semantic_head_def fun_eq_iff)

lemma ensure_directory_ok:
  assumes "ensure_directory granted index s = Some s'"
  shows "is_directories s' index \<noteq> None" "slot_record s' = slot_record s" "index < directory_count" "semantic_bucket_load s' = semantic_bucket_load s"
    "is_baseline s' = is_baseline s" "is_baseline_slots s' = is_baseline_slots s" "is_next_slot s' = is_next_slot s"
  using assms
  by (auto simp: ensure_directory_def slot_record_def semantic_bucket_load_def fun_eq_iff split: if_splits option.splits)

lemma ensure_identity_page_ok:
  assumes "ensure_identity_page granted slot s = Some s'"
  shows "has_page s' slot" "cell s' = cell s" "\<And>q. has_page s q \<Longrightarrow> has_page s' q" "slot \<noteq> 1" "slot \<le> slot_mask"
    "semantic_bucket_load s' = semantic_bucket_load s" "is_baseline s' = is_baseline s"
    "is_baseline_slots s' = is_baseline_slots s" "is_next_slot s' = is_next_slot s"
proof -
  have slot: "1 < slot" "slot \<le> slot_mask" using assms by (auto simp: ensure_identity_page_def not_le split: if_splits)
  then have nz: "slot \<noteq> 0" "slot \<noteq> 1" by auto
  obtain u where u: "ensure_directory granted (directory_index slot) s = Some u"
    using assms slot by (auto simp: ensure_identity_page_def split: option.splits if_splits)
  note ok = ensure_directory_ok [OF u]
  obtain directory where d: "is_directories u (directory_index slot) = Some directory" using ok(1) by blast
  have result: "(case directory (page_index slot) of Some page \<Rightarrow> s' = u
      | None \<Rightarrow> is_directories s' = (is_directories u)(directory_index slot \<mapsto> directory(page_index slot \<mapsto> (\<lambda>_. blank_record))) \<and>
          is_root s' = is_root u \<and> semantic_bucket_load s' = semantic_bucket_load u \<and> is_baseline s' = is_baseline u \<and>
          is_baseline_slots s' = is_baseline_slots u \<and> is_next_slot s' = is_next_slot u)"
    using assms slot u d
    by (auto simp: ensure_identity_page_def semantic_bucket_load_def fun_eq_iff split: option.splits if_splits)
  have rec: "slot_record s' q = slot_record s q \<or> slot_record s q = None \<and> slot_record s' q = Some blank_record" for q
  proof (cases "directory (page_index slot)")
    case (Some page)
    then show ?thesis using result ok(2) by simp
  next
    case None
    with result d have "slot_record s' q = slot_record u q \<or> slot_record u q = None \<and> slot_record s' q = Some blank_record"
      by (auto simp: slot_record_def split: option.splits)
    then show ?thesis using ok(2) by simp
  qed
  show "has_page s' slot"
    using result d nz slot(2) ok(3) by (auto simp: has_page_def slot_record_def split: option.splits)
  show "cell s' = cell s"
  proof
    show "cell s' q = cell s q" for q using rec [of q] by (auto simp: cell_def)
  qed
  show "has_page s q \<Longrightarrow> has_page s' q" for q using rec [of q] by (auto simp: has_page_def)
  show "slot \<noteq> 1" "slot \<le> slot_mask" using nz slot by simp_all
  show "semantic_bucket_load s' = semantic_bucket_load s" "is_baseline s' = is_baseline s"
    "is_baseline_slots s' = is_baseline_slots s" "is_next_slot s' = is_next_slot s"
    using result ok by (auto split: option.splits)
qed

text \<open>A reference other than the root is published when the record of its slot has its kind and a name.\<close>

lemma published_record_iff:
  assumes "ref_slot r \<noteq> 1"
  shows "published_record s r \<noteq> None \<longleftrightarrow> ref_valid r \<and> ir_fingerprint (cell s (ref_slot r)) AND slot_mask \<noteq> 0 \<and>
    kind_of_code (drop_bit kind_shift (ir_fingerprint (cell s (ref_slot r)))) = ref_kind r \<and> ir_name (cell s (ref_slot r)) \<noteq> 0"
    "published_record s r \<noteq> None \<Longrightarrow> published_record s r = Some (cell s (ref_slot r))"
  using assms by (auto simp: published_record_def cell_def blank_record_def split: option.splits if_splits)

end
