(* ===== verification/Identity_Canonical.thy ===== *)
theory Identity_Canonical
  imports Identity_Space Canonical_Store
begin

text \<open>
  The Identity Space under interleaved declarations: the invariant that every step of every call keeps, and
  what follows from it - one identity for a parent and a name, conflicts only between kinds, parents with
  smaller slots.
\<close>

section \<open>The invariant\<close>

abbreviation link_of :: "identity_space \<Rightarrow> u32 \<Rightarrow> u32" where
  "link_of s r \<equiv> ir_next (cell s (ref_slot r))"

abbreviation key_of :: "identity_space \<Rightarrow> u32 \<Rightarrow> u32 \<times> u32" where
  "key_of s r \<equiv> (ir_parent (cell s (ref_slot r)), ir_name (cell s (ref_slot r)))"

abbreviation decl_key :: "identity_decl \<Rightarrow> u32 \<times> u32" where
  "decl_key d \<equiv> (de_parent d, de_name d)"

abbreviation bucket_of_key :: "u32 \<times> u32 \<Rightarrow> nat" where
  "bucket_of_key k \<equiv> semantic_bucket_of (fst k) (snd k)"

text \<open>A slot that was drawn from the counter.\<close>

definition drawn :: "identity_space \<Rightarrow> u32 \<Rightarrow> bool" where
  "drawn s slot \<longleftrightarrow> is_baseline_slots s < unat slot \<and> slot < is_next_slot s"

definition slots_ok :: "identity_space \<Rightarrow> bool" where
  "slots_ok s \<longleftrightarrow> unat (is_next_slot s) \<le> 2 ^ 30 \<and> (is_next_slot s \<noteq> 0 \<longrightarrow> is_baseline_slots s < unat (is_next_slot s)) \<and>
     (\<forall>slot. slot \<noteq> 1 \<longrightarrow> cell s slot \<noteq> blank_record \<longrightarrow> drawn s slot) \<and> (is_baseline s = None \<longrightarrow> 1 < is_next_slot s)"

text \<open>A published identity: its record is complete and its parent has a smaller slot.\<close>

definition not_in_baseline :: "identity_space \<Rightarrow> u32 \<times> u32 \<Rightarrow> bool" where
  "not_in_baseline s key \<longleftrightarrow> (\<forall>b k. is_baseline s = Some b \<longrightarrow> k \<noteq> kind_root \<longrightarrow> ib_find b (fst key) (snd key) k = None)"

definition is_node :: "identity_space \<Rightarrow> u32 \<Rightarrow> bool" where
  "is_node s r \<longleftrightarrow> drawn s (ref_slot r) \<and> ref_slot r \<noteq> 1 \<and> has_page s (ref_slot r) \<and> ref_kind r \<noteq> kind_root \<and>
     ir_name (cell s (ref_slot r)) \<noteq> 0 \<and>
     ir_fingerprint (cell s (ref_slot r)) =
       make_ref (semantic_fingerprint (semantic_hash_value (ir_parent (cell s (ref_slot r))) (ir_name (cell s (ref_slot r))))) (ref_kind r) \<and>
     unat (ref_slot (ir_parent (cell s (ref_slot r)))) < unat (ref_slot r) \<and> not_in_baseline s (key_of s r)"

text \<open>A declaration that passed the checks and is not in the baseline.\<close>

definition decl_ok :: "identity_space \<Rightarrow> identity_decl \<Rightarrow> bool" where
  "decl_ok s d \<longleftrightarrow> de_name d \<noteq> 0 \<and> de_kind d \<noteq> kind_root \<and> not_in_baseline s (decl_key d)"

definition parent_below :: "identity_space \<Rightarrow> identity_decl \<Rightarrow> bool" where
  "parent_below s d \<longleftrightarrow> is_next_slot s \<noteq> 0 \<longrightarrow> unat (ref_slot (de_parent d)) < max 2 (unat (is_next_slot s))"

definition candidate :: "identity_space \<Rightarrow> identity_decl \<Rightarrow> u32 \<Rightarrow> bool" where
  "candidate s d r \<longleftrightarrow> decl_ok s d \<and> semantic_bucket_load s (bucket_of_decl d) \<noteq> None \<and> ref_kind r = de_kind d \<and>
     drawn s (ref_slot r) \<and> ref_slot r \<noteq> 1 \<and> has_page s (ref_slot r) \<and>
     cell s (ref_slot r) = candidate_record d (link_of s r) \<and> unat (ref_slot (de_parent d)) < unat (ref_slot r)"

text \<open>The identity of a declaration: published here, or in the baseline.\<close>

definition declared :: "identity_space \<Rightarrow> (nat \<Rightarrow> u32 list) \<Rightarrow> u32 \<times> u32 \<Rightarrow> u32 \<Rightarrow> bool" where
  "declared s nodes key r \<longleftrightarrow>
     r \<in> set (nodes (bucket_of_key key)) \<and> key_of s r = key \<or>
     (\<exists>b. is_baseline s = Some b \<and> ib_find b (fst key) (snd key) (ref_kind r) = Some r \<and> ref_kind r \<noteq> kind_root)"

fun call_inv :: "identity_space \<Rightarrow> (nat \<Rightarrow> u32 list) \<Rightarrow> identity_decl \<Rightarrow> resolve_pc \<Rightarrow> bool" where
  "call_inv s nodes d rp_start \<longleftrightarrow> True"
| "call_inv s nodes d rp_bucket \<longleftrightarrow> decl_ok s d \<and> parent_below s d"
| "call_inv s nodes d rp_slot \<longleftrightarrow> decl_ok s d \<and> parent_below s d \<and> semantic_bucket_load s (bucket_of_decl d) \<noteq> None"
| "call_inv s nodes d (rp_page slot) \<longleftrightarrow> decl_ok s d \<and> semantic_bucket_load s (bucket_of_decl d) \<noteq> None \<and> drawn s slot \<and>
     unat (ref_slot (de_parent d)) < max 2 (unat slot)"
| "call_inv s nodes d (rp_load r) \<longleftrightarrow> candidate s d r"
| "call_inv s nodes d (rp_scan r h) \<longleftrightarrow> candidate s d r \<and> loaded (link_of s) h (nodes (bucket_of_decl d))"
| "call_inv s nodes d (rp_exchange r h) \<longleftrightarrow> candidate s d r \<and> link_of s r = h \<and>
     scanned (link_of s) (key_of s) (decl_key d) h (nodes (bucket_of_decl d))"
| "call_inv s nodes d (rp_done st r) \<longleftrightarrow> st \<noteq> st_initialization_failed \<and>
     (st = st_ok \<longrightarrow> declared s nodes (decl_key d) r \<and> ref_kind r = de_kind d) \<and>
     (st = st_semantic_conflict \<longrightarrow> (\<exists>q. declared s nodes (decl_key d) q \<and> ref_kind q \<noteq> de_kind d))"

fun own :: "resolve_pc \<Rightarrow> u32 option" where
  "own (rp_page slot) = Some slot"
| "own (rp_load r) = Some (ref_slot r)"
| "own (rp_scan r h) = Some (ref_slot r)"
| "own (rp_exchange r h) = Some (ref_slot r)"
| "own _ = None"

definition nodes_ok :: "identity_space \<Rightarrow> (nat \<Rightarrow> u32 list) \<Rightarrow> bool" where
  "nodes_ok s nodes \<longleftrightarrow> (\<forall>b. \<forall>r \<in> set (nodes b). is_node s r)"

definition slots_unique :: "(nat \<Rightarrow> u32 list) \<Rightarrow> bool" where
  "slots_unique nodes \<longleftrightarrow> (\<forall>b r c q. r \<in> set (nodes b) \<longrightarrow> q \<in> set (nodes c) \<longrightarrow> ref_slot r = ref_slot q \<longrightarrow> r = q)"

definition baseline_fits :: "identity_space \<Rightarrow> bool" where
  "baseline_fits s \<longleftrightarrow> (\<forall>b. is_baseline s = Some b \<longrightarrow> identity_baseline_ok b \<and> is_baseline_slots s = ib_slot_count b)"

definition calls_ok :: "identity_space \<Rightarrow> (nat \<Rightarrow> u32 list) \<Rightarrow> (identity_decl \<times> resolve_pc) list \<Rightarrow> bool" where
  "calls_ok s nodes calls \<longleftrightarrow> (\<forall>i < length calls. call_inv s nodes (fst (calls ! i)) (snd (calls ! i)))"

definition owners_ok :: "(nat \<Rightarrow> u32 list) \<Rightarrow> (identity_decl \<times> resolve_pc) list \<Rightarrow> bool" where
  "owners_ok nodes calls \<longleftrightarrow>
     (\<forall>i < length calls. \<forall>x. own (snd (calls ! i)) = Some x \<longrightarrow> (\<forall>b. x \<notin> ref_slot ` set (nodes b)) \<and>
        (\<forall>j < length calls. own (snd (calls ! j)) = Some x \<longrightarrow> j = i))"

definition identity_inv :: "identity_space \<Rightarrow> (nat \<Rightarrow> u32 list) \<Rightarrow> (identity_decl \<times> resolve_pc) list \<Rightarrow> bool" where
  "identity_inv s nodes calls \<longleftrightarrow>
     index_ok (semantic_head s) (link_of s) (key_of s) bucket_of_key nodes \<and> nodes_ok s nodes \<and> slots_ok s \<and>
     baseline_fits s \<and> slots_unique nodes \<and> calls_ok s nodes calls \<and> owners_ok nodes calls"

lemma identity_inv_facts:
  assumes "identity_inv s nodes calls"
  shows "index_ok (semantic_head s) (link_of s) (key_of s) bucket_of_key nodes" "r \<in> set (nodes b) \<Longrightarrow> is_node s r"
    "slots_ok s" "is_baseline s = Some bl \<Longrightarrow> identity_baseline_ok bl \<and> is_baseline_slots s = ib_slot_count bl"
    "i < length calls \<Longrightarrow> calls ! i = (d, pc) \<Longrightarrow> call_inv s nodes d pc"
    "i < length calls \<Longrightarrow> own (snd (calls ! i)) = Some x \<Longrightarrow> x \<notin> ref_slot ` set (nodes b)"
    "i < length calls \<Longrightarrow> own (snd (calls ! i)) = Some x \<Longrightarrow> j < length calls \<Longrightarrow> own (snd (calls ! j)) = Some x \<Longrightarrow> j = i"
    "r \<in> set (nodes b) \<Longrightarrow> q \<in> set (nodes c) \<Longrightarrow> ref_slot r = ref_slot q \<Longrightarrow> r = q"
proof -
  have parts: "nodes_ok s nodes" "baseline_fits s" "slots_unique nodes" "calls_ok s nodes calls" "owners_ok nodes calls"
    using assms by (simp_all add: identity_inv_def)
  show "index_ok (semantic_head s) (link_of s) (key_of s) bucket_of_key nodes" "slots_ok s"
    using assms by (simp_all add: identity_inv_def)
  show "r \<in> set (nodes b) \<Longrightarrow> q \<in> set (nodes c) \<Longrightarrow> ref_slot r = ref_slot q \<Longrightarrow> r = q"
    using parts(3) unfolding slots_unique_def by blast
  show "i < length calls \<Longrightarrow> calls ! i = (d, pc) \<Longrightarrow> call_inv s nodes d pc" using parts(4) unfolding calls_ok_def by fastforce
  show "i < length calls \<Longrightarrow> own (snd (calls ! i)) = Some x \<Longrightarrow> x \<notin> ref_slot ` set (nodes b)"
    using parts(5) unfolding owners_ok_def by blast
  show "i < length calls \<Longrightarrow> own (snd (calls ! i)) = Some x \<Longrightarrow> j < length calls \<Longrightarrow> own (snd (calls ! j)) = Some x \<Longrightarrow> j = i"
    using parts(5) unfolding owners_ok_def by blast
  show "r \<in> set (nodes b) \<Longrightarrow> is_node s r" using parts(1) unfolding nodes_ok_def by blast
  show "is_baseline s = Some bl \<Longrightarrow> identity_baseline_ok bl \<and> is_baseline_slots s = ib_slot_count bl"
    using parts(2) unfolding baseline_fits_def by blast
qed

lemma own_not_node:
  assumes "identity_inv s nodes calls" "i < length calls" "own (snd (calls ! i)) = Some x" "r \<in> set (nodes b)"
  shows "ref_slot r \<noteq> x"
  using identity_inv_facts(6) [OF assms(1-3), of b] assms(4) by blast

lemma own_drawn: "call_inv s nodes d pc \<Longrightarrow> own pc = Some x \<Longrightarrow> drawn s x"
  by (cases pc) (auto simp: candidate_def)

text \<open>A step of one call touches at most the record of its own slot \<open>x\<close>, which it may put at the front of a chain.\<close>

definition frame :: "identity_space \<Rightarrow> (nat \<Rightarrow> u32 list) \<Rightarrow> u32 \<Rightarrow> identity_space \<Rightarrow> (nat \<Rightarrow> u32 list) \<Rightarrow> bool" where
  "frame s nodes x s' nodes' \<longleftrightarrow>
     is_baseline s' = is_baseline s \<and> is_baseline_slots s' = is_baseline_slots s \<and>
     (is_next_slot s \<noteq> 0 \<longrightarrow> is_next_slot s' \<noteq> 0 \<and> is_next_slot s \<le> is_next_slot s') \<and> (is_next_slot s = 0 \<longrightarrow> is_next_slot s' = 0) \<and>
     (\<forall>b. semantic_bucket_load s b \<noteq> None \<longrightarrow> semantic_bucket_load s' b \<noteq> None) \<and>
     (\<forall>y. y \<noteq> x \<longrightarrow> cell s' y = cell s y) \<and> (\<forall>y. has_page s y \<longrightarrow> has_page s' y) \<and>
     (\<forall>b. nodes' b = nodes b \<or> (\<exists>r. ref_slot r = x \<and> nodes' b = r # nodes b))"

lemma id_frameD:
  assumes "frame s nodes x s' nodes'"
  shows "is_baseline s' = is_baseline s" "is_baseline_slots s' = is_baseline_slots s"
    "drawn s y \<Longrightarrow> drawn s' y" "parent_below s d \<Longrightarrow> parent_below s' d"
    "semantic_bucket_load s b \<noteq> None \<Longrightarrow> semantic_bucket_load s' b \<noteq> None" "y \<noteq> x \<Longrightarrow> cell s' y = cell s y"
    "has_page s y \<Longrightarrow> has_page s' y" "nodes' b = nodes b \<or> (\<exists>r. ref_slot r = x \<and> nodes' b = r # nodes b)"
    "decl_ok s' d = decl_ok s d"
proof -
  have grow: "is_next_slot s \<noteq> 0 \<Longrightarrow> is_next_slot s' \<noteq> 0 \<and> is_next_slot s \<le> is_next_slot s'"
    "is_next_slot s = 0 \<Longrightarrow> is_next_slot s' = 0" "is_baseline_slots s' = is_baseline_slots s"
    using assms unfolding frame_def by blast+
  show "drawn s y \<Longrightarrow> drawn s' y"
    using grow unfolding drawn_def by (metis less_le_trans word_not_simps(1))
  show "parent_below s d \<Longrightarrow> parent_below s' d"
    using grow unfolding parent_below_def word_le_nat_alt by (cases "is_next_slot s = 0") auto
qed (use assms in \<open>unfold frame_def, (blast | simp add: decl_ok_def not_in_baseline_def)+\<close>)

lemma id_frame_candidate:
  assumes "frame s nodes x s' nodes'" "candidate s d r" "ref_slot r \<noteq> x"
  shows "candidate s' d r" "link_of s' r = link_of s r"
  using assms(2,3) id_frameD [OF assms(1)] by (simp_all add: candidate_def)

lemma id_frame_call:
  assumes fr: "frame s nodes x s' nodes'" and c: "call_inv s nodes d pc" "own pc \<noteq> Some x"
    and nodes: "\<And>b r. r \<in> set (nodes b) \<Longrightarrow> ref_slot r \<noteq> x"
  shows "call_inv s' nodes' d pc"
proof -
  have same: "cell s' (ref_slot r) = cell s (ref_slot r)" if "r \<in> set (nodes b)" for r b
    using nodes [OF that] id_frameD(6) [OF fr] by blast
  have grown: "nodes' b = nodes b \<or> (\<exists>r. nodes' b = r # nodes b)" for b using id_frameD(8) [OF fr, of b] by blast
  have load: "loaded (link_of s') h (nodes' b)" if "loaded (link_of s) h (nodes b)" for h b
    using loaded_grow [OF that, where link' = "link_of s'"] same grown [of b] by auto
  have scan: "scanned (link_of s') (key_of s') k h (nodes' b)" if "scanned (link_of s) (key_of s) k h (nodes b)" for k h b
    using scanned_grow [OF that, where link' = "link_of s'" and key' = "key_of s'"] same grown [of b] by auto
  have found: "declared s' nodes' k r" if "declared s nodes k r" for k r
    using that same [of r "bucket_of_key k"] grown [of "bucket_of_key k"] id_frameD(1) [OF fr]
    by (auto simp: declared_def)
  show ?thesis
  proof (cases pc)
    case (rp_done st r)
    then show ?thesis using c(1) found by auto
  qed (use c load scan id_frame_candidate [OF fr] id_frameD(3-5,9) [OF fr] in auto)
qed

lemma frame_node:
  assumes "frame s nodes x s' nodes'" "is_node s r" "ref_slot r \<noteq> x"
  shows "is_node s' r"
  using assms(2,3) id_frameD(1,3,6,7) [OF assms(1)] by (simp add: is_node_def not_in_baseline_def)

lemma identity_inv_move:
  assumes inv: "identity_inv s nodes calls" and i: "i < length calls" "calls ! i = (d, pc)"
    and fr: "frame s nodes x s' nodes'" and x: "own pc = Some x \<or> own pc = None \<and> \<not> drawn s x"
    and index: "index_ok (semantic_head s') (link_of s') (key_of s') bucket_of_key nodes'"
    and new: "\<And>b r. nodes' b = r # nodes b \<Longrightarrow> ref_slot r = x \<Longrightarrow> is_node s' r \<and> (\<forall>c. c \<noteq> b \<longrightarrow> nodes' c = nodes c)"
    and slots: "slots_ok s'"
    and call: "call_inv s' nodes' d pc'" and owned: "\<And>y. own pc' = Some y \<Longrightarrow> y = x \<and> nodes' = nodes"
  shows "identity_inv s' nodes' (calls[i := (d, pc')])"
proof -
  note facts = identity_inv_facts [OF inv]
  let ?calls = "calls[i := (d, pc')]"
  have range: "ref_slot r \<noteq> x" if "r \<in> set (nodes b)" for b r
    using facts(2) [OF that] facts(6) [OF i(1), of x b] that x i(2) by (auto simp: is_node_def)
  have others: "own (snd (calls ! j)) \<noteq> Some x" if "j < length calls" "j \<noteq> i" for j
    using x facts(7) [OF i(1), of x j] i(2) that own_drawn facts(5) [OF that(1)]
    by (metis prod.collapse snd_conv)
  have split: "r \<in> set (nodes b) \<or> ref_slot r = x \<and> is_node s' r \<and> nodes' b = r # nodes b" if "r \<in> set (nodes' b)" for b r
    using that id_frameD(8) [OF fr, of b] new [of b] by auto
  have "nodes_ok s' nodes'" unfolding nodes_ok_def using split range facts(2) frame_node [OF fr] by blast
  moreover have "slots_unique nodes'"
    unfolding slots_unique_def
  proof (intro allI impI)
    fix b r c q assume r: "r \<in> set (nodes' b)" "q \<in> set (nodes' c)" "ref_slot r = ref_slot q"
    consider "r \<in> set (nodes b)" "q \<in> set (nodes c)" | "nodes' b = r # nodes b" "nodes' c = q # nodes c" "ref_slot r = x"
      using split [OF r(1)] split [OF r(2)] range r(3) by metis
    then show "r = q"
    proof cases
      case 2
      have "b = c"
      proof (rule ccontr)
        assume "b \<noteq> c"
        then have "nodes' c = nodes c" using new [OF 2(1,3)] by simp
        then show False using 2(2) by simp
      qed
      then show ?thesis using 2 by simp
    qed (use facts(8) r(3) in blast)
  qed
  moreover have "calls_ok s' nodes' ?calls"
    unfolding calls_ok_def
  proof (intro allI impI)
    fix j assume "j < length ?calls"
    then show "call_inv s' nodes' (fst (?calls ! j)) (snd (?calls ! j))"
      using call id_frame_call [OF fr, of "fst (calls ! j)" "snd (calls ! j)"] facts(5) [of j] others range i(1)
      by (cases "j = i") auto
  qed
  moreover have "owners_ok nodes' ?calls"
    unfolding owners_ok_def
  proof (intro allI impI)
    fix j y assume j: "j < length ?calls" "own (snd (?calls ! j)) = Some y"
    show "(\<forall>b. y \<notin> ref_slot ` set (nodes' b)) \<and> (\<forall>k < length ?calls. own (snd (?calls ! k)) = Some y \<longrightarrow> k = j)"
    proof (cases "j = i")
      case True
      then have "y = x" "nodes' = nodes" using j owned i(1) by auto
      then show ?thesis using others range True i(1) by (auto simp: nth_list_update split: if_splits)
    next
      case False
      then have y: "own (snd (calls ! j)) = Some y" "y \<noteq> x" using j others by auto
      have none: "y \<notin> ref_slot ` set (nodes' b)" for b
        using facts(6) [OF _ y(1), of b] j(1) y(2) id_frameD(8) [OF fr, of b] by auto
      have "k = j" if k: "k < length ?calls" "own (snd (?calls ! k)) = Some y" for k
      proof (cases "k = i")
        case True
        then show ?thesis using k owned y(2) i(1) by auto
      next
        case False
        then show ?thesis using k facts(7) [OF _ y(1), of k] j(1) by simp
      qed
      with none show ?thesis by blast
    qed
  qed
  moreover have "baseline_fits s'" using facts(4) id_frameD(1,2) [OF fr] by (simp add: baseline_fits_def)
  ultimately show ?thesis using index slots by (simp add: identity_inv_def)
qed

section \<open>Walks\<close>

lemma id_nodes_short:
  assumes "identity_inv s nodes calls"
  shows "length (nodes b) < Suc (unat (is_next_slot s))"
proof -
  note facts = identity_inv_facts [OF assms]
  let ?f = "\<lambda>r. unat (ref_slot r)"
  have "distinct (nodes b)" using path_distinct index_okD(1) [OF facts(1)] by blast
  moreover have "inj_on ?f (set (nodes b))" unfolding inj_on_def using facts(8) by (metis word_unat_eq_iff)
  ultimately have "length (nodes b) = card (?f ` set (nodes b))" by (simp add: card_image distinct_card)
  also have "\<dots> \<le> card {..< unat (is_next_slot s)}"
    using facts(2) by (intro card_mono) (auto simp: is_node_def drawn_def word_less_nat_alt)
  finally show ?thesis by simp
qed

lemma node_published:
  assumes "is_node s r"
  shows "ref_valid r" "published_record s r = Some (cell s (ref_slot r))"
    "item_matches s p n (semantic_fingerprint (semantic_hash_value p n)) r \<longleftrightarrow> key_of s r = (p, n)"
proof -
  let ?f = "semantic_fingerprint (semantic_hash_value (ir_parent (cell s (ref_slot r))) (ir_name (cell s (ref_slot r))))"
  have fp: "ir_fingerprint (cell s (ref_slot r)) = make_ref ?f (ref_kind r)" using assms by (simp add: is_node_def)
  have slot: "ref_slot (ir_fingerprint (cell s (ref_slot r))) = ?f" "ref_kind (ir_fingerprint (cell s (ref_slot r))) = ref_kind r"
    unfolding fp by simp_all
  show valid: "ref_valid r" using assms by (auto simp: is_node_def drawn_def ref_valid_def)
  have "ref_slot r \<noteq> 1" "ir_name (cell s (ref_slot r)) \<noteq> 0" using assms by (simp_all add: is_node_def)
  then show "published_record s r = Some (cell s (ref_slot r))"
    using published_record_iff [of r s] slot valid by (simp add: ref_slot_def ref_kind_def)
  show "item_matches s p n (semantic_fingerprint (semantic_hash_value p n)) r \<longleftrightarrow> key_of s r = (p, n)"
    using slot(1) by (auto simp: item_matches_def item_at_cell simp flip: ref_slot_def)
qed

lemma walk_items_loaded:
  assumes "identity_inv s nodes calls" "loaded (link_of s) h (nodes (semantic_bucket_of p n))"
  defines "w \<equiv> walk_items s p n (semantic_fingerprint (semantic_hash_value p n)) h"
  shows "w = cr_absent \<and> scanned (link_of s) (key_of s) (p, n) h (nodes (semantic_bucket_of p n)) \<or>
    (\<exists>r \<in> set (nodes (semantic_bucket_of p n)). w = cr_found r \<and> key_of s r = (p, n))"
  unfolding w_def walk_items_def item_at_cell
proof (rule scan_loaded [OF assms(2)])
  show "length (nodes (semantic_bucket_of p n)) < Suc (unat (is_next_slot s))" by (rule id_nodes_short [OF assms(1)])
  fix r assume "r \<in> set (nodes (semantic_bucket_of p n))"
  note node = node_published [OF identity_inv_facts(2) [OF assms(1) this]]
  show "published_record s r \<noteq> None" using node(2) by simp
  show "item_matches s p n (semantic_fingerprint (semantic_hash_value p n)) r \<longleftrightarrow> key_of s r = (p, n)" by (rule node(3))
qed

text \<open>A published identity is found, and missed else is.\<close>

lemma find_identity_cases:
  fixes p n
  defines "hash \<equiv> semantic_hash_value p n" and "b \<equiv> semantic_bucket_of p n"
  assumes inv: "identity_inv s nodes calls"
  obtains (local) r where "r \<in> set (nodes b)" "key_of s r = (p, n)" "ref_valid r"
      "find_identity_record s p n hash (semantic_fingerprint hash) = r"
  | (absent) "(p, n) \<notin> key_of s ` set (nodes b)" "find_identity_record s p n hash (semantic_fingerprint hash) = 0"
proof -
  note facts = identity_inv_facts [OF inv]
  have path: "path (link_of s) (semantic_head s b) (nodes b)" by (rule index_okD(1) [OF facts(1)])
  have b: "unat hash mod semantic_bucket_count = b" by (simp add: hash_def b_def semantic_bucket_of_def)
  show thesis
  proof (cases "semantic_bucket_load s b")
    case None
    then have "nodes b = []" using path by (cases "nodes b") (simp_all add: semantic_head_def)
    with None b show thesis by (intro absent) (simp_all add: find_identity_record_def)
  next
    case (Some h)
    then have h: "path (link_of s) h (nodes b)" using path by (simp add: semantic_head_def)
    have "loaded (link_of s) h (nodes (semantic_bucket_of p n))" using loaded_head [OF h] by (simp add: b_def)
    from walk_items_loaded [OF inv this] show thesis
    proof
      assume w: "walk_items s p n (semantic_fingerprint (semantic_hash_value p n)) h = cr_absent \<and>
        scanned (link_of s) (key_of s) (p, n) h (nodes (semantic_bucket_of p n))"
      then have "scanned (link_of s) (key_of s) (p, n) h (nodes b)" by (simp add: b_def)
      note scanned_head [OF this h]
      with w Some b show thesis by (intro absent) (simp_all add: find_identity_record_def hash_def)
    next
      assume "\<exists>r \<in> set (nodes (semantic_bucket_of p n)).
        walk_items s p n (semantic_fingerprint (semantic_hash_value p n)) h = cr_found r \<and> key_of s r = (p, n)"
      then obtain r where r: "r \<in> set (nodes b)" "key_of s r = (p, n)"
        "walk_items s p n (semantic_fingerprint hash) h = cr_found r" by (auto simp: b_def hash_def)
      moreover have "ref_valid r" using node_published(1) facts(2) r(1) by blast
      ultimately show thesis using Some b by (intro local [of r]) (simp_all add: find_identity_record_def)
    qed
  qed
qed

section \<open>Every step keeps the invariant\<close>

lemma slots_frame:
  assumes "slots_ok s" "cell s' = cell s" "is_baseline s' = is_baseline s" "is_baseline_slots s' = is_baseline_slots s"
    "is_next_slot s' = is_next_slot s"
  shows "slots_ok s'"
  using assms by (simp add: slots_ok_def drawn_def)

lemma identity_inv_quiet:
  assumes inv: "identity_inv s nodes calls" and i: "i < length calls" "calls ! i = (d, pc)"
    and same: "cell s' = cell s" "semantic_head s' = semantic_head s" "\<And>y. has_page s y \<Longrightarrow> has_page s' y"
      "is_baseline s' = is_baseline s" "is_baseline_slots s' = is_baseline_slots s" "is_next_slot s' = is_next_slot s"
      "\<And>b. semantic_bucket_load s b \<noteq> None \<Longrightarrow> semantic_bucket_load s' b \<noteq> None"
    and call: "call_inv s' nodes d pc'" and own: "own pc' = None \<or> own pc' = own pc"
  shows "identity_inv s' nodes (calls[i := (d, pc')])"
proof -
  note facts = identity_inv_facts [OF inv]
  define x where "x = (case own pc of None \<Rightarrow> 0 | Some x \<Rightarrow> x)"
  show ?thesis
  proof (rule identity_inv_move [OF inv i])
    show "frame s nodes x s' nodes" using same by (simp add: frame_def)
    show "own pc = Some x \<or> own pc = None \<and> \<not> drawn s x" by (auto simp: x_def drawn_def split: option.splits)
    show "index_ok (semantic_head s') (link_of s') (key_of s') bucket_of_key nodes" using facts(1) same(1,2) by simp
    show "slots_ok s'" using slots_frame [OF facts(3)] same by simp
    show "y = x \<and> nodes = nodes" if "own pc' = Some y" for y
    proof -
      have "own pc = Some y" using that own by (metis option.distinct(1))
      then show ?thesis by (simp add: x_def)
    qed
  qed (use call in simp_all)
qed

lemma identity_inv_slot:
  assumes inv: "identity_inv s nodes calls" and i: "i < length calls" "calls ! i = (d, rp_slot)"
    and slot: "is_next_slot s \<noteq> 0" "is_next_slot s \<le> slot_mask"
  defines "s' \<equiv> s\<lparr>is_next_slot := is_next_slot s + 1\<rparr>"
  shows "identity_inv s' nodes (calls[i := (d, rp_page (is_next_slot s))])"
proof -
  note facts = identity_inv_facts [OF inv]
  have up: "unat (is_next_slot s + 1) = unat (is_next_slot s) + 1" "unat (is_next_slot s) < 2 ^ 30"
    using slot(2) by (auto simp: slot_mask_value word_le_nat_alt unat_word_ariths)
  have same: "cell s' = cell s" "semantic_head s' = semantic_head s" "has_page s' = has_page s" "is_baseline s' = is_baseline s"
    "is_baseline_slots s' = is_baseline_slots s" "semantic_bucket_load s' = semantic_bucket_load s"
    by (simp_all add: s'_def cell_def has_page_def slot_record_def semantic_head_def semantic_bucket_load_def fun_eq_iff)
  have drawn: "drawn s' y \<longleftrightarrow> drawn s y \<or> y = is_next_slot s" for y
    using facts(3) slot(1) up(1) unfolding drawn_def slots_ok_def same(5)
    by (auto simp: s'_def word_less_nat_alt word_unat_eq_iff)
  have pos: "is_next_slot s' \<noteq> 0" "is_next_slot s < is_next_slot s'" using up by (auto simp: s'_def word_less_nat_alt)
  show ?thesis
  proof (rule identity_inv_move [OF inv i, of "is_next_slot s"])
    show "frame s nodes (is_next_slot s) s' nodes" using same pos slot(1) by (simp add: frame_def)
    show "own rp_slot = Some (is_next_slot s) \<or> own rp_slot = None \<and> \<not> drawn s (is_next_slot s)" by (simp add: drawn_def)
    show "index_ok (semantic_head s') (link_of s') (key_of s') bucket_of_key nodes" using facts(1) same by simp
    show "slots_ok s'"
      using facts(3) slot(1) up pos unfolding slots_ok_def drawn same(1,4,5) by (auto simp: s'_def word_less_nat_alt)
    show "call_inv s' nodes d (rp_page (is_next_slot s))"
      using facts(5) [OF i] drawn same slot(1) by (simp add: decl_ok_def not_in_baseline_def parent_below_def)
  qed auto
qed

lemma identity_inv_own_cell:
  assumes inv: "identity_inv s nodes calls" and i: "i < length calls" "calls ! i = (d, pc)" "own pc = Some x" "x \<noteq> 1"
    and u: "cell u = cell s" "has_page u x" "\<And>q. has_page s q \<Longrightarrow> has_page u q" "semantic_bucket_load u = semantic_bucket_load s"
      "is_baseline u = is_baseline s" "is_baseline_slots u = is_baseline_slots s" "is_next_slot u = is_next_slot s"
    and call: "call_inv (store_record x item u) nodes d pc'" and own: "own pc' = None \<or> own pc' = Some x"
  shows "identity_inv (store_record x item u) nodes (calls[i := (d, pc')])"
proof -
  note facts = identity_inv_facts [OF inv]
  let ?s = "store_record x item u"
  have cell: "cell ?s q = (if q = x then item else cell s q)" for q using cell_store [OF u(2) i(4)] u(1) by simp
  have head: "semantic_head ?s = semantic_head s" using u(4) by (simp add: semantic_head_def fun_eq_iff)
  have pages: "has_page s q \<Longrightarrow> has_page ?s q" for q using has_page_store [OF u(2) i(4)] u(3) by simp
  have none: "ref_slot r \<noteq> x" if "r \<in> set (nodes b)" for r b 
    using own_not_node [OF inv i(1), of x r b] i(2,3) that by simp
  have "drawn s x" using own_drawn [OF facts(5) [OF i(1,2)] i(3)] .
  then have slots: "slots_ok ?s" using facts(3) cell u(5-7) by (auto simp: slots_ok_def drawn_def)
  show ?thesis
  proof (rule identity_inv_move [OF inv i(1,2), of x])
    show "frame s nodes x ?s nodes" using cell pages u(4-7) by (simp add: frame_def)
    show "index_ok (semantic_head ?s) (link_of ?s) (key_of ?s) bucket_of_key nodes"
      using none cell head by (intro index_frame [OF facts(1)]) auto
  qed (use i(3) slots call own in auto)
qed

lemma semantic_load_count [simp]: "semantic_bucket_load (s\<lparr>is_identity_count := n\<rparr>) = semantic_bucket_load s"
  by (simp add: semantic_bucket_load_def fun_eq_iff)

lemma identity_inv_exchange:
  assumes inv: "identity_inv s nodes calls" and i: "i < length calls" "calls ! i = (d, rp_exchange r h)"
    and head: "semantic_head s (bucket_of_decl d) = h"
  defines "s' \<equiv> (semantic_bucket_store (bucket_of_decl d) r s)\<lparr>is_identity_count := is_identity_count s + 1\<rparr>"
    and "nodes' \<equiv> nodes(bucket_of_decl d := r # nodes (bucket_of_decl d))"
  shows "identity_inv s' nodes' (calls[i := (d, rp_done st_ok r)])"
proof -
  note facts = identity_inv_facts [OF inv]
  let ?b = "bucket_of_decl d" and ?x = "ref_slot r"
  have call: "candidate s d r" "link_of s r = h" "scanned (link_of s) (key_of s) (decl_key d) h (nodes ?b)"
    using facts(5) [OF i] by simp_all
  obtain link where r: "decl_ok s d" "semantic_bucket_load s ?b \<noteq> None" "cell s ?x = candidate_record d link"
    "drawn s ?x" "?x \<noteq> 1" "has_page s ?x" "ref_kind r = de_kind d" "unat (ref_slot (de_parent d)) < unat ?x"
    using call(1) unfolding candidate_def by blast
  have load: "semantic_bucket_load s' c = (if c = ?b then Some r else semantic_bucket_load s c)" for c
    using semantic_load_store [OF r(2), of r c] by (simp add: s'_def)
  then have heads: "semantic_head s' = (semantic_head s)(?b := r)" by (auto simp: semantic_head_def)
  have dirs: "is_directories s' = is_directories s" "is_root s' = is_root s" by (simp_all add: s'_def)
  have same: "cell s' = cell s" "has_page s' = has_page s" "is_baseline s' = is_baseline s"
    "is_baseline_slots s' = is_baseline_slots s" "is_next_slot s' = is_next_slot s"
    using slot_record_cong [OF dirs] by (simp_all add: cell_def has_page_def fun_eq_iff s'_def)
  have key: "key_of s r = decl_key d" unfolding r(3) by (simp add: candidate_record_def)
  have none: "ref_slot q \<noteq> ?x" if "q \<in> set (nodes c)" for q c 
    using own_not_node [OF inv i(1), of ?x q c] i(2) that by simp
  have path: "path (link_of s) h (nodes ?b)" using index_okD(1) [OF facts(1), of ?b] head by simp
  then have new: "decl_key d \<notin> key_of s ` set (nodes ?b)" using call(3) by (rule scanned_head [rotated])
  have node: "is_node s' r"
    using r unfolding is_node_def same drawn_def 
    by (simp add: candidate_record_def packed_fingerprint_eq decl_ok_def not_in_baseline_def same(3))
  show ?thesis
  proof (rule identity_inv_move [OF inv i, of ?x])
    show "frame s nodes ?x s' nodes'" using same load by (auto simp: frame_def nodes'_def)
    have "r \<noteq> 0" using r(4) by (auto simp: drawn_def ref_slot_def)
    moreover have "r \<notin> set (nodes c)" for c using none by blast
    ultimately show "index_ok (semantic_head s') (link_of s') (key_of s') bucket_of_key nodes'"
      using index_link [OF facts(1), of r] new key call(2) head by (simp add: heads same nodes'_def)
    show "slots_ok s'" by (rule slots_frame [OF facts(3) same(1,3,4,5)])
    show "is_node s' q \<and> (\<forall>c. c \<noteq> b \<longrightarrow> nodes' c = nodes c)" if "nodes' b = q # nodes b" for b q
      using that node by (auto simp: nodes'_def split: if_splits)
    show "call_inv s' nodes' d (rp_done st_ok r)"
      using r(7) key by (simp add: declared_def same nodes'_def)
  qed simp_all
qed

lemma identity_inv_begin:
  assumes "identity_inv s nodes calls"
  shows "identity_inv s nodes (calls @ [(d, rp_start)])"
proof -
  let ?calls = "calls @ [(d, rp_start)]"
  have split: "j < length calls \<and> ?calls ! j = calls ! j \<or> j = length calls \<and> ?calls ! j = (d, rp_start)"
    if "j < length ?calls" for j using that by (auto simp: nth_append less_Suc_eq)
  note facts = identity_inv_facts [OF assms]
  have "calls_ok s nodes ?calls" unfolding calls_ok_def
  proof (intro allI impI)
    fix j assume "j < length ?calls"
    from split [OF this] show "call_inv s nodes (fst (?calls ! j)) (snd (?calls ! j))" using facts(5) [of j] by auto
  qed
  moreover have "owners_ok nodes ?calls" unfolding owners_ok_def
  proof (intro allI impI)
    fix j x assume j: "j < length ?calls" "own (snd (?calls ! j)) = Some x"
    have o: "j < length calls" "own (snd (calls ! j)) = Some x" using split [OF j(1)] j(2) by auto
    have "k = j" if "k < length ?calls" "own (snd (?calls ! k)) = Some x" for k
      using split [OF that(1)] that(2) facts(7) [OF o, of k] by auto
    then show "(\<forall>b. x \<notin> ref_slot ` set (nodes b)) \<and> (\<forall>k < length ?calls. own (snd (?calls ! k)) = Some x \<longrightarrow> k = j)"
      using facts(6) [OF o] by blast
  qed
  ultimately show ?thesis using assms by (simp add: identity_inv_def)
qed

lemma valid_parent_below:
  assumes inv: "identity_inv s nodes calls" and p: "identity_valid s (de_parent d)"
  shows "parent_below s d"
proof -
  note facts = identity_inv_facts [OF inv]
  let ?x = "ref_slot (de_parent d)"
  consider (base) "unat ?x \<le> is_baseline_slots s" | (published) "published_record s (de_parent d) \<noteq> None"
    using p by (auto simp: identity_valid_def split: if_splits option.splits)
  then show ?thesis
  proof cases
    case base
    then show ?thesis using facts(3) by (auto simp: parent_below_def slots_ok_def)
  next
    case published
    show ?thesis
    proof (cases "?x = 1")
      case False
      then have "cell s ?x \<noteq> blank_record" using published published_record_iff(1) [OF False, of s] by (auto simp: blank_record_def)
      then have "drawn s ?x" using facts(3) False by (simp add: slots_ok_def)
      then show ?thesis by (auto simp: parent_below_def drawn_def word_less_nat_alt)
    qed (simp add: parent_below_def less_max_iff_disj)
  qed
qed

lemma baseline_lookup_cases:
  assumes "identity_baseline_ok b"
  obtains (found) r where "baseline_lookup b d = rp_done st_ok r" "ib_find b (de_parent d) (de_name d) (de_kind d) = Some r"
  | (conflict) q where "baseline_lookup b d = rp_done st_semantic_conflict 0"
      "ib_find b (de_parent d) (de_name d) (ref_kind q) = Some q" "ref_kind q \<noteq> de_kind d" "ref_kind q \<noteq> kind_root"
  | (absent) "baseline_lookup b d = rp_bucket" "\<And>k. k \<noteq> kind_root \<Longrightarrow> ib_find b (de_parent d) (de_name d) k = None"
proof (cases "ib_find b (de_parent d) (de_name d) (de_kind d)")
  case (Some r)
  then show thesis by (intro found) (simp_all add: baseline_lookup_def)
next
  case None
  note none = this
  let ?other = "\<lambda>k. k \<noteq> de_kind d \<and> ib_find b (de_parent d) (de_name d) k \<noteq> None"
  show thesis
  proof (cases "list_ex ?other [kind_namespace, kind_type, kind_object]")
    case True
    then obtain k q where k: "k \<noteq> de_kind d" "k \<noteq> kind_root" "ib_find b (de_parent d) (de_name d) k = Some q"
      unfolding list_ex_iff by auto
    then have "ref_kind q = k" using assms by (simp add: identity_baseline_ok_def)
    with k True none show thesis by (intro conflict [of q]) (simp_all add: baseline_lookup_def)
  next
    case False
    have "ib_find b (de_parent d) (de_name d) k = None" if "k \<noteq> kind_root" for k
      using False none that by (cases k; cases "k = de_kind d") auto
    with False none show thesis by (intro absent) (simp_all add: baseline_lookup_def)
  qed
qed

lemma identity_inv_start:
  assumes inv: "identity_inv s nodes calls" and i: "i < length calls" "calls ! i = (d, rp_start)"
    and step: "resolve_step granted d rp_start s = (pc', s')"
  shows "identity_inv s' nodes (calls[i := (d, pc')])"
proof -
  note facts = identity_inv_facts [OF inv]
  have s': "s' = s" using step by (auto simp: Let_def split: if_splits option.splits)
  have "call_inv s nodes d pc' \<and> own pc' = None"
  proof (cases "\<not> ref_valid (de_parent d) \<or> de_name d = 0 \<or> de_kind d = kind_root \<or> \<not> identity_valid s (de_parent d)")
    case True
    then show ?thesis using step by auto
  next
    case False
    then have d: "de_name d \<noteq> 0" "de_kind d \<noteq> kind_root" "parent_below s d" using valid_parent_below [OF inv] by simp_all
    let ?find = "find_identity_record s (de_parent d) (de_name d) (semantic_hash_value (de_parent d) (de_name d)) (fingerprint_of d)"
    from inv show ?thesis
    proof (cases rule: find_identity_cases [of s nodes calls "de_parent d" "de_name d"])
      case (local r)
      then have "declared s nodes (decl_key d) r" by (simp add: declared_def)
      then show ?thesis using False step local(3,4) by (auto simp: Let_def split: if_splits)
    next
      case absent
      then have "?find = 0" "\<not> ref_valid 0" by (simp_all add: ref_valid_def ref_slot_def)
      note missed = this False step
      show ?thesis
      proof (cases "is_baseline s")
        case None
        then show ?thesis using missed d by (simp add: Let_def decl_ok_def not_in_baseline_def)
      next
        case (Some b)
        then have pc': "pc' = baseline_lookup b d" using missed by (simp add: Let_def)
        have "identity_baseline_ok b" using facts(4) Some by blast
        then show ?thesis
        proof (cases rule: baseline_lookup_cases [where d = d])
          case (found r)
          moreover have "ref_kind r = de_kind d" using found(2) \<open>identity_baseline_ok b\<close> by (simp add: identity_baseline_ok_def)
          ultimately show ?thesis using pc' Some d(2) by (simp add: declared_def)
        next
          case (conflict q)
          then show ?thesis using pc' Some by (auto simp: declared_def)
        next
          case absent
          then show ?thesis using pc' Some d by (simp add: decl_ok_def not_in_baseline_def)
        qed
      qed
    qed
  qed
  then show ?thesis using identity_inv_quiet [OF inv i, of s' pc'] s' by simp
qed

lemma frame_declared:
  assumes "declared s nodes k q" "\<And>r b. r \<in> set (nodes b) \<Longrightarrow> cell s' (ref_slot r) = cell s (ref_slot r)" "is_baseline s' = is_baseline s"
  shows "declared s' nodes k q"
  using assms unfolding declared_def by auto

lemma identity_inv_page:
  assumes inv: "identity_inv s nodes calls" and i: "i < length calls" "calls ! i = (d, rp_page slot)"
    and page: "ensure_identity_page granted slot s = Some u"
  shows "identity_inv (store_record slot (candidate_record d 0) u) nodes (calls[i := (d, rp_load (make_ref slot (de_kind d)))])"
proof -
  note facts = identity_inv_facts [OF inv] and u = ensure_identity_page_ok [OF page]
  have call: "decl_ok s d" "semantic_bucket_load s (bucket_of_decl d) \<noteq> None" "drawn s slot"
    "unat (ref_slot (de_parent d)) < max 2 (unat slot)" using facts(5) [OF i] by simp_all
  have ref: "ref_slot (make_ref slot (de_kind d)) = slot" "ref_kind (make_ref slot (de_kind d)) = de_kind d" using u(5) by simp_all
  have "unat slot \<noteq> 0" "unat slot \<noteq> 1" using call(3) u(4) by (auto simp: drawn_def word_unat_eq_iff)
  then have below: "unat (ref_slot (de_parent d)) < unat slot" using call(4) by simp
  have "candidate (store_record slot (candidate_record d 0) u) d (make_ref slot (de_kind d))"
    unfolding candidate_def ref using call(1-3) below u
    by (simp add: cell_store has_page_store drawn_def decl_ok_def not_in_baseline_def candidate_record_def)
  then show ?thesis
    using u ref by (intro identity_inv_own_cell [OF inv i]) simp_all
qed

lemma identity_inv_scan:
  assumes inv: "identity_inv s nodes calls" and i: "i < length calls" "calls ! i = (d, rp_scan r h)"
  defines "x \<equiv> ref_slot r"
  shows "call_inv (store_record x item s) nodes d pc' \<Longrightarrow> own pc' = None \<or> own pc' = Some x \<Longrightarrow>
      identity_inv (store_record x item s) nodes (calls[i := (d, pc')])"
    "cell (store_record x item s) y = (if y = x then item else cell s y)"
    "q \<in> set (nodes b) \<Longrightarrow> cell (store_record x item s) (ref_slot q) = cell s (ref_slot q)"
    "has_page (store_record x item s) y \<longleftrightarrow> has_page s y"
proof -
  have c: "candidate s d r" using identity_inv_facts(5) [OF inv i] by simp
  then have x: "has_page s x" "x \<noteq> 1" by (simp_all add: candidate_def x_def)
  show cell: "cell (store_record x item s) y = (if y = x then item else cell s y)" for y by (rule cell_store [OF x])
  show "has_page (store_record x item s) y \<longleftrightarrow> has_page s y" by (rule has_page_store [OF x])
  show "q \<in> set (nodes b) \<Longrightarrow> cell (store_record x item s) (ref_slot q) = cell s (ref_slot q)"
    using cell own_not_node [OF inv i(1), of x q b] i(2) by (simp add: x_def)
  show "call_inv (store_record x item s) nodes d pc' \<Longrightarrow> own pc' = None \<or> own pc' = Some x \<Longrightarrow>
      identity_inv (store_record x item s) nodes (calls[i := (d, pc')])"
    using x by (intro identity_inv_own_cell [OF inv i]) (simp_all add: x_def)
qed

lemma identity_inv_discard:
  assumes inv: "identity_inv s nodes calls" and i: "i < length calls" "calls ! i = (d, rp_scan r h)"
    and q: "declared s nodes (decl_key d) q"
  defines "pc' \<equiv> (if ref_kind q \<noteq> de_kind d then rp_done st_semantic_conflict 0 else rp_done st_ok q)"
  shows "identity_inv (discard_candidate r s) nodes (calls[i := (d, pc')])"
proof -
  have "declared (discard_candidate r s) nodes (decl_key d) q"
    unfolding discard_candidate_def using identity_inv_scan(3) [OF inv i] by (intro frame_declared [OF q]) simp_all
  then show ?thesis
    unfolding discard_candidate_def pc'_def by (intro identity_inv_scan(1) [OF inv i]) auto
qed

lemma identity_inv_next:
  assumes inv: "identity_inv s nodes calls" and i: "i < length calls" "calls ! i = (d, rp_scan r h)"
    and absent: "scanned (link_of s) (key_of s) (decl_key d) h (nodes (bucket_of_decl d))"
  shows "identity_inv (store_record (ref_slot r) ((item_at s r)\<lparr>ir_next := h\<rparr>) s) nodes (calls[i := (d, rp_exchange r h)])"
proof -
  let ?s = "store_record (ref_slot r) ((item_at s r)\<lparr>ir_next := h\<rparr>) s"
  note scan = identity_inv_scan [OF inv i]
  have c: "candidate s d r" using identity_inv_facts(5) [OF inv i] by simp
  then obtain link where "cell s (ref_slot r) = candidate_record d link" unfolding candidate_def by blast
  then have "cell ?s (ref_slot r) = candidate_record d h" by (simp add: scan(2) item_at_cell candidate_record_def)
  moreover have "scanned (link_of ?s) (key_of ?s) (decl_key d) h (nodes (bucket_of_decl d))"
    by (rule scanned_grow(1) [OF absent]) (simp add: scan(3))
  moreover have "link_of ?s r = h" using calculation(1) by (simp add: candidate_record_def)
  moreover have "candidate ?s d r"
    using c calculation(1,3) scan(4) unfolding candidate_def by (simp add: drawn_def decl_ok_def not_in_baseline_def)
  ultimately show ?thesis by (intro scan(1)) simp_all
qed

lemma identity_inv_step:
  assumes inv: "identity_inv s nodes calls" and i: "i < length calls" "calls ! i = (d, pc)"
    and step: "resolve_step granted d pc s = (pc', s')"
  shows "\<exists>nodes'. identity_inv s' nodes' (calls[i := (d, pc')])"
proof -
  note facts = identity_inv_facts [OF inv]
  have call: "call_inv s nodes d pc" by (rule facts(5) [OF i])
  have quiet: "identity_inv s nodes (calls[i := (d, q)])"
    if "call_inv s nodes d q" "own q = None \<or> own q = own pc" for q
    using identity_inv_quiet [OF inv i, of s q] that by simp
  have head: "loaded (link_of s) (semantic_head s (bucket_of_decl d)) (nodes (bucket_of_decl d))"
    by (rule loaded_head [OF index_okD(1) [OF facts(1)]])
  show ?thesis
  proof (cases pc)
    case rp_start
    then show ?thesis using identity_inv_start [OF inv, of i d] i step by auto
  next
    case rp_bucket
    show ?thesis
    proof (cases "ensure_semantic_bucket granted (bucket_of_decl d) s")
      case None
      then show ?thesis using rp_bucket step quiet [of pc'] by auto
    next
      case (Some u)
      note u = ensure_semantic_bucket_ok [OF Some]
      have pc': "pc' = rp_slot" "s' = u" using Some rp_bucket step by simp_all
      have cells: "cell u = cell s" "has_page u = has_page s"
        using slot_record_cong [OF u(4,5)] by (simp_all add: cell_def has_page_def fun_eq_iff)
      have "call_inv u nodes d rp_slot" using call rp_bucket u by (simp add: decl_ok_def not_in_baseline_def parent_below_def)
      then show ?thesis using u cells pc' identity_inv_quiet [OF inv i, of u rp_slot] by auto
    qed
  next
    case rp_slot
    show ?thesis
    proof (cases "is_next_slot s = 0 \<or> is_next_slot s > slot_mask")
      case True
      then show ?thesis using rp_slot step quiet [of pc'] by (auto simp: Let_def)
    next
      case False
      then have "pc' = rp_page (is_next_slot s)" "s' = s\<lparr>is_next_slot := is_next_slot s + 1\<rparr>"
        using rp_slot step by (simp_all add: Let_def)
      then show ?thesis using identity_inv_slot [OF inv, of i d] i rp_slot False by (auto simp: not_less)
    qed
  next
    case (rp_page slot)
    show ?thesis
    proof (cases "ensure_identity_page granted slot s")
      case None
      then show ?thesis using rp_page step quiet [of pc'] by auto
    next
      case (Some u)
      then show ?thesis using rp_page step identity_inv_page [OF inv, of i d slot granted u] i by auto
    qed
  next
    case (rp_load r)
    then show ?thesis using step call head quiet [of pc'] by auto
  next
    case (rp_scan r h)
    note scan = i(2) [unfolded rp_scan]
    have "loaded (link_of s) h (nodes (semantic_bucket_of (de_parent d) (de_name d)))" using call rp_scan by simp
    from walk_items_loaded [OF inv this] show ?thesis
    proof
      assume "walk_items s (de_parent d) (de_name d) (fingerprint_of d) h = cr_absent \<and>
        scanned (link_of s) (key_of s) (decl_key d) h (nodes (bucket_of_decl d))"
      then show ?thesis using rp_scan step identity_inv_next [OF inv i(1) scan] by auto
    next
      assume "\<exists>q \<in> set (nodes (bucket_of_decl d)).
        walk_items s (de_parent d) (de_name d) (fingerprint_of d) h = cr_found q \<and> key_of s q = decl_key d"
      then obtain q where q: "declared s nodes (decl_key d) q"
        "walk_items s (de_parent d) (de_name d) (fingerprint_of d) h = cr_found q" by (auto simp: declared_def)
      show ?thesis using identity_inv_discard [OF inv i(1) scan q(1)] rp_scan step q(2) by (auto split: if_splits)
    qed
  next
    case (rp_exchange r h)
    show ?thesis
    proof (cases "granted \<and> semantic_head s (bucket_of_decl d) = h")
      case True
      then show ?thesis using rp_exchange step identity_inv_exchange [OF inv, of i d r h] i by auto
    next
      case False
      then have "pc' = rp_scan r (semantic_head s (bucket_of_decl d))" "s' = s" using rp_exchange step by auto
      then show ?thesis using rp_exchange call head quiet [of pc'] by (intro exI [of _ nodes]) simp
    qed
  next
    case (rp_done st r)
    then have "calls[i := (d, pc')] = calls" "s' = s" using step i by (auto simp: list_update_same_conv)
    then show ?thesis using inv by auto
  qed
qed

lemma identity_inv_fresh:
  assumes "slots_ok s" "baseline_fits s" "\<And>b. semantic_head s b = 0"
  shows "identity_inv s (\<lambda>_. []) []"
  using assms by (simp add: identity_inv_def index_ok_def nodes_ok_def slots_unique_def calls_ok_def owners_ok_def)

lemma identity_reach_inv: "identity_reach s \<Longrightarrow> \<exists>nodes. identity_inv (id_space s) nodes (id_calls s)"
proof (induction rule: identity_reach.induct)
  case (fresh_space dense_granted)
  have "identity_inv (identity_space_new dense_granted) (\<lambda>_. []) []"
    by (rule identity_inv_fresh)
      (auto simp: slots_ok_def baseline_fits_def semantic_head_def semantic_bucket_load_def identity_space_new_def cell_def
        slot_record_def split: option.splits)
  then show ?case by auto
next
  case (baseline_space b)
  have "unat (of_nat (ib_slot_count b + 1) :: u32) = ib_slot_count b + 1" if "ib_slot_count b < unat slot_mask"
    unfolding unsigned_of_nat using that by (simp add: slot_mask_value take_bit_nat_eq_self)
  then have "identity_inv (identity_space_on b) (\<lambda>_. []) []"
    using baseline_space
    by (intro identity_inv_fresh)
      (auto simp: slots_ok_def baseline_fits_def semantic_head_def semantic_bucket_load_def identity_space_on_def cell_def
        slot_record_def slot_mask_value split: option.splits)
  then show ?case by auto
next
  case (begin_resolve s d)
  then show ?case using identity_inv_begin by fastforce
next
  case (step_resolve s i d pc granted pc' s')
  then show ?case using identity_inv_step [OF _ step_resolve.hyps(2,3,4)] by auto
qed

section \<open>Results\<close>

lemma identity_baseline_okD:
  assumes "identity_baseline_ok b" "ib_find b p n k = Some r"
  shows "ref_valid r" "unat (ref_slot r) \<le> ib_slot_count b" "ref_kind r = k" "ib_valid b r" "ib_parent b r = p" "ib_name b r = n"
    "ib_find b p n l = Some q \<Longrightarrow> k = l"
  using assms unfolding identity_baseline_ok_def by metis+

lemma declared_facts:
  assumes inv: "identity_inv s nodes calls" and r: "declared s nodes k r"
  shows "identity_valid s r" "identity_parent s r = fst k" "identity_name s r = snd k" "ref_kind r \<noteq> kind_root"
    "is_baseline_slots s < unat (ref_slot r) \<Longrightarrow> unat (ref_slot (identity_parent s r)) < unat (ref_slot r)"
proof -
  note facts = identity_inv_facts [OF inv]
  have "identity_valid s r \<and> identity_parent s r = fst k \<and> identity_name s r = snd k \<and> ref_kind r \<noteq> kind_root \<and>
    (is_baseline_slots s < unat (ref_slot r) \<longrightarrow> unat (ref_slot (identity_parent s r)) < unat (ref_slot r))"
    using r unfolding declared_def
  proof (elim disjE conjE exE)
    assume "r \<in> set (nodes (bucket_of_key k))" and key: "key_of s r = k"
    then have node: "is_node s r" using facts(2) by blast
    then have "is_baseline_slots s < unat (ref_slot r)" by (simp add: is_node_def drawn_def)
    then show ?thesis
      using node_published(1,2) [OF node] node key [symmetric]
      by (auto simp: identity_valid_def identity_parent_def identity_name_def is_node_def split: option.splits)
  next
    fix b assume b: "is_baseline s = Some b" "ib_find b (fst k) (snd k) (ref_kind r) = Some r" "ref_kind r \<noteq> kind_root"
    then show ?thesis
      using facts(4) [OF b(1)] identity_baseline_okD(1,2,4,5,6) [OF conjunct1 [OF facts(4) [OF b(1)]] b(2)]
      by (simp add: identity_valid_def identity_parent_def identity_name_def)
  qed
  then show "identity_valid s r" "identity_parent s r = fst k" "identity_name s r = snd k" "ref_kind r \<noteq> kind_root"
    "is_baseline_slots s < unat (ref_slot r) \<Longrightarrow> unat (ref_slot (identity_parent s r)) < unat (ref_slot r)" by blast+
qed

lemma declared_unique:
  assumes inv: "identity_inv s nodes calls" and r: "declared s nodes k r" and q: "declared s nodes k q"
  shows "r = q"
proof -
  note facts = identity_inv_facts [OF inv]
  have apart: False if "x \<in> set (nodes (bucket_of_key k))" "key_of s x = k" "is_baseline s = Some b"
    "ib_find b (fst k) (snd k) (ref_kind y) = Some y" "ref_kind y \<noteq> kind_root" for x y b
    using facts(2) [OF that(1)] that(2-5) unfolding is_node_def not_in_baseline_def by auto
  have base: "r = q" if "is_baseline s = Some b" "ib_find b (fst k) (snd k) (ref_kind r) = Some r"
    "ib_find b (fst k) (snd k) (ref_kind q) = Some q" for b
  proof -
    have "ref_kind r = ref_kind q" by (rule identity_baseline_okD(7) [OF conjunct1 [OF facts(4) [OF that(1)]] that(2,3)])
    then have "Some r = Some q" using that(2,3) by (simp only:)
    then show ?thesis by simp
  qed
  from r q show ?thesis
    unfolding declared_def using apart base index_unique [OF facts(1)] by (elim disjE) (fastforce, blast, blast, fastforce)
qed

lemma declared_find:
  assumes inv: "identity_inv s nodes calls" and r: "declared s nodes (p, n) r"
    and p: "identity_valid s p" "n \<noteq> 0"
  shows "identity_find s p n (ref_kind r) = r"
proof -
  have valid: "ref_valid p" using p(1) by (auto simp: identity_valid_def split: if_splits)
  have kind: "ref_kind r \<noteq> kind_root" by (rule declared_facts(4) [OF inv r])
  from inv show ?thesis
  proof (cases rule: find_identity_cases [of s nodes calls p n])
    case (local q)
    then have "declared s nodes (p, n) q" by (simp add: declared_def)
    then have "q = r" by (rule declared_unique [OF inv _ r])
    then show ?thesis using local(3,4) valid p kind by (simp add: identity_find_def Let_def)
  next
    case absent
    have "r \<notin> set (nodes (semantic_bucket_of p n)) \<or> key_of s r \<noteq> (p, n)"
      using absent(1) imageI [of r "set (nodes (semantic_bucket_of p n))" "key_of s"] by auto
    then obtain b where "is_baseline s = Some b" "ib_find b p n (ref_kind r) = Some r"
      using r unfolding declared_def by auto
    then show ?thesis
      using absent(2) valid p kind by (simp add: identity_find_def Let_def) (simp add: ref_valid_def ref_slot_def)
  qed
qed

lemma resolved:
  assumes "identity_inv s nodes calls" "i < length calls" "calls ! i = (d, rp_done st_ok r)"
  shows "declared s nodes (decl_key d) r" "ref_kind r = de_kind d"
  using identity_inv_facts(5) [OF assms] by simp_all

text \<open>
  C28. Declarations are canonical under every interleaving: when two calls have finished, they got the same
  reference exactly when parent and name are the same, and then the kind is the same too; the reference is valid,
  carries the kind declared and gives parent and name back; and looking the declaration up under a valid
  parent finds it.
\<close>

theorem identities_canonical:
  assumes "identity_reach s" "i < length (id_calls s)" "j < length (id_calls s)"
    "id_calls s ! i = (d, rp_done st_ok r)" "id_calls s ! j = (e, rp_done st_ok q)"
  shows "(r = q \<longleftrightarrow> de_parent d = de_parent e \<and> de_name d = de_name e) \<and> (r = q \<longrightarrow> de_kind d = de_kind e) \<and>
    identity_valid (id_space s) r \<and> ref_kind r = de_kind d \<and>
    identity_parent (id_space s) r = de_parent d \<and> identity_name (id_space s) r = de_name d \<and>
    (identity_valid (id_space s) (de_parent d) \<longrightarrow> de_name d \<noteq> 0 \<longrightarrow>
       identity_find (id_space s) (de_parent d) (de_name d) (de_kind d) = r)"
proof -
  obtain nodes where inv: "identity_inv (id_space s) nodes (id_calls s)" using identity_reach_inv assms(1) by blast
  note d = resolved [OF inv assms(2,4)] and e = resolved [OF inv assms(3,5)]
  have "r = q" if "decl_key d = decl_key e" using declared_unique [OF inv d(1)] e(1) that by simp
  then show ?thesis
    using declared_facts(1-3) [OF inv d(1)] declared_facts(2,3) [OF inv e(1)] d(2) e(2) declared_find [OF inv d(1)] by auto
qed

text \<open>
  C29. How a declaration can fail: a broken chain is never met, and a conflict is reported only when another kind
  is declared for the same parent and name.
\<close>

theorem resolve_outcomes:
  assumes "identity_reach s" "i < length (id_calls s)" "id_calls s ! i = (d, rp_done st r)"
  shows "st \<noteq> st_initialization_failed \<and>
    (st = st_semantic_conflict \<longrightarrow>
       (\<exists>q. identity_valid (id_space s) q \<and> identity_parent (id_space s) q = de_parent d \<and>
          identity_name (id_space s) q = de_name d \<and> ref_kind q \<noteq> de_kind d))"
proof -
  obtain nodes where inv: "identity_inv (id_space s) nodes (id_calls s)" using identity_reach_inv assms(1) by blast
  have "call_inv (id_space s) nodes d (rp_done st r)" by (rule identity_inv_facts(5) [OF inv assms(2,3)])
  then show ?thesis using declared_facts(1-3) [OF inv] by fastforce
qed

text \<open>
  C30. The hierarchy of the new identities is well-founded: the parent of each has a smaller slot, so that
  following parents ends.
\<close>

theorem identity_hierarchy_wf:
  assumes "identity_reach s"
  shows "wf {(identity_parent (id_space s) r, r) |r. \<exists>i < length (id_calls s). \<exists>d.
    id_calls s ! i = (d, rp_done st_ok r) \<and> is_baseline_slots (id_space s) < unat (ref_slot r)}"
proof -
  obtain nodes where inv: "identity_inv (id_space s) nodes (id_calls s)" using identity_reach_inv assms by blast
  show ?thesis
    using declared_facts(5) [OF inv resolved(1) [OF inv]]
    by (intro wf_subset [OF wf_measure [of "\<lambda>r. unat (ref_slot r)"]]) auto
qed

section \<open>Running a schedule\<close>

datatype identity_event = ie_begin identity_decl | ie_step nat bool

primrec identity_exec1 :: "identity_event \<Rightarrow> identity_system \<Rightarrow> identity_system option" where
  "identity_exec1 (ie_begin d) s = Some (s\<lparr>id_calls := id_calls s @ [(d, rp_start)]\<rparr>)"
| "identity_exec1 (ie_step i granted) s =
     (if i < length (id_calls s)
      then (case id_calls s ! i of (d, pc) \<Rightarrow>
        (case resolve_step granted d pc (id_space s) of (pc', s') \<Rightarrow>
          Some (s\<lparr>id_space := s', id_calls := (id_calls s)[i := (d, pc')]\<rparr>)))
      else None)"

primrec identity_exec :: "identity_event list \<Rightarrow> identity_system \<Rightarrow> identity_system option" where
  "identity_exec [] s = Some s"
| "identity_exec (e # es) s = (case identity_exec1 e s of None \<Rightarrow> None | Some s' \<Rightarrow> identity_exec es s')"

lemma identity_exec_reach: "identity_reach s \<Longrightarrow> identity_exec es s = Some s' \<Longrightarrow> identity_reach s'"
proof (induction es arbitrary: s)
  case (Cons e es)
  then obtain t where t: "identity_exec1 e s = Some t" "identity_exec es t = Some s'" by (auto split: option.splits)
  have "identity_reach t"
    using Cons.prems(1) t(1) by (cases e) (auto intro: identity_reach.intros split: if_splits prod.splits)
  then show ?case using Cons.IH t(2) by blast
qed simp

text \<open>Two calls race to declare the same type in a fresh space, a third declares an object of the same name.\<close>

definition sample_decl :: "identity_kind \<Rightarrow> identity_decl" where
  "sample_decl k = \<lparr>de_parent = identity_root, de_name = 5, de_kind = k\<rparr>"

definition identity_race :: "identity_event list" where
  "identity_race = [ie_begin (sample_decl kind_type), ie_begin (sample_decl kind_type), ie_begin (sample_decl kind_object)] @
     concat (replicate 5 [ie_step 0 True, ie_step 1 True]) @
     [ie_step 1 True, ie_step 0 True, ie_step 0 True, ie_step 1 True, ie_step 1 True, ie_step 2 True]"

definition identity_start :: identity_system where
  "identity_start = \<lparr>id_space = identity_space_new True, id_calls = []\<rparr>"

lemma semantic_bucket_fold: "unat (semantic_hash_value p n) mod semantic_bucket_count = semantic_bucket_of p n"
  by (simp add: semantic_bucket_of_def)

lemma semantic_bucket_less: "\<not> semantic_bucket_count \<le> semantic_bucket_of p n"
  by (simp add: semantic_bucket_of_def semantic_bucket_count_def)

lemma fingerprint_bits: "make_ref (semantic_fingerprint h) k AND slot_mask = semantic_fingerprint h"
  "kind_of_code (drop_bit kind_shift (make_ref (semantic_fingerprint h) k)) = k"
  using make_ref_slot [OF semantic_fingerprint_ok(2), of h k] make_ref_kind [OF semantic_fingerprint_ok(2), of h k]
  by (simp_all add: ref_slot_def ref_kind_def)

lemma small_slots: "(2 :: u32) \<le> slot_mask" "(3 :: u32) \<le> slot_mask" "(1 :: u32) \<le> slot_mask"  "\<not> slot_mask < (2 :: u32)" "\<not> slot_mask < (3 :: u32)"
  "\<not> (2 :: u32) \<le> 1" "\<not> (3 :: u32) \<le> 1" "ref_slot 0 = 0"
  by (simp_all add: slot_mask_value ref_slot_def word_le_nat_alt)

lemma directory_count_value: "directory_count = 512"
  by (simp add: directory_count_def kind_shift_def id_page_shift_def directory_page_bits_def)

lemma make_ref_nonzero: "slot \<le> slot_mask \<Longrightarrow> slot \<noteq> 0 \<Longrightarrow> make_ref slot k \<noteq> 0"
  using make_ref_slot [of slot k] by (auto simp: ref_slot_def)

lemma walk_items_eval:
  "walk_items s p n f 0 = cr_absent"
  "h \<noteq> 0 \<Longrightarrow> published_record s h \<noteq> None \<Longrightarrow> item_matches s p n f h \<Longrightarrow> walk_items s p n f h = cr_found h"
  by (simp_all add: walk_items_def)

lemmas identity_eval = identity_valid_def find_identity_record_def walk_items_eval item_matches_def item_at_def
  semantic_head_def discard_candidate_def store_record_def slot_record_def ensure_identity_page_def ensure_directory_def
  ensure_semantic_bucket_def semantic_bucket_load_def semantic_bucket_store_def published_record_def
  candidate_record_def packed_fingerprint_eq identity_space_new_def identity_root_def root_identity_record_def sample_decl_def
  directory_index_def page_index_def slot_index_def page_number_def id_page_shift_def directory_page_bits_def directory_count_value make_ref_nonzero
  ref_valid_def Let_def semantic_bucket_fold semantic_bucket_less fingerprint_bits small_slots blank_record_def

lemma identity_race_list: "identity_race = [ie_begin (sample_decl kind_type), ie_begin (sample_decl kind_type), ie_begin (sample_decl kind_object),
      ie_step 0 True, ie_step 1 True, ie_step 0 True, ie_step 1 True, ie_step 0 True, ie_step 1 True, ie_step 0 True, ie_step 1 True, ie_step 0 True, ie_step 1 True,
      ie_step 1 True, ie_step 0 True, ie_step 0 True, ie_step 1 True, ie_step 1 True, ie_step 2 True]"
    by (simp add: identity_race_def numeral_eq_Suc)

lemma identity_race_runs:
  "\<exists>s. identity_exec identity_race identity_start = Some s \<and>
     id_calls s = [(sample_decl kind_type, rp_done st_ok (make_ref 2 kind_type)), (sample_decl kind_type, rp_done st_ok (make_ref 2 kind_type)), (sample_decl kind_object, rp_done st_semantic_conflict 0)]"
 by (simp add: identity_race_list identity_start_def identity_eval)

lemma identity_start_reach: "identity_reach identity_start"
  unfolding identity_start_def by (rule identity_reach.fresh_space)

theorem identities_canonical_witness:
  "\<exists>s. identity_exec identity_race identity_start = Some s \<and>
     identity_valid (id_space s) (make_ref 2 kind_type) \<and> identity_parent (id_space s) (make_ref 2 kind_type) = identity_root \<and>
     identity_name (id_space s) (make_ref 2 kind_type) = 5"
proof -
  obtain s where s: "identity_exec identity_race identity_start = Some s"
    "id_calls s = [(sample_decl kind_type, rp_done st_ok (make_ref 2 kind_type)),
       (sample_decl kind_type, rp_done st_ok (make_ref 2 kind_type)), (sample_decl kind_object, rp_done st_semantic_conflict 0)]"
    using identity_race_runs by blast
  have "identity_reach s" by (rule identity_exec_reach [OF identity_start_reach s(1)])
  from identities_canonical [OF this, of 0 1 "sample_decl kind_type" "make_ref 2 kind_type" "sample_decl kind_type" "make_ref 2 kind_type"]
  show ?thesis using s by (auto simp: sample_decl_def)
qed

theorem resolve_outcomes_witness:
  "\<exists>s q. identity_exec identity_race identity_start = Some s \<and> identity_valid (id_space s) q \<and>
     identity_parent (id_space s) q = identity_root \<and> identity_name (id_space s) q = 5 \<and> ref_kind q \<noteq> kind_object"
proof -
  obtain s where s: "identity_exec identity_race identity_start = Some s"
    "id_calls s = [(sample_decl kind_type, rp_done st_ok (make_ref 2 kind_type)),
       (sample_decl kind_type, rp_done st_ok (make_ref 2 kind_type)), (sample_decl kind_object, rp_done st_semantic_conflict 0)]"
    using identity_race_runs by blast
  have "identity_reach s" by (rule identity_exec_reach [OF identity_start_reach s(1)])
  from resolve_outcomes [OF this, of 2 "sample_decl kind_object" st_semantic_conflict 0]
  show ?thesis using s by (auto simp: sample_decl_def)
qed

theorem identity_hierarchy_wf_witness:
  "\<exists>s. identity_exec identity_race identity_start = Some s \<and>
    wf {(identity_parent (id_space s) r, r) |r. \<exists>i < length (id_calls s). \<exists>d.
      id_calls s ! i = (d, rp_done st_ok r) \<and> is_baseline_slots (id_space s) < unat (ref_slot r)}"
proof -
  obtain s where s: "identity_exec identity_race identity_start = Some s" using identity_race_runs by blast
  with identity_hierarchy_wf [OF identity_exec_reach [OF identity_start_reach s]] show ?thesis by blast
qed

section \<open>A call that runs alone\<close>

definition resolve_alone :: "nat \<Rightarrow> identity_decl \<Rightarrow> resolve_pc \<times> identity_space \<Rightarrow> resolve_pc \<times> identity_space" where
  "resolve_alone n d = (\<lambda>(pc, s). resolve_step True d pc s) ^^ n"

lemma resolve_alone_Suc:
  "resolve_alone (Suc n) d (pc, s) = resolve_alone n d (resolve_step True d pc s)" "resolve_alone 0 d (pc, s) = (pc, s)"
  by (simp_all add: resolve_alone_def funpow_swap1)

lemma resolve_alone_numeral:
  "resolve_alone (numeral k) d (pc, s) = resolve_alone (pred_numeral k) d (resolve_step True d pc s)"
  "resolve_alone 1 d (pc, s) = resolve_step True d pc s" "resolve_alone (Suc 0) d (pc, s) = resolve_step True d pc s"
  by (simp_all add: numeral_eq_Suc resolve_alone_Suc(1)) (simp_all add: resolve_alone_def)

lemma resolve_alone_done: "resolve_alone n d (rp_done st r, s) = (rp_done st r, s)"
  by (induction n) (simp_all add: resolve_alone_Suc)

lemma identity_exec_alone:
  "n < length (id_calls s) \<Longrightarrow> id_calls s ! n = (d, pc) \<Longrightarrow>
    identity_exec (replicate m (ie_step n True)) s =
      Some (s\<lparr>id_space := snd (resolve_alone m d (pc, id_space s)),
        id_calls := (id_calls s)[n := (d, fst (resolve_alone m d (pc, id_space s)))]\<rparr>)"
proof (induction m arbitrary: s pc)
  case 0
  then have "(id_calls s)[n := (d, pc)] = id_calls s" by (metis list_update_id)
  then show ?case by (simp add: resolve_alone_Suc)
next
  case (Suc m)
  obtain pc' s' where step: "resolve_step True d pc (id_space s) = (pc', s')" by fastforce
  with Suc show ?case by (simp add: resolve_alone_Suc)
qed

text \<open>The schedule of a whole call that nothing interrupts.\<close>

definition resolve_run :: "identity_decl \<Rightarrow> identity_system \<Rightarrow> identity_event list" where
  "resolve_run d s = ie_begin d # replicate 7 (ie_step (length (id_calls s)) True)"

lemma resolve_run_exec:
  "identity_exec (resolve_run d s) s =
     Some (s\<lparr>id_space := snd (resolve_alone 7 d (rp_start, id_space s)),
       id_calls := id_calls s @ [(d, fst (resolve_alone 7 d (rp_start, id_space s)))]\<rparr>)"
  using identity_exec_alone [of "length (id_calls s)" "s\<lparr>id_calls := id_calls s @ [(d, rp_start)]\<rparr>" d rp_start 7]
  by (simp add: resolve_run_def)

lemma resolve_never_broken:
  assumes "identity_reach s" "resolve_alone 7 d (rp_start, id_space s) = (rp_done st r, s')"
  shows "st \<noteq> st_initialization_failed"
proof -
  let ?s = "s\<lparr>id_space := s', id_calls := id_calls s @ [(d, rp_done st r)]\<rparr>"
  have "identity_reach ?s" using identity_exec_reach [OF assms(1) resolve_run_exec [of d]] assms(2) by simp
  then obtain nodes where "identity_inv (id_space ?s) nodes (id_calls ?s)" using identity_reach_inv by blast
  from identity_inv_facts(5) [OF this, of "length (id_calls s)" d "rp_done st r"] show ?thesis by simp
qed

lemma resolve_scan_alone:
  "\<exists>st q s'. resolve_alone (Suc (Suc n)) d (rp_scan r (semantic_head s (bucket_of_decl d)), s) = (rp_done st q, s') \<and>
     st \<in> {st_ok, st_semantic_conflict, st_initialization_failed}"
  by (cases "walk_items s (de_parent d) (de_name d) (fingerprint_of d) (semantic_head s (bucket_of_decl d))")
    (auto simp: resolve_alone_Suc resolve_alone_done)

lemma slot_directory: "slot \<le> slot_mask \<Longrightarrow> directory_index slot < directory_count"
  by (simp add: directory_count_value directory_index_def page_number_def id_page_shift_def directory_page_bits_def
      slot_mask_value word_le_nat_alt)

lemma ensure_identity_page_some:
  assumes "1 < slot" "slot \<le> slot_mask"
  shows "ensure_identity_page True slot s \<noteq> None"
proof -
  have "ensure_directory True (directory_index slot) s \<noteq> None"
    using slot_directory [OF assms(2)] by (simp add: ensure_directory_def split: option.splits)
  then obtain u where u: "ensure_directory True (directory_index slot) s = Some u" by blast
  obtain directory where "is_directories u (directory_index slot) = Some directory" using ensure_directory_ok(1) [OF u] by blast
  then show ?thesis using u assms by (auto simp: ensure_identity_page_def not_le not_less split: option.splits)
qed

text \<open>From the bucket on, a call that runs alone draws a slot, links its candidate or finds another's.\<close>

lemma resolve_bucket_alone:
  assumes "is_dense_mode s \<longrightarrow> is_dense s \<noteq> None" "1 < is_next_slot s" "is_next_slot s \<le> slot_mask"
  shows "\<exists>st q s'. resolve_alone 6 d (rp_bucket, s) = (rp_done st q, s') \<and>
     st \<in> {st_ok, st_semantic_conflict, st_initialization_failed}"
proof -
  have six: "6 = Suc (Suc (Suc (Suc (Suc (Suc 0)))))" by simp
  have "ensure_semantic_bucket True (bucket_of_decl d) s \<noteq> None"
    using assms(1) by (auto simp: ensure_semantic_bucket_def semantic_bucket_less Let_def split: option.splits)
  then obtain u where u: "ensure_semantic_bucket True (bucket_of_decl d) s = Some u" by blast
  let ?slot = "is_next_slot s" and ?v = "u\<lparr>is_next_slot := is_next_slot s + 1\<rparr>"
  have same: "is_next_slot u = ?slot" by (rule ensure_semantic_bucket_ok(8) [OF u])
  obtain w where w: "ensure_identity_page True ?slot ?v = Some w" using ensure_identity_page_some [OF assms(2,3)] by blast
  let ?x = "store_record ?slot (candidate_record d 0) w" and ?r = "make_ref ?slot (de_kind d)"
  have "?slot \<noteq> 0" using assms(2) by auto
  then have "resolve_step True d rp_bucket s = (rp_slot, u)" "resolve_step True d rp_slot u = (rp_page ?slot, ?v)"
    "resolve_step True d (rp_page ?slot) ?v = (rp_load ?r, ?x)"
    "resolve_step True d (rp_load ?r) ?x = (rp_scan ?r (semantic_head ?x (bucket_of_decl d)), ?x)"
    using u w same assms(3) by (simp_all add: Let_def)
  then show ?thesis using resolve_scan_alone [of 0 d ?r ?x] unfolding six by (simp only: resolve_alone_Suc)
qed

text \<open>
  A declaration that runs alone is decided within seven steps, when it is well formed under a valid parent,
  the buckets were allocated, memory is available and a slot is left.
\<close>

theorem resolve_returns:
  assumes "identity_reach s" "identity_valid (id_space s) (de_parent d)" "de_name d \<noteq> 0" "de_kind d \<noteq> kind_root"
    and "is_dense_mode (id_space s) \<longrightarrow> is_dense (id_space s) \<noteq> None"
    and slots: "1 < is_next_slot (id_space s)" "is_next_slot (id_space s) \<le> slot_mask"
  shows "\<exists>st r s'. resolve_alone 7 d (rp_start, id_space s) = (rp_done st r, s') \<and> (st = st_ok \<or> st = st_semantic_conflict)"
proof -
  let ?s = "id_space s"
  have valid: "ref_valid (de_parent d)" using assms(2) by (auto simp: identity_valid_def split: if_splits)
  obtain pc' s' where step: "resolve_step True d rp_start ?s = (pc', s')" by fastforce
  then have start: "s' = ?s" "pc' = rp_bucket \<or> (\<exists>r. pc' = rp_done st_ok r \<or> pc' = rp_done st_semantic_conflict r)"
    using valid assms(2-4) by (auto simp: Let_def baseline_lookup_def split: if_splits option.splits)
  have seven: "7 = Suc 6" by simp
  have "\<exists>st r s'. resolve_alone 7 d (rp_start, ?s) = (rp_done st r, s') \<and> st \<in> {st_ok, st_semantic_conflict, st_initialization_failed}"
    using start resolve_bucket_alone [OF assms(5-7), of d] unfolding seven resolve_alone_Suc step
    by (auto simp: resolve_alone_done)
  then show ?thesis using resolve_never_broken [OF assms(1)] by blast
qed

theorem resolve_returns_witness:
  "\<exists>st r s'. resolve_alone 7 (sample_decl kind_type) (rp_start, id_space identity_start) = (rp_done st r, s') \<and>
     (st = st_ok \<or> st = st_semantic_conflict)"
  by (rule resolve_returns [OF identity_start_reach]) (simp_all add: identity_start_def identity_eval)

section \<open>The space as a canonical store\<close>

definition identity_known :: "identity_system \<Rightarrow> identity_decl \<Rightarrow> u32 \<Rightarrow> bool" where
  "identity_known s d r \<longleftrightarrow> (\<exists>i < length (id_calls s). id_calls s ! i = (d, rp_done st_ok r))"

definition resolve_declaration :: "identity_decl \<Rightarrow> identity_system \<Rightarrow> u32 option \<times> identity_system" where
  "resolve_declaration d s =
     (let (pc, s') = resolve_alone 7 d (rp_start, id_space s) in
      (case pc of rp_done st r \<Rightarrow> if st = st_ok then Some r else None | _ \<Rightarrow> None,
       s\<lparr>id_space := s', id_calls := id_calls s @ [(d, pc)]\<rparr>))"

lemma identity_decl_eqI: "de_parent d = de_parent e \<Longrightarrow> de_name d = de_name e \<Longrightarrow> de_kind d = de_kind e \<Longrightarrow> d = (e :: identity_decl)"
  by simp

interpretation ids: canonical_store identity_reach "\<lambda>_. True" identity_known resolve_declaration
proof
  fix s :: identity_system and d :: identity_decl
  let ?run = "resolve_alone 7 d (rp_start, id_space s)"
  have run: "snd (resolve_declaration d s) = s\<lparr>id_space := snd ?run, id_calls := id_calls s @ [(d, fst ?run)]\<rparr>"
    by (simp add: resolve_declaration_def split_beta)
  show "identity_reach s \<Longrightarrow> identity_reach (snd (resolve_declaration d s))"
    using identity_exec_reach [OF _ resolve_run_exec] run by metis
  show "resolve_declaration d s = (Some r, s') \<Longrightarrow> identity_known s' d r" for r s'
    unfolding identity_known_def
    by (intro exI [of _ "length (id_calls s)"])
      (auto simp: resolve_declaration_def split_beta intro!: prod_eqI split: resolve_pc.splits if_splits)
  show "resolve_declaration d s = (x, s') \<Longrightarrow> identity_known s e q \<Longrightarrow> identity_known s' e q" for x s' e q
  proof -
    assume "resolve_declaration d s = (x, s')" "identity_known s e q"
    then obtain i where i: "i < length (id_calls s)" "id_calls s ! i = (e, rp_done st_ok q)"
      and s': "id_calls s' = id_calls s @ [(d, fst ?run)]" using run unfolding identity_known_def by auto
    then have "i < length (id_calls s')" "id_calls s' ! i = (e, rp_done st_ok q)" by (simp_all add: nth_append)
    then show ?thesis unfolding identity_known_def by blast
  qed
next
  fix s d r e q
  assume "identity_reach s" "identity_known s d r" "identity_known s e q"
  then obtain nodes i j where inv: "identity_inv (id_space s) nodes (id_calls s)"
    and i: "i < length (id_calls s)" "id_calls s ! i = (d, rp_done st_ok r)"
    and j: "j < length (id_calls s)" "id_calls s ! j = (e, rp_done st_ok q)"
    using identity_reach_inv unfolding identity_known_def by blast
  note d = resolved [OF inv i] and e = resolved [OF inv j]
  have "r = q" if "d = e" using declared_unique [OF inv d(1)] e(1) that by simp
  moreover have "d = e" if "r = q"
    using declared_facts(2,3) [OF inv d(1)] declared_facts(2,3) [OF inv e(1)] d(2) e(2) that by (intro identity_decl_eqI) simp_all
  ultimately show "r = q \<longleftrightarrow> d = e" by blast
qed auto

text \<open>
  The declarations of a Source resolved one after the other, in a space that other calls have used before,
  get equal references exactly where the declarations are equal.
\<close>

theorem resolved_declarations_injective:
  assumes "identity_reach s" "ids.intern_all declarations s = (refs, s')" "a < length declarations" "b < length declarations"
    "refs ! a = Some r" "refs ! b = Some q"
  shows "r = q \<longleftrightarrow> declarations ! a = declarations ! b"
  using ids.intern_all_injective [OF assms(1,2) TrueI assms(3-6)] .

lemma resolved_declarations_run:
  "\<exists>s r. ids.intern_all [sample_decl kind_type, sample_decl kind_type] identity_start = ([Some r, Some r], s)"
  by (simp add: identity_start_def resolve_declaration_def resolve_alone_numeral identity_eval)

theorem resolved_declarations_injective_witness:
  "\<exists>s r. ids.intern_all [sample_decl kind_type, sample_decl kind_type] identity_start = ([Some r, Some r], s) \<and>
     (r = r \<longleftrightarrow> sample_decl kind_type = sample_decl kind_type)"
proof -
  obtain s r where s: "ids.intern_all [sample_decl kind_type, sample_decl kind_type] identity_start = ([Some r, Some r], s)"
    using resolved_declarations_run by blast
  with resolved_declarations_injective [OF identity_start_reach s, of 0 1 r r] show ?thesis by auto
qed

end
