(* ===== verification/Construction_Value.thy ===== *)
theory Construction_Value
  imports Prelude
begin

text \<open>
  Normalised initial values, \<^verbatim>\<open>src/server_engine/project/frontend/construction_value.hpp\<close>: a kind, 64 bits of
  payload in two halves and an operand, with their sixteen-byte little-endian encoding.
\<close>

text \<open>\<open>ck_other\<close> is a value of the enumeration's underlying type that no enumerator has.\<close>

datatype construction_kind =
    ck_zero
  | ck_signed_integer
  | ck_unsigned_integer
  | ck_real
  | ck_member_binding
  | ck_unsupported
  | ck_aggregate
  | ck_other u32

fun kind_word :: "construction_kind \<Rightarrow> u32" where
  "kind_word ck_zero = 0"
| "kind_word ck_signed_integer = 1"
| "kind_word ck_unsigned_integer = 2"
| "kind_word ck_real = 3"
| "kind_word ck_member_binding = 4"
| "kind_word ck_unsupported = 5"
| "kind_word ck_aggregate = 6"
| "kind_word (ck_other w) = w"

definition word_kind :: "u32 \<Rightarrow> construction_kind" where
  "word_kind w =
     (if w = 0 then ck_zero else if w = 1 then ck_signed_integer else if w = 2 then ck_unsigned_integer
      else if w = 3 then ck_real else if w = 4 then ck_member_binding else if w = 5 then ck_unsupported
      else if w = 6 then ck_aggregate else ck_other w)"

record construction_value =
  cv_low :: u32
  cv_high :: u32
  cv_operand :: u32
  cv_kind :: construction_kind

definition cv_default :: construction_value where
  "cv_default = \<lparr>cv_low = 0, cv_high = 0, cv_operand = 0, cv_kind = ck_zero\<rparr>"

definition cv_bits :: "construction_value \<Rightarrow> u64" where
  "cv_bits v = ucast (cv_low v) OR push_bit 32 (ucast (cv_high v))"

definition cv_constant :: "construction_kind \<Rightarrow> u64 \<Rightarrow> construction_value" where
  "cv_constant kind bits = \<lparr>cv_low = ucast bits, cv_high = ucast (drop_bit 32 bits), cv_operand = 0, cv_kind = kind\<rparr>"

fun valid_construction :: "construction_value \<Rightarrow> bool" where
  "valid_construction v =
     (case cv_kind v of
        ck_zero \<Rightarrow> cv_bits v = 0 \<and> cv_operand v = 0
      | ck_unsupported \<Rightarrow> cv_bits v = 0 \<and> cv_operand v = 0
      | ck_member_binding \<Rightarrow> cv_bits v = 0 \<and> cv_operand v \<noteq> 0
      | ck_aggregate \<Rightarrow> cv_bits v = 0 \<and> cv_operand v \<noteq> 0
      | ck_other w \<Rightarrow> False
      | _ \<Rightarrow> cv_operand v = 0)"

definition word_bytes :: "u32 \<Rightarrow> u8 list" where
  "word_bytes w = map (\<lambda>j. ucast (drop_bit (j * 8) w)) [0..<4]"

definition bytes_word :: "u8 list \<Rightarrow> u32" where
  "bytes_word bs = foldl (\<lambda>w j. w OR push_bit (j * 8) (ucast (bs ! j))) 0 [0..<4]"

definition write_construction :: "construction_value \<Rightarrow> u8 list" where
  "write_construction v = concat (map word_bytes [cv_low v, cv_high v, cv_operand v, kind_word (cv_kind v)])"

definition read_construction :: "u8 list \<Rightarrow> construction_value" where
  "read_construction bs =
     (let w = (\<lambda>i. bytes_word (take 4 (drop (i * 4) bs)))
      in \<lparr>cv_low = w 0, cv_high = w 1, cv_operand = w 2, cv_kind = word_kind (w 3)\<rparr>)"

lemma cv_bits_constant [simp]: "cv_bits (cv_constant kind bits) = bits"
proof -
  have "cv_bits (cv_constant kind bits) = take_bit 32 bits OR push_bit 32 (take_bit 32 (drop_bit 32 bits))"
    by (simp add: cv_bits_def cv_constant_def unsigned_ucast_eq)
  also have "\<dots> = bits"
    by (rule bit_eqI) (auto simp: bit_or_iff bit_push_bit_iff bit_take_bit_iff bit_drop_bit_eq dest: bit_imp_le_length)
  finally show ?thesis .
qed

lemma bytes_word_bytes: "bytes_word (word_bytes w) = w"
proof (rule bit_word_eqI)
  fix n assume "n < LENGTH(32)"
  then have n: "n < 32" by simp
  have four: "[0..<4] = [0, 1, 2, 3 :: nat]" by (simp add: upt_rec)
  have "n < 8 \<or> (8 \<le> n \<and> n < 16) \<or> (16 \<le> n \<and> n < 24) \<or> (24 \<le> n \<and> n < 32)" using n by linarith
  then show "bit (bytes_word (word_bytes w)) n = bit w n"
    unfolding bytes_word_def word_bytes_def four
    by (elim disjE) (auto simp: bit_or_iff bit_push_bit_iff bit_ucast_iff bit_drop_bit_eq)
qed

text \<open>The encoding loses nothing: an enumerator is not written as a foreign value.\<close>

lemma construction_round_trip:
  assumes "word_kind (kind_word (cv_kind v)) = cv_kind v"
  shows "length (write_construction v) = 16" "read_construction (write_construction v) = v"
proof -
  have len: "length (word_bytes w) = 4" for w by (simp add: word_bytes_def)
  show "length (write_construction v) = 16" by (simp add: write_construction_def len)
  show "read_construction (write_construction v) = v"
    using assms by (simp add: read_construction_def write_construction_def len bytes_word_bytes)
qed

end
