(* ===== verification/Probe_Index.thy ===== *)
theory Probe_Index
  imports Bucket_Chain
begin

text \<open>
  The open-addressing indexes of the Graph, \<^verbatim>\<open>src/server_engine/project/graph/graph.cpp\<close>: tables of
  fingerprint and handle, of a power-of-two size, probed linearly from the position of the hash. The
  indexes of types, objects, links and derived types are four instances of the same loops.
\<close>

section \<open>Slots and probing\<close>

record index_slot =
  ix_fingerprint :: u32
  ix_handle :: nat

definition fold32 :: "u64 \<Rightarrow> u32" where
  "fold32 v = (let result = ucast (v XOR drop_bit 32 v) in if result = 0 then 1 else result)"

definition index_home :: "'a list \<Rightarrow> u64 \<Rightarrow> nat" where
  "index_home slots hash = unat hash AND (length slots - 1)"

definition index_next :: "'a list \<Rightarrow> nat \<Rightarrow> nat" where
  "index_next slots position = (position + 1) AND (length slots - 1)"

text \<open>
  The position of the first slot that stops a probe. After as many rounds as there are slots every slot has
  been seen, and the loop would see them again.
\<close>

primrec probe :: "nat \<Rightarrow> ('a \<Rightarrow> bool) \<Rightarrow> 'a list \<Rightarrow> nat \<Rightarrow> nat option" where
  "probe 0 stop slots position = None"
| "probe (Suc rounds) stop slots position =
     (if stop (slots ! position) then Some position else probe rounds stop slots (index_next slots position))"

text \<open>A slot stops a probe when it is empty or holds the key looked for.\<close>

definition stops :: "u64 \<Rightarrow> (nat \<Rightarrow> bool) \<Rightarrow> index_slot \<Rightarrow> bool" where
  "stops hash same_key slot \<longleftrightarrow>
     ix_handle slot = 0 \<or> ix_fingerprint slot = fold32 hash \<and> same_key (ix_handle slot)"

text \<open>Lookup; handle 0 means absent.\<close>

definition index_find :: "u64 \<Rightarrow> (nat \<Rightarrow> bool) \<Rightarrow> index_slot list \<Rightarrow> nat" where
  "index_find hash same_key slots =
     (if slots = [] then 0
      else (case probe (length slots) (stops hash same_key) slots (index_home slots hash) of
              None \<Rightarrow> 0
            | Some position \<Rightarrow> ix_handle (slots ! position)))"

text \<open>Insertion; \<^const>\<open>None\<close> when the loop finds no slot and so never ends.\<close>

definition index_insert :: "u64 \<Rightarrow> (nat \<Rightarrow> bool) \<Rightarrow> nat \<Rightarrow> index_slot list \<Rightarrow> index_slot list option" where
  "index_insert hash same_key handle slots =
     (case probe (length slots) (stops hash same_key) slots (index_home slots hash) of
        None \<Rightarrow> None
      | Some position \<Rightarrow>
          if ix_handle (slots ! position) = 0
          then Some (slots[position := \<lparr>ix_fingerprint = fold32 hash, ix_handle = handle\<rparr>])
          else Some slots)"

section \<open>The probe sequence\<close>

definition power_of_two :: "nat \<Rightarrow> bool" where
  "power_of_two n \<longleftrightarrow> (\<exists>k. n = 2 ^ k)"

lemma mask_mod: "power_of_two n \<Longrightarrow> a AND (n - 1) = a mod n" for a :: nat
  using take_bit_eq_mask [of _ a] by (auto simp: power_of_two_def take_bit_eq_mod mask_eq_exp_minus_1)

lemma index_positions:
  assumes "power_of_two (length slots)"
  shows "index_home slots hash = unat hash mod length slots" "index_next slots p = Suc p mod length slots"
  using mask_mod [OF assms] by (simp_all add: index_home_def index_next_def)

text \<open>The slot seen in round \<open>j\<close> of a probe that starts at \<open>p\<close>.\<close>

definition seen :: "'a list \<Rightarrow> nat \<Rightarrow> nat \<Rightarrow> 'a" where
  "seen slots p j = slots ! ((p + j) mod length slots)"

lemma probe_first:
  assumes "power_of_two (length slots)" "p < length slots"
  shows "(case probe n stop slots p of
      None \<Rightarrow> \<forall>j < n. \<not> stop (seen slots p j)
    | Some q \<Rightarrow> \<exists>j < n. q = (p + j) mod length slots \<and> stop (slots ! q) \<and> (\<forall>i < j. \<not> stop (seen slots p i)))"
  using assms(2)
proof (induction n arbitrary: p)
  case 0
  then show ?case by simp
next
  case (Suc n)
  let ?n = "length slots"
  show ?case
  proof (cases "stop (slots ! p)")
    case True
    then show ?thesis using Suc.prems by (auto intro!: exI [of _ 0])
  next
    case False
    let ?p = "Suc p mod ?n"
    have next_p: "index_next slots p = ?p" by (rule index_positions(2) [OF assms(1)])
    have "?p < ?n" using Suc.prems by (intro mod_less_divisor) linarith
    note IH = Suc.IH [OF this]
    have shift: "seen slots ?p j = seen slots p (Suc j)" for j
      by (simp add: seen_def mod_add_left_eq)
    have zero: "\<not> stop (seen slots p 0)" using False Suc.prems by (simp add: seen_def)
    show ?thesis
    proof (cases "probe n stop slots ?p")
      case None
      have "\<not> stop (seen slots p j)" if "j < Suc n" for j
        using that zero IH None shift by (cases j) auto
      then show ?thesis using None False next_p by simp
    next
      case (Some q)
      then obtain j where j: "j < n" "q = (?p + j) mod ?n" "stop (slots ! q)" "\<forall>i < j. \<not> stop (seen slots ?p i)"
        using IH by auto
      have "\<not> stop (seen slots p i)" if "i < Suc j" for i using that zero j(4) shift by (cases i) auto
      moreover have "q = (p + Suc j) mod ?n" using j(2) by (simp add: mod_add_left_eq)
      ultimately show ?thesis using Some False next_p j(1,3) by (auto intro!: exI [of _ "Suc j"])
    qed
  qed
qed

section \<open>The invariant\<close>

text \<open>The nonempty slots before position \<open>p\<close> on the way from the home of the hash lead a probe to \<open>p\<close>.\<close>

definition led_to :: "index_slot list \<Rightarrow> u64 \<Rightarrow> nat \<Rightarrow> bool" where
  "led_to slots hash p \<longleftrightarrow>
     (\<exists>d < length slots. p = (index_home slots hash + d) mod length slots \<and>
        (\<forall>i < d. ix_handle (seen slots (index_home slots hash) i) \<noteq> 0))"

definition slot_ok :: "(nat \<Rightarrow> u64) \<Rightarrow> index_slot list \<Rightarrow> nat set \<Rightarrow> nat \<Rightarrow> bool" where
  "slot_ok hash_of slots H p \<longleftrightarrow> ix_handle (slots ! p) \<noteq> 0 \<longrightarrow>
     ix_handle (slots ! p) \<in> H \<and> ix_fingerprint (slots ! p) = fold32 (hash_of (ix_handle (slots ! p))) \<and>
     led_to slots (hash_of (ix_handle (slots ! p))) p"

definition probe_inv :: "(nat \<Rightarrow> u64) \<Rightarrow> index_slot list \<Rightarrow> nat set \<Rightarrow> bool" where
  "probe_inv hash_of slots H \<longleftrightarrow> power_of_two (length slots) \<and> 0 \<notin> H \<and>
     (\<forall>p < length slots. slot_ok hash_of slots H p) \<and>
     (\<forall>h \<in> H. \<exists>p < length slots. ix_handle (slots ! p) = h) \<and>
     (\<forall>p < length slots. \<forall>q < length slots. ix_handle (slots ! p) \<noteq> 0 \<longrightarrow> ix_handle (slots ! p) = ix_handle (slots ! q) \<longrightarrow> p = q)"

lemma probe_invD:
  assumes "probe_inv hash_of slots H"
  shows "power_of_two (length slots)" "0 \<notin> H" "slots \<noteq> []" "p < length slots \<Longrightarrow> slot_ok hash_of slots H p"
    "h \<in> H \<Longrightarrow> \<exists>p < length slots. ix_handle (slots ! p) = h"
    "p < length slots \<Longrightarrow> q < length slots \<Longrightarrow> ix_handle (slots ! p) \<noteq> 0 \<Longrightarrow> ix_handle (slots ! p) = ix_handle (slots ! q) \<Longrightarrow> p = q"
    "index_home slots hash < length slots"
proof -
  show pow: "power_of_two (length slots)" and "0 \<notin> H" using assms by (simp_all add: probe_inv_def)
  then show ne: "slots \<noteq> []" by (auto simp: power_of_two_def)
  show "index_home slots hash < length slots" using ne by (simp add: index_positions(1) [OF pow])
qed (use assms in \<open>unfold probe_inv_def, blast+\<close>)

lemma index_find_hit:
  assumes inv: "probe_inv hash_of slots H" and h: "h \<in> H" "hash = hash_of h"
    and key: "\<And>g. g \<in> H \<Longrightarrow> same_key g \<longleftrightarrow> g = h"
  shows "index_find hash same_key slots = h"
proof -
  note D = probe_invD [OF inv]
  let ?n = "length slots" and ?home = "index_home slots hash" and ?stop = "stops hash same_key"
  obtain p where p: "p < ?n" "ix_handle (slots ! p) = h" using D(5) h(1) by blast
  have nz: "h \<noteq> 0" using D(2) h(1) by metis
  with p D(4) [of p] h have ok: "ix_fingerprint (slots ! p) = fold32 hash" "led_to slots hash p" by (simp_all add: slot_ok_def)
  then obtain d where d: "d < ?n" "p = (?home + d) mod ?n" "\<forall>i < d. ix_handle (seen slots ?home i) \<noteq> 0"
    unfolding led_to_def by blast
  have hit: "?stop (seen slots ?home d)" using p ok(1) key [OF h(1)] d(2) by (simp add: stops_def seen_def)
  have in_H: "ix_handle (slots ! q) \<in> H" if "q < ?n" "ix_handle (slots ! q) \<noteq> 0" for q
    using D(4) [OF that(1)] that(2) by (simp add: slot_ok_def)
  note first = probe_first [OF D(1,7), of ?n ?stop hash]
  show ?thesis
  proof (cases "probe ?n ?stop slots ?home")
    case None
    then show ?thesis using first hit d(1) by auto
  next
    case (Some q)
    then obtain j where j: "q = (?home + j) mod ?n" "?stop (slots ! q)" "\<forall>i < j. \<not> ?stop (seen slots ?home i)"
      using first by auto
    have "j \<le> d" using j(3) hit not_le by blast
    have q: "q < ?n" using j(1) p(1) by (metis length_greater_0_conv mod_less_divisor neq0_conv not_less0 list.size(3))
    have "ix_handle (slots ! q) = h"
    proof (cases "j = d")
      case False
      then have "ix_handle (slots ! q) \<noteq> 0" using \<open>j \<le> d\<close> d(3) j(1) by (simp add: seen_def)
      then show ?thesis using j(2) key [OF in_H [OF q]] by (simp add: stops_def)
    qed (use j(1) d(2) p(2) in simp)
    then show ?thesis using Some D(3) by (simp add: index_find_def)
  qed
qed

lemma index_find_miss:
  assumes inv: "probe_inv hash_of slots H" and key: "\<And>g. g \<in> H \<Longrightarrow> \<not> same_key g"
  shows "index_find hash same_key slots = 0"
proof -
  note D = probe_invD [OF inv]
  note first = probe_first [OF D(1,7), of "length slots" "stops hash same_key" hash]
  show ?thesis
  proof (cases "probe (length slots) (stops hash same_key) slots (index_home slots hash)")
    case (Some q)
    then obtain j where q: "q = (index_home slots hash + j) mod length slots" "stops hash same_key (slots ! q)"
      using first by auto
    then have "q < length slots" using D(3) by simp
    then have "ix_handle (slots ! q) = 0" using D(4) [of q] q(2) key by (auto simp: slot_ok_def stops_def)
    then show ?thesis using Some by (simp add: index_find_def)
  qed (simp add: index_find_def)
qed

text \<open>An empty slot ends every probe.\<close>

definition free_slots :: "index_slot list \<Rightarrow> nat" where
  "free_slots slots = length (filter (\<lambda>s. ix_handle s = 0) slots)"

lemma every_slot_seen:
  assumes "p < n" "q < (n :: nat)"
  shows "\<exists>j < n. (p + j) mod n = q"
proof (cases "p \<le> q")
  case True
  then show ?thesis using assms by (intro exI [of _ "q - p"]) auto
next
  case False
  then show ?thesis using assms by (intro exI [of _ "n - p + q"]) (auto simp: mod_if)
qed

lemma led_to_update:
  assumes "led_to slots hash p" "ix_handle s \<noteq> 0" "q < length slots"
  shows "led_to (slots[q := s]) hash p"
proof -
  have "ix_handle (seen (slots[q := s]) k i) \<noteq> 0" if "ix_handle (seen slots k i) \<noteq> 0" for k i
    using that assms(2,3) by (cases "q = (k + i) mod length slots") (auto simp: seen_def)
  then show ?thesis using assms(1) by (auto simp: led_to_def index_home_def)
qed

lemma index_insert_ends:
  fixes hash :: u64 and same_key :: "nat \<Rightarrow> bool" and s :: index_slot
  assumes pow: "power_of_two (length slots)" and free: "0 < free_slots slots"
  defines "home \<equiv> index_home slots hash" and "stop \<equiv> stops hash same_key"
  obtains q j where "probe (length slots) stop slots home = Some q" "j < length slots" "q = (home + j) mod length slots"
    "stop (slots ! q)" "\<forall>i < j. \<not> stop (seen slots home i)" "q < length slots" "free_slots slots \<le> Suc (free_slots (slots[q := s]))"
proof -
  let ?n = "length slots"
  have ne: "slots \<noteq> []" using pow by (auto simp: power_of_two_def)
  have home: "home < ?n" using ne by (simp add: home_def index_positions(1) [OF pow])
  note first = probe_first [OF pow home, of ?n stop]
  obtain e where e: "e < ?n" "ix_handle (slots ! e) = 0"
    using free by (fastforce simp: free_slots_def length_greater_0_conv filter_empty_conv in_set_conv_nth)
  obtain j where "j < ?n" "(home + j) mod ?n = e" using every_slot_seen [OF home e(1)] by blast
  then have "\<exists>j < ?n. stop (seen slots home j)" using e(2) by (auto simp: stop_def stops_def seen_def)
  then have "probe ?n stop slots home \<noteq> None" using first by (auto split: option.splits)
  then obtain q j where q: "probe ?n stop slots home = Some q" "j < ?n" "q = (home + j) mod ?n" "stop (slots ! q)"
    "\<forall>i < j. \<not> stop (seen slots home i)" using first by auto
  have q_less: "q < ?n" using q(3) ne by simp
  have "slots = take q slots @ slots ! q # drop (Suc q) slots" using q_less by (simp add: id_take_nth_drop)
  then have "free_slots slots = free_slots (take q slots @ slots ! q # drop (Suc q) slots)" by simp
  also have "\<dots> \<le> Suc (free_slots (take q slots @ s # drop (Suc q) slots))" by (simp add: free_slots_def)
  finally have "free_slots slots \<le> Suc (free_slots (slots[q := s]))" using q_less by (simp add: upd_conv_take_nth_drop)
  then show thesis using that q q_less by blast
qed

lemma index_insert_some:
  assumes "power_of_two (length slots)" "0 < free_slots slots"
  shows "\<exists>slots'. index_insert hash same_key h slots = Some slots' \<and> length slots' = length slots \<and>
    free_slots slots \<le> Suc (free_slots slots')"
proof -
  obtain q where "probe (length slots) (stops hash same_key) slots (index_home slots hash) = Some q"
    "free_slots slots \<le> Suc (free_slots (slots[q := \<lparr>ix_fingerprint = fold32 hash, ix_handle = h\<rparr>]))"
    using index_insert_ends [OF assms, where hash = hash and same_key = same_key] by metis
  then show ?thesis by (auto simp: index_insert_def)
qed

lemma index_insert_ok:
  assumes inv: "probe_inv hash_of slots H" and free: "0 < free_slots slots"
    and h: "h \<notin> H" "h \<noteq> 0" and key: "\<And>g. g \<in> H \<Longrightarrow> \<not> same_key g"
    and slots': "index_insert (hash_of h) same_key h slots = Some slots'"
  shows "probe_inv hash_of slots' (insert h H)"
proof -
  note D = probe_invD [OF inv]
  let ?n = "length slots" and ?home = "index_home slots (hash_of h)" and ?stop = "stops (hash_of h) same_key"
  obtain q j where q: "probe ?n ?stop slots ?home = Some q" "j < ?n" "q = (?home + j) mod ?n" "?stop (slots ! q)"
    "\<forall>i < j. \<not> ?stop (seen slots ?home i)" and q_less: "q < ?n" 
    using index_insert_ends [OF D(1) free, where hash = "hash_of h" and same_key = same_key] by metis
  have empty: "ix_handle (slots ! q) = 0" using D(4) [OF q_less] q(4) key by (auto simp: slot_ok_def stops_def)
  let ?s = "\<lparr>ix_fingerprint = fold32 (hash_of h), ix_handle = h\<rparr>"
  let ?slots = "slots[q := ?s]"
  have "led_to slots (hash_of h) q" using q(2,3,5) by (auto simp: led_to_def stops_def)
  then have led: "led_to ?slots (hash_of h) q" using h(2) q_less by (intro led_to_update) simp_all
  have "slot_ok hash_of ?slots (insert h H) p" if "p < ?n" for p
  proof (cases "p = q")
    case False
    have "led_to ?slots hash p" if "led_to slots hash p" for hash using led_to_update [OF that _ q_less, of ?s] h(2) by simp
    then show ?thesis using False D(4) [OF that] by (auto simp: slot_ok_def)
  qed (use led q_less in \<open>simp add: slot_ok_def\<close>)
  moreover have "\<exists>p < ?n. ix_handle (?slots ! p) = g" if g: "g \<in> insert h H" for g
  proof (cases "g = h")
    case False
    then obtain p where p: "p < ?n" "ix_handle (slots ! p) = g" using g D(5) by blast
    moreover have "p \<noteq> q" using p(2) empty g False D(2) by auto
    ultimately show ?thesis by auto
  qed (use q_less in auto)
  moreover have "p = r" if pr: "p < ?n" "r < ?n" "ix_handle (?slots ! p) \<noteq> 0" "ix_handle (?slots ! p) = ix_handle (?slots ! r)" for p r
  proof -
    have other: "ix_handle (slots ! x) \<noteq> h" if "x < ?n" for x using D(4) [OF that] h by (auto simp: slot_ok_def)
    show ?thesis
      using pr D(6) [of p r] other [of p] other [of r] q_less by (cases "p = q"; cases "r = q") auto
  qed
  ultimately have "probe_inv hash_of ?slots (insert h H)" using D(1,2) h(2) by (simp add: probe_inv_def)
  then show ?thesis using q(1) empty slots' by (simp add: index_insert_def)
qed

lemma probe_inv_hash_cong:
  assumes "probe_inv f slots H" "\<And>h. h \<in> H \<Longrightarrow> g h = f h"
  shows "probe_inv g slots H"
proof -
  have "slot_ok g slots H p" if "slot_ok f slots H p" for p
    using that assms(2) by (auto simp: slot_ok_def)
  then show ?thesis using assms(1) by (simp add: probe_inv_def)
qed

end
