(* ===== verification/Graph.thy ===== *)
theory Graph
  imports Construction_Value Identity_Space Probe_Index
begin

text \<open>
  The semantic Graph, \<^verbatim>\<open>src/server_engine/project/graph/graph.cpp\<close>: types, members, objects and links in arrays
  named by one-based handles, canonical type expressions named by index, and the indexes that find a handle
  by identity or link target. The arrays are lists: the model is a Graph without a mapped baseline, whose
  reads never fail.
\<close>

section \<open>Records\<close>

datatype intrinsic_type =
    it_none | it_void | it_bool | it_char | it_signed_char | it_unsigned_char | it_wchar | it_char8 | it_char16
  | it_char32 | it_signed_short | it_unsigned_short | it_signed_int | it_unsigned_int | it_signed_long
  | it_unsigned_long | it_signed_long_long | it_unsigned_long_long | it_float | it_double | it_long_double | it_nullptr

definition intrinsic_types :: "intrinsic_type list" where
  "intrinsic_types =
     [it_none, it_void, it_bool, it_char, it_signed_char, it_unsigned_char, it_wchar, it_char8, it_char16, it_char32,
      it_signed_short, it_unsigned_short, it_signed_int, it_unsigned_int, it_signed_long, it_unsigned_long,
      it_signed_long_long, it_unsigned_long_long, it_float, it_double, it_long_double, it_nullptr]"

text \<open>A stored code that no enumerator has reads as \<^const>\<open>it_none\<close>.\<close>

definition intrinsic_of_code :: "nat \<Rightarrow> intrinsic_type" where
  "intrinsic_of_code n = (if n < length intrinsic_types then intrinsic_types ! n else it_none)"

datatype graph_type_kind = gk_record | gk_enumeration

datatype source_record_kind = rk_struct | rk_class | rk_union

datatype source_member_access = ma_public | ma_protected | ma_private

datatype canonical_type_kind = tk_intrinsic | tk_named | tk_derived

datatype derived_type_kind =
    dk_const | dk_volatile | dk_pointer | dk_lvalue_reference | dk_rvalue_reference | dk_bounded_array
  | dk_unbounded_array | dk_other nat

definition derived_of_code :: "nat \<Rightarrow> derived_type_kind" where
  "derived_of_code n =
     (if n < 7 then [dk_const, dk_volatile, dk_pointer, dk_lvalue_reference, dk_rvalue_reference, dk_bounded_array,
        dk_unbounded_array] ! n else dk_other n)"

record type_entry =
  te_begin :: nat
  te_count :: nat
  te_kind :: graph_type_kind
  te_record_kind :: source_record_kind
  te_underlying :: intrinsic_type
  te_flags :: u8

definition te_defined :: "type_entry \<Rightarrow> bool" where
  "te_defined e \<longleftrightarrow> te_begin e \<noteq> 0"

definition te_live :: "type_entry \<Rightarrow> bool" where
  "te_live e \<longleftrightarrow> te_flags e AND 0x80 \<noteq> 0"

record member_record =
  mr_name :: u32
  mr_type :: nat
  mr_access :: source_member_access
  mr_construction :: construction_value

record enum_value_record =
  ev_bits :: u64
  ev_name :: u32
  ev_intrinsic :: intrinsic_type

record object_entry =
  oe_type :: nat
  oe_flags :: u32

definition oe_live :: "object_entry \<Rightarrow> bool" where
  "oe_live e \<longleftrightarrow> oe_flags e AND 0x80000000 \<noteq> 0"

text \<open>A member index is valid below its sentinel.\<close>

definition invalid_member :: nat where "invalid_member = 0xffffffff"

record object_endpoint =
  ep_object :: nat
  ep_member :: nat

record link_record =
  ln_source :: object_endpoint
  ln_target :: object_endpoint

definition ln_live :: "link_record \<Rightarrow> bool" where
  "ln_live l \<longleftrightarrow> ep_object (ln_source l) \<noteq> 0 \<and> ep_object (ln_target l) \<noteq> 0"

record canonical_type_record =
  ct_payload :: u64
  ct_child :: nat
  ct_kind :: canonical_type_kind
  ct_detail :: nat

record derived_type_record =
  dt_payload :: u64
  dt_child :: nat
  dt_kind :: derived_type_kind

record dependency_edge =
  de_owner :: nat
  de_next :: nat
  de_version :: nat

record graph =
  gr_types :: "type_entry list"
  gr_identities :: "u32 list"
  gr_members :: "member_record list"
  gr_enum_values :: "enum_value_record list"
  gr_objects :: "object_entry list"
  gr_object_identities :: "u32 list"
  gr_links :: "link_record list"
  gr_canonical :: "canonical_type_record list"
  gr_identity_index :: "index_slot list"
  gr_object_index :: "index_slot list"
  gr_link_index :: "index_slot list"
  gr_intrinsic_refs :: "nat list"
  gr_named_refs :: "nat list"
  gr_derived_index :: "index_slot list"
  gr_derived_entries :: nat
  gr_versions :: "nat list"
  gr_heads :: "nat list"
  gr_edges :: "dependency_edge list"
  gr_live_types :: nat
  gr_live_objects :: nat
  gr_live_links :: nat

section \<open>Hashes and indexes\<close>

definition identity_hash :: "u32 \<Rightarrow> u64" where
  "identity_hash identity = mix64 (ucast identity)"

definition endpoint_hash :: "object_endpoint \<Rightarrow> u64" where
  "endpoint_hash e = mix64 (push_bit 32 (of_nat (ep_object e)) XOR of_nat (ep_member e))"

definition derived_hash :: "nat \<Rightarrow> nat \<Rightarrow> u64 \<Rightarrow> u64" where
  "derived_hash kind child payload =
     mix64 (push_bit 56 (of_nat kind) XOR push_bit 16 (of_nat child) XOR mix64 payload)"

text \<open>The check that a slot's handle stands for the key; the index of types and that of objects share it.\<close>

definition same_identity :: "u32 list \<Rightarrow> u32 \<Rightarrow> nat \<Rightarrow> bool" where
  "same_identity identities identity handle \<longleftrightarrow> handle \<le> length identities \<and> identities ! (handle - 1) = identity"

definition same_target :: "link_record list \<Rightarrow> object_endpoint \<Rightarrow> nat \<Rightarrow> bool" where
  "same_target links target handle \<longleftrightarrow> handle \<le> length links \<and> ln_target (links ! (handle - 1)) = target"

definition insert_identity_index :: "u32 list \<Rightarrow> u32 \<Rightarrow> nat \<Rightarrow> index_slot list \<Rightarrow> index_slot list option" where
  "insert_identity_index identities identity handle =
     index_insert (identity_hash identity) (same_identity identities identity) handle"

definition insert_object_identity_index :: "u32 list \<Rightarrow> u32 \<Rightarrow> nat \<Rightarrow> index_slot list \<Rightarrow> index_slot list option" where
  "insert_object_identity_index identities identity handle =
     index_insert (identity_hash identity) (same_identity identities identity) handle"

definition insert_link_index :: "link_record list \<Rightarrow> object_endpoint \<Rightarrow> nat \<Rightarrow> index_slot list \<Rightarrow> index_slot list option" where
  "insert_link_index links target handle = index_insert (endpoint_hash target) (same_target links target) handle"

definition insert_derived_index :: "canonical_type_record list \<Rightarrow> nat \<Rightarrow> index_slot list \<Rightarrow> index_slot list option" where
  "insert_derived_index canonical type_ref =
     (let r = canonical ! type_ref
      in index_insert (derived_hash (ct_detail r) (ct_child r) (ct_payload r)) (\<lambda>_. False) type_ref)"

section \<open>Queries\<close>

definition type_at :: "graph \<Rightarrow> nat \<Rightarrow> nat" where
  "type_at g index =
     (if index \<ge> length (gr_types g) \<or> index \<ge> 0xffffffff then 0
      else if te_live (gr_types g ! index) then index + 1 else 0)"

definition find_raw :: "graph \<Rightarrow> nat \<Rightarrow> type_entry option" where
  "find_raw g handle = (if handle = 0 \<or> handle > length (gr_types g) then None else Some (gr_types g ! (handle - 1)))"

definition find_entry :: "graph \<Rightarrow> nat \<Rightarrow> type_entry option" where
  "find_entry g handle =
     (case find_raw g handle of None \<Rightarrow> None | Some e \<Rightarrow> if te_live e then Some e else None)"

definition identity_raw :: "graph \<Rightarrow> nat \<Rightarrow> u32" where
  "identity_raw g handle = (if handle = 0 \<or> handle > length (gr_identities g) then 0 else gr_identities g ! (handle - 1))"

definition type_identity :: "graph \<Rightarrow> nat \<Rightarrow> u32" where
  "type_identity g handle =
     (if handle = 0 \<or> handle > length (gr_types g) then 0
      else if \<not> te_live (gr_types g ! (handle - 1)) then 0 else identity_raw g handle)"

definition find_identity :: "graph \<Rightarrow> u32 \<Rightarrow> nat" where
  "find_identity g identity =
     (if \<not> ref_valid identity \<or> gr_identity_index g = [] then 0
      else index_find (identity_hash identity) (same_identity (gr_identities g) identity) (gr_identity_index g))"

definition find_type :: "graph \<Rightarrow> u32 \<Rightarrow> nat" where
  "find_type g identity =
     (let handle = find_identity g identity in
      if handle = 0 then 0 else if te_live (gr_types g ! (handle - 1)) then handle else 0)"

definition definition_span :: "'a list \<Rightarrow> type_entry \<Rightarrow> 'a list" where
  "definition_span xs e =
     (let start = te_begin e - 1; count = te_count e in
      if start > length xs \<or> count > length xs - start \<or> count = 0 then [] else take count (drop start xs))"

definition members :: "graph \<Rightarrow> nat \<Rightarrow> member_record list" where
  "members g handle =
     (case find_entry g handle of
        None \<Rightarrow> []
      | Some e \<Rightarrow> if te_kind e \<noteq> gk_record \<or> \<not> te_defined e then [] else definition_span (gr_members g) e)"

definition enum_values :: "graph \<Rightarrow> nat \<Rightarrow> enum_value_record list" where
  "enum_values g handle =
     (case find_entry g handle of
        None \<Rightarrow> []
      | Some e \<Rightarrow> if te_kind e \<noteq> gk_enumeration \<or> \<not> te_defined e then [] else definition_span (gr_enum_values g) e)"

primrec find_name :: "member_record list \<Rightarrow> u32 \<Rightarrow> nat \<Rightarrow> nat" where
  "find_name [] name index = invalid_member"
| "find_name (m # ms) name index = (if mr_name m = name \<and> index \<le> 0xffffffff then index else find_name ms name (Suc index))"

definition find_member :: "graph \<Rightarrow> nat \<Rightarrow> u32 \<Rightarrow> nat" where
  "find_member g handle name =
     (if handle = 0 \<or> name = 0 \<or> handle > length (gr_types g) then invalid_member
      else
        let e = gr_types g ! (handle - 1) in
        if \<not> te_live e \<or> te_kind e \<noteq> gk_record \<or> \<not> te_defined e then invalid_member
        else
          let start = te_begin e - 1; count = te_count e in
          if start > length (gr_members g) \<or> count > length (gr_members g) - start then invalid_member
          else find_name (take count (drop start (gr_members g))) name 0)"

definition object_at :: "graph \<Rightarrow> nat \<Rightarrow> nat" where
  "object_at g index =
     (if index \<ge> length (gr_objects g) \<or> index \<ge> 0xffffffff then 0
      else if oe_live (gr_objects g ! index) then index + 1 else 0)"

definition find_object_entry :: "graph \<Rightarrow> nat \<Rightarrow> object_entry option" where
  "find_object_entry g handle =
     (if handle = 0 \<or> handle > length (gr_objects g) then None
      else if oe_live (gr_objects g ! (handle - 1)) then Some (gr_objects g ! (handle - 1)) else None)"

definition object_type :: "graph \<Rightarrow> nat \<Rightarrow> nat option" where
  "object_type g handle =
     (case find_object_entry g handle of None \<Rightarrow> None | Some e \<Rightarrow> if oe_type e \<noteq> 0 then Some (oe_type e) else None)"

definition object_identity :: "graph \<Rightarrow> nat \<Rightarrow> u32" where
  "object_identity g handle =
     (if handle = 0 \<or> handle > length (gr_objects g) \<or> handle > length (gr_object_identities g) then 0
      else if \<not> oe_live (gr_objects g ! (handle - 1)) then 0 else gr_object_identities g ! (handle - 1))"

definition find_object_identity :: "graph \<Rightarrow> u32 \<Rightarrow> nat" where
  "find_object_identity g identity =
     (if \<not> ref_valid identity \<or> gr_object_index g = [] then 0
      else index_find (identity_hash identity) (same_identity (gr_object_identities g) identity) (gr_object_index g))"

definition find_object :: "graph \<Rightarrow> u32 \<Rightarrow> nat" where
  "find_object g identity =
     (let handle = find_object_identity g identity in
      if handle = 0 then 0 else if oe_live (gr_objects g ! (handle - 1)) then handle else 0)"

definition find_link_entry :: "graph \<Rightarrow> nat \<Rightarrow> link_record option" where
  "find_link_entry g handle =
     (if handle = 0 \<or> handle > length (gr_links g) then None
      else if ln_live (gr_links g ! (handle - 1)) then Some (gr_links g ! (handle - 1)) else None)"

definition find_link_raw :: "graph \<Rightarrow> object_endpoint \<Rightarrow> nat" where
  "find_link_raw g target =
     (if ep_object target = 0 \<or> ep_member target = invalid_member \<or> gr_link_index g = [] then 0
      else index_find (endpoint_hash target) (same_target (gr_links g) target) (gr_link_index g))"

definition find_link :: "graph \<Rightarrow> object_endpoint \<Rightarrow> nat" where
  "find_link g target =
     (let handle = find_link_raw g target in
      if handle = 0 then 0 else if ln_live (gr_links g ! (handle - 1)) then handle else 0)"

definition canonical_at :: "graph \<Rightarrow> nat \<Rightarrow> canonical_type_record option" where
  "canonical_at g t = (if t = 0 \<or> t \<ge> length (gr_canonical g) then None else Some (gr_canonical g ! t))"

definition type_kind :: "graph \<Rightarrow> nat \<Rightarrow> canonical_type_kind" where
  "type_kind g t = (case canonical_at g t of None \<Rightarrow> tk_intrinsic | Some r \<Rightarrow> ct_kind r)"

definition intrinsic :: "graph \<Rightarrow> nat \<Rightarrow> intrinsic_type option" where
  "intrinsic g t =
     (case canonical_at g t of
        None \<Rightarrow> None
      | Some r \<Rightarrow> if ct_kind r \<noteq> tk_intrinsic then None else Some (intrinsic_of_code (ct_detail r)))"

definition named_raw :: "graph \<Rightarrow> nat \<Rightarrow> nat option" where
  "named_raw g t =
     (case canonical_at g t of
        None \<Rightarrow> None
      | Some r \<Rightarrow>
          if ct_kind r \<noteq> tk_named \<or> ct_child r = 0 \<or> ct_child r > length (gr_types g) then None else Some (ct_child r))"

definition named :: "graph \<Rightarrow> nat \<Rightarrow> nat option" where
  "named g t =
     (case named_raw g t of
        None \<Rightarrow> None
      | Some handle \<Rightarrow> if te_live (gr_types g ! (handle - 1)) then Some handle else None)"

definition derived :: "graph \<Rightarrow> nat \<Rightarrow> derived_type_record option" where
  "derived g t =
     (case canonical_at g t of
        None \<Rightarrow> None
      | Some r \<Rightarrow>
          if ct_kind r \<noteq> tk_derived \<or> ct_child r = 0 \<or> ct_child r \<ge> length (gr_canonical g) then None
          else Some \<lparr>dt_payload = ct_payload r, dt_child = ct_child r, dt_kind = derived_of_code (ct_detail r)\<rparr>)"

section \<open>Publication\<close>

text \<open>
  A prepared mutation: entries to replace, named by handle, and entries to append. \<open>pu_edges\<close> holds target,
  owner and version of the dependencies to add.
\<close>

record prepared_graph_update =
  pu_type_patches :: "(nat \<times> type_entry) list"
  pu_new_types :: "type_entry list"
  pu_new_identities :: "u32 list"
  pu_object_patches :: "(nat \<times> object_entry) list"
  pu_new_objects :: "object_entry list"
  pu_new_object_identities :: "u32 list"
  pu_link_patches :: "(nat \<times> link_record) list"
  pu_new_links :: "link_record list"
  pu_members :: "member_record list"
  pu_enum_values :: "enum_value_record list"
  pu_canonical :: "canonical_type_record list"
  pu_intrinsic_refs :: "nat list"
  pu_named_ref_patches :: "(nat \<times> nat) list"
  pu_version_patches :: "(nat \<times> nat) list"
  pu_edges :: "(nat \<times> nat \<times> nat) list"
  pu_identity_index :: "index_slot list option"
  pu_object_index :: "index_slot list option"
  pu_link_index :: "index_slot list option"
  pu_derived_index :: "index_slot list option"
  pu_derived_entries :: nat
  pu_live_types :: nat
  pu_live_objects :: nat
  pu_live_links :: nat

text \<open>\<open>pu_identity_index\<close> and its like are the rebuilt index when the replace flag is set.\<close>

definition apply_patches :: "(nat \<times> 'a) list \<Rightarrow> 'a list \<Rightarrow> 'a list" where
  "apply_patches patches xs = foldl (\<lambda>xs (handle, v). xs[handle - 1 := v]) xs patches"

definition apply_ref_patches :: "(nat \<times> 'a) list \<Rightarrow> 'a list \<Rightarrow> 'a list" where
  "apply_ref_patches patches xs = foldl (\<lambda>xs (handle, v). xs[handle := v]) xs patches"

text \<open>The loops that enter new keys under consecutive handles.\<close>

primrec insert_new :: "('k \<Rightarrow> nat \<Rightarrow> index_slot list \<Rightarrow> index_slot list option) \<Rightarrow> nat \<Rightarrow> 'k list \<Rightarrow> index_slot list \<Rightarrow> index_slot list option" where
  "insert_new ins base [] slots = Some slots"
| "insert_new ins base (k # ks) slots =
     (case ins k (to_u32 (base + 1)) slots of None \<Rightarrow> None | Some slots' \<Rightarrow> insert_new ins (Suc base) ks slots')"

primrec insert_new_derived :: "canonical_type_record list \<Rightarrow> nat \<Rightarrow> canonical_type_record list \<Rightarrow> index_slot list \<Rightarrow> index_slot list option" where
  "insert_new_derived canonical base [] slots = Some slots"
| "insert_new_derived canonical base (r # rs) slots =
     (if ct_kind r \<noteq> tk_derived then insert_new_derived canonical (Suc base) rs slots
      else (case insert_derived_index canonical (to_u32 base) slots of
              None \<Rightarrow> None
            | Some slots' \<Rightarrow> insert_new_derived canonical (Suc base) rs slots'))"

definition push_edge :: "nat list \<times> dependency_edge list \<Rightarrow> nat \<times> nat \<times> nat \<Rightarrow> nat list \<times> dependency_edge list" where
  "push_edge = (\<lambda>(heads, edges) (target, owner, version).
     (heads[target - 1 := to_u32 (length edges + 1)],
      edges @ [\<lparr>de_owner = owner, de_next = heads ! (target - 1), de_version = version\<rparr>]))"

text \<open>\<^const>\<open>None\<close> when the insertion into a full index never ends.\<close>

definition publish_update :: "prepared_graph_update \<Rightarrow> graph \<Rightarrow> graph option" where
  "publish_update u g =
     (let identities = gr_identities g @ pu_new_identities u;
          object_identities = gr_object_identities g @ pu_new_object_identities u;
          canonical = gr_canonical g @ pu_canonical u;
          links = apply_patches (pu_link_patches u) (gr_links g @ pu_new_links u)
      in case (case pu_identity_index u of
            Some index \<Rightarrow> Some index
          | None \<Rightarrow> insert_new (insert_identity_index identities) (length (gr_types g)) (pu_new_identities u) (gr_identity_index g)) of
        None \<Rightarrow> None
      | Some identity_index \<Rightarrow>
          (case (case pu_object_index u of
              Some index \<Rightarrow> Some index
            | None \<Rightarrow> insert_new (insert_object_identity_index object_identities) (length (gr_objects g))
                (pu_new_object_identities u) (gr_object_index g)) of
            None \<Rightarrow> None
          | Some object_index \<Rightarrow>
              (case (case pu_link_index u of
                  Some index \<Rightarrow> Some index
                | None \<Rightarrow> insert_new (insert_link_index links) (length (gr_links g)) (map ln_target (pu_new_links u)) (gr_link_index g)) of
                None \<Rightarrow> None
              | Some link_index \<Rightarrow>
                  (case (case pu_derived_index u of
                      Some index \<Rightarrow> Some index
                    | None \<Rightarrow> insert_new_derived canonical (length (gr_canonical g)) (pu_canonical u) (gr_derived_index g)) of
                    None \<Rightarrow> None
                  | Some derived_index \<Rightarrow>
                      let (heads, edges) = foldl push_edge
                        (gr_heads g @ replicate (length (pu_new_types u)) 0, gr_edges g) (pu_edges u)
                      in Some \<lparr>
                        gr_types = apply_patches (pu_type_patches u) (gr_types g @ pu_new_types u),
                        gr_identities = identities,
                        gr_members = gr_members g @ pu_members u,
                        gr_enum_values = gr_enum_values g @ pu_enum_values u,
                        gr_objects = apply_patches (pu_object_patches u) (gr_objects g @ pu_new_objects u),
                        gr_object_identities = object_identities,
                        gr_links = links,
                        gr_canonical = canonical,
                        gr_identity_index = identity_index,
                        gr_object_index = object_index,
                        gr_link_index = link_index,
                        gr_intrinsic_refs = pu_intrinsic_refs u,
                        gr_named_refs = apply_ref_patches (pu_named_ref_patches u)
                          (gr_named_refs g @ replicate (length (pu_new_types u)) 0),
                        gr_derived_index = derived_index,
                        gr_derived_entries = pu_derived_entries u,
                        gr_versions = apply_patches (pu_version_patches u)
                          (gr_versions g @ replicate (length (pu_new_types u)) 1),
                        gr_heads = heads,
                        gr_edges = edges,
                        gr_live_types = pu_live_types u,
                        gr_live_objects = pu_live_objects u,
                        gr_live_links = pu_live_links u\<rparr>))))"

text \<open>Publication of a complete Graph is a swap; what the owner had goes to the prepared side.\<close>

definition publish_generation :: "graph \<Rightarrow> graph \<Rightarrow> graph \<times> graph" where
  "publish_generation prepared g =
     (prepared,
      g\<lparr>gr_intrinsic_refs := gr_intrinsic_refs prepared, gr_derived_entries := gr_derived_entries prepared,
        gr_live_types := gr_live_types prepared, gr_live_objects := gr_live_objects prepared,
        gr_live_links := gr_live_links prepared\<rparr>)"

end
