(* ===== verification/Graph_Publication.thy ===== *)
theory Graph_Publication
  imports Graph
begin

text \<open>
  What publication of a prepared update does to the Graph: the indexes still find every handle by its identity,
  and the chains of dependencies grow by exactly the edges prepared.
\<close>

section \<open>Indexed identities\<close>

text \<open>Handle \<open>h\<close> stands for the identity at position \<open>h - 1\<close>, and the index holds them all.\<close>

definition identities_indexed :: "u32 list \<Rightarrow> index_slot list \<Rightarrow> bool" where
  "identities_indexed identities index \<longleftrightarrow> distinct identities \<and> (\<forall>i \<in> set identities. ref_valid i) \<and>
     probe_inv (\<lambda>h. identity_hash (identities ! (h - 1))) index {1..length identities}"

definition graph_indexed :: "graph \<Rightarrow> bool" where
  "graph_indexed g \<longleftrightarrow>
     length (gr_types g) = length (gr_identities g) \<and> identities_indexed (gr_identities g) (gr_identity_index g) \<and>
     length (gr_objects g) = length (gr_object_identities g) \<and> identities_indexed (gr_object_identities g) (gr_object_index g)"

lemma same_identity_iff:
  assumes "distinct identities" "g \<in> {1..length identities}" "h \<in> {1..length identities}"
  shows "same_identity identities (identities ! (h - 1)) g \<longleftrightarrow> g = h"
proof -
  have "identities ! (g - 1) = identities ! (h - 1) \<longleftrightarrow> g - 1 = h - 1" using assms by (intro nth_eq_iff_index_eq) auto
  then show ?thesis using assms(2,3) by (auto simp: same_identity_def)
qed

lemma indexed_find:
  assumes "identities_indexed identities index"
  shows "h \<in> {1..length identities} \<Longrightarrow>
      index_find (identity_hash (identities ! (h - 1))) (same_identity identities (identities ! (h - 1))) index = h"
    "i \<notin> set identities \<Longrightarrow> index_find (identity_hash i) (same_identity identities i) index = 0"
    "index \<noteq> []"
proof -
  have inv: "probe_inv (\<lambda>h. identity_hash (identities ! (h - 1))) index {1..length identities}" and d: "distinct identities"
    using assms by (simp_all add: identities_indexed_def)
  show "h \<in> {1..length identities} \<Longrightarrow>
      index_find (identity_hash (identities ! (h - 1))) (same_identity identities (identities ! (h - 1))) index = h"
    using same_identity_iff [OF d] by (intro index_find_hit [OF inv]) simp_all
  show "i \<notin> set identities \<Longrightarrow> index_find (identity_hash i) (same_identity identities i) index = 0"
    by (intro index_find_miss [OF inv]) (auto simp: same_identity_def)
  show "index \<noteq> []" by (rule probe_invD(3) [OF inv])
qed

text \<open>What a Graph with complete indexes answers.\<close>

lemma find_type_indexed:
  assumes "graph_indexed g"
  shows "0 < h \<Longrightarrow> h \<le> length (gr_types g) \<Longrightarrow>
      find_type g (gr_identities g ! (h - 1)) = (if te_live (gr_types g ! (h - 1)) then h else 0)"
    "i \<notin> set (gr_identities g) \<Longrightarrow> find_type g i = 0"
proof -
  have g: "identities_indexed (gr_identities g) (gr_identity_index g)" "length (gr_types g) = length (gr_identities g)"
    using assms by (simp_all add: graph_indexed_def)
  note find = indexed_find [OF g(1)]
  show "find_type g (gr_identities g ! (h - 1)) = (if te_live (gr_types g ! (h - 1)) then h else 0)"
    if "0 < h" "h \<le> length (gr_types g)"
  proof -
    have "ref_valid (gr_identities g ! (h - 1))" using g that by (auto simp: identities_indexed_def)
    then show ?thesis using find(1) [of h] find(3) g(2) that by (simp add: find_type_def find_identity_def Let_def)
  qed
  show "i \<notin> set (gr_identities g) \<Longrightarrow> find_type g i = 0"
    using find(2,3) by (simp add: find_type_def find_identity_def)
qed

lemma find_object_indexed:
  assumes "graph_indexed g"
  shows "0 < h \<Longrightarrow> h \<le> length (gr_objects g) \<Longrightarrow>
      find_object g (gr_object_identities g ! (h - 1)) = (if oe_live (gr_objects g ! (h - 1)) then h else 0)"
    "i \<notin> set (gr_object_identities g) \<Longrightarrow> find_object g i = 0"
proof -
  have g: "identities_indexed (gr_object_identities g) (gr_object_index g)" "length (gr_objects g) = length (gr_object_identities g)"
    using assms by (simp_all add: graph_indexed_def)
  note find = indexed_find [OF g(1)]
  show "find_object g (gr_object_identities g ! (h - 1)) = (if oe_live (gr_objects g ! (h - 1)) then h else 0)"
    if "0 < h" "h \<le> length (gr_objects g)"
  proof -
    have "ref_valid (gr_object_identities g ! (h - 1))" using g that by (auto simp: identities_indexed_def)
    then show ?thesis using find(1) [of h] find(3) g(2) that by (simp add: find_object_def find_object_identity_def Let_def)
  qed
  show "i \<notin> set (gr_object_identities g) \<Longrightarrow> find_object g i = 0"
    using find(2,3) by (simp add: find_object_def find_object_identity_def)
qed

section \<open>Entering new keys\<close>

lemma insert_new_some:
  assumes "\<And>k h s. power_of_two (length s) \<Longrightarrow> 0 < free_slots s \<Longrightarrow>
      \<exists>s'. ins k h s = Some s' \<and> length s' = length s \<and> free_slots s \<le> Suc (free_slots s')"
    and "power_of_two (length slots)" "length ks \<le> free_slots slots"
  shows "\<exists>slots'. insert_new ins base ks slots = Some slots'"
  using assms(2,3)
proof (induction ks arbitrary: base slots)
  case (Cons k ks)
  then obtain s' where "ins k (to_u32 (base + 1)) slots = Some s'" "length s' = length slots" "free_slots slots \<le> Suc (free_slots s')"
    using assms(1) [of slots k "to_u32 (base + 1)"] by auto
  with Cons show ?case by simp
qed simp

lemma insert_new_derived_some:
  assumes "power_of_two (length slots)" "length (filter (\<lambda>r. ct_kind r = tk_derived) rs) \<le> free_slots slots"
  shows "\<exists>slots'. insert_new_derived canonical base rs slots = Some slots'"
  using assms
proof (induction rs arbitrary: base slots)
  case (Cons r rs)
  show ?case
  proof (cases "ct_kind r = tk_derived")
    case True
    then obtain s' where "insert_derived_index canonical (to_u32 base) slots = Some s'" "length s' = length slots"
      "free_slots slots \<le> Suc (free_slots s')"
      using index_insert_some [OF Cons.prems(1)] Cons.prems(2) unfolding insert_derived_index_def Let_def by fastforce
    with Cons True show ?thesis by simp
  qed (use Cons in simp)
qed simp

text \<open>New identities are entered behind those already known.\<close>

lemma insert_new_indexed:
  assumes "identities = done @ new" "distinct identities" "length identities \<le> u32_max"
    and "probe_inv (\<lambda>h. identity_hash (identities ! (h - 1))) slots {1..length done}" "length new \<le> free_slots slots"
    and ins: "ins = (\<lambda>identity handle. index_insert (identity_hash identity) (same_identity identities identity) handle)"
  shows "\<exists>slots'. insert_new ins (length done) new slots = Some slots' \<and>
    probe_inv (\<lambda>h. identity_hash (identities ! (h - 1))) slots' {1..length identities}"
  using assms(1,4,5)
proof (induction new arbitrary: "done" slots)
  case (Cons i new)
  let ?h = "Suc (length done)" and ?hash = "\<lambda>h. identity_hash (identities ! (h - 1))"
  have at: "identities ! (?h - 1) = i" "?h \<in> {1..length identities}" "?h \<notin> {1..length done}" "to_u32 (length done + 1) = ?h"
    using Cons.prems(1) assms(3) by (simp_all add: nth_append)
  have fresh: "\<not> same_identity identities i g" if "g \<in> {1..length done}" for g
    using same_identity_iff [OF assms(2), of g ?h] at that Cons.prems(1) by auto
  have pow: "power_of_two (length slots)" by (rule probe_invD(1) [OF Cons.prems(2)])
  obtain s' where s': "index_insert (?hash ?h) (same_identity identities i) ?h slots = Some s'"
    "free_slots slots \<le> Suc (free_slots s')" using index_insert_some [OF pow] Cons.prems(3) by fastforce
  have "probe_inv ?hash s' (insert ?h {1..length done})"
    using Cons.prems(2,3) at(3) fresh s'(1) by (intro index_insert_ok [where slots = slots and same_key = "same_identity identities i"]) simp_all
  then have inv: "probe_inv ?hash s' {1..length (done @ [i])}" by (simp add: atLeastAtMostSuc_conv)
  have "insert_new ins (length done) (i # new) slots = insert_new ins (length (done @ [i])) new s'"
    using s'(1) at by (simp add: ins)
  then show ?case using Cons.IH [OF _ inv] Cons.prems(1,3) s'(2) by simp
qed simp

lemma publication_indexed:
  assumes "identities_indexed old index" "identities = old @ new" "distinct identities" "\<forall>i \<in> set new. ref_valid i"
    "length identities \<le> u32_max" "length new \<le> free_slots index"
    and "ins = (\<lambda>identity handle. index_insert (identity_hash identity) (same_identity identities identity) handle)"
  shows "\<exists>index'. insert_new ins (length old) new index = Some index' \<and> identities_indexed identities index'"
proof -
  have "probe_inv (\<lambda>h. identity_hash (identities ! (h - 1))) index {1..length old}"
  proof (rule probe_inv_hash_cong)
    show "probe_inv (\<lambda>h. identity_hash (old ! (h - 1))) index {1..length old}" using assms(1) by (simp add: identities_indexed_def)
    show "identity_hash (identities ! (h - 1)) = identity_hash (old ! (h - 1))" if "h \<in> {1..length old}" for h
      using that assms(2) by (auto simp: nth_append)
  qed
  from insert_new_indexed [OF assms(2,3,5) this assms(6,7)] show ?thesis
    using assms(1-4) by (auto simp: identities_indexed_def)
qed

section \<open>Publishing an update\<close>

text \<open>
  What the builder prepares: new identities are new, each index has room for them or is replaced by a complete
  one, and handles stay within 32 bits.
\<close>

definition index_fits :: "u32 list \<Rightarrow> u32 list \<Rightarrow> index_slot list \<Rightarrow> index_slot list option \<Rightarrow> bool" where
  "index_fits old new index rebuilt \<longleftrightarrow>
     distinct (old @ new) \<and> (\<forall>i \<in> set new. ref_valid i) \<and> length (old @ new) \<le> u32_max \<and>
     (case rebuilt of None \<Rightarrow> length new \<le> free_slots index | Some index' \<Rightarrow> identities_indexed (old @ new) index')"

definition update_fits :: "prepared_graph_update \<Rightarrow> graph \<Rightarrow> bool" where
  "update_fits u g \<longleftrightarrow>
     length (pu_new_types u) = length (pu_new_identities u) \<and> length (pu_new_objects u) = length (pu_new_object_identities u) \<and>
     index_fits (gr_identities g) (pu_new_identities u) (gr_identity_index g) (pu_identity_index u) \<and>
     index_fits (gr_object_identities g) (pu_new_object_identities u) (gr_object_index g) (pu_object_index u) \<and>
     (pu_link_index u = None \<longrightarrow> power_of_two (length (gr_link_index g)) \<and> length (pu_new_links u) \<le> free_slots (gr_link_index g)) \<and>
     (pu_derived_index u = None \<longrightarrow> power_of_two (length (gr_derived_index g)) \<and>
        length (filter (\<lambda>r. ct_kind r = tk_derived) (pu_canonical u)) \<le> free_slots (gr_derived_index g))"

lemma apply_patches_length [simp]: "length (apply_patches patches xs) = length xs"
proof (induction patches arbitrary: xs)
  case (Cons p ps)
  then show ?case by (cases p) (simp add: apply_patches_def)
qed (simp add: apply_patches_def)

lemma fits_indexed:
  assumes "index_fits old new index rebuilt" "identities_indexed old index"
    and ins: "ins = (\<lambda>identity handle. index_insert (identity_hash identity) (same_identity (old @ new) identity) handle)"
  shows "\<exists>index'. (case rebuilt of Some i \<Rightarrow> Some i | None \<Rightarrow> insert_new ins (length old) new index) = Some index' \<and>
    identities_indexed (old @ new) index'"
proof (cases rebuilt)
  case None
  with assms(1) show ?thesis using publication_indexed [OF assms(2) refl _ _ _ _ ins] by (simp add: index_fits_def)
next
  case (Some i)
  with assms(1) show ?thesis by (simp add: index_fits_def)
qed

lemma link_index_some:
  assumes "update_fits u g"
  shows "\<exists>index'. (case pu_link_index u of Some i \<Rightarrow> Some i
    | None \<Rightarrow> insert_new (insert_link_index links) base (map ln_target (pu_new_links u)) (gr_link_index g)) = Some index'"
proof (cases "pu_link_index u")
  case None
  then have "power_of_two (length (gr_link_index g))" "length (map ln_target (pu_new_links u)) \<le> free_slots (gr_link_index g)"
    using assms by (simp_all add: update_fits_def)
  then have "\<exists>s. insert_new (insert_link_index links) base (map ln_target (pu_new_links u)) (gr_link_index g) = Some s"
    unfolding insert_link_index_def using index_insert_some by (intro insert_new_some) blast+
  with None show ?thesis by simp
qed simp

lemma derived_index_some:
  assumes "update_fits u g"
  shows "\<exists>index'. (case pu_derived_index u of Some i \<Rightarrow> Some i
    | None \<Rightarrow> insert_new_derived canonical base (pu_canonical u) (gr_derived_index g)) = Some index'"
  using assms insert_new_derived_some [of "gr_derived_index g" "pu_canonical u" canonical base]
  by (cases "pu_derived_index u") (auto simp: update_fits_def)

lemma insert_identity_index_eq:
  "insert_identity_index identities = (\<lambda>identity handle. index_insert (identity_hash identity) (same_identity identities identity) handle)"
  by (intro ext) (simp add: insert_identity_index_def)

lemma insert_object_identity_index_eq:
  "insert_object_identity_index identities = (\<lambda>identity handle. index_insert (identity_hash identity) (same_identity identities identity) handle)"
  by (intro ext) (simp add: insert_object_identity_index_def)

lemma publish_update_some:
  assumes g: "graph_indexed g" and u: "update_fits u g"
  shows "\<exists>g'. publish_update u g = Some g' \<and> graph_indexed g' \<and>
    gr_types g' = apply_patches (pu_type_patches u) (gr_types g @ pu_new_types u) \<and>
    gr_identities g' = gr_identities g @ pu_new_identities u \<and>
    gr_object_identities g' = gr_object_identities g @ pu_new_object_identities u \<and>
    (gr_heads g', gr_edges g') =
      foldl push_edge (gr_heads g @ replicate (length (pu_new_types u)) 0, gr_edges g) (pu_edges u)"
proof -
  have old: "identities_indexed (gr_identities g) (gr_identity_index g)" "length (gr_types g) = length (gr_identities g)"
    "identities_indexed (gr_object_identities g) (gr_object_index g)" "length (gr_objects g) = length (gr_object_identities g)"
    using g by (simp_all add: graph_indexed_def)
  have new: "index_fits (gr_identities g) (pu_new_identities u) (gr_identity_index g) (pu_identity_index u)"
    "index_fits (gr_object_identities g) (pu_new_object_identities u) (gr_object_index g) (pu_object_index u)"
    "length (pu_new_types u) = length (pu_new_identities u)" "length (pu_new_objects u) = length (pu_new_object_identities u)"
    using u by (simp_all add: update_fits_def)
  obtain ti where ti: "(case pu_identity_index u of Some i \<Rightarrow> Some i
      | None \<Rightarrow> insert_new (insert_identity_index (gr_identities g @ pu_new_identities u)) (length (gr_types g))
          (pu_new_identities u) (gr_identity_index g)) = Some ti" "identities_indexed (gr_identities g @ pu_new_identities u) ti"
    using fits_indexed [OF new(1) old(1) insert_identity_index_eq] unfolding old(2) by blast
  obtain oi where oi: "(case pu_object_index u of Some i \<Rightarrow> Some i
      | None \<Rightarrow> insert_new (insert_object_identity_index (gr_object_identities g @ pu_new_object_identities u)) (length (gr_objects g))
          (pu_new_object_identities u) (gr_object_index g)) = Some oi"
      "identities_indexed (gr_object_identities g @ pu_new_object_identities u) oi"
    using fits_indexed [OF new(2) old(3) insert_object_identity_index_eq] unfolding old(4) by blast
  obtain li where li: "(case pu_link_index u of Some i \<Rightarrow> Some i
      | None \<Rightarrow> insert_new (insert_link_index (apply_patches (pu_link_patches u) (gr_links g @ pu_new_links u))) (length (gr_links g))
          (map ln_target (pu_new_links u)) (gr_link_index g)) = Some li" using link_index_some [OF u] by blast
  obtain di where di: "(case pu_derived_index u of Some i \<Rightarrow> Some i
      | None \<Rightarrow> insert_new_derived (gr_canonical g @ pu_canonical u) (length (gr_canonical g)) (pu_canonical u) (gr_derived_index g)) = Some di"
    using derived_index_some [OF u] by blast
  obtain heads edges where he: "foldl push_edge (gr_heads g @ replicate (length (pu_new_types u)) 0, gr_edges g) (pu_edges u) = (heads, edges)"
    by fastforce
  show ?thesis
    unfolding publish_update_def Let_def ti(1) oi(1) li di he option.case prod.case
    using ti(2) oi(2) old(2,4) new(3,4) by (simp add: graph_indexed_def)
qed

text \<open>
  C33. Publishing a prepared update ends and keeps the Graph searchable: every live type and object is found by
  its identity under its own handle, old handles included; a tombstone or an unknown identity is not found.
\<close>

theorem publication_keeps_lookup:
  assumes "graph_indexed g" "update_fits u g"
  shows "\<exists>g'. publish_update u g = Some g' \<and> graph_indexed g' \<and>
    (\<forall>h \<in> {1..length (gr_types g')}. find_type g' (gr_identities g' ! (h - 1)) = (if te_live (gr_types g' ! (h - 1)) then h else 0)) \<and>
    (\<forall>h \<in> {1..length (gr_objects g')}. find_object g' (gr_object_identities g' ! (h - 1)) = (if oe_live (gr_objects g' ! (h - 1)) then h else 0)) \<and>
    (\<forall>i. i \<notin> set (gr_identities g') \<longrightarrow> find_type g' i = 0) \<and>
    (\<forall>h \<in> {1..length (gr_types g)}. gr_identities g' ! (h - 1) = gr_identities g ! (h - 1))"
proof -
  obtain g' where g': "publish_update u g = Some g'" "graph_indexed g'" "gr_identities g' = gr_identities g @ pu_new_identities u"
    using publish_update_some [OF assms] by blast
  have "length (gr_types g) = length (gr_identities g)" using assms(1) by (simp add: graph_indexed_def)
  then show ?thesis using g' find_type_indexed [OF g'(2)] find_object_indexed [OF g'(2)] by (auto simp: nth_append)
qed

text \<open>An empty Graph with small indexes, and an update that adds a type.\<close>

definition empty_index :: "index_slot list" where
  "empty_index = replicate 4 \<lparr>ix_fingerprint = 0, ix_handle = 0\<rparr>"

definition empty_graph :: graph where
  "empty_graph = \<lparr>gr_types = [], gr_identities = [], gr_members = [], gr_enum_values = [], gr_objects = [],
     gr_object_identities = [], gr_links = [], gr_canonical = [], gr_identity_index = empty_index, gr_object_index = empty_index,
     gr_link_index = empty_index, gr_intrinsic_refs = [], gr_named_refs = [0], gr_derived_index = empty_index,
     gr_derived_entries = 0, gr_versions = [], gr_heads = [], gr_edges = [], gr_live_types = 0, gr_live_objects = 0, gr_live_links = 0\<rparr>"

definition sample_type :: type_entry where
  "sample_type = \<lparr>te_begin = 1, te_count = 0, te_kind = gk_record, te_record_kind = rk_struct, te_underlying = it_none, te_flags = 0x80\<rparr>"

definition sample_update :: prepared_graph_update where
  "sample_update = \<lparr>pu_type_patches = [], pu_new_types = [sample_type], pu_new_identities = [make_ref 2 kind_type],
     pu_object_patches = [], pu_new_objects = [], pu_new_object_identities = [], pu_link_patches = [], pu_new_links = [],
     pu_members = [], pu_enum_values = [], pu_canonical = [], pu_intrinsic_refs = [], pu_named_ref_patches = [],
     pu_version_patches = [], pu_edges = [(1, 1, 1)], pu_identity_index = None, pu_object_index = None, pu_link_index = None,
     pu_derived_index = None, pu_derived_entries = 0, pu_live_types = 1, pu_live_objects = 0, pu_live_links = 0\<rparr>"

lemma empty_index_inv: "probe_inv f empty_index {}" "free_slots empty_index = 4" "power_of_two (length empty_index)"
proof -
  show pow: "power_of_two (length empty_index)" unfolding power_of_two_def empty_index_def by (intro exI [of _ 2]) simp
  show "free_slots empty_index = 4" by (simp add: free_slots_def empty_index_def)
  have "ix_handle (empty_index ! p) = 0" if "p < length empty_index" for p using that by (simp add: empty_index_def)
  with pow show "probe_inv f empty_index {}" by (simp add: probe_inv_def slot_ok_def)
qed

lemma sample_fits: "graph_indexed empty_graph" "update_fits sample_update empty_graph"
  using empty_index_inv
  by (simp_all add: graph_indexed_def identities_indexed_def update_fits_def index_fits_def empty_graph_def sample_update_def
      ref_valid_def slot_mask_value)

theorem publication_keeps_lookup_witness:
  "\<exists>g'. publish_update sample_update empty_graph = Some g' \<and> find_type g' (make_ref 2 kind_type) = 1"
proof -
  obtain g where g: "publish_update sample_update empty_graph = Some g" "gr_types g = [sample_type]"
    "gr_identities g = [make_ref 2 kind_type]"
    using publish_update_some [OF sample_fits] by (auto simp: sample_update_def empty_graph_def apply_patches_def)
  moreover have "te_live sample_type" by (simp add: te_live_def sample_type_def)
  ultimately show ?thesis using publication_keeps_lookup [OF sample_fits] by auto
qed

section \<open>Chains of dependencies\<close>

text \<open>The edges of one target, newest first. Links lead to older edges, so the walk ends.\<close>

function edge_chain :: "dependency_edge list \<Rightarrow> nat \<Rightarrow> dependency_edge list" where
  "edge_chain edges n =
     (if 0 < n \<and> n \<le> length edges \<and> de_next (edges ! (n - 1)) < n
      then edges ! (n - 1) # edge_chain edges (de_next (edges ! (n - 1))) else [])"
  by pat_completeness auto
termination
  by (relation "measure snd") auto

declare edge_chain.simps [simp del]

definition edges_linked :: "nat list \<Rightarrow> dependency_edge list \<Rightarrow> bool" where
  "edges_linked heads edges \<longleftrightarrow>
     (\<forall>i < length edges. de_next (edges ! i) \<le> i) \<and> (\<forall>h \<in> set heads. h \<le> length edges)"

lemma edge_chain_append:
  assumes "\<forall>i < length edges. de_next (edges ! i) \<le> i" "n \<le> length edges"
  shows "edge_chain (edges @ later) n = edge_chain edges n"
  using assms(2)
proof (induction n rule: less_induct)
  case (less n)
  show ?case
  proof (cases "n = 0")
    case False
    then have "n - 1 < length edges" using less.prems by simp
    then have "de_next (edges ! (n - 1)) \<le> n - 1" "(edges @ later) ! (n - 1) = edges ! (n - 1)"
      using assms(1) by (blast, simp add: nth_append)
    then have at: "(edges @ later) ! (n - 1) = edges ! (n - 1)" "de_next (edges ! (n - 1)) < n" using False by simp_all
    then show ?thesis
      using less.IH [OF at(2)] less.prems False by (simp add: edge_chain.simps [of "edges @ later" n] edge_chain.simps [of edges n])
  qed (simp add: edge_chain.simps)
qed

lemma push_edge_linked:
  assumes "edges_linked heads edges" "0 < t" "t \<le> length heads" "length edges < u32_max"
    and push: "push_edge (heads, edges) (t, w, v) = (heads', edges')"
  shows "edges_linked heads' edges'" "length heads' = length heads" "length edges' = Suc (length edges)"
    "s \<in> {1..length heads} \<Longrightarrow> edge_chain edges' (heads' ! (s - 1)) =
       (if s = t then [\<lparr>de_owner = w, de_next = heads ! (t - 1), de_version = v\<rparr>] else []) @ edge_chain edges (heads ! (s - 1))"
proof -
  let ?e = "\<lparr>de_owner = w, de_next = heads ! (t - 1), de_version = v\<rparr>"
  have he: "heads' = heads[t - 1 := Suc (length edges)]" "edges' = edges @ [?e]" using push assms(4) by (simp_all add: push_edge_def)
  have links: "\<forall>i < length edges. de_next (edges ! i) \<le> i" "\<forall>h \<in> set heads. h \<le> length edges"
    using assms(1) by (simp_all add: edges_linked_def)
  have head: "heads ! (s - 1) \<le> length edges" if "s \<in> {1..length heads}" for s using links(2) that by auto
  show "length heads' = length heads" "length edges' = Suc (length edges)" using he by simp_all
  show "edges_linked heads' edges'"
    using links head [of t] assms(2,3) he by (auto simp: edges_linked_def nth_append less_Suc_eq dest!: set_update_subset_insert [THEN subsetD])
  show "edge_chain edges' (heads' ! (s - 1)) = (if s = t then [?e] else []) @ edge_chain edges (heads ! (s - 1))"
    if s: "s \<in> {1..length heads}"
  proof (cases "s = t")
    case True
    have "heads ! (t - 1) < Suc (length edges)" using head [OF s] True by simp
    moreover have "t - 1 < length heads" using assms(2,3) by linarith
    then have "heads' ! (t - 1) = Suc (length edges)" by (simp add: he(1))
    moreover have "edge_chain (edges @ [e]) (Suc (length edges)) = e # edge_chain (edges @ [e]) (de_next e)"
      if "de_next e \<le> length edges" for e using that by (subst edge_chain.simps) (simp add: nth_append)
    ultimately show ?thesis
      using True he(2) edge_chain_append [OF links(1) head [OF s], of "[?e]"] by simp
  next
    case False
    then have "heads' ! (s - 1) = heads ! (s - 1)" using s assms(2,3) he(1) by auto
    then show ?thesis using False he(2) edge_chain_append [OF links(1) head [OF s]] by simp
  qed
qed

text \<open>The owner and version of each edge of a target, newest first.\<close>

definition recorded :: "nat list \<Rightarrow> dependency_edge list \<Rightarrow> nat \<Rightarrow> (nat \<times> nat) list" where
  "recorded heads edges t = map (\<lambda>e. (de_owner e, de_version e)) (edge_chain edges (heads ! (t - 1)))"

lemma push_edges_linked:
  assumes "edges_linked heads edges" "\<forall>(t, w, v) \<in> set pending. 0 < t \<and> t \<le> length heads" "length edges + length pending \<le> u32_max"
    and "foldl push_edge (heads, edges) pending = (heads', edges')"
  shows "edges_linked heads' edges' \<and> length heads' = length heads \<and> length edges' = length edges + length pending \<and>
    (\<forall>s \<in> {1..length heads}. recorded heads' edges' s =
       rev (map snd (filter (\<lambda>(t, _). t = s) pending)) @ recorded heads edges s)"
  using assms
proof (induction pending arbitrary: heads edges)
  case (Cons p pending)
  obtain t w v where p: "p = (t, w, v)" by (cases p) auto
  obtain h1 e1 where one: "push_edge (heads, edges) (t, w, v) = (h1, e1)" by fastforce
  have t: "0 < t" "t \<le> length heads" "length edges < u32_max" using Cons.prems(2,3) p by auto
  note step = push_edge_linked [OF Cons.prems(1) t one]
  have rest: "foldl push_edge (h1, e1) pending = (heads', edges')" using Cons.prems(4) p one by simp
  have "edges_linked heads' edges' \<and> length heads' = length h1 \<and> length edges' = length e1 + length pending \<and>
    (\<forall>s \<in> {1..length h1}. recorded heads' edges' s = rev (map snd (filter (\<lambda>(t, _). t = s) pending)) @ recorded h1 e1 s)"
    using Cons.prems(2,3) step(2,3) by (intro Cons.IH [OF step(1) _ _ rest]) auto
  then show ?case using step p by (auto simp: recorded_def)
qed simp

text \<open>
  C34. Publication records exactly the dependencies prepared: for every type, its edges afterwards are the
  prepared ones, newest first, before those it had; and the links still lead to older edges only, so that every
  walk along them ends.
\<close>

theorem publication_records_dependencies:
  assumes "graph_indexed g" "update_fits u g" "edges_linked (gr_heads g) (gr_edges g)"
    and "\<forall>(t, w, v) \<in> set (pu_edges u). 0 < t \<and> t \<le> length (gr_heads g) + length (pu_new_types u)"
    and "length (gr_edges g) + length (pu_edges u) \<le> u32_max"
  shows "\<exists>g'. publish_update u g = Some g' \<and> edges_linked (gr_heads g') (gr_edges g') \<and>
    (\<forall>s \<in> {1..length (gr_heads g')}. recorded (gr_heads g') (gr_edges g') s =
       rev (map snd (filter (\<lambda>(t, _). t = s) (pu_edges u))) @
       (if s \<le> length (gr_heads g) then recorded (gr_heads g) (gr_edges g) s else []))"
proof -
  let ?heads = "gr_heads g @ replicate (length (pu_new_types u)) 0"
  obtain g' where g': "publish_update u g = Some g'" "foldl push_edge (?heads, gr_edges g) (pu_edges u) = (gr_heads g', gr_edges g')"
    using publish_update_some [OF assms(1,2)] by metis
  have "edges_linked ?heads (gr_edges g)" using assms(3) by (auto simp: edges_linked_def)
  note after = push_edges_linked [OF this _ assms(5) g'(2)]
  have "recorded ?heads (gr_edges g) s = (if s \<le> length (gr_heads g) then recorded (gr_heads g) (gr_edges g) s else [])"
    if "s \<in> {1..length ?heads}" for s
    using that by (auto simp: recorded_def nth_append edge_chain.simps [of _ 0])
  then show ?thesis using after assms(4) g'(1) by auto
qed

theorem publication_records_dependencies_witness:
  "\<exists>g'. publish_update sample_update empty_graph = Some g' \<and> edges_linked (gr_heads g') (gr_edges g')"
  using publication_records_dependencies [OF sample_fits]
  by (auto simp: edges_linked_def sample_update_def empty_graph_def)

end
