(* ===== verification/Dependency_Closure.thy ===== *)
theory Dependency_Closure
  imports Graph_Publication "HOL-Library.Sublist"
begin

text \<open>
  Which types an update can affect: the closure that \<^verbatim>\<open>generation_builder.cpp\<close> computes over the recorded
  dependencies of the Graph before it validates an incremental build. An edge counts only while its version is
  the current one of its owner.
\<close>

section \<open>The loops\<close>

text \<open>\<^verbatim>\<open>closure_set.insert\<close> and the append that follows when the handle is new.\<close>

definition add_handle :: "nat list \<Rightarrow> nat \<Rightarrow> nat list" where
  "add_handle closure handle = (if handle \<in> set closure then closure else closure @ [handle])"

text \<open>\<^const>\<open>None\<close> stands for a loop that does not end, \<^const>\<open>Inl\<close> for an error.\<close>

primrec walk_dependents :: "nat \<Rightarrow> graph \<Rightarrow> nat \<Rightarrow> nat list \<Rightarrow> (status_code + nat list) option" where
  "walk_dependents 0 g edge_index closure = None"
| "walk_dependents (Suc fuel) g edge_index closure =
     (if edge_index = 0 then Some (Inr closure)
      else if edge_index > length (gr_edges g) then Some (Inl st_invalid_argument)
      else
        let edge = gr_edges g ! (edge_index - 1) in
        if de_owner edge = 0 \<or> de_owner edge > length (gr_versions g) then Some (Inl st_invalid_argument)
        else walk_dependents fuel g (de_next edge)
          (if de_version edge = gr_versions g ! (de_owner edge - 1) then add_handle closure (de_owner edge) else closure))"

primrec closure_loop :: "nat \<Rightarrow> graph \<Rightarrow> nat \<Rightarrow> nat list \<Rightarrow> (status_code + nat list) option" where
  "closure_loop 0 g cursor closure = None"
| "closure_loop (Suc fuel) g cursor closure =
     (if cursor \<ge> length closure then Some (Inr closure)
      else if closure ! cursor > length (gr_heads g) then closure_loop fuel g (Suc cursor) closure
      else (case walk_dependents (Suc (length (gr_edges g))) g (gr_heads g ! (closure ! cursor - 1)) closure of
              None \<Rightarrow> None
            | Some (Inl e) \<Rightarrow> Some (Inl e)
            | Some (Inr closure') \<Rightarrow> closure_loop fuel g (Suc cursor) closure'))"

text \<open>Every handle enters the closure once: it was touched or owns an edge.\<close>

definition dependency_closure :: "graph \<Rightarrow> nat list \<Rightarrow> (status_code + nat list) option" where
  "dependency_closure g touched =
     closure_loop (Suc (length touched + length (gr_versions g))) g 0 (foldl add_handle [] touched)"

section \<open>The relation it closes over\<close>

definition edges_owned :: "graph \<Rightarrow> bool" where
  "edges_owned g \<longleftrightarrow> (\<forall>e \<in> set (gr_edges g). 0 < de_owner e \<and> de_owner e \<le> length (gr_versions g))"

definition live_owners :: "graph \<Rightarrow> nat \<Rightarrow> nat set" where
  "live_owners g n =
     {de_owner e |e. e \<in> set (edge_chain (gr_edges g) n) \<and> de_version e = gr_versions g ! (de_owner e - 1)}"

text \<open>\<open>(t, w)\<close> when type \<open>w\<close> has a current dependency on type \<open>t\<close>.\<close>

definition dependency :: "graph \<Rightarrow> (nat \<times> nat) set" where
  "dependency g = {(t, w). t \<le> length (gr_heads g) \<and> w \<in> live_owners g (gr_heads g ! (t - 1))}"

lemma add_handle_facts [simp]: "set (add_handle c h) = insert h (set c)" "distinct c \<Longrightarrow> distinct (add_handle c h)"
  "prefix c (add_handle c h)"
  by (auto simp: add_handle_def)

lemma walk_dependents_ok:
  assumes "edges_linked heads (gr_edges g)" "edges_owned g"
  shows "n \<le> length (gr_edges g) \<Longrightarrow> n < fuel \<Longrightarrow> distinct c \<Longrightarrow>
    \<exists>c'. walk_dependents fuel g n c = Some (Inr c') \<and> distinct c' \<and> prefix c c' \<and> set c' = set c \<union> live_owners g n"
proof (induction fuel arbitrary: n c)
  case (Suc fuel)
  show ?case
  proof (cases "n = 0")
    case True
    then show ?thesis using Suc.prems by (simp add: live_owners_def edge_chain.simps)
  next
    case False
    let ?e = "gr_edges g ! (n - 1)"
    have idx: "n - 1 < length (gr_edges g)" using False Suc.prems by simp
    then have "de_next ?e \<le> n - 1" using assms(1) unfolding edges_linked_def by blast
    then have next_e: "de_next ?e < n" using False by simp
    have own: "0 < de_owner ?e" "de_owner ?e \<le> length (gr_versions g)" using assms(2) idx by (simp_all add: edges_owned_def)
    have chain: "edge_chain (gr_edges g) n = ?e # edge_chain (gr_edges g) (de_next ?e)"
      using False Suc.prems next_e by (subst edge_chain.simps) simp
    define c1 where "c1 = (if de_version ?e = gr_versions g ! (de_owner ?e - 1) then add_handle c (de_owner ?e) else c)"
    have c1: "distinct c1" "prefix c c1" "set c1 \<union> live_owners g (de_next ?e) = set c \<union> live_owners g n"
      using Suc.prems(3) chain by (auto simp: c1_def live_owners_def)
    obtain c' where c': "walk_dependents fuel g (de_next ?e) c1 = Some (Inr c')" "distinct c'" "prefix c1 c'"
      "set c' = set c1 \<union> live_owners g (de_next ?e)" using Suc.IH [of "de_next ?e" c1] next_e Suc.prems c1(1) by auto
    have "walk_dependents (Suc fuel) g n c = walk_dependents fuel g (de_next ?e) c1"
      using False own Suc.prems(1) by (simp add: Let_def c1_def)
    then show ?thesis using c' c1 prefix_order.trans by auto
  qed
qed simp

text \<open>The worklist: what stands before the cursor has been expanded.\<close>

definition expanded :: "graph \<Rightarrow> nat \<Rightarrow> nat list \<Rightarrow> bool" where
  "expanded g cursor c \<longleftrightarrow> (\<forall>k < cursor. \<forall>w. (c ! k, w) \<in> dependency g \<longrightarrow> w \<in> set c)"

lemma closure_loop_ok:
  assumes linked: "edges_linked (gr_heads g) (gr_edges g)" and owned: "edges_owned g"
    and bound: "finite U" "{1..length (gr_versions g)} \<subseteq> U" "0 \<notin> U"
  shows "distinct c \<Longrightarrow> set c \<subseteq> U \<Longrightarrow> expanded g cursor c \<Longrightarrow> cursor \<le> length c \<Longrightarrow> card U < fuel + cursor \<Longrightarrow>
    \<exists>c'. closure_loop fuel g cursor c = Some (Inr c') \<and> distinct c' \<and> set c \<subseteq> set c' \<and>
      set c' \<subseteq> (dependency g)\<^sup>* `` set c \<and> expanded g (length c') c'"
proof (induction fuel arbitrary: cursor c)
  case 0
  have "length c \<le> card U" using card_mono [OF bound(1) 0(2)] distinct_card [OF 0(1)] by simp
  then show ?case using 0 by simp
next
  case (Suc fuel)
  show ?case
  proof (cases "cursor < length c")
    case False
    then show ?thesis using Suc.prems by auto
  next
    case True
    let ?t = "c ! cursor"
    have t: "?t \<in> set c" using True by simp
    then have t0: "0 < ?t" using Suc.prems(2) bound(3) by (metis gr0I subsetD)
    show ?thesis
    proof (cases "?t > length (gr_heads g)")
      case True
      then have "expanded g (Suc cursor) c" using Suc.prems(3) by (auto simp: expanded_def less_Suc_eq dependency_def)
      then have "\<exists>c'. closure_loop fuel g (Suc cursor) c = Some (Inr c') \<and> distinct c' \<and> set c \<subseteq> set c' \<and>
          set c' \<subseteq> (dependency g)\<^sup>* `` set c \<and> expanded g (length c') c'"
        using Suc.prems \<open>cursor < length c\<close> by (intro Suc.IH) simp_all
      then show ?thesis using True \<open>cursor < length c\<close> by simp
    next
      case False
      let ?n = "gr_heads g ! (?t - 1)"
      have "?n \<in> set (gr_heads g)" using False t0 by simp
      then have "?n \<le> length (gr_edges g)" using linked by (simp add: edges_linked_def)
      then obtain c1 where c1: "walk_dependents (Suc (length (gr_edges g))) g ?n c = Some (Inr c1)" "distinct c1" "prefix c c1"
        "set c1 = set c \<union> live_owners g ?n"
        using walk_dependents_ok [OF linked owned, of ?n "Suc (length (gr_edges g))" c] Suc.prems(1) by auto
      have dep: "(?t, w) \<in> dependency g \<longleftrightarrow> w \<in> live_owners g ?n" for w using False by (simp add: dependency_def)
      have "live_owners g ?n \<subseteq> {1..length (gr_versions g)}"
      proof
        fix w assume "w \<in> live_owners g ?n"
        then obtain e where e: "e \<in> set (edge_chain (gr_edges g) ?n)" "w = de_owner e" by (auto simp: live_owners_def)
        have "set (edge_chain (gr_edges g) m) \<subseteq> set (gr_edges g)" for m
          by (induction m rule: less_induct) (subst edge_chain.simps, auto)
        then show "w \<in> {1..length (gr_versions g)}" using e owned by (force simp: edges_owned_def)
      qed
      then have U: "set c1 \<subseteq> U" using c1(4) Suc.prems(2) bound(2) by blast
      have len: "length c \<le> length c1" and same: "k < length c \<Longrightarrow> c1 ! k = c ! k" for k
        using c1(3) by (auto simp: prefix_def nth_append)
      have "expanded g (Suc cursor) c1"
        using Suc.prems(3) same \<open>cursor < length c\<close> c1(4) dep by (auto simp: expanded_def less_Suc_eq)
      then obtain c' where c': "closure_loop fuel g (Suc cursor) c1 = Some (Inr c')" "distinct c'" "set c1 \<subseteq> set c'"
        "set c' \<subseteq> (dependency g)\<^sup>* `` set c1" "expanded g (length c') c'"
        using Suc.IH [OF c1(2) U, of "Suc cursor"] len \<open>cursor < length c\<close> Suc.prems(5) by auto
      have "w \<in> (dependency g)\<^sup>* `` set c" if "w \<in> set c1" for w
        using that c1(4) t dep [of w] by (auto intro: r_into_rtrancl)
      then have "set c1 \<subseteq> (dependency g)\<^sup>* `` set c" by blast
      then have "set c' \<subseteq> (dependency g)\<^sup>* `` set c" using c'(4) by (blast intro: rtrancl_trans)
      then show ?thesis using c' c1(1,4) False \<open>cursor < length c\<close> by auto
    qed
  qed
qed

lemma add_handles: "distinct c \<Longrightarrow> distinct (foldl add_handle c hs) \<and> set (foldl add_handle c hs) = set c \<union> set hs"
  by (induction hs arbitrary: c) auto

text \<open>
  C35. The closure is exact: starting from the touched types it ends, without an error, with every type that
  depends on one of them through current edges, directly or not, each once and no other.
\<close>

theorem dependency_closure_exact:
  assumes "edges_linked (gr_heads g) (gr_edges g)" "edges_owned g" "0 \<notin> set touched"
  shows "\<exists>c. dependency_closure g touched = Some (Inr c) \<and> distinct c \<and> set c = (dependency g)\<^sup>* `` set touched"
proof -
  let ?start = "foldl add_handle [] touched" and ?U = "set touched \<union> {1..length (gr_versions g)}"
  have start: "distinct ?start" "set ?start = set touched" using add_handles [of "[]" touched] by simp_all
  have "card ?U \<le> card (set touched) + length (gr_versions g)" using card_Un_le [of "set touched" "{1..length (gr_versions g)}"] by simp
  also have "\<dots> \<le> length touched + length (gr_versions g)" using card_length [of touched] by simp
  finally have "card ?U < Suc (length touched + length (gr_versions g)) + 0" by simp
  from closure_loop_ok [OF assms(1,2), of ?U, OF _ _ _ start(1) _ _ _ this]
  obtain c where c: "dependency_closure g touched = Some (Inr c)" "distinct c" "set touched \<subseteq> set c"
    "set c \<subseteq> (dependency g)\<^sup>* `` set touched" "expanded g (length c) c"
    using assms(3) start(2) by (auto simp: dependency_closure_def expanded_def)
  have "y \<in> set c" if "(x, y) \<in> (dependency g)\<^sup>*" "x \<in> set c" for x y
    using that
  proof (induction rule: rtrancl_induct)
    case (step y z)
    then obtain k where "k < length c" "c ! k = y" by (auto simp: in_set_conv_nth)
    then show ?case using c(5) step(2) by (auto simp: expanded_def)
  qed
  then have "(dependency g)\<^sup>* `` set touched \<subseteq> set c" using c(3) by blast
  with c show ?thesis by blast
qed

text \<open>Type 2 depends on type 1 and type 3 on type 2; the edge from type 3 to type 1 is out of date.\<close>

definition chain_graph :: graph where
  "chain_graph = empty_graph\<lparr>gr_versions := [1, 1, 2], gr_heads := [3, 2, 0],
     gr_edges := [\<lparr>de_owner = 2, de_next = 0, de_version = 1\<rparr>, \<lparr>de_owner = 3, de_next = 0, de_version = 2\<rparr>,
       \<lparr>de_owner = 3, de_next = 1, de_version = 1\<rparr>]\<rparr>"

lemma chain_graph_closed: "dependency_closure chain_graph [1] = Some (Inr [1, 2, 3])"
  by (simp add: dependency_closure_def chain_graph_def add_handle_def Let_def)

theorem dependency_closure_exact_witness: "(dependency chain_graph)\<^sup>* `` {1} = {1, 2, 3}"
proof -
  have "edges_linked (gr_heads chain_graph) (gr_edges chain_graph)" "edges_owned chain_graph"
    by (auto simp: chain_graph_def edges_linked_def edges_owned_def less_Suc_eq nth_Cons split: nat.splits)
  from dependency_closure_exact [OF this, of "[1]"] chain_graph_closed show ?thesis by auto
qed

end
