(* ===== verification/Aggregate_Initializer.thy ===== *)
theory Aggregate_Initializer
  imports Construction_Value
begin

text \<open>
  Initializer lists, \<^verbatim>\<open>src/server_engine/project/frontend/aggregate_initializer.hpp\<close>: a tree of constants, its
  parser and its printer. Decimal text of floating-point numbers is read and written by two arguments, on
  bit patterns.
\<close>

section \<open>Trees\<close>

datatype aggregate_initializer =
  aggregate_initializer (ai_value: construction_value) (ai_list: bool) (ai_children: "aggregate_initializer list")

definition ai_leaf :: "construction_value \<Rightarrow> aggregate_initializer" where
  "ai_leaf v = aggregate_initializer v False []"

section \<open>Numbers\<close>

text \<open>\<^verbatim>\<open>std::from_chars\<close> on a whole token: all of it must be read.\<close>

definition number_digit :: "char \<Rightarrow> bool" where
  "number_digit c \<longleftrightarrow> 48 \<le> code c \<and> code c \<le> 57"

definition decimal_value :: "string \<Rightarrow> nat" where
  "decimal_value cs = foldl (\<lambda>n c. 10 * n + (code c - 48)) 0 cs"

definition read_unsigned :: "string \<Rightarrow> u64 option" where
  "read_unsigned cs =
     (if cs \<noteq> [] \<and> list_all number_digit cs \<and> decimal_value cs \<le> u64_max then Some (of_nat (decimal_value cs)) else None)"

definition read_negative :: "string \<Rightarrow> u64 option" where
  "read_negative cs =
     (if cs \<noteq> [] \<and> hd cs = CHR ''-'' \<and> tl cs \<noteq> [] \<and> list_all number_digit (tl cs) \<and> decimal_value (tl cs) \<le> 2 ^ 63
      then Some (- of_nat (decimal_value (tl cs))) else None)"

text \<open>\<^verbatim>\<open>std::to_chars\<close> of an integer.\<close>

fun decimal_text :: "nat \<Rightarrow> string" where
  "decimal_text n = (if n < 10 then [chr (48 + n)] else decimal_text (n div 10) @ [chr (48 + n mod 10)])"

definition signed_text :: "u64 \<Rightarrow> string" where
  "signed_text bits = (if sint bits < 0 then CHR ''-'' # decimal_text (nat (- sint bits)) else decimal_text (nat (sint bits)))"

definition finite_bits :: "u64 \<Rightarrow> bool" where
  "finite_bits bits \<longleftrightarrow> drop_bit 52 bits AND 0x7ff \<noteq> 0x7ff"

section \<open>Parser\<close>

definition is_blank :: "char \<Rightarrow> bool" where
  "is_blank c \<longleftrightarrow> c = CHR '' '' \<or> c = CHR 0x09 \<or> c = CHR 0x0A \<or> c = CHR 0x0D"

definition skip_blanks :: "string \<Rightarrow> string" where
  "skip_blanks cs = dropWhile is_blank cs"

definition drop_trailing_blanks :: "string \<Rightarrow> string" where
  "drop_trailing_blanks cs = rev (dropWhile is_blank (rev cs))"

definition token_end :: "char \<Rightarrow> bool" where
  "token_end c \<longleftrightarrow> c = CHR '','' \<or> c = CHR ''}'' \<or> c = CHR '')''"

definition has_point :: "string \<Rightarrow> bool" where
  "has_point cs \<longleftrightarrow> list_ex (\<lambda>c. c = CHR ''.'' \<or> c = CHR ''e'' \<or> c = CHR ''E'') cs"

definition scalar_token :: "(string \<Rightarrow> u64 option) \<Rightarrow> string \<Rightarrow> construction_value option" where
  "scalar_token read_double token =
     (if token = ''false'' \<or> token = ''nullptr'' then Some cv_default
      else if token = ''true'' then Some (cv_constant ck_unsigned_integer 1)
      else
        let number = (if token \<noteq> [] \<and> hd token = CHR ''+'' then tl token else token) in
        if number = [] then None
        else if has_point number then
          (case read_double number of
             None \<Rightarrow> None
           | Some bits \<Rightarrow> if finite_bits bits then Some (cv_constant ck_real bits) else None)
        else if hd number = CHR ''-'' then map_option (cv_constant ck_signed_integer) (read_negative number)
        else map_option (cv_constant ck_unsigned_integer) (read_unsigned number))"

text \<open>
  The positions of the parser are suffixes of the text. \<open>self\<close> parses one element; the loop over the elements
  has fuel for every character left.
\<close>

primrec parse_items ::
  "(string \<Rightarrow> nat \<Rightarrow> (aggregate_initializer \<times> string \<times> nat) option) \<Rightarrow> nat \<Rightarrow> string \<Rightarrow> nat \<Rightarrow> aggregate_initializer list \<Rightarrow>
   (aggregate_initializer list \<times> string \<times> nat) option" where
  "parse_items self 0 cs nodes children = None"
| "parse_items self (Suc fuel) cs nodes children =
     (case self cs nodes of
        None \<Rightarrow> None
      | Some (child, cs1, nodes1) \<Rightarrow>
          (case skip_blanks cs1 of
             [] \<Rightarrow> None
           | c # cs2 \<Rightarrow>
               if c = CHR ''}'' then Some (children @ [child], cs2, nodes1)
               else if c \<noteq> CHR '','' then None
               else
                 let cs3 = skip_blanks cs2 in
                 if cs3 \<noteq> [] \<and> hd cs3 = CHR ''}'' then Some (children @ [child], tl cs3, nodes1)
                 else parse_items self fuel cs3 nodes1 (children @ [child])))"

text \<open>\<open>left\<close> is the number of levels left: 65 less the depth.\<close>

primrec parse_node ::
  "(string \<Rightarrow> u64 option) \<Rightarrow> nat \<Rightarrow> string \<Rightarrow> nat \<Rightarrow> (aggregate_initializer \<times> string \<times> nat) option" where
  "parse_node read_double 0 cs nodes = None"
| "parse_node read_double (Suc left) cs nodes =
     (if nodes + 1 > 65536 then None
      else
        case skip_blanks cs of
          [] \<Rightarrow> None
        | c # cs1 \<Rightarrow>
            if c = CHR ''{'' then
              let cs2 = skip_blanks cs1 in
              if cs2 \<noteq> [] \<and> hd cs2 = CHR ''}'' then Some (aggregate_initializer cv_default True [], tl cs2, nodes + 1)
              else
                case parse_items (parse_node read_double left) (Suc (length cs2)) cs2 (nodes + 1) [] of
                  None \<Rightarrow> None
                | Some (children, cs3, nodes3) \<Rightarrow> Some (aggregate_initializer cv_default True children, cs3, nodes3)
            else if c = CHR ''('' then
              (case parse_node read_double left cs1 (nodes + 1) of
                 None \<Rightarrow> None
               | Some (out, cs2, nodes2) \<Rightarrow>
                   (case skip_blanks cs2 of
                      [] \<Rightarrow> None
                    | c2 # cs3 \<Rightarrow> if c2 = CHR '')'' then Some (out, cs3, nodes2) else None))
            else
              let token = takeWhile (\<lambda>x. \<not> token_end x) (c # cs1) in
              case scalar_token read_double (drop_trailing_blanks token) of
                None \<Rightarrow> None
              | Some v \<Rightarrow> Some (ai_leaf v, drop (length token) (c # cs1), nodes + 1))"

definition parse_aggregate_initializer :: "(string \<Rightarrow> u64 option) \<Rightarrow> string \<Rightarrow> aggregate_initializer option" where
  "parse_aggregate_initializer read_double cs =
     (case parse_node read_double 65 cs 0 of
        None \<Rightarrow> None
      | Some (out, rest, nodes) \<Rightarrow> if skip_blanks rest = [] then Some out else None)"

section \<open>Printer\<close>

definition encode_constant :: "(u64 \<Rightarrow> string) \<Rightarrow> construction_value \<Rightarrow> string" where
  "encode_constant write_double v =
     (if cv_kind v = ck_real then
        let number = write_double (cv_bits v) in if has_point number then number else number @ ''.0''
      else if cv_kind v = ck_signed_integer then signed_text (cv_bits v)
      else decimal_text (unat (cv_bits v)))"

primrec join_items :: "string list \<Rightarrow> string" where
  "join_items [] = []"
| "join_items (s # ss) = s @ concat (map (\<lambda>r. CHR '','' # r) ss)"

primrec encode_aggregate_initializer :: "(u64 \<Rightarrow> string) \<Rightarrow> aggregate_initializer \<Rightarrow> string" where
  "encode_aggregate_initializer write_double (aggregate_initializer v is_list children) =
     (if is_list then ''{'' @ join_items (map (encode_aggregate_initializer write_double) children) @ ''}''
      else encode_constant write_double v)"

section \<open>Decimal numbers\<close>

declare decimal_text.simps [simp del]

lemma code_digit [simp]: "d < 10 \<Longrightarrow> code (chr (48 + d)) = 48 + d"
  by simp

lemma digit_char [simp]: "d < 10 \<Longrightarrow> number_digit (chr (48 + d))"
  by (simp add: number_digit_def)

lemma decimal_value_snoc: "decimal_value (cs @ [c]) = 10 * decimal_value cs + (code c - 48)"
  by (simp add: decimal_value_def)

lemma decimal_text_digits: "decimal_text n \<noteq> []" "list_all number_digit (decimal_text n)" "decimal_value (decimal_text n) = n"
proof (induction n rule: decimal_text.induct)
  case (1 n)
  show "decimal_text n \<noteq> []" by (simp add: decimal_text.simps [of n])
  show "list_all number_digit (decimal_text n)"
    using 1(2) by (simp add: decimal_text.simps [of n])
  show "decimal_value (decimal_text n) = n"
  proof (cases "n < 10")
    case True
    then show ?thesis by (simp add: decimal_text.simps [of n] decimal_value_def)
  next
    case False
    then show ?thesis using 1(3) by (simp add: decimal_text.simps [of n] decimal_value_snoc)
  qed
qed

lemma read_decimal_text: "read_unsigned (decimal_text (unat bits)) = Some bits"
proof -
  have "unat bits < 2 ^ 64" by (rule order_less_le_trans [OF unsigned_less]) simp
  then have "unat bits \<le> u64_max" by simp
  then show ?thesis by (simp add: read_unsigned_def decimal_text_digits)
qed

lemma sint_nonneg:
  fixes bits :: u64
  assumes "0 \<le> sint bits"
  shows "uint bits = sint bits"
proof -
  have "uint bits = uint (word_of_int (sint bits) :: u64)" by simp
  also have "\<dots> = sint bits mod 2 ^ 64" by (simp only: uint_word_of_int) simp
  also have "\<dots> = sint bits" using assms sint_lt [of bits] by (intro mod_pos_pos_trivial) simp_all
  finally show ?thesis .
qed

lemma signed_text_cases:
  "sint bits < 0 \<Longrightarrow> signed_text bits = CHR ''-'' # decimal_text (nat (- sint bits)) \<and>
     read_negative (signed_text bits) = Some bits"
  "\<not> sint bits < 0 \<Longrightarrow> signed_text bits = decimal_text (unat bits)"
proof -
  assume neg: "sint bits < 0"
  have "- (2 ^ 63) \<le> sint bits" using sint_ge [of bits] by simp
  then have "nat (- sint bits) \<le> 2 ^ 63" by simp
  moreover have "- (of_nat (nat (- sint bits)) :: u64) = bits" using neg by (simp add: of_nat_nat)
  ultimately show "signed_text bits = CHR ''-'' # decimal_text (nat (- sint bits)) \<and> read_negative (signed_text bits) = Some bits"
    using neg by (simp add: signed_text_def read_negative_def decimal_text_digits)
next
  assume "\<not> sint bits < 0"
  then have "nat (sint bits) = unat bits"
    using sint_nonneg [of bits] by (simp add: unat_eq_nat_uint)
  then show "signed_text bits = decimal_text (unat bits)" using \<open>\<not> sint bits < 0\<close> by (simp add: signed_text_def)
qed

section \<open>What the parser returns\<close>

primrec node_count :: "aggregate_initializer \<Rightarrow> nat" where
  "node_count (aggregate_initializer v is_list children) = Suc (sum_list (map node_count children))"

primrec levels :: "aggregate_initializer \<Rightarrow> nat" where
  "levels (aggregate_initializer v is_list children) = Suc (foldr max (map levels children) 0)"

definition parsed_constant :: "construction_value \<Rightarrow> bool" where
  "parsed_constant v \<longleftrightarrow>
     v = cv_default \<or> (\<exists>bits. v = cv_constant ck_unsigned_integer bits \<or> v = cv_constant ck_signed_integer bits \<or>
       v = cv_constant ck_real bits \<and> finite_bits bits)"

primrec parsed_tree :: "aggregate_initializer \<Rightarrow> bool" where
  "parsed_tree (aggregate_initializer v is_list children) =
     (if is_list then list_all id (map parsed_tree children) else children = [] \<and> parsed_constant v)"

lemma levels_children: "foldr max (map levels children) 0 \<le> n \<longleftrightarrow> (\<forall>c\<in>set children. levels c \<le> n)"
  by (induction children) auto

lemma scalar_token_parsed: "scalar_token read_double token = Some v \<Longrightarrow> parsed_constant v"
  by (auto simp: scalar_token_def parsed_constant_def Let_def split: if_splits option.splits)

lemma parse_items_parsed:
  assumes "\<And>cs nodes v rest nodes'. self cs nodes = Some (v, rest, nodes') \<Longrightarrow>
      parsed_tree v \<and> levels v \<le> left \<and> nodes + node_count v \<le> nodes' \<and> nodes' \<le> 65536"
    and "parse_items self fuel cs nodes children = Some (result, rest, nodes')"
  shows "\<exists>new. result = children @ new \<and> list_all parsed_tree new \<and> (\<forall>c\<in>set new. levels c \<le> left) \<and>
      nodes + sum_list (map node_count new) \<le> nodes' \<and> nodes' \<le> 65536"
  using assms(2)
proof (induction fuel arbitrary: cs nodes children)
  case (Suc fuel)
  obtain child cs1 nodes1 where child: "self cs nodes = Some (child, cs1, nodes1)"
    using Suc.prems by (auto split: option.splits)
  note c = assms(1) [OF child]
  let ?more = "\<exists>cs3. parse_items self fuel cs3 nodes1 (children @ [child]) = Some (result, rest, nodes')"
  have "result = children @ [child] \<and> nodes' = nodes1 \<or> ?more"
    using Suc.prems child by (auto simp: Let_def split: list.splits if_splits)
  then show ?case
  proof
    assume "result = children @ [child] \<and> nodes' = nodes1"
    then show ?thesis using c by (intro exI [of _ "[child]"]) simp
  next
    assume ?more
    then obtain new where "result = (children @ [child]) @ new \<and> list_all parsed_tree new \<and> (\<forall>c\<in>set new. levels c \<le> left) \<and>
      nodes1 + sum_list (map node_count new) \<le> nodes' \<and> nodes' \<le> 65536" using Suc.IH by blast
    then show ?thesis using c by (intro exI [of _ "child # new"]) auto
  qed
qed simp

lemma parse_node_parsed:
  "parse_node read_double left cs nodes = Some (v, rest, nodes') \<Longrightarrow>
   parsed_tree v \<and> levels v \<le> left \<and> nodes + node_count v \<le> nodes' \<and> nodes' \<le> 65536"
proof (induction left arbitrary: cs nodes v rest nodes')
  case (Suc left)
  obtain c cs1 where cs: "skip_blanks cs = c # cs1" and few: "\<not> nodes + 1 > 65536"
    using Suc.prems by (auto split: list.splits if_splits)
  let ?cs2 = "skip_blanks cs1"
  consider (list) "c = CHR ''{''" | (paren) "c = CHR ''(''" | (scalar) "c \<noteq> CHR ''{''" "c \<noteq> CHR ''(''" by blast
  then show ?case
  proof cases
    case list
    show ?thesis
    proof (cases "?cs2 \<noteq> [] \<and> hd ?cs2 = CHR ''}''")
      case True
      then show ?thesis using Suc.prems cs few list by (auto simp: Let_def)
    next
      case False
      then obtain children where
        "parse_items (parse_node read_double left) (Suc (length ?cs2)) ?cs2 (nodes + 1) [] = Some (children, rest, nodes')"
        and v: "v = aggregate_initializer cv_default True children"
        using Suc.prems cs few list by (auto simp: Let_def simp del: parse_items.simps split: option.splits)
      from parse_items_parsed [OF Suc.IH this(1)] show ?thesis by (auto simp: v levels_children list_all_iff)
    qed
  next
    case paren
    then obtain cs2 where "parse_node read_double left cs1 (nodes + 1) = Some (v, cs2, nodes')"
      using Suc.prems cs few by (auto split: option.splits list.splits if_splits)
    from Suc.IH [OF this] show ?thesis by auto
  next
    case scalar
    then obtain w where "v = ai_leaf w" "nodes' = nodes + 1" "parsed_constant w"
      using Suc.prems cs few by (auto simp: Let_def dest: scalar_token_parsed split: option.splits)
    then show ?thesis using few by (simp add: ai_leaf_def)
  qed
qed simp

section \<open>Round trip\<close>

definition number_char :: "char \<Rightarrow> bool" where
  "number_char c \<longleftrightarrow> number_digit c \<or> c \<in> set ''-+.e''"

text \<open>
  What the code relies on of \<^verbatim>\<open>std::to_chars\<close> and \<^verbatim>\<open>std::from_chars\<close> for a finite number: decimal text, without
  a leading plus sign, that reads back, also with a zero fraction appended to digits only.
\<close>

definition double_text :: "(string \<Rightarrow> u64 option) \<Rightarrow> (u64 \<Rightarrow> string) \<Rightarrow> bool" where
  "double_text read_double write_double \<longleftrightarrow>
     (\<forall>bits. finite_bits bits \<longrightarrow>
        (let s = write_double bits in
         s \<noteq> [] \<and> list_all number_char s \<and> hd s \<noteq> CHR ''+'' \<and>
         read_double (if has_point s then s else s @ ''.0'') = Some bits))"

text \<open>The constant and the tree that reading back gives.\<close>

definition normal_constant :: "construction_value \<Rightarrow> construction_value" where
  "normal_constant v =
     (if cv_kind v = ck_real then v
      else if cv_kind v = ck_signed_integer \<and> sint (cv_bits v) < 0 then v
      else cv_constant ck_unsigned_integer (cv_bits v))"

primrec normal_initializer :: "aggregate_initializer \<Rightarrow> aggregate_initializer" where
  "normal_initializer (aggregate_initializer v is_list children) =
     (if is_list then aggregate_initializer cv_default True (map normal_initializer children) else ai_leaf (normal_constant v))"

definition number_text :: "string \<Rightarrow> bool" where
  "number_text s \<longleftrightarrow> s \<noteq> [] \<and> list_all number_char s \<and> hd s \<noteq> CHR ''+''"

lemma number_char_plain:
  assumes "number_char c"
  shows "\<not> token_end c" "\<not> is_blank c" "c \<noteq> CHR ''{''" "c \<noteq> CHR ''(''" "c \<noteq> CHR ''}''"
  using assms by (auto simp: number_char_def number_digit_def token_end_def is_blank_def)

lemma number_text_token:
  assumes "number_text s"
  shows "takeWhile (\<lambda>x. \<not> token_end x) s = s" "drop_trailing_blanks s = s" "s \<noteq> ''false''" "s \<noteq> ''true''" "s \<noteq> ''nullptr''"
proof -
  have chars: "\<And>c. c \<in> set s \<Longrightarrow> number_char c" and s: "s \<noteq> []" using assms by (auto simp: number_text_def list_all_iff)
  show "takeWhile (\<lambda>x. \<not> token_end x) s = s" using chars number_char_plain(1) by (simp add: takeWhile_eq_all_conv)
  have "\<not> is_blank (hd (rev s))" using chars number_char_plain(2) s by (simp add: hd_rev)
  then have "dropWhile is_blank (rev s) = rev s" using s by (metis dropWhile_eq_self_iff)
  then show "drop_trailing_blanks s = s" by (simp add: drop_trailing_blanks_def)
  show "s \<noteq> ''false''" "s \<noteq> ''true''" "s \<noteq> ''nullptr''"
    using chars [of "CHR ''f''"] chars [of "CHR ''t''"] chars [of "CHR ''n''"] by (auto simp: number_char_def number_digit_def)
qed

lemma parse_number:
  assumes "number_text s" "scalar_token read_double s = Some v" "nodes + 1 \<le> 65536" "rest = [] \<or> token_end (hd rest)"
  shows "parse_node read_double (Suc left) (s @ rest) nodes = Some (ai_leaf v, rest, nodes + 1)"
proof -
  obtain c s' where s: "s = c # s'" using assms(1) by (cases s) (auto simp: number_text_def)
  have c: "number_char c" using assms(1) by (simp add: s number_text_def)
  have "skip_blanks (s @ rest) = c # s' @ rest" using number_char_plain(2) [OF c] by (simp add: s skip_blanks_def)
  moreover have "takeWhile (\<lambda>x. \<not> token_end x) (s @ rest) = s"
    using assms(4) number_text_token(1) [OF assms(1)] by (cases rest) (simp_all add: takeWhile_append takeWhile_eq_all_conv)
  ultimately show ?thesis
    using assms(2,3) number_char_plain(3,4) [OF c] number_text_token(2) [OF assms(1)] by (simp add: s)
qed

lemma digits_number_text:
  assumes "cs \<noteq> []" "list_all number_digit cs"
  shows "number_text cs" "\<not> has_point cs" "hd cs \<noteq> CHR ''-''" "hd cs \<noteq> CHR ''+''"
proof -
  have digits: "\<And>c. c \<in> set cs \<Longrightarrow> number_digit c" using assms(2) by (simp add: list_all_iff)
  show "\<not> has_point cs" using digits by (fastforce simp: has_point_def list_ex_iff number_digit_def)
  have "number_digit (hd cs)" using assms(1) digits by simp
  then show "hd cs \<noteq> CHR ''-''" "hd cs \<noteq> CHR ''+''" by (auto simp: number_digit_def)
  then show "number_text cs" using assms by (simp add: number_text_def list_all_iff number_char_def)
qed

lemma scalar_number:
  assumes "number_text s"
  shows "scalar_token read_double s =
     (if has_point s then
        (case read_double s of None \<Rightarrow> None | Some bits \<Rightarrow> if finite_bits bits then Some (cv_constant ck_real bits) else None)
      else if hd s = CHR ''-'' then map_option (cv_constant ck_signed_integer) (read_negative s)
      else map_option (cv_constant ck_unsigned_integer) (read_unsigned s))"
  using assms number_text_token(3-5) [OF assms] by (simp add: scalar_token_def number_text_def)

lemma encode_unsigned:
  "number_text (decimal_text (unat bits))"
  "scalar_token read_double (decimal_text (unat bits)) = Some (cv_constant ck_unsigned_integer bits)"
proof -
  note d = digits_number_text [OF decimal_text_digits(1,2), of "unat bits"]
  show "number_text (decimal_text (unat bits))" by (rule d(1))
  show "scalar_token read_double (decimal_text (unat bits)) = Some (cv_constant ck_unsigned_integer bits)"
    using d by (simp add: scalar_number [OF d(1)] read_decimal_text)
qed

definition constant_parses :: "(string \<Rightarrow> u64 option) \<Rightarrow> (u64 \<Rightarrow> string) \<Rightarrow> construction_value \<Rightarrow> bool" where
  "constant_parses read_double write_double v \<longleftrightarrow>
     number_text (encode_constant write_double v) \<and>
     scalar_token read_double (encode_constant write_double v) = Some (normal_constant v)"

lemma cv_constant_kind [simp]: "cv_kind (cv_constant k bits) = k" "cv_kind cv_default = ck_zero" "cv_bits cv_default = 0"
  by (simp_all add: cv_constant_def cv_default_def cv_bits_def)

lemma real_parses:
  assumes "finite_bits bits" "double_text read_double write_double"
  shows "constant_parses read_double write_double (cv_constant ck_real bits)"
proof -
  let ?s = "write_double bits" and ?t = "encode_constant write_double (cv_constant ck_real bits)"
  have s: "?s \<noteq> []" "list_all number_char ?s" "hd ?s \<noteq> CHR ''+''"
    and r: "read_double (if has_point ?s then ?s else ?s @ ''.0'') = Some bits"
    using assms by (simp_all add: double_text_def Let_def)
  have t: "?t = (if has_point ?s then ?s else ?s @ ''.0'')" by (simp add: encode_constant_def)
  have "number_text ?t" using s by (auto simp: t number_text_def number_char_def number_digit_def)
  moreover have "has_point ?t" by (auto simp: t has_point_def)
  ultimately show ?thesis using r assms(1) by (simp add: constant_parses_def normal_constant_def scalar_number t)
qed

lemma signed_parses: "constant_parses read_double write_double (cv_constant ck_signed_integer bits)"
proof (cases "sint bits < 0")
  case True
  note st = signed_text_cases(1) [OF True]
  have "number_text (signed_text bits)"
    using decimal_text_digits(2) [of "nat (- sint bits)"] st by (auto simp: number_text_def number_char_def list_all_iff)
  moreover have "\<not> has_point (signed_text bits)"
    using st digits_number_text(2) [OF decimal_text_digits(1,2)] by (simp add: has_point_def)
  moreover have "hd (signed_text bits) = CHR ''-''" "read_negative (signed_text bits) = Some bits" using st by auto
  ultimately show ?thesis using True
    by (simp add: constant_parses_def encode_constant_def normal_constant_def scalar_number)
next
  case False
  then show ?thesis using encode_unsigned
    by (simp add: constant_parses_def encode_constant_def normal_constant_def signed_text_cases(2))
qed

lemma encode_constant_parses:
  assumes "parsed_constant v" "double_text read_double write_double"
  shows "number_text (encode_constant write_double v)"
    and "scalar_token read_double (encode_constant write_double v) = Some (normal_constant v)"
proof -
  have "constant_parses read_double write_double v"
    if "v = cv_constant ck_unsigned_integer (cv_bits v) \<or> v = cv_default"
  proof -
    have "cv_kind v = ck_unsigned_integer \<or> cv_kind v = ck_zero" using that by (metis cv_constant_kind(1,2))
    then show ?thesis using encode_unsigned [where bits = "cv_bits v"]
      by (auto simp: constant_parses_def encode_constant_def normal_constant_def)
  qed
  then have "constant_parses read_double write_double v"
    using assms(1) real_parses [OF _ assms(2)] signed_parses unfolding parsed_constant_def by (metis cv_bits_constant)
  then show "number_text (encode_constant write_double v)"
    "scalar_token read_double (encode_constant write_double v) = Some (normal_constant v)" by (auto simp: constant_parses_def)
qed

lemma encode_starts:
  assumes "parsed_tree v" "double_text read_double write_double"
  obtains c s where "encode_aggregate_initializer write_double v = c # s" "\<not> is_blank c" "c \<noteq> CHR ''}''"
proof (cases v)
  case (aggregate_initializer w is_list children)
  show ?thesis
  proof (cases is_list)
    case True
    then show ?thesis using that aggregate_initializer by (auto simp: is_blank_def)
  next
    case False
    then have n: "number_text (encode_constant write_double w)"
      using encode_constant_parses(1) assms aggregate_initializer by simp
    then obtain c s where s: "encode_constant write_double w = c # s" by (cases "encode_constant write_double w") (auto simp: number_text_def)
    then have "number_char c" using n by (simp add: number_text_def)
    then show ?thesis using that number_char_plain s False aggregate_initializer by simp
  qed
qed

lemma encode_starts_skip:
  assumes "parsed_tree v" "double_text read_double write_double"
  shows "skip_blanks (encode_aggregate_initializer write_double v @ rest) = encode_aggregate_initializer write_double v @ rest"
    and "encode_aggregate_initializer write_double v @ rest \<noteq> []"
    and "hd (encode_aggregate_initializer write_double v @ rest) \<noteq> CHR ''}''"
proof -
  obtain c s where "encode_aggregate_initializer write_double v = c # s" "\<not> is_blank c" "c \<noteq> CHR ''}''"
    using encode_starts [OF assms] .
  then show "skip_blanks (encode_aggregate_initializer write_double v @ rest) = encode_aggregate_initializer write_double v @ rest"
    and "encode_aggregate_initializer write_double v @ rest \<noteq> []"
    and "hd (encode_aggregate_initializer write_double v @ rest) \<noteq> CHR ''}''" by (auto simp: skip_blanks_def)
qed

text \<open>The loop over the elements reads back what the printer wrote, if each element is read back.\<close>

lemma parse_items_encoded:
  assumes "\<And>v rest nodes. v \<in> set (c # cs) \<Longrightarrow> rest \<noteq> [] \<Longrightarrow> token_end (hd rest) \<Longrightarrow> nodes + node_count v \<le> 65536 \<Longrightarrow>
      self (encode_aggregate_initializer write_double v @ rest) nodes = Some (normal_initializer v, rest, nodes + node_count v)"
    and "nodes + sum_list (map node_count (c # cs)) \<le> 65536" "length cs < fuel"
    and "list_all parsed_tree (c # cs)" "double_text read_double write_double"
  shows "parse_items self fuel (join_items (map (encode_aggregate_initializer write_double) (c # cs)) @ CHR ''}'' # rest) nodes children =
     Some (children @ map normal_initializer (c # cs), rest, nodes + sum_list (map node_count (c # cs)))"
  using assms
proof (induction cs arbitrary: c fuel nodes children)
  case Nil
  obtain fuel' where fuel: "fuel = Suc fuel'" using Nil.prems(3) by (cases fuel) auto
  have "self (encode_aggregate_initializer write_double c @ CHR ''}'' # rest) nodes =
      Some (normal_initializer c, CHR ''}'' # rest, nodes + node_count c)"
    by (rule Nil.prems(1)) (use Nil.prems(2) in \<open>simp_all add: token_end_def\<close>)
  then show ?case by (simp add: fuel skip_blanks_def is_blank_def)
next
  case (Cons d cs)
  obtain fuel' where fuel: "fuel = Suc fuel'" using Cons.prems(3) by (cases fuel) auto
  let ?enc = "encode_aggregate_initializer write_double"
  define more_items where "more_items = join_items (map ?enc (d # cs)) @ CHR ''}'' # rest"
  have here: "self (?enc c @ CHR '','' # more_items) nodes = Some (normal_initializer c, CHR '','' # more_items, nodes + node_count c)"
    by (rule Cons.prems(1)) (use Cons.prems(2) in \<open>simp_all add: token_end_def\<close>)
  have d: "parsed_tree d" using Cons.prems(4) by simp
  have join: "more_items = ?enc d @ concat (map (\<lambda>r. CHR '','' # r) (map ?enc cs)) @ CHR ''}'' # rest" by (simp add: more_items_def)
  note start = encode_starts_skip [OF d Cons.prems(5), of "concat (map (\<lambda>r. CHR '','' # r) (map ?enc cs)) @ CHR ''}'' # rest",
      folded join]
  have rest: "parse_items self fuel' more_items (nodes + node_count c) (children @ [normal_initializer c]) =
     Some ((children @ [normal_initializer c]) @ map normal_initializer (d # cs), rest,
       nodes + node_count c + sum_list (map node_count (d # cs)))"
    unfolding more_items_def by (rule Cons.IH) (use Cons.prems fuel in auto)
  have whole: "join_items (map ?enc (c # d # cs)) @ CHR ''}'' # rest = ?enc c @ CHR '','' # more_items" by (simp add: more_items_def)
  have "skip_blanks (CHR '','' # more_items) = CHR '','' # more_items" by (simp add: skip_blanks_def is_blank_def)
  then show ?case unfolding whole fuel using here rest start by (simp add: Let_def add.assoc)
qed

lemma parse_node_encoded:
  assumes "double_text read_double write_double"
  shows "parsed_tree v \<Longrightarrow> levels v \<le> left \<Longrightarrow> nodes + node_count v \<le> 65536 \<Longrightarrow> rest = [] \<or> token_end (hd rest) \<Longrightarrow>
     parse_node read_double left (encode_aggregate_initializer write_double v @ rest) nodes =
       Some (normal_initializer v, rest, nodes + node_count v)"
proof (induction left arbitrary: v nodes rest)
  case 0
  then show ?case by (cases v) simp
next
  case (Suc left)
  obtain w is_list children where v: "v = aggregate_initializer w is_list children" by (cases v)
  show ?case
  proof (cases is_list)
    case False
    then show ?thesis
      using Suc.prems encode_constant_parses [OF _ assms, of w] parse_number [of "encode_constant write_double w" read_double]
      by (simp add: v del: parse_node.simps)
  next
    case True
    let ?enc = "encode_aggregate_initializer write_double"
    define body where "body = join_items (map ?enc children) @ CHR ''}'' # rest"
    have whole: "?enc v @ rest = CHR ''{'' # body" using True by (simp add: v body_def)
    show ?thesis
    proof (cases children)
      case Nil
      then show ?thesis using True Suc.prems(3) unfolding whole by (simp add: v body_def skip_blanks_def is_blank_def)
    next
      case (Cons c cs)
      have trees: "list_all parsed_tree (c # cs)" using Suc.prems(1) True by (simp add: v Cons list_all_iff)
      have "length cs < Suc (length body)" 
      proof -
        have "length ss \<le> length (concat (map (\<lambda>r. CHR '','' # r) ss))" for ss :: "string list" by (induction ss) auto
        from this [of "map ?enc cs"] show ?thesis by (simp add: body_def Cons)
      qed
      then have items: "parse_items (parse_node read_double left) (Suc (length body)) body (nodes + 1) [] =
         Some ([] @ map normal_initializer (c # cs), rest, nodes + 1 + sum_list (map node_count (c # cs)))"
        unfolding body_def Cons
        by (intro parse_items_encoded [OF _ _ _ trees assms] Suc.IH)
          (use Suc.prems(2,3) trees in \<open>auto simp: v Cons list_all_iff levels_children\<close>)
      have start: "skip_blanks body = body" "body \<noteq> []" "hd body \<noteq> CHR ''}''"
        using encode_starts_skip [OF _ assms, of c] trees by (auto simp: body_def Cons)
      have "\<not> 65536 < nodes + 1" using Suc.prems(3) by (simp add: v)
      then show ?thesis unfolding whole using items start True
        by (simp add: v Cons skip_blanks_def [of "CHR ''{'' # body"] is_blank_def del: parse_items.simps)
    qed
  qed
qed

lemma encode_normal:
  "encode_aggregate_initializer write_double (normal_initializer v) = encode_aggregate_initializer write_double v"
proof (induction v)
  case (aggregate_initializer w is_list children)
  then show ?case
    by (auto simp: ai_leaf_def encode_constant_def normal_constant_def signed_text_cases(2) intro!: arg_cong [of _ _ join_items])
qed

text \<open>
  C37. Normalising an initializer list is stable. If a text parses, printing the tree and parsing the result
  succeeds and gives the tree with its constants in normal form (a value that is not negative is unsigned), and
  printing that tree gives the same text.
\<close>

theorem initializer_round_trip:
  assumes "double_text read_double write_double"
    and "parse_aggregate_initializer read_double source = Some v"
  shows "parse_aggregate_initializer read_double (encode_aggregate_initializer write_double v) = Some (normal_initializer v) \<and>
    encode_aggregate_initializer write_double (normal_initializer v) = encode_aggregate_initializer write_double v"
proof -
  have "\<exists>rest nodes. parse_node read_double 65 source 0 = Some (v, rest, nodes)"
    using assms(2) by (auto simp: parse_aggregate_initializer_def simp del: parse_node.simps split: option.splits if_splits)
  then have v: "parsed_tree v" "levels v \<le> 65" "0 + node_count v \<le> 65536"
    using parse_node_parsed by (metis le_trans)+
  have "parse_aggregate_initializer read_double (encode_aggregate_initializer write_double v) = Some (normal_initializer v)"
    using parse_node_encoded [OF assms(1) v, of "[]"]
    by (simp add: parse_aggregate_initializer_def skip_blanks_def del: parse_node.simps)
  moreover have "encode_aggregate_initializer write_double (normal_initializer v) = encode_aggregate_initializer write_double v"
    by (rule encode_normal)
  ultimately show ?thesis by blast
qed

text \<open>
  A printer and a reader of numbers that satisfy the hypothesis: the bit pattern as a decimal number, with a
  fraction of zero to be dropped.
\<close>

definition pattern_double :: "string \<Rightarrow> u64 option" where
  "pattern_double s = read_unsigned (butlast (butlast s))"

definition pattern_text :: "u64 \<Rightarrow> string" where
  "pattern_text bits = decimal_text (unat bits)"

lemma pattern_double_text: "double_text pattern_double pattern_text"
proof -
  have "list_all number_char (decimal_text n)" "hd (decimal_text n) \<noteq> CHR ''+''" "\<not> has_point (decimal_text n)" for n
    using digits_number_text [OF decimal_text_digits(1,2), of n] by (auto simp: number_text_def)
  then show ?thesis
    by (simp add: double_text_def pattern_double_def pattern_text_def decimal_text_digits read_decimal_text butlast_append)
qed

definition sample_tree :: aggregate_initializer where
  "sample_tree = aggregate_initializer cv_default True
     [ai_leaf (cv_constant ck_unsigned_integer 1), ai_leaf (cv_constant ck_signed_integer (- 2)),
      ai_leaf (cv_constant ck_unsigned_integer 3)]"

lemma sample_parses: "parse_aggregate_initializer pattern_double ''{1, -2,(3)}'' = Some sample_tree"
proof -
  have "parse_node pattern_double (Suc (Suc (Suc d))) ''{1, -2,(3)}'' 0 = Some (sample_tree, [], 5)" for d
    by (simp add: sample_tree_def skip_blanks_def is_blank_def token_end_def scalar_token_def drop_trailing_blanks_def
      has_point_def read_unsigned_def read_negative_def number_digit_def decimal_value_def Let_def)
  from this [of 62] show ?thesis by (simp add: parse_aggregate_initializer_def skip_blanks_def)
qed

theorem initializer_round_trip_witness:
  "parse_aggregate_initializer pattern_double ''{1, -2,(3)}'' = Some sample_tree \<and>
   parse_aggregate_initializer pattern_double (encode_aggregate_initializer pattern_text sample_tree) =
     Some (normal_initializer sample_tree)"
  using sample_parses initializer_round_trip [OF pattern_double_text sample_parses] by blast

end
