(* ===== verification/Source_Facts.thy ===== *)
theory Source_Facts
  imports Aggregate_Initializer Identity_Space Diagnostics
begin

text \<open>
  The facts that the parser hands to the builder, \<^verbatim>\<open>src/server_engine/project/frontend/source_facts.hpp\<close>: flat arrays
  of namespaces, records, members, enumerations, objects, links and aliases, related by ranges of indexes, and
  the errors of their validation. Enumerations are kept as their stored codes, since the validation has to
  reject codes that no enumerator has.
\<close>

section \<open>Facts\<close>

definition no_span :: source_span where
  "no_span = \<lparr>sp_offset = 0, sp_length = 0\<rparr>"

record source_fact_range =
  fr_begin :: nat
  fr_count :: nat

record source_type_modifier =
  tm_value :: u64
  tm_kind :: nat

record source_type_ref =
  ty_identity :: u32
  ty_intrinsic :: nat
  ty_modifiers :: source_fact_range
  ty_spelling :: source_span

record source_namespace_fact =
  ns_identity :: u32
  ns_declaration :: source_span

record source_record_fact =
  rf_identity :: u32
  rf_members :: source_fact_range
  rf_bases :: source_fact_range
  rf_methods :: source_fact_range
  rf_declaration :: source_span
  rf_declaration_kind :: nat
  rf_record_kind :: nat

record source_member_fact =
  mm_type :: source_type_ref
  mm_name :: u32
  mm_declaration :: source_span
  mm_access :: nat
  mm_initializer :: source_span
  mm_construction :: construction_value

record source_base_fact =
  bf_base :: u32
  bf_access :: nat
  bf_declaration :: source_span
  bf_virtual :: bool

record source_method_fact =
  mt_name :: u32
  mt_return_type :: source_type_ref
  mt_access :: nat
  mt_declaration :: source_span
  mt_virtual :: bool
  mt_override :: bool
  mt_pure :: bool
  mt_static :: bool
  mt_const :: bool
  mt_constructor :: bool
  mt_destructor :: bool

record source_alias_fact =
  al_identity :: u32
  al_target :: source_type_ref
  al_declaration :: source_span

record source_enum_value_fact =
  vf_name :: u32
  vf_intrinsic :: nat
  vf_bits :: u64
  vf_expression :: source_span

record source_enum_fact =
  ef_identity :: u32
  ef_enumerators :: source_fact_range
  ef_declaration :: source_span
  ef_underlying_spelling :: source_span
  ef_explicit_underlying :: nat
  ef_declaration_kind :: nat
  ef_scoped :: bool

record source_object_fact =
  ob_identity :: u32
  ob_type :: source_type_ref
  ob_declaration :: source_span
  ob_initializer :: source_span
  ob_construction_flags :: nat

record source_object_endpoint_fact =
  oef_object :: u32
  oef_member :: u32

record source_link_fact =
  lf_source :: source_object_endpoint_fact
  lf_target :: source_object_endpoint_fact
  lf_declaration :: source_span

record source_declaration_ref =
  dr_index :: nat
  dr_kind :: nat
  dr_declaration :: source_span

record source_facts =
  sf_source :: nat
  sf_text :: string
  sf_namespaces :: "source_namespace_fact list"
  sf_records :: "source_record_fact list"
  sf_members :: "source_member_fact list"
  sf_modifiers :: "source_type_modifier list"
  sf_enums :: "source_enum_fact list"
  sf_enum_values :: "source_enum_value_fact list"
  sf_declarations :: "source_declaration_ref list"
  sf_objects :: "source_object_fact list"
  sf_links :: "source_link_fact list"
  sf_bases :: "source_base_fact list"
  sf_aliases :: "source_alias_fact list"
  sf_alias_modifiers :: "source_type_modifier list"
  sf_methods :: "source_method_fact list"
  sf_method_modifiers :: "source_type_modifier list"

definition facts_text :: "source_facts \<Rightarrow> source_span \<Rightarrow> string" where
  "facts_text facts r =
     (if sp_offset r > length (sf_text facts) \<or> sp_length r > length (sf_text facts) - sp_offset r then []
      else take (sp_length r) (drop (sp_offset r) (sf_text facts)))"

section \<open>Errors\<close>

datatype (plugins only:) source_facts_error_code =
    fe_none
  | fe_invalid_source
  | fe_source_too_large
  | fe_namespace_identity_missing
  | fe_namespace_identity_kind
  | fe_namespace_range
  | fe_namespace_order
  | fe_record_identity_missing
  | fe_record_identity_kind
  | fe_record_declaration_kind
  | fe_record_kind
  | fe_record_range
  | fe_record_order
  | fe_record_member_range
  | fe_declaration_has_members
  | fe_member_partition
  | fe_member_access
  | fe_member_name_empty
  | fe_member_name_range
  | fe_member_range
  | fe_member_initializer_range
  | fe_member_order
  | fe_member_name_outside_declaration
  | fe_type_spelling_range
  | fe_type_spelling_outside_member
  | fe_unresolved_type_base
  | fe_ambiguous_type_base
  | fe_semantic_type_identity_kind
  | fe_intrinsic_type_code
  | fe_modifier_partition
  | fe_modifier_kind
  | fe_modifier_value
  | fe_enum_identity_missing
  | fe_enum_identity_kind
  | fe_enum_declaration_kind
  | fe_enum_range
  | fe_enum_order
  | fe_enum_enumerator_range
  | fe_enum_declaration_has_values
  | fe_enum_value_partition
  | fe_enum_underlying_type
  | fe_enum_value_name_range
  | fe_enum_value_expression_range
  | fe_enum_value_type
  | fe_object_identity_missing
  | fe_object_identity_kind
  | fe_object_range
  | fe_object_initializer_range
  | fe_object_type
  | fe_link_endpoint
  | fe_link_range
  | fe_declaration_sequence_index
  | fe_declaration_sequence_order
  | fe_declaration_sequence_range
  | fe_record_base_range
  | fe_declaration_has_bases
  | fe_declaration_has_methods
  | fe_base_partition
  | fe_base_identity_missing
  | fe_base_identity_kind
  | fe_base_access
  | fe_base_range
  | fe_method_name_empty
  | fe_method_range
  | fe_method_order
  | fe_method_access
  | fe_method_partition
  | fe_method_modifier_partition
  | fe_alias_identity_missing
  | fe_alias_identity_kind
  | fe_alias_range
  | fe_alias_order
  | fe_alias_modifier_partition
  | fe_construction_value_invalid

datatype source_fact_category =
    fc_packet
  | fc_namespace
  | fc_record
  | fc_member
  | fc_modifier
  | fc_enum
  | fc_enum_value
  | fc_object
  | fc_link
  | fc_base
  | fc_alias
  | fc_method
  | fc_declaration

record source_facts_validation_error =
  ve_code :: source_facts_error_code
  ve_category :: source_fact_category
  ve_index :: nat
  ve_location :: source_span

primrec source_facts_error_detail :: "source_facts_error_code \<Rightarrow> string" where
  "source_facts_error_detail fe_none = ''source facts are valid''"
| "source_facts_error_detail fe_invalid_source = ''source_facts carries an invalid source_id''"
| "source_facts_error_detail fe_source_too_large = ''source text exceeds the 32-bit source-range contract''"
| "source_facts_error_detail fe_namespace_identity_missing = ''namespace fact has no resolved identity''"
| "source_facts_error_detail fe_namespace_identity_kind = ''namespace fact identity is not a namespace identity''"
| "source_facts_error_detail fe_namespace_range = ''namespace declaration range is outside the Source snapshot''"
| "source_facts_error_detail fe_namespace_order = ''namespace facts are not in source declaration order''"
| "source_facts_error_detail fe_record_identity_missing = ''record fact has no resolved identity''"
| "source_facts_error_detail fe_record_identity_kind = ''record fact identity is not a type identity''"
| "source_facts_error_detail fe_record_declaration_kind = ''record fact has an unsupported declaration kind''"
| "source_facts_error_detail fe_record_kind = ''record fact has an unsupported record kind''"
| "source_facts_error_detail fe_record_range = ''record declaration range is outside the Source snapshot''"
| "source_facts_error_detail fe_record_order = ''record facts are not in source declaration order''"
| "source_facts_error_detail fe_record_member_range = ''record member range is outside the flat member array''"
| "source_facts_error_detail fe_declaration_has_members = ''record declaration carries definition members''"
| "source_facts_error_detail fe_member_partition = ''record definitions do not form an exact lexical partition of members''"
| "source_facts_error_detail fe_member_access = ''member fact has an unsupported access value''"
| "source_facts_error_detail fe_member_name_empty = ''member fact has an empty source name''"
| "source_facts_error_detail fe_member_name_range = ''member name range is outside the Source snapshot''"
| "source_facts_error_detail fe_member_range = ''member declaration range is outside the Source snapshot''"
| "source_facts_error_detail fe_member_initializer_range = ''member initializer range is outside its declaration''"
| "source_facts_error_detail fe_member_order = ''record members are not in source declaration order''"
| "source_facts_error_detail fe_member_name_outside_declaration = ''member name is outside its declaration range''"
| "source_facts_error_detail fe_type_spelling_range = ''member type spelling range is outside the Source snapshot''"
| "source_facts_error_detail fe_type_spelling_outside_member = ''member type spelling is outside its declaration range''"
| "source_facts_error_detail fe_unresolved_type_base = ''type reference has no resolved identity or intrinsic type''"
| "source_facts_error_detail fe_ambiguous_type_base = ''type reference carries both semantic identity and intrinsic type''"
| "source_facts_error_detail fe_semantic_type_identity_kind = ''type reference identity is not a type identity''"
| "source_facts_error_detail fe_intrinsic_type_code = ''type reference has an invalid intrinsic type code''"
| "source_facts_error_detail fe_modifier_partition = ''member type modifiers do not form an exact dense partition''"
| "source_facts_error_detail fe_modifier_kind = ''type modifier has an unsupported modifier kind''"
| "source_facts_error_detail fe_modifier_value = ''type modifier payload violates its structural contract''"
| "source_facts_error_detail fe_enum_identity_missing = ''enum fact has no resolved identity''"
| "source_facts_error_detail fe_enum_identity_kind = ''enum fact identity is not a type identity''"
| "source_facts_error_detail fe_enum_declaration_kind = ''enum fact has an unsupported declaration kind''"
| "source_facts_error_detail fe_enum_range = ''enum declaration range is outside the Source snapshot''"
| "source_facts_error_detail fe_enum_order = ''enum facts are not in source declaration order''"
| "source_facts_error_detail fe_enum_enumerator_range = ''enum enumerator range is outside the flat enum-value array''"
| "source_facts_error_detail fe_enum_declaration_has_values = ''enum declaration carries definition enumerators''"
| "source_facts_error_detail fe_enum_value_partition = ''enum definitions do not form an exact lexical partition of enum values''"
| "source_facts_error_detail fe_enum_underlying_type = ''enum explicit underlying type is not an integral intrinsic type''"
| "source_facts_error_detail fe_enum_value_name_range = ''enum value name range is outside the Source snapshot''"
| "source_facts_error_detail fe_enum_value_expression_range = ''enum value expression range is outside the Source snapshot''"
| "source_facts_error_detail fe_enum_value_type = ''enum value carries a non-integral intrinsic type''"
| "source_facts_error_detail fe_object_identity_missing = ''object fact has no resolved identity''"
| "source_facts_error_detail fe_object_identity_kind = ''object fact identity is not an object identity''"
| "source_facts_error_detail fe_object_range = ''object declaration range is outside the Source snapshot''"
| "source_facts_error_detail fe_object_initializer_range = ''object initializer range is outside its declaration''"
| "source_facts_error_detail fe_object_type = ''object type must be one resolved unmodified named Project type''"
| "source_facts_error_detail fe_link_endpoint = ''link endpoint is not a resolved object/member pair''"
| "source_facts_error_detail fe_link_range = ''link declaration range is outside the Source snapshot''"
| "source_facts_error_detail fe_declaration_sequence_index = ''declaration sequence does not reference each fact exactly once in per-kind order''"
| "source_facts_error_detail fe_declaration_sequence_order = ''declaration sequence is not in lexical source order''"
| "source_facts_error_detail fe_declaration_sequence_range = ''declaration sequence range does not match the referenced fact''"
| "source_facts_error_detail fe_record_base_range = ''record base range is outside the flat base array''"
| "source_facts_error_detail fe_declaration_has_bases = ''record declaration carries definition bases''"
| "source_facts_error_detail fe_declaration_has_methods = ''record declaration carries definition methods''"
| "source_facts_error_detail fe_base_partition = ''record definitions do not form an exact lexical partition of bases''"
| "source_facts_error_detail fe_base_identity_missing = ''base fact has no resolved identity''"
| "source_facts_error_detail fe_base_identity_kind = ''base fact identity is not a type identity''"
| "source_facts_error_detail fe_base_access = ''base fact has an unsupported access value''"
| "source_facts_error_detail fe_base_range = ''base declaration range is outside the Source snapshot''"
| "source_facts_error_detail fe_method_name_empty = ''method fact has an empty source name''"
| "source_facts_error_detail fe_method_range = ''method declaration range is outside the Source snapshot''"
| "source_facts_error_detail fe_method_order = ''record methods are not in source declaration order''"
| "source_facts_error_detail fe_method_access = ''method fact has an unsupported access value''"
| "source_facts_error_detail fe_method_partition = ''record definitions do not form an exact lexical partition of methods''"
| "source_facts_error_detail fe_method_modifier_partition = ''method return type modifiers do not form an exact dense partition''"
| "source_facts_error_detail fe_alias_identity_missing = ''alias fact has no resolved identity''"
| "source_facts_error_detail fe_alias_identity_kind = ''alias fact identity is not a type identity''"
| "source_facts_error_detail fe_alias_range = ''alias declaration range is outside the Source snapshot''"
| "source_facts_error_detail fe_alias_order = ''alias facts are not in source declaration order''"
| "source_facts_error_detail fe_alias_modifier_partition = ''alias type modifiers do not form an exact dense partition''"
| "source_facts_error_detail fe_construction_value_invalid = ''invalid managed construction value or binding operand''"

primrec category_name :: "source_fact_category \<Rightarrow> string" where
  "category_name fc_packet = ''packet''"
| "category_name fc_namespace = ''namespace''"
| "category_name fc_record = ''record''"
| "category_name fc_member = ''member''"
| "category_name fc_modifier = ''modifier''"
| "category_name fc_enum = ''enum''"
| "category_name fc_enum_value = ''enum_value''"
| "category_name fc_object = ''object''"
| "category_name fc_link = ''link''"
| "category_name fc_base = ''base''"
| "category_name fc_alias = ''alias''"
| "category_name fc_method = ''method''"
| "category_name fc_declaration = ''declaration''"

definition emit_source_facts_validation_diagnostic ::
  "source_facts \<Rightarrow> source_facts_validation_error \<Rightarrow> nat \<Rightarrow> diagnostic_buffer \<Rightarrow> diagnostic_buffer" where
  "emit_source_facts_validation_diagnostic facts error operation out =
     buffer_emit out
       \<lparr>diag_id = desc_id parser_invalid_source_facts, diag_severity = desc_severity parser_invalid_source_facts,
        diag_operation = operation,
        diag_location = \<lparr>range_source = sf_source facts, range_offset = sp_offset (ve_location error),
          range_length = sp_length (ve_location error)\<rparr>,
        diag_detail = source_facts_error_detail (ve_code error) @ ''; fact='' @ category_name (ve_category error) @ ''['' @
          decimal_text (ve_index error) @ '']''\<rparr>"

end
