(* ===== verification/Fact_Validation.thy ===== *)
theory Fact_Validation
  imports Source_Facts
begin

text \<open>
  \<^verbatim>\<open>validate_source_facts\<close> of \<^verbatim>\<open>src/server_engine/project/frontend/source_facts_validation.cpp\<close>: one definition
  per section of the function. A section is a loop over one array whose body either ends the validation with an
  error or passes on the counters the loop keeps (expected begins of ranges, the previous offset).
\<close>

section \<open>Checks of one value\<close>

definition valid_span :: "source_span \<Rightarrow> nat \<Rightarrow> bool" where
  "valid_span r text_size \<longleftrightarrow> sp_offset r \<le> text_size \<and> sp_length r \<le> text_size - sp_offset r"

definition span_contains :: "source_span \<Rightarrow> source_span \<Rightarrow> bool" where
  "span_contains outer inner \<longleftrightarrow>
     sp_offset outer \<le> sp_offset inner \<and> sp_offset inner + sp_length inner \<le> sp_offset outer + sp_length outer"

definition valid_range :: "source_fact_range \<Rightarrow> nat \<Rightarrow> bool" where
  "valid_range r n \<longleftrightarrow> fr_begin r \<le> n \<and> fr_count r \<le> n - fr_begin r"

definition float_code :: nat where "float_code = 18"
definition nullptr_code :: nat where "nullptr_code = 21"

definition valid_intrinsic :: "nat \<Rightarrow> bool" where
  "valid_intrinsic v \<longleftrightarrow> 0 < v \<and> v \<le> nullptr_code"

definition valid_record_kind :: "nat \<Rightarrow> bool" where
  "valid_record_kind v \<longleftrightarrow> v \<le> 2"

definition valid_member_access :: "nat \<Rightarrow> bool" where
  "valid_member_access v \<longleftrightarrow> v \<le> 2"

definition bounded_array_code :: nat where "bounded_array_code = 5"

definition valid_modifier_kind :: "nat \<Rightarrow> bool" where
  "valid_modifier_kind v \<longleftrightarrow> v \<le> 6"

definition facts_fail ::
  "source_facts_error_code \<Rightarrow> source_fact_category \<Rightarrow> nat \<Rightarrow> source_span \<Rightarrow> source_facts_validation_error + 'a" where
  "facts_fail err category index location =
     Inl \<lparr>ve_code = err, ve_category = category, ve_index = min index u32_max, ve_location = location\<rparr>"

definition bad_declaration :: "nat \<Rightarrow> source_span \<Rightarrow> bool" where
  "bad_declaration text_size r \<longleftrightarrow> sp_length r = 0 \<or> \<not> valid_span r text_size"

definition bad_initializer :: "nat \<Rightarrow> source_span \<Rightarrow> source_span \<Rightarrow> bool" where
  "bad_initializer text_size outer r \<longleftrightarrow>
     sp_length r \<noteq> 0 \<and> (\<not> valid_span r text_size \<or> \<not> span_contains outer r)"

text \<open>
  The checks of a type base that the sections of methods, members and aliases repeat; \<open>optional\<close> holds for a
  constructor or a destructor, which may have no type.
\<close>

definition type_base_error :: "bool \<Rightarrow> source_type_ref \<Rightarrow> source_facts_error_code" where
  "type_base_error optional t =
     (let has_identity = ty_identity t \<noteq> 0; has_intrinsic = ty_intrinsic t \<noteq> 0 in
      if \<not> has_identity \<and> \<not> has_intrinsic \<and> \<not> optional then fe_unresolved_type_base
      else if has_identity \<and> has_intrinsic then fe_ambiguous_type_base
      else if has_identity \<and> ref_kind (ty_identity t) \<noteq> kind_type then fe_semantic_type_identity_kind
      else if has_intrinsic \<and> \<not> valid_intrinsic (ty_intrinsic t) then fe_intrinsic_type_code
      else fe_none)"

section \<open>Loops\<close>

text \<open>A loop over an array from an index on, with the counters it keeps; the first error ends it.\<close>

fun check_each :: "('s \<Rightarrow> nat \<Rightarrow> 'a \<Rightarrow> 'e + 's) \<Rightarrow> 's \<Rightarrow> nat \<Rightarrow> 'a list \<Rightarrow> 'e + 's" where
  "check_each body s i [] = Inr s"
| "check_each body s i (x # xs) =
     (case body s i x of Inl e \<Rightarrow> Inl e | Inr t \<Rightarrow> check_each body t (Suc i) xs)"

definition and_then :: "'e + 'a \<Rightarrow> ('a \<Rightarrow> 'e + 'b) \<Rightarrow> 'e + 'b" where
  "and_then r k = (case r of Inl e \<Rightarrow> Inl e | Inr x \<Rightarrow> k x)"

definition facts_slice :: "source_fact_range \<Rightarrow> 'a list \<Rightarrow> 'a list" where
  "facts_slice r xs = take (fr_count r) (drop (fr_begin r) xs)"

definition finish_partition ::
  "source_facts_error_code \<Rightarrow> nat \<Rightarrow> nat \<Rightarrow> source_facts_validation_error + unit" where
  "finish_partition err expected n =
     (if expected \<noteq> n then facts_fail err fc_packet expected no_span else Inr ())"

section \<open>Namespaces\<close>

definition check_namespace ::
  "nat \<Rightarrow> nat \<Rightarrow> nat \<Rightarrow> source_namespace_fact \<Rightarrow> source_facts_validation_error + nat" where
  "check_namespace text_size previous index item =
     (let err = (\<lambda>code. facts_fail code fc_namespace index (ns_declaration item)) in
      if ns_identity item = 0 then err fe_namespace_identity_missing
      else if ref_kind (ns_identity item) \<noteq> kind_namespace then err fe_namespace_identity_kind
      else if bad_declaration text_size (ns_declaration item) then err fe_namespace_range
      else if index \<noteq> 0 \<and> sp_offset (ns_declaration item) < previous then err fe_namespace_order
      else Inr (sp_offset (ns_declaration item)))"

definition check_namespaces :: "source_facts \<Rightarrow> source_facts_validation_error + unit" where
  "check_namespaces facts =
     and_then (check_each (check_namespace (length (sf_text facts))) 0 0 (sf_namespaces facts)) (\<lambda>_. Inr ())"

section \<open>Records\<close>

record record_counters =
  rc_members :: nat
  rc_bases :: nat
  rc_methods :: nat
  rc_previous :: nat

definition check_record_member ::
  "source_record_fact \<Rightarrow> nat \<Rightarrow> nat \<Rightarrow> source_member_fact \<Rightarrow> source_facts_validation_error + nat" where
  "check_record_member item previous index m =
     (let err = (\<lambda>code. facts_fail code fc_member index (mm_declaration m)); v = mm_construction m in
      if \<not> valid_construction v \<or>
         cv_kind v = ck_member_binding \<and> fr_count (rf_members item) < unat (cv_operand v)
      then err fe_construction_value_invalid
      else if \<not> span_contains (rf_declaration item) (mm_declaration m) then err fe_member_range
      else if index \<noteq> fr_begin (rf_members item) \<and> sp_offset (mm_declaration m) < previous
      then err fe_member_order
      else Inr (sp_offset (mm_declaration m)))"

definition check_record_method ::
  "source_record_fact \<Rightarrow> unit \<Rightarrow> nat \<Rightarrow> source_method_fact \<Rightarrow> source_facts_validation_error + unit" where
  "check_record_method item u index m =
     (if \<not> span_contains (rf_declaration item) (mt_declaration m)
      then facts_fail fe_method_range fc_method index (mt_declaration m)
      else Inr ())"

definition check_record_body ::
  "source_facts \<Rightarrow> source_record_fact \<Rightarrow> source_facts_validation_error + unit" where
  "check_record_body facts item =
     and_then
       (check_each (check_record_member item) 0 (fr_begin (rf_members item))
          (facts_slice (rf_members item) (sf_members facts)))
       (\<lambda>_. check_each (check_record_method item) () (fr_begin (rf_methods item))
          (facts_slice (rf_methods item) (sf_methods facts)))"

definition check_record_ranges ::
  "source_facts \<Rightarrow> record_counters \<Rightarrow> nat \<Rightarrow> source_record_fact \<Rightarrow> source_facts_validation_error + unit" where
  "check_record_ranges facts s index item =
     (let err = (\<lambda>code. facts_fail code fc_record index (rf_declaration item)) in
      if \<not> valid_range (rf_members item) (length (sf_members facts)) then err fe_record_member_range
      else if fr_begin (rf_members item) \<noteq> rc_members s then err fe_member_partition
      else if \<not> valid_range (rf_bases item) (length (sf_bases facts)) then err fe_record_base_range
      else if fr_begin (rf_bases item) \<noteq> rc_bases s then err fe_base_partition
      else if \<not> valid_range (rf_methods item) (length (sf_methods facts)) then err fe_method_range
      else if fr_begin (rf_methods item) \<noteq> rc_methods s then err fe_method_partition
      else Inr ())"

definition check_record ::
  "source_facts \<Rightarrow> record_counters \<Rightarrow> nat \<Rightarrow> source_record_fact \<Rightarrow> source_facts_validation_error + record_counters" where
  "check_record facts s index item =
     (let err = (\<lambda>code. facts_fail code fc_record index (rf_declaration item));
          located = s\<lparr>rc_previous := sp_offset (rf_declaration item)\<rparr> in
      if rf_identity item = 0 then err fe_record_identity_missing
      else if ref_kind (rf_identity item) \<noteq> kind_type then err fe_record_identity_kind
      else if \<not> valid_record_kind (rf_record_kind item) then err fe_record_kind
      else if bad_declaration (length (sf_text facts)) (rf_declaration item) then err fe_record_range
      else if index \<noteq> 0 \<and> sp_offset (rf_declaration item) < rc_previous s then err fe_record_order
      else and_then (check_record_ranges facts s index item)
        (\<lambda>_. if rf_declaration_kind item = 0
             then (if fr_count (rf_members item) \<noteq> 0 then err fe_declaration_has_members
                   else if fr_count (rf_bases item) \<noteq> 0 then err fe_declaration_has_bases
                   else if fr_count (rf_methods item) \<noteq> 0 then err fe_declaration_has_methods
                   else Inr located)
             else if rf_declaration_kind item \<noteq> 1 then err fe_record_declaration_kind
             else and_then (check_record_body facts item)
               (\<lambda>_. Inr (located\<lparr>rc_members := rc_members s + fr_count (rf_members item),
                                  rc_bases := rc_bases s + fr_count (rf_bases item),
                                  rc_methods := rc_methods s + fr_count (rf_methods item)\<rparr>))))"

definition check_records :: "source_facts \<Rightarrow> source_facts_validation_error + unit" where
  "check_records facts =
     and_then
       (check_each (check_record facts) \<lparr>rc_members = 0, rc_bases = 0, rc_methods = 0, rc_previous = 0\<rparr> 0
          (sf_records facts))
       (\<lambda>s. and_then (finish_partition fe_member_partition (rc_members s) (length (sf_members facts)))
       (\<lambda>_. and_then (finish_partition fe_base_partition (rc_bases s) (length (sf_bases facts)))
       (\<lambda>_. finish_partition fe_method_partition (rc_methods s) (length (sf_methods facts)))))"

section \<open>Methods, bases and members\<close>

text \<open>The counters of a loop over typed facts: the expected begin of the modifiers and the previous offset.\<close>

definition check_method ::
  "source_facts \<Rightarrow> nat \<times> nat \<Rightarrow> nat \<Rightarrow> source_method_fact \<Rightarrow> source_facts_validation_error + nat \<times> nat" where
  "check_method facts s index item =
     (let err = (\<lambda>code. facts_fail code fc_method index (mt_declaration item)); t = mt_return_type item;
          base = type_base_error (mt_constructor item \<or> mt_destructor item) t in
      if mt_name item = 0 then err fe_method_name_empty
      else if \<not> valid_member_access (mt_access item) then err fe_method_access
      else if bad_declaration (length (sf_text facts)) (mt_declaration item) then err fe_method_range
      else if index \<noteq> 0 \<and> sp_offset (mt_declaration item) < snd s then err fe_method_order
      else if base \<noteq> fe_none then err base
      else if \<not> valid_range (ty_modifiers t) (length (sf_method_modifiers facts)) \<or>
              fr_begin (ty_modifiers t) \<noteq> fst s
      then err fe_method_modifier_partition
      else Inr (fst s + fr_count (ty_modifiers t), sp_offset (mt_declaration item)))"

definition check_methods :: "source_facts \<Rightarrow> source_facts_validation_error + unit" where
  "check_methods facts =
     and_then (check_each (check_method facts) (0, 0) 0 (sf_methods facts))
       (\<lambda>s. finish_partition fe_method_modifier_partition (fst s) (length (sf_method_modifiers facts)))"

definition check_base ::
  "nat \<Rightarrow> unit \<Rightarrow> nat \<Rightarrow> source_base_fact \<Rightarrow> source_facts_validation_error + unit" where
  "check_base text_size u index item =
     (let err = (\<lambda>code. facts_fail code fc_base index (bf_declaration item)) in
      if bf_base item = 0 then err fe_base_identity_missing
      else if ref_kind (bf_base item) \<noteq> kind_type then err fe_base_identity_kind
      else if \<not> valid_member_access (bf_access item) then err fe_base_access
      else if bad_declaration text_size (bf_declaration item) then err fe_base_range
      else Inr ())"

definition check_member ::
  "source_facts \<Rightarrow> unit \<Rightarrow> nat \<Rightarrow> source_member_fact \<Rightarrow> source_facts_validation_error + unit" where
  "check_member facts u index item =
     (let err = (\<lambda>code location. facts_fail code fc_member index location); t = mm_type item;
          text_size = length (sf_text facts); base = type_base_error False t in
      if \<not> valid_member_access (mm_access item) then err fe_member_access (mm_declaration item)
      else if mm_name item = 0 then err fe_member_name_empty (mm_declaration item)
      else if bad_declaration text_size (mm_declaration item) then err fe_member_range (mm_declaration item)
      else if bad_initializer text_size (mm_declaration item) (mm_initializer item)
      then err fe_member_initializer_range (mm_initializer item)
      else if bad_declaration text_size (ty_spelling t) then err fe_type_spelling_range (ty_spelling t)
      else if \<not> span_contains (mm_declaration item) (ty_spelling t)
      then err fe_type_spelling_outside_member (ty_spelling t)
      else if base \<noteq> fe_none then err base (ty_spelling t)
      else if \<not> valid_range (ty_modifiers t) (length (sf_modifiers facts))
      then err fe_modifier_partition (ty_spelling t)
      else Inr ())"

definition check_modifier ::
  "unit \<Rightarrow> nat \<Rightarrow> source_type_modifier \<Rightarrow> source_facts_validation_error + unit" where
  "check_modifier u index item =
     (if \<not> valid_modifier_kind (tm_kind item) then facts_fail fe_modifier_kind fc_modifier index no_span
      else let bounded_array = tm_kind item = bounded_array_code in
        if bounded_array \<and> tm_value item = 0 \<or> \<not> bounded_array \<and> tm_value item \<noteq> 0
        then facts_fail fe_modifier_value fc_modifier index no_span
        else Inr ())"

section \<open>Enumerations\<close>

definition check_enum_value ::
  "nat \<Rightarrow> source_enum_fact \<Rightarrow> unit \<Rightarrow> nat \<Rightarrow> source_enum_value_fact \<Rightarrow> source_facts_validation_error + unit" where
  "check_enum_value text_size item u index v =
     (let err = (\<lambda>code location. facts_fail code fc_enum_value index location) in
      if vf_name v = 0 then err fe_enum_value_name_range (ef_declaration item)
      else if bad_initializer text_size (ef_declaration item) (vf_expression v)
      then err fe_enum_value_expression_range (vf_expression v)
      else if \<not> valid_intrinsic (vf_intrinsic v) \<or> float_code \<le> vf_intrinsic v
      then err fe_enum_value_type (vf_expression v)
      else Inr ())"

definition check_enum ::
  "source_facts \<Rightarrow> nat \<times> nat \<Rightarrow> nat \<Rightarrow> source_enum_fact \<Rightarrow> source_facts_validation_error + nat \<times> nat" where
  "check_enum facts s index item =
     (let err = (\<lambda>code. facts_fail code fc_enum index (ef_declaration item));
          text_size = length (sf_text facts); offset = sp_offset (ef_declaration item) in
      if ef_identity item = 0 then err fe_enum_identity_missing
      else if ref_kind (ef_identity item) \<noteq> kind_type then err fe_enum_identity_kind
      else if bad_declaration text_size (ef_declaration item) then err fe_enum_range
      else if index \<noteq> 0 \<and> offset < snd s then err fe_enum_order
      else if \<not> valid_range (ef_enumerators item) (length (sf_enum_values facts)) then err fe_enum_enumerator_range
      else if fr_begin (ef_enumerators item) \<noteq> fst s then err fe_enum_value_partition
      else if ef_explicit_underlying item \<noteq> 0 \<and>
              (\<not> valid_intrinsic (ef_explicit_underlying item) \<or> float_code \<le> ef_explicit_underlying item)
      then facts_fail fe_enum_underlying_type fc_enum index (ef_underlying_spelling item)
      else if ef_declaration_kind item = 0
      then (if fr_count (ef_enumerators item) \<noteq> 0 then err fe_enum_declaration_has_values
            else Inr (fst s, offset))
      else if ef_declaration_kind item \<noteq> 1 then err fe_enum_declaration_kind
      else and_then
        (check_each (check_enum_value text_size item) () (fr_begin (ef_enumerators item))
           (facts_slice (ef_enumerators item) (sf_enum_values facts)))
        (\<lambda>_. Inr (fst s + fr_count (ef_enumerators item), offset)))"

definition check_enums :: "source_facts \<Rightarrow> source_facts_validation_error + unit" where
  "check_enums facts =
     and_then (check_each (check_enum facts) (0, 0) 0 (sf_enums facts))
       (\<lambda>s. finish_partition fe_enum_value_partition (fst s) (length (sf_enum_values facts)))"

section \<open>Objects\<close>

definition check_object ::
  "source_facts \<Rightarrow> nat \<Rightarrow> nat \<Rightarrow> source_object_fact \<Rightarrow> source_facts_validation_error + nat" where
  "check_object facts previous index item =
     (let err = (\<lambda>code. facts_fail code fc_object index (ob_declaration item)); t = ob_type item;
          text_size = length (sf_text facts);
          semantic_type = (ty_identity t \<noteq> 0 \<and> ref_kind (ty_identity t) = kind_type \<and> ty_intrinsic t = 0);
          intrinsic_type_value = (ty_identity t = 0 \<and> ty_intrinsic t \<noteq> 0) in
      if 1 < ob_construction_flags item then err fe_construction_value_invalid
      else if ob_identity item = 0 then err fe_object_identity_missing
      else if ref_kind (ob_identity item) \<noteq> kind_object then err fe_object_identity_kind
      else if bad_declaration text_size (ob_declaration item) then err fe_object_range
      else if bad_initializer text_size (ob_declaration item) (ob_initializer item)
      then facts_fail fe_object_initializer_range fc_object index (ob_initializer item)
      else if index \<noteq> 0 \<and> sp_offset (ob_declaration item) < previous then err fe_declaration_sequence_order
      else if \<not> semantic_type \<and> \<not> intrinsic_type_value then err fe_object_type
      else if \<not> valid_range (ty_modifiers t) (length (sf_modifiers facts)) then err fe_object_type
      else Inr (sp_offset (ob_declaration item)))"

definition check_objects :: "source_facts \<Rightarrow> source_facts_validation_error + unit" where
  "check_objects facts = and_then (check_each (check_object facts) 0 0 (sf_objects facts)) (\<lambda>_. Inr ())"

text \<open>
  The merged walk over the members and the objects that are left; \<open>m\<close> and \<open>k\<close> are the positions reached.
\<close>

definition take_member :: "source_member_fact list \<Rightarrow> source_object_fact list \<Rightarrow> bool" where
  "take_member members objects \<longleftrightarrow>
     (if members \<noteq> [] \<and> objects \<noteq> []
      then sp_offset (mm_declaration (hd members)) \<le> sp_offset (ob_declaration (hd objects))
      else members \<noteq> [])"

function merged_modifiers ::
  "nat \<Rightarrow> nat \<Rightarrow> nat \<Rightarrow> source_member_fact list \<Rightarrow> source_object_fact list \<Rightarrow>
    source_facts_validation_error + nat" where
  "merged_modifiers expected m k members objects =
     (if members = [] \<and> objects = [] then Inr expected
      else if take_member members objects
      then (let r = ty_modifiers (mm_type (hd members)) in
            if fr_begin r \<noteq> expected then facts_fail fe_modifier_partition fc_member m (mm_declaration (hd members))
            else merged_modifiers (expected + fr_count r) (Suc m) k (tl members) objects)
      else (let r = ty_modifiers (ob_type (hd objects)) in
            if fr_begin r \<noteq> expected then facts_fail fe_modifier_partition fc_object k (ob_declaration (hd objects))
            else merged_modifiers (expected + fr_count r) m (Suc k) members (tl objects)))"
  by pat_completeness auto
termination
proof (relation "measure (\<lambda>(_, _, _, members, objects). length members + length objects)", goal_cases)
  case (2 expected m k members objects)
  then have "members \<noteq> []" by (auto simp: take_member_def split: if_splits)
  then show ?case by (cases members) auto
next
  case (3 expected m k members objects)
  then have "objects \<noteq> []" by (auto simp: take_member_def split: if_splits)
  then show ?case by (cases objects) auto
qed simp

declare merged_modifiers.simps [simp del]

definition check_merged_modifiers :: "source_facts \<Rightarrow> source_facts_validation_error + unit" where
  "check_merged_modifiers facts =
     and_then (merged_modifiers 0 0 0 (sf_members facts) (sf_objects facts))
       (\<lambda>expected. finish_partition fe_modifier_partition expected (length (sf_modifiers facts)))"

section \<open>Links and aliases\<close>

definition no_member :: u32 where "no_member = 0xffffffff"

definition bad_endpoint :: "source_object_endpoint_fact \<Rightarrow> bool" where
  "bad_endpoint p \<longleftrightarrow> oef_object p = 0 \<or> ref_kind (oef_object p) \<noteq> kind_object \<or> oef_member p = no_member"

definition check_link ::
  "nat \<Rightarrow> nat \<Rightarrow> nat \<Rightarrow> source_link_fact \<Rightarrow> source_facts_validation_error + nat" where
  "check_link text_size previous index item =
     (let err = (\<lambda>code. facts_fail code fc_link index (lf_declaration item)) in
      if bad_declaration text_size (lf_declaration item) then err fe_link_range
      else if index \<noteq> 0 \<and> sp_offset (lf_declaration item) < previous then err fe_declaration_sequence_order
      else if bad_endpoint (lf_source item) \<or> bad_endpoint (lf_target item) then err fe_link_endpoint
      else Inr (sp_offset (lf_declaration item)))"

definition check_links :: "source_facts \<Rightarrow> source_facts_validation_error + unit" where
  "check_links facts =
     and_then (check_each (check_link (length (sf_text facts))) 0 0 (sf_links facts)) (\<lambda>_. Inr ())"

definition check_alias ::
  "source_facts \<Rightarrow> nat \<times> nat \<Rightarrow> nat \<Rightarrow> source_alias_fact \<Rightarrow> source_facts_validation_error + nat \<times> nat" where
  "check_alias facts s index item =
     (let err = (\<lambda>code. facts_fail code fc_alias index (al_declaration item)); t = al_target item;
          base = type_base_error False t in
      if al_identity item = 0 then err fe_alias_identity_missing
      else if ref_kind (al_identity item) \<noteq> kind_type then err fe_alias_identity_kind
      else if bad_declaration (length (sf_text facts)) (al_declaration item) then err fe_alias_range
      else if index \<noteq> 0 \<and> sp_offset (al_declaration item) < snd s then err fe_alias_order
      else if base \<noteq> fe_none then err base
      else if \<not> valid_range (ty_modifiers t) (length (sf_alias_modifiers facts)) \<or> fr_begin (ty_modifiers t) \<noteq> fst s
      then err fe_alias_modifier_partition
      else Inr (fst s + fr_count (ty_modifiers t), sp_offset (al_declaration item)))"

definition check_aliases :: "source_facts \<Rightarrow> source_facts_validation_error + unit" where
  "check_aliases facts =
     and_then (check_each (check_alias facts) (0, 0) 0 (sf_aliases facts))
       (\<lambda>s. finish_partition fe_alias_modifier_partition (fst s) (length (sf_alias_modifiers facts)))"

section \<open>The declaration sequence\<close>

record sequence_counters =
  next_namespace :: nat
  next_record :: nat
  next_enum :: nat
  next_object :: nat
  next_link :: nat
  next_alias :: nat
  previous_offset :: nat

text \<open>
  The \<^verbatim>\<open>switch\<close> over the kind of a reference: the span its declaration must have and the advanced counters,
  or nothing for a wrong index. No case matches a code beyond the enumerators.
\<close>

definition next_reference ::
  "source_facts \<Rightarrow> sequence_counters \<Rightarrow> source_declaration_ref \<Rightarrow> (source_span \<times> sequence_counters) option" where
  "next_reference facts s item =
     (let refer = (\<lambda>n spans advanced. if dr_index item \<noteq> n \<or> length spans \<le> n then None else Some (spans ! n, advanced)) in
      if dr_kind item = 0
      then refer (next_namespace s) (map ns_declaration (sf_namespaces facts)) (s\<lparr>next_namespace := Suc (next_namespace s)\<rparr>)
      else if dr_kind item = 1
      then refer (next_record s) (map rf_declaration (sf_records facts)) (s\<lparr>next_record := Suc (next_record s)\<rparr>)
      else if dr_kind item = 2
      then refer (next_enum s) (map ef_declaration (sf_enums facts)) (s\<lparr>next_enum := Suc (next_enum s)\<rparr>)
      else if dr_kind item = 3
      then refer (next_object s) (map ob_declaration (sf_objects facts)) (s\<lparr>next_object := Suc (next_object s)\<rparr>)
      else if dr_kind item = 4
      then refer (next_link s) (map lf_declaration (sf_links facts)) (s\<lparr>next_link := Suc (next_link s)\<rparr>)
      else if dr_kind item = 5
      then refer (next_alias s) (map al_declaration (sf_aliases facts)) (s\<lparr>next_alias := Suc (next_alias s)\<rparr>)
      else Some (no_span, s))"

definition check_reference ::
  "source_facts \<Rightarrow> sequence_counters \<Rightarrow> nat \<Rightarrow> source_declaration_ref \<Rightarrow>
    source_facts_validation_error + sequence_counters" where
  "check_reference facts s index item =
     (let err = (\<lambda>code. facts_fail code fc_declaration index (dr_declaration item)) in
      if index \<noteq> 0 \<and> sp_offset (dr_declaration item) < previous_offset s then err fe_declaration_sequence_order
      else case next_reference facts (s\<lparr>previous_offset := sp_offset (dr_declaration item)\<rparr>) item of
          None \<Rightarrow> err fe_declaration_sequence_index
        | Some (expected, t) \<Rightarrow>
            if sp_offset expected \<noteq> sp_offset (dr_declaration item) \<or> sp_length expected \<noteq> sp_length (dr_declaration item)
            then err fe_declaration_sequence_range
            else Inr t)"

definition first_counters :: sequence_counters where
  "first_counters = \<lparr>next_namespace = 0, next_record = 0, next_enum = 0, next_object = 0, next_link = 0,
     next_alias = 0, previous_offset = 0\<rparr>"

definition check_declarations :: "source_facts \<Rightarrow> source_facts_validation_error + unit" where
  "check_declarations facts =
     (if sf_declarations facts = [] then Inr ()
      else and_then (check_each (check_reference facts) first_counters 0 (sf_declarations facts))
        (\<lambda>s. if next_namespace s \<noteq> length (sf_namespaces facts) \<or> next_record s \<noteq> length (sf_records facts) \<or>
               next_enum s \<noteq> length (sf_enums facts) \<or> next_object s \<noteq> length (sf_objects facts) \<or>
               next_link s \<noteq> length (sf_links facts) \<or> next_alias s \<noteq> length (sf_aliases facts)
             then facts_fail fe_declaration_sequence_index fc_packet (length (sf_declarations facts)) no_span
             else Inr ()))"

section \<open>The whole validation\<close>

definition no_facts_error :: source_facts_validation_error where
  "no_facts_error = \<lparr>ve_code = fe_none, ve_category = fc_packet, ve_index = 0, ve_location = no_span\<rparr>"

definition check_facts :: "source_facts \<Rightarrow> source_facts_validation_error + unit" where
  "check_facts facts =
     (if sf_source facts = 0 then facts_fail fe_invalid_source fc_packet 0 no_span
      else if u32_max < length (sf_text facts) then facts_fail fe_source_too_large fc_packet 0 no_span
      else
        and_then (check_namespaces facts)
        (\<lambda>_. and_then (check_records facts)
        (\<lambda>_. and_then (check_methods facts)
        (\<lambda>_. and_then (check_each (check_base (length (sf_text facts))) () 0 (sf_bases facts))
        (\<lambda>_. and_then (check_each (check_member facts) () 0 (sf_members facts))
        (\<lambda>_. and_then (check_each check_modifier () 0 (sf_modifiers facts))
        (\<lambda>_. and_then (check_enums facts)
        (\<lambda>_. and_then (check_objects facts)
        (\<lambda>_. and_then (check_merged_modifiers facts)
        (\<lambda>_. and_then (check_links facts)
        (\<lambda>_. and_then (check_aliases facts)
        (\<lambda>_. check_declarations facts))))))))))))"

definition validate_source_facts :: "source_facts \<Rightarrow> status_code \<times> source_facts_validation_error" where
  "validate_source_facts facts =
     (case check_facts facts of
        Inl e \<Rightarrow> (st_invalid_argument, e)
      | Inr _ \<Rightarrow> (st_ok, no_facts_error))"

end
