(* ===== verification/Fact_Validity.thy ===== *)
theory Fact_Validity
  imports Fact_Validation
begin

text \<open>
  What the validation of source facts accepts. The loops of theory \<^theory_text>\<open>Fact_Validation\<close> are turned into
  conditions on the arrays: one rule about the loop gives, for each section, the condition under which it passes,
  and together they are equivalent to acceptance. From the condition follow the two facts the builder uses: every
  entry of a flat array belongs to exactly one owner, and the declaration sequence lists every fact once.
\<close>

section \<open>Sections that pass\<close>

lemma and_then_Inr: "and_then r k = Inr t \<longleftrightarrow> (\<exists>x. r = Inr x \<and> k x = Inr t)"
  by (cases r) (simp_all add: and_then_def)

lemma facts_fail_not_Inr [simp]: "facts_fail c g i l = Inr t \<longleftrightarrow> False"
  by (simp add: facts_fail_def)

lemma guard_Inr [simp]: "(if b then facts_fail c g i l else r) = Inr t \<longleftrightarrow> \<not> b \<and> r = Inr t"
  by simp

lemma finish_partition_Inr [simp]: "finish_partition c e n = Inr u \<longleftrightarrow> e = n"
  by (simp add: finish_partition_def)

text \<open>
  A loop passes when its body passes at every index, where \<open>S k\<close> is what the counters are before index \<open>k\<close>.
\<close>

lemma check_each_iff:
  assumes "\<And>k t. k < length xs \<Longrightarrow> body (S k) (i + k) (xs ! k) = Inr t \<longleftrightarrow> P k \<and> t = S (Suc k)"
  shows "check_each body (S 0) i xs = Inr t \<longleftrightarrow> (\<forall>k < length xs. P k) \<and> t = S (length xs)"
  using assms
proof (induction xs arbitrary: S i P t)
  case Nil
  then show ?case by auto
next
  case (Cons x xs)
  have first: "body (S 0) i x = Inr t \<longleftrightarrow> P 0 \<and> t = S 1" for t
    using Cons.prems [of 0 t] by simp
  have rest: "check_each body (S 1) (Suc i) xs = Inr t \<longleftrightarrow> (\<forall>k < length xs. P (Suc k)) \<and> t = S (Suc (length xs))"
    for t
    using Cons.IH [of "\<lambda>k. S (Suc k)" "Suc i" "\<lambda>k. P (Suc k)"] Cons.prems [of "Suc _"] by simp
  show ?case
  proof (cases "body (S 0) i x")
    case (Inl e)
    then have "\<not> P 0" using first by auto
    with Inl show ?thesis by auto
  next
    case (Inr u)
    then have "P 0" "u = S 1" using first by auto
    with Inr rest show ?thesis by (auto simp: less_Suc_eq_0_disj)
  qed
qed

lemma check_each_unit_iff:
  assumes "\<And>k t. k < length xs \<Longrightarrow> body () (i + k) (xs ! k) = Inr t \<longleftrightarrow> P (xs ! k)"
  shows "check_each body () i xs = Inr t \<longleftrightarrow> (\<forall>x \<in> set xs. P x)"
  using check_each_iff [where S = "\<lambda>_. ()" and P = "\<lambda>k. P (xs ! k)", of xs body i t] assms
  by (simp add: all_set_conv_all_nth)

section \<open>Order and density\<close>

definition previous_key :: "('a \<Rightarrow> nat) \<Rightarrow> 'a list \<Rightarrow> nat \<Rightarrow> nat" where
  "previous_key g xs k = (if k = 0 then 0 else g (xs ! (k - 1)))"

lemma previous_key_simps [simp]: "previous_key g xs 0 = 0" "previous_key g xs (Suc k) = g (xs ! k)"
  by (simp_all add: previous_key_def)

lemma sorted_previous_key:
  "sorted (map g xs) \<longleftrightarrow> (\<forall>k < length xs. k = 0 \<or> previous_key g xs k \<le> g (xs ! k))"
proof -
  have "(\<forall>k < length xs. k = 0 \<or> previous_key g xs k \<le> g (xs ! k)) \<longleftrightarrow>
      (\<forall>k. Suc k < length xs \<longrightarrow> g (xs ! k) \<le> g (xs ! Suc k))" (is "?L \<longleftrightarrow> ?R")
  proof
    assume ?L
    show ?R
    proof (intro allI impI)
      fix k assume "Suc k < length xs"
      with \<open>?L\<close> show "g (xs ! k) \<le> g (xs ! Suc k)" by (auto dest: spec [of _ "Suc k"])
    qed
  next
    assume ?R
    show ?L
    proof (intro allI impI)
      fix k assume "k < length xs"
      with \<open>?R\<close> show "k = 0 \<or> previous_key g xs k \<le> g (xs ! k)" by (cases k) auto
    qed
  qed
  then show ?thesis by (simp add: sorted_iff_nth_Suc)
qed

definition begin_at :: "source_fact_range list \<Rightarrow> nat \<Rightarrow> nat" where
  "begin_at rs k = sum_list (map fr_count (take k rs))"

lemma begin_at_simps [simp]:
  "begin_at rs 0 = 0" "k < length rs \<Longrightarrow> begin_at rs (Suc k) = begin_at rs k + fr_count (rs ! k)"
  by (simp_all add: begin_at_def take_Suc_conv_app_nth)

text \<open>Ranges that lie end to end, in order, and fill an array of \<open>n\<close> entries.\<close>

definition dense_ranges :: "nat \<Rightarrow> source_fact_range list \<Rightarrow> bool" where
  "dense_ranges n rs \<longleftrightarrow>
     (\<forall>k < length rs. fr_begin (rs ! k) = begin_at rs k) \<and> begin_at rs (length rs) = n"

lemma begin_at_le: "k \<le> length rs \<Longrightarrow> begin_at rs k \<le> begin_at rs (length rs)"
proof -
  assume "k \<le> length rs"
  have "begin_at rs (length rs) = begin_at rs k + sum_list (map fr_count (drop k rs))"
    unfolding begin_at_def by (metis append_take_drop_id map_append sum_list_append take_all order_refl)
  then show ?thesis by simp
qed

lemma dense_ranges_valid:
  assumes "dense_ranges n rs" "k < length rs"
  shows "valid_range (rs ! k) n" "fr_begin (rs ! k) + fr_count (rs ! k) \<le> n"
proof -
  have "begin_at rs (Suc k) \<le> n" using begin_at_le [of "Suc k" rs] assms by (simp add: dense_ranges_def)
  then show "fr_begin (rs ! k) + fr_count (rs ! k) \<le> n" using assms by (simp add: dense_ranges_def)
  then show "valid_range (rs ! k) n" by (simp add: valid_range_def)
qed

lemma dense_ranges_iff:
  "dense_ranges n rs \<longleftrightarrow>
     (\<forall>k < length rs. valid_range (rs ! k) n \<and> fr_begin (rs ! k) = begin_at rs k) \<and> begin_at rs (length rs) = n"
  using dense_ranges_valid(1) by (auto simp: dense_ranges_def)

section \<open>What a section accepts\<close>

text \<open>A nonempty part of the Source.\<close>

definition located :: "source_facts \<Rightarrow> source_span \<Rightarrow> bool" where
  "located facts r \<longleftrightarrow> 0 < sp_length r \<and> sp_offset r + sp_length r \<le> length (sf_text facts)"

text \<open>Nothing, or a part of a declaration that lies in the Source.\<close>

definition part_of :: "source_facts \<Rightarrow> source_span \<Rightarrow> source_span \<Rightarrow> bool" where
  "part_of facts outer r \<longleftrightarrow>
     sp_length r = 0 \<or> sp_offset r + sp_length r \<le> length (sf_text facts) \<and> span_contains outer r"

lemma bad_declaration_iff [simp]: "bad_declaration (length (sf_text facts)) r \<longleftrightarrow> \<not> located facts r"
  by (auto simp: bad_declaration_def located_def valid_span_def)

lemma bad_initializer_iff [simp]: "bad_initializer (length (sf_text facts)) outer r \<longleftrightarrow> \<not> part_of facts outer r"
  by (auto simp: bad_initializer_def part_of_def valid_span_def)

definition type_base_ok :: "bool \<Rightarrow> source_type_ref \<Rightarrow> bool" where
  "type_base_ok optional t \<longleftrightarrow>
     ty_identity t \<noteq> 0 \<and> ref_kind (ty_identity t) = kind_type \<and> ty_intrinsic t = 0 \<or>
     ty_identity t = 0 \<and> valid_intrinsic (ty_intrinsic t) \<or>
     optional \<and> ty_identity t = 0 \<and> ty_intrinsic t = 0"

lemma type_base_error_iff [simp]: "type_base_error optional t = fe_none \<longleftrightarrow> type_base_ok optional t"
  by (auto simp: type_base_error_def type_base_ok_def Let_def valid_intrinsic_def)

definition identified :: "u32 \<Rightarrow> identity_kind \<Rightarrow> bool" where
  "identified r kind \<longleftrightarrow> r \<noteq> 0 \<and> ref_kind r = kind"

definition offsets_ordered :: "('a \<Rightarrow> source_span) \<Rightarrow> 'a list \<Rightarrow> bool" where
  "offsets_ordered f xs \<longleftrightarrow> sorted (map (\<lambda>x. sp_offset (f x)) xs)"

lemma offsets_ordered_iff:
  "offsets_ordered f xs \<longleftrightarrow>
     (\<forall>k < length xs. k = 0 \<or> previous_key (\<lambda>x. sp_offset (f x)) xs k \<le> sp_offset (f (xs ! k)))"
  by (simp add: offsets_ordered_def sorted_previous_key)

text \<open>The two shapes of loop: one that keeps the previous offset, and one that also lays out ranges.\<close>

lemma ordered_loop_iff:
  assumes "\<And>p k x t. x \<in> set xs \<Longrightarrow>
      body p (i + k) x = Inr t \<longleftrightarrow> Q x \<and> (k = 0 \<or> p \<le> sp_offset (f x)) \<and> t = sp_offset (f x)"
  shows "(\<exists>t. check_each body 0 i xs = Inr t) \<longleftrightarrow> (\<forall>x \<in> set xs. Q x) \<and> offsets_ordered f xs"
proof -
  let ?S = "previous_key (\<lambda>x. sp_offset (f x)) xs"
  have "check_each body (?S 0) i xs = Inr t \<longleftrightarrow>
      (\<forall>k < length xs. Q (xs ! k) \<and> (k = 0 \<or> ?S k \<le> sp_offset (f (xs ! k)))) \<and> t = ?S (length xs)" for t
    by (rule check_each_iff) (simp add: assms)
  then show ?thesis by (auto simp: offsets_ordered_iff all_set_conv_all_nth)
qed

lemma partition_loop_iff:
  assumes "\<And>s k x t. x \<in> set xs \<Longrightarrow>
      body s (i + k) x = Inr t \<longleftrightarrow>
        Q x \<and> valid_range (r x) n \<and> fr_begin (r x) = fst s \<and> (k = 0 \<or> snd s \<le> sp_offset (f x)) \<and>
        t = (fst s + fr_count (r x), sp_offset (f x))"
  shows "(\<exists>t. check_each body (0, 0) i xs = Inr t \<and> fst t = n) \<longleftrightarrow>
    (\<forall>x \<in> set xs. Q x) \<and> offsets_ordered f xs \<and> dense_ranges n (map r xs)"
proof -
  let ?S = "\<lambda>k. (begin_at (map r xs) k, previous_key (\<lambda>x. sp_offset (f x)) xs k)"
  have "check_each body (?S 0) i xs = Inr t \<longleftrightarrow>
      (\<forall>k < length xs. Q (xs ! k) \<and> valid_range (r (xs ! k)) n \<and> fr_begin (r (xs ! k)) = fst (?S k) \<and>
        (k = 0 \<or> snd (?S k) \<le> sp_offset (f (xs ! k)))) \<and> t = ?S (length xs)" for t
    by (rule check_each_iff) (simp add: assms)
  then show ?thesis
    by (auto simp: offsets_ordered_iff dense_ranges_iff all_set_conv_all_nth)
qed

lemma and_then_finish [simp]:
  "and_then r (\<lambda>s. finish_partition c (fst s) n) = Inr u \<longleftrightarrow> (\<exists>s. r = Inr s \<and> fst s = n)"
  "and_then r' (\<lambda>_. Inr ()) = Inr u \<longleftrightarrow> (\<exists>s. r' = Inr s)"
  by (simp_all add: and_then_Inr)

definition namespaces_ok :: "source_facts \<Rightarrow> bool" where
  "namespaces_ok facts \<longleftrightarrow>
     (\<forall>x \<in> set (sf_namespaces facts). identified (ns_identity x) kind_namespace \<and> located facts (ns_declaration x)) \<and>
     offsets_ordered ns_declaration (sf_namespaces facts)"

lemma check_namespaces_iff: "check_namespaces facts = Inr u \<longleftrightarrow> namespaces_ok facts"
  unfolding check_namespaces_def namespaces_ok_def and_then_finish
  by (rule ordered_loop_iff) (auto simp: check_namespace_def Let_def identified_def)

definition objects_ok :: "source_facts \<Rightarrow> bool" where
  "objects_ok facts \<longleftrightarrow>
     (\<forall>x \<in> set (sf_objects facts).
        ob_construction_flags x \<le> 1 \<and> identified (ob_identity x) kind_object \<and> located facts (ob_declaration x) \<and>
        part_of facts (ob_declaration x) (ob_initializer x) \<and>
        (identified (ty_identity (ob_type x)) kind_type \<and> ty_intrinsic (ob_type x) = 0 \<or>
         ty_identity (ob_type x) = 0 \<and> ty_intrinsic (ob_type x) \<noteq> 0) \<and>
        valid_range (ty_modifiers (ob_type x)) (length (sf_modifiers facts))) \<and>
     offsets_ordered ob_declaration (sf_objects facts)"

lemma check_objects_iff: "check_objects facts = Inr u \<longleftrightarrow> objects_ok facts"
  unfolding check_objects_def objects_ok_def and_then_finish
  by (rule ordered_loop_iff) (auto simp: check_object_def Let_def identified_def)

definition link_end_ok :: "source_object_endpoint_fact \<Rightarrow> bool" where
  "link_end_ok p \<longleftrightarrow> identified (oef_object p) kind_object \<and> oef_member p \<noteq> no_member"

definition links_ok :: "source_facts \<Rightarrow> bool" where
  "links_ok facts \<longleftrightarrow>
     (\<forall>x \<in> set (sf_links facts).
        located facts (lf_declaration x) \<and> link_end_ok (lf_source x) \<and> link_end_ok (lf_target x)) \<and>
     offsets_ordered lf_declaration (sf_links facts)"

lemma check_links_iff: "check_links facts = Inr u \<longleftrightarrow> links_ok facts"
  unfolding check_links_def links_ok_def and_then_finish
  by (rule ordered_loop_iff) (auto simp: check_link_def Let_def identified_def link_end_ok_def bad_endpoint_def)

definition bases_ok :: "source_facts \<Rightarrow> bool" where
  "bases_ok facts \<longleftrightarrow>
     (\<forall>x \<in> set (sf_bases facts).
        identified (bf_base x) kind_type \<and> valid_member_access (bf_access x) \<and> located facts (bf_declaration x))"

lemma check_bases_iff:
  "check_each (check_base (length (sf_text facts))) () 0 (sf_bases facts) = Inr u \<longleftrightarrow> bases_ok facts"
  unfolding bases_ok_def by (rule check_each_unit_iff) (auto simp: check_base_def Let_def identified_def)

definition members_ok :: "source_facts \<Rightarrow> bool" where
  "members_ok facts \<longleftrightarrow>
     (\<forall>x \<in> set (sf_members facts).
        valid_member_access (mm_access x) \<and> mm_name x \<noteq> 0 \<and> located facts (mm_declaration x) \<and>
        part_of facts (mm_declaration x) (mm_initializer x) \<and> located facts (ty_spelling (mm_type x)) \<and>
        span_contains (mm_declaration x) (ty_spelling (mm_type x)) \<and> type_base_ok False (mm_type x) \<and>
        valid_range (ty_modifiers (mm_type x)) (length (sf_modifiers facts)))"

lemma check_members_iff: "check_each (check_member facts) () 0 (sf_members facts) = Inr u \<longleftrightarrow> members_ok facts"
  unfolding members_ok_def by (rule check_each_unit_iff) (auto simp: check_member_def Let_def)

definition modifiers_ok :: "source_facts \<Rightarrow> bool" where
  "modifiers_ok facts \<longleftrightarrow>
     (\<forall>x \<in> set (sf_modifiers facts).
        valid_modifier_kind (tm_kind x) \<and> (tm_value x \<noteq> 0 \<longleftrightarrow> tm_kind x = bounded_array_code))"

lemma check_modifiers_iff: "check_each check_modifier () 0 (sf_modifiers facts) = Inr u \<longleftrightarrow> modifiers_ok facts"
  unfolding modifiers_ok_def by (rule check_each_unit_iff) (auto simp: check_modifier_def Let_def)

section \<open>Sections that lay out ranges\<close>

definition methods_ok :: "source_facts \<Rightarrow> bool" where
  "methods_ok facts \<longleftrightarrow>
     (\<forall>x \<in> set (sf_methods facts).
        mt_name x \<noteq> 0 \<and> valid_member_access (mt_access x) \<and> located facts (mt_declaration x) \<and>
        type_base_ok (mt_constructor x \<or> mt_destructor x) (mt_return_type x)) \<and>
     offsets_ordered mt_declaration (sf_methods facts) \<and>
     dense_ranges (length (sf_method_modifiers facts)) (map (ty_modifiers \<circ> mt_return_type) (sf_methods facts))"

lemma check_methods_iff: "check_methods facts = Inr u \<longleftrightarrow> methods_ok facts"
  unfolding check_methods_def methods_ok_def and_then_finish
  by (rule partition_loop_iff) (auto simp: check_method_def Let_def)

definition aliases_ok :: "source_facts \<Rightarrow> bool" where
  "aliases_ok facts \<longleftrightarrow>
     (\<forall>x \<in> set (sf_aliases facts).
        identified (al_identity x) kind_type \<and> located facts (al_declaration x) \<and> type_base_ok False (al_target x)) \<and>
     offsets_ordered al_declaration (sf_aliases facts) \<and>
     dense_ranges (length (sf_alias_modifiers facts)) (map (ty_modifiers \<circ> al_target) (sf_aliases facts))"

lemma check_aliases_iff: "check_aliases facts = Inr u \<longleftrightarrow> aliases_ok facts"
  unfolding check_aliases_def aliases_ok_def and_then_finish
  by (rule partition_loop_iff) (auto simp: check_alias_def Let_def identified_def)

definition enum_value_ok :: "source_facts \<Rightarrow> source_enum_fact \<Rightarrow> source_enum_value_fact \<Rightarrow> bool" where
  "enum_value_ok facts x v \<longleftrightarrow>
     vf_name v \<noteq> 0 \<and> part_of facts (ef_declaration x) (vf_expression v) \<and>
     valid_intrinsic (vf_intrinsic v) \<and> vf_intrinsic v < float_code"

definition enums_ok :: "source_facts \<Rightarrow> bool" where
  "enums_ok facts \<longleftrightarrow>
     (\<forall>x \<in> set (sf_enums facts).
        identified (ef_identity x) kind_type \<and> located facts (ef_declaration x) \<and> ef_explicit_underlying x < float_code \<and>
        (ef_declaration_kind x = 0 \<and> fr_count (ef_enumerators x) = 0 \<or>
         ef_declaration_kind x = 1 \<and>
         (\<forall>v \<in> set (facts_slice (ef_enumerators x) (sf_enum_values facts)). enum_value_ok facts x v))) \<and>
     offsets_ordered ef_declaration (sf_enums facts) \<and>
     dense_ranges (length (sf_enum_values facts)) (map ef_enumerators (sf_enums facts))"

lemma check_enum_values_iff:
  "check_each (check_enum_value (length (sf_text facts)) x) () i vs = Inr u \<longleftrightarrow>
     (\<forall>v \<in> set vs. enum_value_ok facts x v)"
  by (rule check_each_unit_iff) (auto simp: check_enum_value_def Let_def enum_value_ok_def)

lemma check_enums_iff: "check_enums facts = Inr u \<longleftrightarrow> enums_ok facts"
  unfolding check_enums_def enums_ok_def and_then_finish
  by (rule partition_loop_iff)
    (auto simp: check_enum_def Let_def identified_def and_then_Inr check_enum_values_iff valid_intrinsic_def
      nullptr_code_def float_code_def)

section \<open>Records\<close>

definition record_member_ok :: "source_record_fact \<Rightarrow> source_member_fact \<Rightarrow> bool" where
  "record_member_ok x m \<longleftrightarrow>
     valid_construction (mm_construction m) \<and>
     (cv_kind (mm_construction m) = ck_member_binding \<longrightarrow>
        unat (cv_operand (mm_construction m)) \<le> fr_count (rf_members x)) \<and>
     span_contains (rf_declaration x) (mm_declaration m)"

definition record_body_ok :: "source_facts \<Rightarrow> source_record_fact \<Rightarrow> bool" where
  "record_body_ok facts x \<longleftrightarrow>
     (\<forall>m \<in> set (facts_slice (rf_members x) (sf_members facts)). record_member_ok x m) \<and>
     offsets_ordered mm_declaration (facts_slice (rf_members x) (sf_members facts)) \<and>
     (\<forall>m \<in> set (facts_slice (rf_methods x) (sf_methods facts)). span_contains (rf_declaration x) (mt_declaration m))"

lemma check_record_body_iff: "check_record_body facts x = Inr u \<longleftrightarrow> record_body_ok facts x"
proof -
  have members: "(\<exists>t. check_each (check_record_member x) 0 (fr_begin (rf_members x)) ms = Inr t) \<longleftrightarrow>
      (\<forall>m \<in> set ms. record_member_ok x m) \<and> offsets_ordered mm_declaration ms" for ms
    by (rule ordered_loop_iff) (auto simp: check_record_member_def Let_def record_member_ok_def)
  have methods: "check_each (check_record_method x) () (fr_begin (rf_methods x)) ms = Inr v \<longleftrightarrow>
      (\<forall>m \<in> set ms. span_contains (rf_declaration x) (mt_declaration m))" for ms v
    by (rule check_each_unit_iff) (auto simp: check_record_method_def)
  show ?thesis
    unfolding check_record_body_def record_body_ok_def and_then_Inr methods using members by blast
qed

definition record_ok :: "source_facts \<Rightarrow> source_record_fact \<Rightarrow> bool" where
  "record_ok facts x \<longleftrightarrow>
     identified (rf_identity x) kind_type \<and> valid_record_kind (rf_record_kind x) \<and> located facts (rf_declaration x) \<and>
     (rf_declaration_kind x = 0 \<and> fr_count (rf_members x) = 0 \<and> fr_count (rf_bases x) = 0 \<and>
        fr_count (rf_methods x) = 0 \<or>
      rf_declaration_kind x = 1 \<and> record_body_ok facts x)"

definition records_ok :: "source_facts \<Rightarrow> bool" where
  "records_ok facts \<longleftrightarrow>
     (\<forall>x \<in> set (sf_records facts). record_ok facts x) \<and> offsets_ordered rf_declaration (sf_records facts) \<and>
     dense_ranges (length (sf_members facts)) (map rf_members (sf_records facts)) \<and>
     dense_ranges (length (sf_bases facts)) (map rf_bases (sf_records facts)) \<and>
     dense_ranges (length (sf_methods facts)) (map rf_methods (sf_records facts))"

lemma check_record_ranges_iff [simp]:
  "check_record_ranges facts s i x = Inr u \<longleftrightarrow>
     valid_range (rf_members x) (length (sf_members facts)) \<and> fr_begin (rf_members x) = rc_members s \<and>
     valid_range (rf_bases x) (length (sf_bases facts)) \<and> fr_begin (rf_bases x) = rc_bases s \<and>
     valid_range (rf_methods x) (length (sf_methods facts)) \<and> fr_begin (rf_methods x) = rc_methods s"
  by (auto simp: check_record_ranges_def Let_def)

lemma check_record_iff:
  "check_record facts s i x = Inr t \<longleftrightarrow>
     record_ok facts x \<and> (i = 0 \<or> rc_previous s \<le> sp_offset (rf_declaration x)) \<and>
     check_record_ranges facts s i x = Inr () \<and>
     t = \<lparr>rc_members = rc_members s + fr_count (rf_members x), rc_bases = rc_bases s + fr_count (rf_bases x),
          rc_methods = rc_methods s + fr_count (rf_methods x), rc_previous = sp_offset (rf_declaration x)\<rparr>"
  by (cases s) (auto simp: check_record_def Let_def and_then_Inr check_record_body_iff record_ok_def identified_def)

lemma check_records_iff: "check_records facts = Inr u \<longleftrightarrow> records_ok facts"
proof -
  let ?xs = "sf_records facts"
  let ?from = "\<lambda>r. begin_at (map r (sf_records facts))"
  let ?P = "previous_key (\<lambda>x. sp_offset (rf_declaration x)) ?xs"
  let ?S = "\<lambda>k. \<lparr>rc_members = ?from rf_members k, rc_bases = ?from rf_bases k,
    rc_methods = ?from rf_methods k, rc_previous = ?P k\<rparr>"
  have "check_each (check_record facts) (?S 0) 0 ?xs = Inr t \<longleftrightarrow>
      (\<forall>k < length ?xs. record_ok facts (?xs ! k) \<and> (k = 0 \<or> ?P k \<le> sp_offset (rf_declaration (?xs ! k))) \<and>
        check_record_ranges facts (?S k) k (?xs ! k) = Inr ()) \<and> t = ?S (length ?xs)" for t
    by (rule check_each_iff) (auto simp: check_record_iff)
  then show ?thesis
    unfolding check_records_def records_ok_def dense_ranges_iff offsets_ordered_iff and_then_Inr finish_partition_Inr
    by (auto simp: all_set_conv_all_nth)
qed

section \<open>The merged walk\<close>

text \<open>The modifier ranges of members and objects in the order of their declarations, members first.\<close>

fun merged_ranges :: "source_member_fact list \<Rightarrow> source_object_fact list \<Rightarrow> source_fact_range list" where
  "merged_ranges [] os = map (ty_modifiers \<circ> ob_type) os"
| "merged_ranges ms [] = map (ty_modifiers \<circ> mm_type) ms"
| "merged_ranges (m # ms) (p # ps) =
     (if sp_offset (mm_declaration m) \<le> sp_offset (ob_declaration p)
      then ty_modifiers (mm_type m) # merged_ranges ms (p # ps)
      else ty_modifiers (ob_type p) # merged_ranges (m # ms) ps)"

lemma merged_ranges_Nil [simp]: "merged_ranges ms [] = map (ty_modifiers \<circ> mm_type) ms"
  by (cases ms) simp_all

lemma merged_ranges_unfold:
  "merged_ranges ms ps =
     (if ms = [] \<and> ps = [] then []
      else if take_member ms ps then ty_modifiers (mm_type (hd ms)) # merged_ranges (tl ms) ps
      else ty_modifiers (ob_type (hd ps)) # merged_ranges ms (tl ps))"
  by (cases ms; cases ps) (simp_all add: take_member_def)

lemma mset_merged_ranges:
  "mset (merged_ranges ms ps) = mset (map (ty_modifiers \<circ> mm_type) ms @ map (ty_modifiers \<circ> ob_type) ps)"
  by (induction ms ps rule: merged_ranges.induct) (simp_all add: comp_def)

fun laid_from :: "nat \<Rightarrow> source_fact_range list \<Rightarrow> bool" where
  "laid_from e [] \<longleftrightarrow> True"
| "laid_from e (r # rs) \<longleftrightarrow> fr_begin r = e \<and> laid_from (e + fr_count r) rs"

definition total_count :: "source_fact_range list \<Rightarrow> nat" where
  "total_count rs = sum_list (map fr_count rs)"

lemma merged_modifiers_iff:
  "merged_modifiers e m k ms ps = Inr t \<longleftrightarrow>
     laid_from e (merged_ranges ms ps) \<and> t = e + total_count (merged_ranges ms ps)"
proof (induction e m k ms ps rule: merged_modifiers.induct)
  case (1 e m k ms ps)
  consider "ms = []" "ps = []" | "\<not> (ms = [] \<and> ps = [])" "take_member ms ps"
    | "\<not> (ms = [] \<and> ps = [])" "\<not> take_member ms ps" by blast
  then show ?case
  proof cases
    case 1
    then show ?thesis by (auto simp: merged_modifiers.simps [of e] total_count_def)
  next
    case 2
    then show ?thesis using "1.IH"(1) [OF 2 refl]
      by (subst merged_modifiers.simps, subst (1 2) merged_ranges_unfold) (auto simp: Let_def total_count_def)
  next
    case 3
    then show ?thesis using "1.IH"(2) [OF 3 refl]
      by (subst merged_modifiers.simps, subst (1 2) merged_ranges_unfold) (auto simp: Let_def total_count_def)
  qed
qed

lemma laid_from_iff: "laid_from e rs \<longleftrightarrow> (\<forall>k < length rs. fr_begin (rs ! k) = e + begin_at rs k)"
proof (induction rs arbitrary: e)
  case (Cons r rs)
  have "begin_at (r # rs) (Suc k) = fr_count r + begin_at rs k" for k by (simp add: begin_at_def)
  then show ?case using Cons by (auto simp: less_Suc_eq_0_disj add.assoc)
qed simp

lemma dense_laid: "dense_ranges n rs \<longleftrightarrow> laid_from 0 rs \<and> total_count rs = n"
  by (simp add: dense_ranges_def laid_from_iff total_count_def begin_at_def)

definition type_modifiers_ok :: "source_facts \<Rightarrow> bool" where
  "type_modifiers_ok facts \<longleftrightarrow>
     dense_ranges (length (sf_modifiers facts)) (merged_ranges (sf_members facts) (sf_objects facts))"

lemma check_merged_modifiers_iff: "check_merged_modifiers facts = Inr u \<longleftrightarrow> type_modifiers_ok facts"
  by (simp add: check_merged_modifiers_def and_then_Inr merged_modifiers_iff type_modifiers_ok_def dense_laid)

section \<open>The declaration sequence\<close>

text \<open>The spans of the facts of one kind, by the code of the kind.\<close>

definition spans_of :: "source_facts \<Rightarrow> nat \<Rightarrow> source_span list" where
  "spans_of facts kind =
     (if kind = 0 then map ns_declaration (sf_namespaces facts)
      else if kind = 1 then map rf_declaration (sf_records facts)
      else if kind = 2 then map ef_declaration (sf_enums facts)
      else if kind = 3 then map ob_declaration (sf_objects facts)
      else if kind = 4 then map lf_declaration (sf_links facts)
      else if kind = 5 then map al_declaration (sf_aliases facts)
      else [])"

definition references :: "nat \<Rightarrow> source_declaration_ref list \<Rightarrow> (nat \<times> source_span) list" where
  "references kind ds = map (\<lambda>d. (dr_index d, dr_declaration d)) (filter (\<lambda>d. dr_kind d = kind) ds)"

definition referred :: "nat \<Rightarrow> source_declaration_ref list \<Rightarrow> nat \<Rightarrow> nat" where
  "referred kind ds k = length (references kind (take k ds))"

text \<open>
  The references of each kind count through its facts in order and have their spans; a reference of no kind
  has the empty span at the begin of the Source.
\<close>

definition declarations_ok :: "source_facts \<Rightarrow> bool" where
  "declarations_ok facts \<longleftrightarrow>
     sf_declarations facts = [] \<or>
     offsets_ordered dr_declaration (sf_declarations facts) \<and>
     (\<forall>kind \<le> 5. references kind (sf_declarations facts) = enumerate 0 (spans_of facts kind)) \<and>
     (\<forall>d \<in> set (sf_declarations facts). 5 < dr_kind d \<longrightarrow> dr_declaration d = no_span)"

definition reference_ok :: "source_facts \<Rightarrow> source_declaration_ref list \<Rightarrow> nat \<Rightarrow> bool" where
  "reference_ok facts ds k \<longleftrightarrow>
     (let d = ds ! k; c = dr_kind d in
      if 5 < c then dr_declaration d = no_span
      else dr_index d = referred c ds k \<and> referred c ds k < length (spans_of facts c) \<and>
           spans_of facts c ! referred c ds k = dr_declaration d)"

lemma referred_Suc [simp]:
  "k < length ds \<Longrightarrow> referred c ds (Suc k) = referred c ds k + (if dr_kind (ds ! k) = c then 1 else 0)"
  by (simp add: referred_def references_def take_Suc_conv_app_nth)

lemma referred_0 [simp]: "referred c ds 0 = 0"
  by (simp add: referred_def references_def)

lemma references_enumerate_prefix:
  assumes "m \<le> length ds"
  shows "(\<forall>k < m. dr_kind (ds ! k) = c \<longrightarrow>
      dr_index (ds ! k) = referred c ds k \<and> referred c ds k < length spans \<and>
      spans ! referred c ds k = dr_declaration (ds ! k)) \<longleftrightarrow>
    referred c ds m \<le> length spans \<and> references c (take m ds) = take (referred c ds m) (enumerate 0 spans)"
  using assms
proof (induction m)
  case (Suc m)
  then have m: "m < length ds" by simp
  have len: "length (references c (take m ds)) = referred c ds m" by (simp add: referred_def)
  show ?case
  proof (cases "dr_kind (ds ! m) = c")
    case False
    then have "references c (take (Suc m) ds) = references c (take m ds)"
      using m by (simp add: references_def take_Suc_conv_app_nth)
    with Suc m False show ?thesis by (auto simp: less_Suc_eq)
  next
    case True
    then have app: "references c (take (Suc m) ds) =
        references c (take m ds) @ [(dr_index (ds ! m), dr_declaration (ds ! m))]"
      using m by (simp add: references_def take_Suc_conv_app_nth)
    have "referred c ds m < length spans \<Longrightarrow>
        take (Suc (referred c ds m)) (enumerate 0 spans) =
        take (referred c ds m) (enumerate 0 spans) @ [(referred c ds m, spans ! referred c ds m)]"
      by (simp add: take_Suc_conv_app_nth nth_enumerate_eq)
    with Suc m True len show ?thesis by (auto simp: less_Suc_eq app)
  qed
qed (simp add: references_def)

lemma references_enumerate:
  "(\<forall>k < length ds. dr_kind (ds ! k) = c \<longrightarrow>
      dr_index (ds ! k) = referred c ds k \<and> referred c ds k < length spans \<and>
      spans ! referred c ds k = dr_declaration (ds ! k)) \<and> referred c ds (length ds) = length spans \<longleftrightarrow>
   references c ds = enumerate 0 spans"
proof -
  have "references c ds = enumerate 0 spans \<Longrightarrow> referred c ds (length ds) = length spans"
    by (simp add: referred_def)
  then show ?thesis
    using references_enumerate_prefix [OF order_refl, of ds c spans] by auto
qed

definition counters_at :: "source_declaration_ref list \<Rightarrow> nat \<Rightarrow> sequence_counters" where
  "counters_at ds k =
     \<lparr>next_namespace = referred 0 ds k, next_record = referred 1 ds k, next_enum = referred 2 ds k,
      next_object = referred 3 ds k, next_link = referred 4 ds k, next_alias = referred 5 ds k,
      previous_offset = previous_key (\<lambda>d. sp_offset (dr_declaration d)) ds k\<rparr>"

lemma kind_cases:
  obtains "(c :: nat) = 0" | "c = 1" | "c = 2" | "c = 3" | "c = 4" | "c = 5" | "5 < c"
  by linarith

lemma next_reference_iff:
  assumes "k < length ds" and s: "s = (counters_at ds k)\<lparr>previous_offset := sp_offset (dr_declaration (ds ! k))\<rparr>"
  shows "next_reference facts s (ds ! k) = Some (e, t) \<longleftrightarrow>
    (if 5 < dr_kind (ds ! k) then e = no_span
     else dr_index (ds ! k) = referred (dr_kind (ds ! k)) ds k \<and>
          referred (dr_kind (ds ! k)) ds k < length (spans_of facts (dr_kind (ds ! k))) \<and>
          e = spans_of facts (dr_kind (ds ! k)) ! referred (dr_kind (ds ! k)) ds k) \<and> t = counters_at ds (Suc k)"
  by (rule kind_cases [of "dr_kind (ds ! k)"])
    (use assms(1) in \<open>auto simp: next_reference_def Let_def s counters_at_def spans_of_def\<close>)

lemma check_reference_iff:
  assumes "k < length ds"
  shows "check_reference facts (counters_at ds k) k (ds ! k) = Inr t \<longleftrightarrow>
    (reference_ok facts ds k \<and>
     (k = 0 \<or> previous_key (\<lambda>d. sp_offset (dr_declaration d)) ds k \<le> sp_offset (dr_declaration (ds ! k)))) \<and>
    t = counters_at ds (Suc k)"
proof -
  have eq: "(sp_offset e \<noteq> sp_offset d \<or> sp_length e \<noteq> sp_length d) \<longleftrightarrow> e \<noteq> d" for e d :: source_span
    by auto
  let ?next = "next_reference facts ((counters_at ds k)\<lparr>previous_offset := sp_offset (dr_declaration (ds ! k))\<rparr>) (ds ! k)"
  have "check_reference facts (counters_at ds k) k (ds ! k) = Inr t \<longleftrightarrow>
      (k = 0 \<or> previous_key (\<lambda>d. sp_offset (dr_declaration d)) ds k \<le> sp_offset (dr_declaration (ds ! k))) \<and>
      ?next = Some (dr_declaration (ds ! k), t)"
    by (auto simp: check_reference_def Let_def eq counters_at_def split: option.splits)
  also have "?next = Some (dr_declaration (ds ! k), t) \<longleftrightarrow> reference_ok facts ds k \<and> t = counters_at ds (Suc k)"
    by (subst next_reference_iff [OF assms refl]) (auto simp: reference_ok_def Let_def)
  finally show ?thesis by blast
qed

lemma reference_ok_kinds:
  "(\<forall>k < length ds. reference_ok facts ds k) \<longleftrightarrow>
     (\<forall>c \<le> 5. \<forall>k < length ds. dr_kind (ds ! k) = c \<longrightarrow>
        dr_index (ds ! k) = referred c ds k \<and> referred c ds k < length (spans_of facts c) \<and>
        spans_of facts c ! referred c ds k = dr_declaration (ds ! k)) \<and>
     (\<forall>d \<in> set ds. 5 < dr_kind d \<longrightarrow> dr_declaration d = no_span)"
  unfolding reference_ok_def Let_def all_set_conv_all_nth by (auto simp: not_less)

lemma check_declarations_iff: "check_declarations facts = Inr u \<longleftrightarrow> declarations_ok facts"
proof -
  let ?ds = "sf_declarations facts"
  let ?P = "previous_key (\<lambda>d. sp_offset (dr_declaration d)) ?ds"
  have loop: "check_each (check_reference facts) first_counters 0 ?ds = Inr t \<longleftrightarrow>
      (\<forall>k < length ?ds. reference_ok facts ?ds k \<and> (k = 0 \<or> ?P k \<le> sp_offset (dr_declaration (?ds ! k)))) \<and>
      t = counters_at ?ds (length ?ds)" for t
  proof -
    have "counters_at ?ds 0 = first_counters" by (simp add: counters_at_def first_counters_def)
    with check_each_iff [of ?ds "check_reference facts" "counters_at ?ds" 0] check_reference_iff [of _ ?ds facts]
    show ?thesis by simp
  qed
  have six: "(\<forall>c \<le> 5. Q c) \<longleftrightarrow> Q 0 \<and> Q 1 \<and> Q 2 \<and> Q 3 \<and> Q 4 \<and> Q (5 :: nat)" for Q
  proof
    assume "Q 0 \<and> Q 1 \<and> Q 2 \<and> Q 3 \<and> Q 4 \<and> Q 5"
    then show "\<forall>c \<le> 5. Q c" by (metis kind_cases leD)
  qed simp
  have counts: "(\<forall>c \<le> 5. referred c ?ds (length ?ds) = length (spans_of facts c)) \<longleftrightarrow>
      next_namespace (counters_at ?ds (length ?ds)) = length (sf_namespaces facts) \<and>
      next_record (counters_at ?ds (length ?ds)) = length (sf_records facts) \<and>
      next_enum (counters_at ?ds (length ?ds)) = length (sf_enums facts) \<and>
      next_object (counters_at ?ds (length ?ds)) = length (sf_objects facts) \<and>
      next_link (counters_at ?ds (length ?ds)) = length (sf_links facts) \<and>
      next_alias (counters_at ?ds (length ?ds)) = length (sf_aliases facts)"
    unfolding six by (simp add: counters_at_def spans_of_def)
  have "check_declarations facts = Inr u \<longleftrightarrow> ?ds = [] \<or>
      (\<forall>k < length ?ds. reference_ok facts ?ds k) \<and> offsets_ordered dr_declaration ?ds \<and>
      (\<forall>c \<le> 5. referred c ?ds (length ?ds) = length (spans_of facts c))"
  proof (cases "?ds = []")
    case False
    then show ?thesis
      unfolding check_declarations_def if_not_P [OF False] and_then_Inr loop counts offsets_ordered_iff guard_Inr
      by auto
  qed (simp add: check_declarations_def)
  also have "\<dots> \<longleftrightarrow> declarations_ok facts"
    unfolding declarations_ok_def reference_ok_kinds references_enumerate [symmetric] by blast
  finally show ?thesis .
qed

section \<open>Acceptance\<close>

definition facts_valid :: "source_facts \<Rightarrow> bool" where
  "facts_valid facts \<longleftrightarrow>
     sf_source facts \<noteq> 0 \<and> length (sf_text facts) \<le> u32_max \<and> namespaces_ok facts \<and> records_ok facts \<and>
     methods_ok facts \<and> bases_ok facts \<and> members_ok facts \<and> modifiers_ok facts \<and> enums_ok facts \<and>
     objects_ok facts \<and> type_modifiers_ok facts \<and> links_ok facts \<and> aliases_ok facts \<and> declarations_ok facts"

lemma check_facts_iff: "check_facts facts = Inr u \<longleftrightarrow> facts_valid facts"
  unfolding check_facts_def facts_valid_def guard_Inr and_then_Inr check_namespaces_iff check_records_iff
    check_methods_iff check_bases_iff check_members_iff check_modifiers_iff check_enums_iff check_objects_iff
    check_merged_modifiers_iff check_links_iff check_aliases_iff check_declarations_iff
  by auto













section \<open>What the builder relies on\<close>

lemma accepted_iff: "fst (validate_source_facts facts) = st_ok \<longleftrightarrow> facts_valid facts"
  using check_facts_iff [of facts] by (cases "check_facts facts") (auto simp: validate_source_facts_def)

definition in_fact_range :: "nat \<Rightarrow> source_fact_range \<Rightarrow> bool" where
  "in_fact_range i r \<longleftrightarrow> fr_begin r \<le> i \<and> i < fr_begin r + fr_count r"

text \<open>Every index below \<open>n\<close> lies in exactly one of the ranges, and no range reaches beyond.\<close>

definition partitions :: "nat \<Rightarrow> source_fact_range list \<Rightarrow> bool" where
  "partitions n rs \<longleftrightarrow>
     (\<forall>r \<in> set rs. fr_begin r + fr_count r \<le> n) \<and> (\<forall>i < n. length (filter (in_fact_range i) rs) = 1)"

lemma laid_from_owners:
  "laid_from e rs \<Longrightarrow>
    length (filter (in_fact_range i) rs) = (if e \<le> i \<and> i < e + total_count rs then 1 else 0)"
proof (induction rs arbitrary: e)
  case (Cons r rs)
  then have "length (filter (in_fact_range i) rs) =
      (if e + fr_count r \<le> i \<and> i < e + fr_count r + total_count rs then 1 else 0)" by simp
  moreover have "total_count (r # rs) = fr_count r + total_count rs" by (simp add: total_count_def)
  moreover have "in_fact_range i r \<longleftrightarrow> e \<le> i \<and> i < e + fr_count r"
    using Cons.prems by (simp add: in_fact_range_def)
  ultimately show ?case by (auto split: if_splits)
qed (simp add: total_count_def)

lemma dense_ranges_partition: "dense_ranges n rs \<Longrightarrow> partitions n rs"
  using dense_ranges_valid(2) [of n rs] laid_from_owners [of 0 rs]
  by (auto simp: partitions_def dense_laid in_set_conv_nth)

lemma partitions_mset: "mset rs = mset rs' \<Longrightarrow> partitions n rs \<longleftrightarrow> partitions n rs'"
  unfolding partitions_def by (metis mset_eq_setD mset_filter size_mset)

lemma merged_partition:
  "type_modifiers_ok facts \<Longrightarrow>
   partitions (length (sf_modifiers facts))
     (map (ty_modifiers \<circ> mm_type) (sf_members facts) @ map (ty_modifiers \<circ> ob_type) (sf_objects facts))"
  using partitions_mset [OF mset_merged_ranges, THEN iffD1] dense_ranges_partition
  unfolding type_modifiers_ok_def by blast

text \<open>
  C19. In accepted source facts the flat arrays are partitioned: every member, base and method belongs to exactly
  one record, every enumerator to exactly one enumeration, every modifier to exactly one type of a member, an
  object, a method or an alias; and the members and methods of a record are declared inside it.
\<close>

theorem accepted_facts_partition:
  assumes "fst (validate_source_facts facts) = st_ok"
  shows "partitions (length (sf_members facts)) (map rf_members (sf_records facts)) \<and>
    partitions (length (sf_bases facts)) (map rf_bases (sf_records facts)) \<and>
    partitions (length (sf_methods facts)) (map rf_methods (sf_records facts)) \<and>
    partitions (length (sf_enum_values facts)) (map ef_enumerators (sf_enums facts)) \<and>
    partitions (length (sf_modifiers facts))
      (map (ty_modifiers \<circ> mm_type) (sf_members facts) @ map (ty_modifiers \<circ> ob_type) (sf_objects facts)) \<and>
    partitions (length (sf_method_modifiers facts)) (map (ty_modifiers \<circ> mt_return_type) (sf_methods facts)) \<and>
    partitions (length (sf_alias_modifiers facts)) (map (ty_modifiers \<circ> al_target) (sf_aliases facts)) \<and>
    (\<forall>x \<in> set (sf_records facts).
       (\<forall>m \<in> set (facts_slice (rf_members x) (sf_members facts)).
          span_contains (rf_declaration x) (mm_declaration m)) \<and>
       (\<forall>m \<in> set (facts_slice (rf_methods x) (sf_methods facts)).
          span_contains (rf_declaration x) (mt_declaration m)))"
proof -
  have valid: "records_ok facts" "methods_ok facts" "enums_ok facts" "type_modifiers_ok facts" "aliases_ok facts"
    using assms by (simp_all add: accepted_iff facts_valid_def)
  have inside: "(\<forall>m \<in> set (facts_slice (rf_members x) (sf_members facts)).
          span_contains (rf_declaration x) (mm_declaration m)) \<and>
       (\<forall>m \<in> set (facts_slice (rf_methods x) (sf_methods facts)).
          span_contains (rf_declaration x) (mt_declaration m))" if "x \<in> set (sf_records facts)" for x
  proof -
    have "record_ok facts x" using valid that by (simp add: records_ok_def)
    then show ?thesis
      by (auto simp: record_ok_def record_body_ok_def record_member_ok_def facts_slice_def)
  qed
  show ?thesis
    using valid inside merged_partition [of facts]
    by (simp add: records_ok_def methods_ok_def enums_ok_def aliases_ok_def dense_ranges_partition)
qed

text \<open>\<^verbatim>\<open>struct A{const int b;};\<close>\<close>

definition sample_facts :: source_facts where
  "sample_facts =
     \<lparr>sf_source = 1, sf_text = ''struct A{const int b;};'', sf_namespaces = [],
      sf_records = [\<lparr>rf_identity = 0x80000002, rf_members = \<lparr>fr_begin = 0, fr_count = 1\<rparr>,
        rf_bases = \<lparr>fr_begin = 0, fr_count = 0\<rparr>, rf_methods = \<lparr>fr_begin = 0, fr_count = 0\<rparr>,
        rf_declaration = \<lparr>sp_offset = 0, sp_length = 22\<rparr>, rf_declaration_kind = 1, rf_record_kind = 0\<rparr>],
      sf_members = [\<lparr>mm_type = \<lparr>ty_identity = 0, ty_intrinsic = 12, ty_modifiers = \<lparr>fr_begin = 0, fr_count = 1\<rparr>,
          ty_spelling = \<lparr>sp_offset = 9, sp_length = 9\<rparr>\<rparr>,
        mm_name = 3, mm_declaration = \<lparr>sp_offset = 9, sp_length = 12\<rparr>, mm_access = 0,
        mm_initializer = no_span, mm_construction = cv_default\<rparr>],
      sf_modifiers = [\<lparr>tm_value = 0, tm_kind = 0\<rparr>], sf_enums = [], sf_enum_values = [],
      sf_declarations = [\<lparr>dr_index = 0, dr_kind = 1, dr_declaration = \<lparr>sp_offset = 0, sp_length = 22\<rparr>\<rparr>],
      sf_objects = [], sf_links = [], sf_bases = [], sf_aliases = [], sf_alias_modifiers = [], sf_methods = [],
      sf_method_modifiers = []\<rparr>"

lemma sample_accepted: "fst (validate_source_facts sample_facts) = st_ok"
proof -
  have "ref_kind 0x80000002 = kind_type"
    by (simp add: ref_kind_def kind_of_code_def kind_shift_def)
  then show ?thesis
    unfolding accepted_iff facts_valid_def
    by (simp add: sample_facts_def namespaces_ok_def records_ok_def record_ok_def methods_ok_def bases_ok_def
        members_ok_def modifiers_ok_def enums_ok_def objects_ok_def type_modifiers_ok_def links_ok_def aliases_ok_def
        declarations_ok_def dense_laid total_count_def offsets_ordered_def record_body_ok_def record_member_ok_def
        facts_slice_def located_def part_of_def span_contains_def identified_def type_base_ok_def valid_intrinsic_def
        nullptr_code_def valid_record_kind_def valid_member_access_def valid_modifier_kind_def bounded_array_code_def
        no_span_def cv_default_def cv_bits_def references_def spans_of_def valid_range_def)
qed

theorem accepted_facts_partition_witness:
  "partitions 1 [\<lparr>fr_begin = 0, fr_count = 1\<rparr>] \<and> length (sf_members sample_facts) = 1"
proof -
  have "map rf_members (sf_records sample_facts) = [\<lparr>fr_begin = 0, fr_count = 1\<rparr>]"
    and "length (sf_members sample_facts) = 1" by (simp_all add: sample_facts_def)
  with accepted_facts_partition [OF sample_accepted] show ?thesis by metis
qed

text \<open>
  C20. In accepted source facts a nonempty declaration sequence is in source order and, for each kind, refers to
  the facts of that kind in order, to each exactly once, and with the span of the fact.
\<close>

theorem declaration_sequence_exact:
  assumes "fst (validate_source_facts facts) = st_ok" and "sf_declarations facts \<noteq> []" and "kind \<le> 5"
  shows "references kind (sf_declarations facts) = enumerate 0 (spans_of facts kind) \<and>
    sorted (map (\<lambda>d. sp_offset (dr_declaration d)) (sf_declarations facts))"
  using assms by (simp add: accepted_iff facts_valid_def declarations_ok_def offsets_ordered_def)

theorem declaration_sequence_exact_witness:
  "references 1 (sf_declarations sample_facts) = [(0, \<lparr>sp_offset = 0, sp_length = 22\<rparr>)]"
proof -
  have "sf_declarations sample_facts \<noteq> []" by (simp add: sample_facts_def)
  with declaration_sequence_exact [OF sample_accepted, of 1] show ?thesis
    by (simp add: sample_facts_def spans_of_def)
qed

text \<open>
  The condition on the kind is needed: a reference whose kind has no enumerator is accepted when its span is empty
  and at the begin of the Source, since no case of the \<^verbatim>\<open>switch\<close> examines it.
\<close>

lemma kindless_reference_accepted:
  "fst (validate_source_facts (sample_facts\<lparr>sf_declarations :=
     \<lparr>dr_index = 7, dr_kind = 9, dr_declaration = no_span\<rparr> # sf_declarations sample_facts\<rparr>)) = st_ok"
  using sample_accepted
  unfolding accepted_iff facts_valid_def
  by (simp add: sample_facts_def namespaces_ok_def records_ok_def record_ok_def methods_ok_def bases_ok_def
        members_ok_def modifiers_ok_def enums_ok_def objects_ok_def type_modifiers_ok_def links_ok_def aliases_ok_def
        declarations_ok_def offsets_ordered_def record_body_ok_def located_def part_of_def
        no_span_def references_def spans_of_def)

end
