(* ===== verification/Contribution_Cache.thy ===== *)
theory Contribution_Cache
  imports Fact_Validity
begin

text \<open>
  The facts of each Source as the builder retains them, \<^verbatim>\<open>src/server_engine/project/builder/source_contribution.hpp\<close>
  and \<^verbatim>\<open>source_contribution.cpp\<close>: flat arrays shared by all Sources and, per Source, the ranges that are its own. The
  arrays are \<^verbatim>\<open>mapped_vector\<close>s, here lists; \<open>cc_baseline\<close> tells whether they start as a mapped image.
\<close>

section \<open>Data\<close>

record contribution_type_ref =
  cr_identity :: u32
  cr_modifiers :: source_fact_range
  cr_intrinsic :: nat

record contribution_member =
  cm_type :: contribution_type_ref
  cm_name :: u32
  cm_access :: nat
  cm_construction :: construction_value

record contribution_enum_value =
  ce_name :: u32
  ce_intrinsic :: nat
  ce_value_bits :: u64

record contribution_object =
  co_identity :: u32
  co_type :: contribution_type_ref
  co_flags :: nat

record contribution_link =
  cl_source :: source_object_endpoint_fact
  cl_target :: source_object_endpoint_fact

datatype contribution_type_kind = contributed_record | contributed_enumeration

record contribution_type =
  cy_identity :: u32
  cy_items :: source_fact_range
  cy_underlying :: nat
  cy_record_kind :: nat
  cy_kind :: contribution_type_kind
  cy_flags :: u8

definition type_definition :: "contribution_type \<Rightarrow> bool" where
  "type_definition t \<longleftrightarrow> cy_flags t AND 1 \<noteq> 0"

definition type_enum_scoped :: "contribution_type \<Rightarrow> bool" where
  "type_enum_scoped t \<longleftrightarrow> cy_flags t AND 2 \<noteq> 0"

record contribution_state =
  cs_source :: nat
  cs_types :: source_fact_range
  cs_members :: source_fact_range
  cs_modifiers :: source_fact_range
  cs_enum_values :: source_fact_range
  cs_objects :: source_fact_range
  cs_links :: source_fact_range

definition empty_range :: source_fact_range where
  "empty_range = \<lparr>fr_begin = 0, fr_count = 0\<rparr>"

definition no_state :: contribution_state where
  "no_state = \<lparr>cs_source = 0, cs_types = empty_range, cs_members = empty_range, cs_modifiers = empty_range,
     cs_enum_values = empty_range, cs_objects = empty_range, cs_links = empty_range\<rparr>"

record construction_state =
  nc_declarations :: nat
  nc_definitions :: nat
  nc_definition_type :: nat
  nc_record_struct :: nat
  nc_record_class :: nat
  nc_record_union :: nat
  nc_enum_scoped :: nat
  nc_enum_unscoped :: nat
  nc_enum_fixed :: nat
  nc_fixed_underlying :: nat
  nc_kind :: contribution_type_kind

definition no_construction :: construction_state where
  "no_construction = \<lparr>nc_declarations = 0, nc_definitions = 0, nc_definition_type = 0, nc_record_struct = 0,
     nc_record_class = 0, nc_record_union = 0, nc_enum_scoped = 0, nc_enum_unscoped = 0, nc_enum_fixed = 0,
     nc_fixed_underlying = 0, nc_kind = contributed_record\<rparr>"

record contribution_statistics =
  sn_sources :: nat
  sn_type_declarations :: nat
  sn_members :: nat
  sn_modifiers :: nat
  sn_enum_values :: nat
  sn_objects :: nat
  sn_links :: nat

definition no_statistics :: contribution_statistics where
  "no_statistics = \<lparr>sn_sources = 0, sn_type_declarations = 0, sn_members = 0, sn_modifiers = 0,
     sn_enum_values = 0, sn_objects = 0, sn_links = 0\<rparr>"

record contribution_storage =
  so_sources :: "contribution_state list"
  so_types :: "contribution_type list"
  so_members :: "contribution_member list"
  so_modifiers :: "source_type_modifier list"
  so_enum_values :: "contribution_enum_value list"
  so_objects :: "contribution_object list"
  so_links :: "contribution_link list"
  so_construction :: "construction_state list"
  so_statistics :: contribution_statistics

definition empty_storage :: contribution_storage where
  "empty_storage = \<lparr>so_sources = [], so_types = [], so_members = [], so_modifiers = [], so_enum_values = [],
     so_objects = [], so_links = [], so_construction = [], so_statistics = no_statistics\<rparr>"

record contribution_cache =
  cc_committed :: contribution_storage
  cc_statistics :: contribution_statistics
  cc_complete :: bool
  cc_baseline :: bool
  cc_absent :: "nat list"
  cc_read_status :: status_code

definition empty_cache :: contribution_cache where
  "empty_cache = \<lparr>cc_committed = empty_storage, cc_statistics = no_statistics, cc_complete = True, cc_baseline = False,
     cc_absent = [], cc_read_status = st_ok\<rparr>"

text \<open>
  A cache over an image: what the image's arrays read as, its statistics and its completeness. The reader of the
  image rejects the slot of a Source it has no contribution of; the array of Sources remembers the first rejection.
\<close>

definition baseline_cache :: "contribution_storage \<Rightarrow> contribution_statistics \<Rightarrow> bool \<Rightarrow> contribution_cache" where
  "baseline_cache img statistics complete =
     \<lparr>cc_committed = img\<lparr>so_sources := no_state # drop 1 (so_sources img), so_statistics := no_statistics\<rparr>,
      cc_statistics = statistics, cc_complete = complete, cc_baseline = True,
      cc_absent = filter (\<lambda>i. cs_source (so_sources img ! i) = 0) [1..<length (so_sources img)], cc_read_status = st_ok\<rparr>"

section \<open>Index arithmetic\<close>

definition checked_span :: "'a list \<Rightarrow> source_fact_range \<Rightarrow> 'a list" where
  "checked_span xs r =
     (if length xs < fr_begin r \<or> length xs - fr_begin r < fr_count r \<or> fr_count r = 0 then []
      else facts_slice r xs)"

definition combined_span :: "'a list \<Rightarrow> 'a list \<Rightarrow> nat \<Rightarrow> source_fact_range \<Rightarrow> 'a list" where
  "combined_span committed appended base r =
     (if fr_count r = 0 then []
      else if fr_begin r < base
      then (if length committed < fr_begin r \<or> length committed - fr_begin r < fr_count r \<or>
               base < fr_begin r + fr_count r
            then [] else facts_slice r committed)
      else let local = fr_begin r - base in
        if length appended < local \<or> length appended - local < fr_count r then []
        else take (fr_count r) (drop local appended))"

definition add_u32 :: "nat \<Rightarrow> nat \<Rightarrow> nat option" where
  "add_u32 base relative = (if u32_max < base + relative then None else Some (base + relative))"

definition absolute_u32 :: "nat \<Rightarrow> nat \<Rightarrow> nat option" where
  "absolute_u32 base local =
     (if u64_max - base < local then None
      else if u32_max < base + local then None else Some (base + local))"

definition subtract_count :: "nat \<Rightarrow> nat \<Rightarrow> nat option" where
  "subtract_count v decrement = (if v < decrement then None else Some (v - decrement))"

definition reserve_headroom_size :: "nat \<Rightarrow> nat option" where
  "reserve_headroom_size n =
     (let extra = n div 16 + 64 in if u64_max - extra < n then None else Some (n + extra))"

section \<open>Reading the cache\<close>

definition storage_state :: "contribution_storage \<Rightarrow> nat \<Rightarrow> contribution_state option" where
  "storage_state st source =
     (if source = 0 \<or> length (so_sources st) \<le> source then None
      else let v = so_sources st ! source in if cs_source v = source then Some v else None)"

definition cache_state :: "contribution_cache \<Rightarrow> nat \<Rightarrow> contribution_state option" where
  "cache_state c source = storage_state (cc_committed c) source"

text \<open>The effect of reading a Source slot on the status of the array.\<close>

definition cache_touch :: "contribution_cache \<Rightarrow> nat \<Rightarrow> contribution_cache" where
  "cache_touch c source =
     (if source = 0 \<or> length (so_sources (cc_committed c)) \<le> source then c
      else if source \<in> set (cc_absent c) \<and> cc_read_status c = st_ok then c\<lparr>cc_read_status := st_not_found\<rparr>
      else c)"

definition cache_types :: "contribution_cache \<Rightarrow> nat \<Rightarrow> contribution_type list" where
  "cache_types c source =
     (case cache_state c source of None \<Rightarrow> [] | Some v \<Rightarrow> checked_span (so_types (cc_committed c)) (cs_types v))"

definition cache_members :: "contribution_cache \<Rightarrow> source_fact_range \<Rightarrow> contribution_member list" where
  "cache_members c r = checked_span (so_members (cc_committed c)) r"

definition cache_modifiers :: "contribution_cache \<Rightarrow> source_fact_range \<Rightarrow> source_type_modifier list" where
  "cache_modifiers c r = checked_span (so_modifiers (cc_committed c)) r"

definition cache_enum_values :: "contribution_cache \<Rightarrow> source_fact_range \<Rightarrow> contribution_enum_value list" where
  "cache_enum_values c r = checked_span (so_enum_values (cc_committed c)) r"

definition cache_objects :: "contribution_cache \<Rightarrow> nat \<Rightarrow> contribution_object list" where
  "cache_objects c source =
     (case cache_state c source of None \<Rightarrow> [] | Some v \<Rightarrow> checked_span (so_objects (cc_committed c)) (cs_objects v))"

definition cache_links :: "contribution_cache \<Rightarrow> nat \<Rightarrow> contribution_link list" where
  "cache_links c source =
     (case cache_state c source of None \<Rightarrow> [] | Some v \<Rightarrow> checked_span (so_links (cc_committed c)) (cs_links v))"

definition cache_construction :: "contribution_cache \<Rightarrow> nat \<Rightarrow> construction_state option" where
  "cache_construction c handle =
     (if handle = 0 \<or> length (so_construction (cc_committed c)) \<le> handle then None
      else Some (so_construction (cc_committed c) ! handle))"

definition cache_invalidate :: "contribution_cache \<Rightarrow> contribution_cache" where
  "cache_invalidate c = c\<lparr>cc_complete := False\<rparr>"

text \<open>
  Handing the arrays of a full construction over: the released storage, and the cache left with none. The
  statistics stored beside the arrays stay.
\<close>

definition release_native_generation_storage ::
  "contribution_cache \<Rightarrow> status_code \<times> contribution_storage \<times> contribution_cache" where
  "release_native_generation_storage c =
     (if cc_baseline c \<or> \<not> cc_complete c then (st_invalid_state, empty_storage, c)
      else if so_sources (cc_committed c) = [] \<or> so_construction (cc_committed c) = []
      then (st_initialization_failed, empty_storage, c)
      else (st_ok, (cc_committed c)\<lparr>so_statistics := no_statistics\<rparr>,
        c\<lparr>cc_committed := empty_storage\<lparr>so_statistics := so_statistics (cc_committed c)\<rparr>,
          cc_statistics := no_statistics, cc_complete := False\<rparr>))"

section \<open>The semantic filter\<close>

text \<open>A retained range is the range of the facts, shifted by where the Source begins.\<close>

definition same_range :: "nat \<Rightarrow> source_fact_range \<Rightarrow> source_fact_range \<Rightarrow> bool" where
  "same_range base cached current \<longleftrightarrow>
     fr_count cached = fr_count current \<and> \<not> fr_begin cached < base \<and> fr_begin cached - base = fr_begin current"

definition same_modifier :: "source_type_modifier \<Rightarrow> source_type_modifier \<Rightarrow> bool" where
  "same_modifier cached current \<longleftrightarrow> tm_kind cached = tm_kind current \<and> tm_value cached = tm_value current"

definition same_type_ref :: "nat \<Rightarrow> contribution_type_ref \<Rightarrow> source_type_ref \<Rightarrow> bool" where
  "same_type_ref base cached current \<longleftrightarrow>
     cr_identity cached = ty_identity current \<and> cr_intrinsic cached = ty_intrinsic current \<and>
     same_range base (cr_modifiers cached) (ty_modifiers current)"

definition same_member :: "nat \<Rightarrow> contribution_member \<Rightarrow> source_member_fact \<Rightarrow> bool" where
  "same_member base cached current \<longleftrightarrow>
     same_type_ref base (cm_type cached) (mm_type current) \<and> cm_access cached = mm_access current \<and>
     cm_construction cached = mm_construction current \<and> cm_name cached = mm_name current"

definition same_enum_value :: "contribution_enum_value \<Rightarrow> source_enum_value_fact \<Rightarrow> bool" where
  "same_enum_value cached current \<longleftrightarrow>
     ce_intrinsic cached = vf_intrinsic current \<and> ce_value_bits cached = vf_bits current \<and>
     ce_name cached = vf_name current"

definition same_object :: "nat \<Rightarrow> contribution_object \<Rightarrow> source_object_fact \<Rightarrow> bool" where
  "same_object base cached current \<longleftrightarrow>
     co_identity cached = ob_identity current \<and> co_flags cached = ob_construction_flags current \<and>
     same_type_ref base (co_type cached) (ob_type current)"

definition same_link :: "contribution_link \<Rightarrow> source_link_fact \<Rightarrow> bool" where
  "same_link cached current \<longleftrightarrow>
     oef_object (cl_source cached) = oef_object (lf_source current) \<and>
     oef_member (cl_source cached) = oef_member (lf_source current) \<and>
     oef_object (cl_target cached) = oef_object (lf_target current) \<and>
     oef_member (cl_target cached) = oef_member (lf_target current)"

definition same_record :: "contribution_state \<Rightarrow> contribution_type \<Rightarrow> source_record_fact \<Rightarrow> bool" where
  "same_record st cached current \<longleftrightarrow>
     cy_identity cached = rf_identity current \<and> cy_kind cached = contributed_record \<and>
     cy_record_kind cached = rf_record_kind current \<and>
     type_definition cached = (rf_declaration_kind current = 1) \<and>
     same_range (fr_begin (cs_members st)) (cy_items cached) (rf_members current)"

definition same_enum :: "contribution_state \<Rightarrow> contribution_type \<Rightarrow> source_enum_fact \<Rightarrow> bool" where
  "same_enum st cached current \<longleftrightarrow>
     cy_identity cached = ef_identity current \<and> cy_kind cached = contributed_enumeration \<and>
     cy_underlying cached = ef_explicit_underlying current \<and> type_enum_scoped cached = ef_scoped current \<and>
     type_definition cached = (ef_declaration_kind current = 1) \<and>
     same_range (fr_begin (cs_enum_values st)) (cy_items cached) (ef_enumerators current)"

text \<open>
  \<^verbatim>\<open>compare_record\<close> and \<^verbatim>\<open>compare_enum\<close> take the next retained type; the retained types that are left stand for
  \<^verbatim>\<open>type_position\<close>, and nothing for a difference.
\<close>

definition take_type :: "(contribution_type \<Rightarrow> bool) \<Rightarrow> contribution_type list \<Rightarrow> contribution_type list option" where
  "take_type same cached = (case cached of [] \<Rightarrow> None | t # rest \<Rightarrow> if same t then Some rest else None)"

fun match_declarations ::
  "source_facts \<Rightarrow> contribution_state \<Rightarrow> contribution_type list \<Rightarrow> source_declaration_ref list \<Rightarrow>
    contribution_type list option" where
  "match_declarations facts st cached [] = Some cached"
| "match_declarations facts st cached (d # ds) =
     (case
        (if dr_kind d = 1
         then (if length (sf_records facts) \<le> dr_index d then None
               else take_type (\<lambda>t. same_record st t (sf_records facts ! dr_index d)) cached)
         else if dr_kind d = 2
         then (if length (sf_enums facts) \<le> dr_index d then None
               else take_type (\<lambda>t. same_enum st t (sf_enums facts ! dr_index d)) cached)
         else if dr_kind d = 3 \<and> length (sf_objects facts) \<le> dr_index d then None
         else if dr_kind d = 4 \<and> length (sf_links facts) \<le> dr_index d then None
         else Some cached)
      of None \<Rightarrow> None | Some rest \<Rightarrow> match_declarations facts st rest ds)"

fun match_types :: "('a \<Rightarrow> contribution_type \<Rightarrow> bool) \<Rightarrow> contribution_type list \<Rightarrow> 'a list \<Rightarrow> contribution_type list option" where
  "match_types same cached [] = Some cached"
| "match_types same cached (x # xs) =
     (case take_type (same x) cached of None \<Rightarrow> None | Some rest \<Rightarrow> match_types same rest xs)"

definition match_facts ::
  "source_facts \<Rightarrow> contribution_state \<Rightarrow> contribution_type list \<Rightarrow> contribution_type list option" where
  "match_facts facts st cached =
     (if sf_declarations facts \<noteq> [] then match_declarations facts st cached (sf_declarations facts)
      else case match_types (\<lambda>x t. same_record st t x) cached (sf_records facts) of
          None \<Rightarrow> None
        | Some rest \<Rightarrow> match_types (\<lambda>x t. same_enum st t x) rest (sf_enums facts))"

definition equivalent :: "contribution_cache \<Rightarrow> source_facts \<Rightarrow> bool" where
  "equivalent c facts =
     (case cache_state c (sf_source facts) of
        None \<Rightarrow> False
      | Some st \<Rightarrow>
          let members = cache_members c (cs_members st); modifiers = cache_modifiers c (cs_modifiers st);
              enum_values = cache_enum_values c (cs_enum_values st); objects = cache_objects c (sf_source facts);
              links = cache_links c (sf_source facts); base = fr_begin (cs_modifiers st) in
          length members = length (sf_members facts) \<and> length modifiers = length (sf_modifiers facts) \<and>
          length enum_values = length (sf_enum_values facts) \<and> length objects = length (sf_objects facts) \<and>
          length links = length (sf_links facts) \<and>
          list_all2 same_modifier modifiers (sf_modifiers facts) \<and>
          list_all2 (same_member base) members (sf_members facts) \<and>
          list_all2 same_enum_value enum_values (sf_enum_values facts) \<and>
          list_all2 (same_object base) objects (sf_objects facts) \<and>
          list_all2 same_link links (sf_links facts) \<and>
          match_facts facts st (cache_types c (sf_source facts)) = Some [])"

end
