(* ===== verification/Contribution_Content.thy ===== *)
theory Contribution_Content
  imports Contribution_Cache
begin

text \<open>
  What a contribution means, apart from where its parts lie in the shared arrays: the types, members, modifiers,
  enumerators, objects and links of one Source with ranges that begin at 0. The same abstraction is taken of the
  retained arrays and of source facts; the semantic filter decides exactly whether the two agree.
\<close>

section \<open>Contents\<close>

datatype type_content =
    Record_content u32 nat bool "source_fact_range option"
  | Enum_content u32 nat bool bool "source_fact_range option"

type_synonym type_ref_content = "u32 \<times> nat \<times> source_fact_range option"

record source_content =
  kc_types :: "type_content list"
  kc_members :: "(type_ref_content \<times> u32 \<times> nat \<times> construction_value) list"
  kc_modifiers :: "source_type_modifier list"
  kc_enum_values :: "(u32 \<times> nat \<times> u64) list"
  kc_objects :: "(u32 \<times> type_ref_content \<times> nat) list"
  kc_links :: "(source_object_endpoint_fact \<times> source_object_endpoint_fact) list"

definition shifted :: "nat \<Rightarrow> source_fact_range \<Rightarrow> source_fact_range option" where
  "shifted base r =
     (if fr_begin r < base then None else Some \<lparr>fr_begin = fr_begin r - base, fr_count = fr_count r\<rparr>)"

definition type_ref_content :: "nat \<Rightarrow> contribution_type_ref \<Rightarrow> type_ref_content" where
  "type_ref_content base t = (cr_identity t, cr_intrinsic t, shifted base (cr_modifiers t))"

definition member_content :: "nat \<Rightarrow> contribution_member \<Rightarrow> type_ref_content \<times> u32 \<times> nat \<times> construction_value" where
  "member_content base m = (type_ref_content base (cm_type m), cm_name m, cm_access m, cm_construction m)"

definition object_content :: "nat \<Rightarrow> contribution_object \<Rightarrow> u32 \<times> type_ref_content \<times> nat" where
  "object_content base x = (co_identity x, type_ref_content base (co_type x), co_flags x)"

definition enum_value_content :: "contribution_enum_value \<Rightarrow> u32 \<times> nat \<times> u64" where
  "enum_value_content v = (ce_name v, ce_intrinsic v, ce_value_bits v)"

definition link_content :: "contribution_link \<Rightarrow> source_object_endpoint_fact \<times> source_object_endpoint_fact" where
  "link_content l = (cl_source l, cl_target l)"

definition type_content_of :: "nat \<Rightarrow> nat \<Rightarrow> contribution_type \<Rightarrow> type_content" where
  "type_content_of member_base enum_base t =
     (case cy_kind t of
        contributed_record \<Rightarrow>
          Record_content (cy_identity t) (cy_record_kind t) (type_definition t) (shifted member_base (cy_items t))
      | contributed_enumeration \<Rightarrow>
          Enum_content (cy_identity t) (cy_underlying t) (type_enum_scoped t) (type_definition t)
            (shifted enum_base (cy_items t)))"

definition state_content :: "contribution_storage \<Rightarrow> contribution_state \<Rightarrow> source_content" where
  "state_content st v =
     (let base = fr_begin (cs_modifiers v) in
      \<lparr>kc_types = map (type_content_of (fr_begin (cs_members v)) (fr_begin (cs_enum_values v)))
         (checked_span (so_types st) (cs_types v)),
       kc_members = map (member_content base) (checked_span (so_members st) (cs_members v)),
       kc_modifiers = checked_span (so_modifiers st) (cs_modifiers v),
       kc_enum_values = map enum_value_content (checked_span (so_enum_values st) (cs_enum_values v)),
       kc_objects = map (object_content base) (checked_span (so_objects st) (cs_objects v)),
       kc_links = map link_content (checked_span (so_links st) (cs_links v))\<rparr>)"

definition storage_content :: "contribution_storage \<Rightarrow> nat \<Rightarrow> source_content option" where
  "storage_content st source = map_option (state_content st) (storage_state st source)"

definition cache_content :: "contribution_cache \<Rightarrow> nat \<Rightarrow> source_content option" where
  "cache_content c = storage_content (cc_committed c)"

text \<open>The same of source facts.\<close>

definition type_ref_fact :: "source_type_ref \<Rightarrow> type_ref_content" where
  "type_ref_fact t = (ty_identity t, ty_intrinsic t, Some (ty_modifiers t))"

definition record_fact :: "source_record_fact \<Rightarrow> type_content" where
  "record_fact x = Record_content (rf_identity x) (rf_record_kind x) (rf_declaration_kind x = 1) (Some (rf_members x))"

definition enum_fact :: "source_enum_fact \<Rightarrow> type_content" where
  "enum_fact x = Enum_content (ef_identity x) (ef_explicit_underlying x) (ef_scoped x) (ef_declaration_kind x = 1)
     (Some (ef_enumerators x))"

definition declared_types :: "source_facts \<Rightarrow> source_declaration_ref \<Rightarrow> type_content list" where
  "declared_types facts d =
     (if dr_kind d = 1 then [record_fact (sf_records facts ! dr_index d)]
      else if dr_kind d = 2 then [enum_fact (sf_enums facts ! dr_index d)] else [])"

definition facts_types :: "source_facts \<Rightarrow> type_content list" where
  "facts_types facts =
     (if sf_declarations facts \<noteq> [] then concat (map (declared_types facts) (sf_declarations facts))
      else map record_fact (sf_records facts) @ map enum_fact (sf_enums facts))"

definition facts_content :: "source_facts \<Rightarrow> source_content" where
  "facts_content facts =
     \<lparr>kc_types = facts_types facts,
      kc_members = map (\<lambda>m. (type_ref_fact (mm_type m), mm_name m, mm_access m, mm_construction m)) (sf_members facts),
      kc_modifiers = sf_modifiers facts,
      kc_enum_values = map (\<lambda>v. (vf_name v, vf_intrinsic v, vf_bits v)) (sf_enum_values facts),
      kc_objects = map (\<lambda>x. (ob_identity x, type_ref_fact (ob_type x), ob_construction_flags x)) (sf_objects facts),
      kc_links = map (\<lambda>l. (lf_source l, lf_target l)) (sf_links facts)\<rparr>"

section \<open>The filter compares contents\<close>

lemma same_range_iff: "same_range base cached current \<longleftrightarrow> shifted base cached = Some current"
  by (cases current) (auto simp: same_range_def shifted_def)

lemma list_all2_maps: "list_all2 P xs ys \<longleftrightarrow> map f xs = map g ys"
  if "\<And>x y. P x y \<longleftrightarrow> f x = g y" for f :: "'a \<Rightarrow> 'c" and g :: "'b \<Rightarrow> 'c"
  by (simp add: that list_all2_conv_all_nth list_eq_iff_nth_eq) (metis nth_map)

lemma same_modifier_iff: "same_modifier x y \<longleftrightarrow> x = y"
  by (auto simp: same_modifier_def)

lemma same_type_ref_iff: "same_type_ref base x y \<longleftrightarrow> type_ref_content base x = type_ref_fact y"
  by (auto simp: same_type_ref_def type_ref_content_def type_ref_fact_def same_range_iff)

lemma same_member_iff:
  "same_member base x y \<longleftrightarrow>
     member_content base x = (type_ref_fact (mm_type y), mm_name y, mm_access y, mm_construction y)"
  by (auto simp: same_member_def same_type_ref_iff member_content_def)

lemma same_enum_value_iff: "same_enum_value x y \<longleftrightarrow> enum_value_content x = (vf_name y, vf_intrinsic y, vf_bits y)"
  by (auto simp: same_enum_value_def enum_value_content_def)

lemma same_object_iff:
  "same_object base x y \<longleftrightarrow>
     object_content base x = (ob_identity y, type_ref_fact (ob_type y), ob_construction_flags y)"
  by (auto simp: same_object_def same_type_ref_iff object_content_def)

lemma same_link_iff: "same_link x y \<longleftrightarrow> link_content x = (lf_source y, lf_target y)"
  by (auto simp: same_link_def link_content_def)

abbreviation cached_type :: "contribution_state \<Rightarrow> contribution_type \<Rightarrow> type_content" where
  "cached_type v \<equiv> type_content_of (fr_begin (cs_members v)) (fr_begin (cs_enum_values v))"

lemma same_record_iff: "same_record v t x \<longleftrightarrow> cached_type v t = record_fact x"
  by (auto simp: same_record_def type_content_of_def record_fact_def same_range_iff
      split: contribution_type_kind.splits)

lemma same_enum_iff: "same_enum v t x \<longleftrightarrow> cached_type v t = enum_fact x"
  by (auto simp: same_enum_def type_content_of_def enum_fact_def same_range_iff
      split: contribution_type_kind.splits)

lemma take_type_iff:
  assumes "\<And>t. same t \<longleftrightarrow> f t = y"
  shows "take_type same cached = Some rest \<longleftrightarrow> (\<exists>t. cached = t # rest \<and> f t = y)"
proof (cases cached)
  case (Cons t ts)
  then show ?thesis using assms [of t] by (auto simp: take_type_def)
qed (simp add: take_type_def)

lemma split_first:
  "(\<exists>t pre. cached = t # pre @ rest \<and> f t = y \<and> map f pre = ys) \<longleftrightarrow>
   (\<exists>pre. cached = pre @ rest \<and> map f pre = y # ys)" (is "?L \<longleftrightarrow> ?R")
proof
  assume ?L
  then obtain t pre where "cached = t # pre @ rest" "f t = y" "map f pre = ys" by (elim exE conjE)
  then show ?R by (intro exI [of _ "t # pre"] conjI) simp_all
next
  assume ?R
  then obtain pre where "cached = pre @ rest" and "map f pre = y # ys" by (elim exE conjE)
  then obtain t pre' where "pre = t # pre'" "f t = y" "map f pre' = ys" by (metis map_eq_Cons_D)
  with \<open>cached = pre @ rest\<close> show ?L by (intro exI [of _ t] exI [of _ pre']) simp
qed

lemma match_types_iff:
  assumes "\<And>x t. same x t \<longleftrightarrow> f t = g x"
  shows "match_types same cached xs = Some rest \<longleftrightarrow> (\<exists>pre. cached = pre @ rest \<and> map f pre = map g xs)"
proof (induction xs arbitrary: cached)
  case (Cons x xs)
  have "match_types same cached (x # xs) = Some rest \<longleftrightarrow>
      (\<exists>mid. take_type (same x) cached = Some mid \<and> match_types same mid xs = Some rest)"
    by (simp split: option.splits)
  also have "\<dots> \<longleftrightarrow> (\<exists>t pre. cached = t # pre @ rest \<and> f t = g x \<and> map f pre = map g xs)"
    unfolding take_type_iff [of "same x" f, OF assms] Cons by blast
  also have "\<dots> \<longleftrightarrow> (\<exists>pre. cached = pre @ rest \<and> map f pre = map g (x # xs))"
    unfolding split_first by simp
  finally show ?case .
qed auto

definition indices_ok :: "source_facts \<Rightarrow> source_declaration_ref list \<Rightarrow> bool" where
  "indices_ok facts ds \<longleftrightarrow>
     (\<forall>d \<in> set ds. (dr_kind d = 1 \<longrightarrow> dr_index d < length (sf_records facts)) \<and>
        (dr_kind d = 2 \<longrightarrow> dr_index d < length (sf_enums facts)) \<and>
        (dr_kind d = 3 \<longrightarrow> dr_index d < length (sf_objects facts)) \<and>
        (dr_kind d = 4 \<longrightarrow> dr_index d < length (sf_links facts)))"

lemma match_declarations_iff:
  assumes "indices_ok facts ds"
  shows "match_declarations facts v cached ds = Some rest \<longleftrightarrow>
    (\<exists>pre. cached = pre @ rest \<and> map (cached_type v) pre = concat (map (declared_types facts) ds))"
  using assms
proof (induction ds arbitrary: cached)
  case (Cons d ds)
  then have IH: "match_declarations facts v mid ds = Some rest \<longleftrightarrow>
      (\<exists>pre. mid = pre @ rest \<and> map (cached_type v) pre = concat (map (declared_types facts) ds))" for mid
    by (simp add: indices_ok_def)
  have ok: "dr_kind d = 1 \<Longrightarrow> dr_index d < length (sf_records facts)"
    "dr_kind d = 2 \<Longrightarrow> dr_index d < length (sf_enums facts)"
    "dr_kind d = 3 \<Longrightarrow> dr_index d < length (sf_objects facts)"
    "dr_kind d = 4 \<Longrightarrow> dr_index d < length (sf_links facts)"
    using Cons.prems by (auto simp: indices_ok_def)
  have step: "(case take_type same cached of None \<Rightarrow> None | Some mid \<Rightarrow> match_declarations facts v mid ds) = Some rest \<longleftrightarrow>
      (\<exists>pre. cached = pre @ rest \<and> map (cached_type v) pre = y # concat (map (declared_types facts) ds))"
    if "\<And>t. same t \<longleftrightarrow> cached_type v t = y" for same y
  proof -
    have "(case take_type same cached of None \<Rightarrow> None | Some mid \<Rightarrow> match_declarations facts v mid ds) = Some rest \<longleftrightarrow>
        (\<exists>mid. take_type same cached = Some mid \<and> match_declarations facts v mid ds = Some rest)"
      by (simp split: option.splits)
    also have "\<dots> \<longleftrightarrow> (\<exists>t pre. cached = t # pre @ rest \<and> cached_type v t = y \<and>
        map (cached_type v) pre = concat (map (declared_types facts) ds))"
      unfolding take_type_iff [of same "cached_type v", OF that] IH by blast
    also have "\<dots> \<longleftrightarrow> (\<exists>pre. cached = pre @ rest \<and> map (cached_type v) pre = y # concat (map (declared_types facts) ds))"
      by (rule split_first)
    finally show ?thesis .
  qed
  consider "dr_kind d = 1" | "dr_kind d = 2" | "dr_kind d \<noteq> 1" "dr_kind d \<noteq> 2" by blast
  then show ?case
  proof cases
    case 1
    then have "declared_types facts d = [record_fact (sf_records facts ! dr_index d)]" by (simp add: declared_types_def)
    with 1 ok(1) step [OF same_record_iff] show ?thesis by (simp add: not_le [symmetric])
  next
    case 2
    then have "declared_types facts d = [enum_fact (sf_enums facts ! dr_index d)]" by (simp add: declared_types_def)
    with 2 ok(2) step [OF same_enum_iff] show ?thesis by (simp add: not_le [symmetric])
  next
    case 3
    then have "declared_types facts d = []" by (simp add: declared_types_def)
    with 3 ok(3,4) IH show ?thesis by (auto simp: not_le)
  qed
qed simp

lemma match_facts_iff:
  assumes "indices_ok facts (sf_declarations facts)"
  shows "match_facts facts v cached = Some [] \<longleftrightarrow> map (cached_type v) cached = facts_types facts"
proof (cases "sf_declarations facts = []")
  case False
  then show ?thesis using match_declarations_iff [OF assms, of v cached "[]"] by (simp add: match_facts_def facts_types_def)
next
  case True
  note recs = match_types_iff [of "\<lambda>x t. same_record v t x" "cached_type v" record_fact, OF same_record_iff]
  note ens = match_types_iff [of "\<lambda>x t. same_enum v t x" "cached_type v" enum_fact, OF same_enum_iff]
  have "match_facts facts v cached = Some [] \<longleftrightarrow>
      (\<exists>mid. match_types (\<lambda>x t. same_record v t x) cached (sf_records facts) = Some mid \<and>
         match_types (\<lambda>x t. same_enum v t x) mid (sf_enums facts) = Some [])"
    using True by (simp add: match_facts_def split: option.splits)
  also have "\<dots> \<longleftrightarrow> (\<exists>pre mid. cached = pre @ mid \<and> map (cached_type v) pre = map record_fact (sf_records facts) \<and>
      map (cached_type v) mid = map enum_fact (sf_enums facts))"
    unfolding recs ens by auto
  also have "\<dots> \<longleftrightarrow> map (cached_type v) cached = facts_types facts"
    by (simp add: facts_types_def True map_eq_append_conv) metis
  finally show ?thesis .
qed

lemma accepted_indices:
  assumes "facts_valid facts"
  shows "indices_ok facts (sf_declarations facts)"
proof (cases "sf_declarations facts = []")
  case False
  have kinds: "dr_index d < length (spans_of facts kind)"
    if "kind \<le> 5" "d \<in> set (sf_declarations facts)" "dr_kind d = kind" for d kind
  proof -
    have "references kind (sf_declarations facts) = enumerate 0 (spans_of facts kind)"
      using assms False that(1) by (simp add: facts_valid_def declarations_ok_def)
    moreover have "(dr_index d, dr_declaration d) \<in> set (references kind (sf_declarations facts))"
      using that(2,3) by (auto simp: references_def)
    ultimately show ?thesis by (auto simp: in_set_enumerate_eq)
  qed
  show ?thesis
    using kinds [of 1] kinds [of 2] kinds [of 3] kinds [of 4] by (auto simp: indices_ok_def spans_of_def)
qed (simp add: indices_ok_def)

lemma equivalent_content:
  assumes "facts_valid facts"
  shows "equivalent c facts \<longleftrightarrow> cache_content c (sf_source facts) = Some (facts_content facts)"
proof (cases "cache_state c (sf_source facts)")
  case None
  then show ?thesis by (simp add: equivalent_def cache_content_def storage_content_def cache_state_def)
next
  case (Some v)
  note maps = list_all2_maps [OF same_member_iff] list_all2_maps [OF same_enum_value_iff]
    list_all2_maps [OF same_object_iff] list_all2_maps [OF same_link_iff]
  have modifiers: "list_all2 same_modifier xs ys \<longleftrightarrow> xs = ys" for xs ys
    using list_all2_maps [of same_modifier "\<lambda>x. x" "\<lambda>x. x"] by (simp add: same_modifier_iff)
  have lens: "map f xs = map g ys \<Longrightarrow> length xs = length ys" for f :: "'x \<Rightarrow> 'z" and g :: "'y \<Rightarrow> 'z" and xs ys
    by (metis length_map)
  show ?thesis
    using Some match_facts_iff [OF accepted_indices [OF assms], of v]
    unfolding equivalent_def maps modifiers
    by (auto simp: Let_def cache_content_def storage_content_def cache_state_def state_content_def facts_content_def
        cache_types_def cache_members_def cache_modifiers_def cache_enum_values_def cache_objects_def cache_links_def
        dest: lens)
qed

end
