(* ===== verification/Patch_Index.thy ===== *)
theory Patch_Index
  imports Probe_Index
begin

text \<open>
  The open-addressing indexes of a sparse update of contributions, \<^verbatim>\<open>src/server_engine/project/builder/source_contribution.cpp\<close>:
  from the number of a Source or a type to the position of its patch. The loops are those of the Graph's indexes
  (theory \<^theory_text>\<open>Probe_Index\<close>); a slot holds its key, and 0 marks an empty one.
\<close>

section \<open>Definitions\<close>

record patch_slot =
  ps_key :: nat
  ps_position :: nat

text \<open>\<^verbatim>\<open>std::bit_ceil\<close>: the least power of two that is not less.\<close>

function ceil_from :: "nat \<Rightarrow> nat \<Rightarrow> nat" where
  "ceil_from p n = (if p < n \<and> 0 < p then ceil_from (2 * p) n else p)"
  by pat_completeness auto
termination
  by (relation "measure (\<lambda>(p, n). n - p)") auto

declare ceil_from.simps [simp del]

definition bit_ceil :: "nat \<Rightarrow> nat" where
  "bit_ceil n = ceil_from 1 n"

definition patch_capacity :: "nat \<Rightarrow> nat" where
  "patch_capacity count =
     (if count = 0 then 0
      else if u64_max div 2 < count then 0
      else let minimum = count * 2 in bit_ceil (if minimum < 8 then 8 else minimum))"

definition patch_hash :: "nat \<Rightarrow> u64" where
  "patch_hash v =
     (let mixed = of_nat v * 0x9e3779b97f4a7c15; mixed = mixed XOR drop_bit 29 mixed;
          mixed = mixed * 0xbf58476d1ce4e5b9
      in mixed XOR drop_bit 32 mixed)"

definition empty_slots :: "nat \<Rightarrow> patch_slot list" where
  "empty_slots n = replicate n \<lparr>ps_key = 0, ps_position = 0\<rparr>"

text \<open>The position of the patch of a key, below the number of patches.\<close>

definition patch_find :: "patch_slot list \<Rightarrow> nat \<Rightarrow> nat \<Rightarrow> nat option" where
  "patch_find slots patches key =
     (if key = 0 \<or> slots = [] then None
      else case probe (length slots) (\<lambda>s. ps_key s = 0 \<or> ps_key s = key) slots (index_home slots (patch_hash key)) of
          None \<Rightarrow> None
        | Some q \<Rightarrow>
            if ps_key (slots ! q) = 0 then None
            else let index = ps_position (slots ! q) - 1 in if index < patches then Some index else None)"

text \<open>The loop of the two insertions: the first empty slot takes the key and the position of the new patch.\<close>

definition patch_insert :: "patch_slot list \<Rightarrow> nat \<Rightarrow> nat \<Rightarrow> patch_slot list option" where
  "patch_insert slots patches key =
     (case probe (length slots) (\<lambda>s. ps_key s = 0) slots (index_home slots (patch_hash key)) of
        None \<Rightarrow> None
      | Some q \<Rightarrow> Some (slots[q := \<lparr>ps_key = key, ps_position = Suc patches\<rparr>]))"

section \<open>Exact lookup\<close>

lemma ceil_from_power: "\<exists>k. ceil_from (2 ^ j) n = 2 ^ k"
proof (induction "n - 2 ^ j" arbitrary: j rule: less_induct)
  case less
  show ?case
  proof (cases "2 ^ j < n")
    case True
    then have "n - 2 ^ Suc j < n - 2 ^ j" by (simp add: diff_less_mono2)
    from less [OF this] True show ?thesis by (simp add: ceil_from.simps [of "2 ^ j"])
  qed (use ceil_from.simps [of "2 ^ j" n] in auto)
qed

lemma patch_capacity_power: "patch_capacity count \<noteq> 0 \<Longrightarrow> power_of_two (patch_capacity count)"
  using ceil_from_power [of 0]
  by (cases "count = 0"; cases "u64_max div 2 < count")
    (simp_all add: patch_capacity_def Let_def bit_ceil_def power_of_two_def)

definition patch_led :: "patch_slot list \<Rightarrow> nat \<Rightarrow> nat \<Rightarrow> bool" where
  "patch_led slots key p \<longleftrightarrow>
     (\<exists>d < length slots. p = (index_home slots (patch_hash key) + d) mod length slots \<and>
        (\<forall>i < d. ps_key (seen slots (index_home slots (patch_hash key)) i) \<noteq> 0))"

definition patch_inv :: "patch_slot list \<Rightarrow> nat list \<Rightarrow> bool" where
  "patch_inv slots keys \<longleftrightarrow> distinct keys \<and> 0 \<notin> set keys \<and> (slots = [] \<longrightarrow> keys = []) \<and>
     (slots \<noteq> [] \<longrightarrow> power_of_two (length slots)) \<and>
     (\<forall>p < length slots. ps_key (slots ! p) \<noteq> 0 \<longrightarrow>
        0 < ps_position (slots ! p) \<and> ps_position (slots ! p) \<le> length keys \<and>
        keys ! (ps_position (slots ! p) - 1) = ps_key (slots ! p)) \<and>
     (\<forall>key \<in> set keys. \<exists>p < length slots. ps_key (slots ! p) = key \<and> patch_led slots key p)"

lemma patch_inv_empty: "n = 0 \<or> power_of_two n \<Longrightarrow> patch_inv (empty_slots n) []"
  by (auto simp: patch_inv_def empty_slots_def)

lemma patch_inv_slot:
  assumes "patch_inv slots keys" "p < length slots" "ps_key (slots ! p) \<noteq> 0"
  shows "ps_position (slots ! p) - 1 < length keys" "keys ! (ps_position (slots ! p) - 1) = ps_key (slots ! p)"
    "ps_key (slots ! p) \<in> set keys"
proof -
  show less: "ps_position (slots ! p) - 1 < length keys" and eq: "keys ! (ps_position (slots ! p) - 1) = ps_key (slots ! p)"
    using assms unfolding patch_inv_def by fastforce+
  show "ps_key (slots ! p) \<in> set keys" using nth_mem [OF less] eq by simp
qed

lemma patch_find_absent:
  assumes inv: "patch_inv slots keys" and key: "key \<notin> set keys"
  shows "patch_find slots n key = None"
proof (cases "key = 0 \<or> slots = []")
  case False
  let ?stop = "\<lambda>s. ps_key s = 0 \<or> ps_key s = key" and ?home = "index_home slots (patch_hash key)"
  have pow: "power_of_two (length slots)" using inv False by (simp add: patch_inv_def)
  have home: "?home < length slots" using False by (simp add: index_positions(1) [OF pow])
  show ?thesis
  proof (cases "probe (length slots) ?stop slots ?home")
    case (Some q)
    with probe_first [OF pow home, of "length slots" ?stop]
    obtain j where q: "q = (?home + j) mod length slots" "?stop (slots ! q)" by auto
    then have "q < length slots" using False by simp
    then have "ps_key (slots ! q) = 0" using patch_inv_slot(3) [OF inv] q(2) key by metis
    then show ?thesis using Some by (simp add: patch_find_def)
  qed (simp add: patch_find_def)
qed (auto simp: patch_find_def)

lemma patch_find_present:
  assumes inv: "patch_inv slots keys" and i: "i < length keys"
  shows "patch_find slots (length keys) (keys ! i) = Some i"
proof -
  let ?key = "keys ! i"
  let ?stop = "\<lambda>s. ps_key s = 0 \<or> ps_key s = ?key" and ?home = "index_home slots (patch_hash ?key)"
  have nz: "?key \<noteq> 0" using inv i unfolding patch_inv_def by (metis nth_mem)
  have ne: "slots \<noteq> []" using inv i by (auto simp: patch_inv_def)
  have pow: "power_of_two (length slots)" using inv ne by (simp add: patch_inv_def)
  have home: "?home < length slots" using ne by (simp add: index_positions(1) [OF pow])
  obtain p where p: "p < length slots" "ps_key (slots ! p) = ?key" "patch_led slots ?key p"
    using inv i unfolding patch_inv_def by (meson nth_mem)
  then obtain d where d: "d < length slots" "p = (?home + d) mod length slots"
    "\<forall>i < d. ps_key (seen slots ?home i) \<noteq> 0" unfolding patch_led_def by blast
  have hit: "?stop (seen slots ?home d)" using p(2) d(2) by (simp add: seen_def)
  note first = probe_first [OF pow home, of "length slots" ?stop]
  have "probe (length slots) ?stop slots ?home \<noteq> None" using first hit d(1) by (auto split: option.splits)
  then obtain q j where q: "probe (length slots) ?stop slots ?home = Some q" "q = (?home + j) mod length slots"
    "?stop (slots ! q)" "\<forall>i < j. \<not> ?stop (seen slots ?home i)" using first by auto
  have "j \<le> d" using q(4) hit not_le by blast
  have q_less: "q < length slots" using q(2) ne by simp
  have found: "ps_key (slots ! q) = ?key"
  proof (cases "j = d")
    case False
    then have "ps_key (slots ! q) \<noteq> 0" using \<open>j \<le> d\<close> d(3) q(2) by (simp add: seen_def)
    then show ?thesis using q(3) by simp
  qed (use q(2) d(2) p(2) in simp)
  then have pos: "ps_position (slots ! q) - 1 < length keys" "keys ! (ps_position (slots ! q) - 1) = ?key"
    using patch_inv_slot [OF inv q_less] nz by simp_all
  then have "ps_position (slots ! q) - 1 = i"
    using inv i unfolding patch_inv_def by (metis nth_eq_iff_index_eq)
  then show ?thesis using q(1) found nz ne i by (simp add: patch_find_def)
qed

lemma patch_insert_inv:
  assumes inv: "patch_inv slots keys" and key: "key \<notin> set keys" "key \<noteq> 0"
    and slots': "patch_insert slots (length keys) key = Some slots'"
  shows "patch_inv slots' (keys @ [key])"
proof -
  let ?stop = "\<lambda>s. ps_key s = 0" and ?home = "index_home slots (patch_hash key)"
  have ne: "slots \<noteq> []" using slots' by (auto simp: patch_insert_def)
  have pow: "power_of_two (length slots)" using inv ne by (simp add: patch_inv_def)
  have home: "?home < length slots" using ne by (simp add: index_positions(1) [OF pow])
  obtain q where q: "probe (length slots) ?stop slots ?home = Some q"
    and slots'_eq: "slots' = slots[q := \<lparr>ps_key = key, ps_position = Suc (length keys)\<rparr>]"
    using slots' by (auto simp: patch_insert_def split: option.splits)
  then obtain j where j: "j < length slots" "q = (?home + j) mod length slots" "ps_key (slots ! q) = 0"
    "\<forall>i < j. ps_key (seen slots ?home i) \<noteq> 0"
    using probe_first [OF pow home, of "length slots" ?stop] by auto
  have q_less: "q < length slots" using j(2) ne by simp
  have nonzero: "ps_key (seen slots' k i) \<noteq> 0" if "ps_key (seen slots k i) \<noteq> 0" for k i
    using that key(2) q_less by (cases "q = (k + i) mod length slots") (auto simp: seen_def slots'_eq)
  have len: "length slots' = length slots" by (simp add: slots'_eq)
  have led: "patch_led slots' k p" if "patch_led slots k p" for k p
    using that nonzero unfolding patch_led_def index_home_def len by blast
  have new: "patch_led slots' key q"
    using j nonzero unfolding patch_led_def index_home_def len by blast
  have entry: "0 < ps_position (slots' ! p) \<and> ps_position (slots' ! p) \<le> length (keys @ [key]) \<and>
      (keys @ [key]) ! (ps_position (slots' ! p) - 1) = ps_key (slots' ! p)"
    if "p < length slots'" "ps_key (slots' ! p) \<noteq> 0" for p
  proof (cases "p = q")
    case False
    then have same: "slots' ! p = slots ! p" by (simp add: slots'_eq)
    have "0 < ps_position (slots ! p)" "ps_position (slots ! p) \<le> length keys"
      using inv that same len unfolding patch_inv_def by simp_all
    then show ?thesis using patch_inv_slot [OF inv, of p] that same len by (simp add: nth_append)
  qed (use q_less in \<open>simp add: slots'_eq\<close>)
  have found: "\<exists>p < length slots'. ps_key (slots' ! p) = k \<and> patch_led slots' k p" if k: "k \<in> set (keys @ [key])" for k
  proof (cases "k = key")
    case True
    then show ?thesis using new q_less len by (intro exI [of _ q]) (simp add: slots'_eq)
  next
    case False
    then have "k \<in> set keys" using k by simp
    then obtain p where p: "p < length slots" "ps_key (slots ! p) = k" "patch_led slots k p"
      using inv unfolding patch_inv_def by blast
    have "p \<noteq> q" using p(2) j(3) inv \<open>k \<in> set keys\<close> unfolding patch_inv_def by metis
    then show ?thesis using p led len by (intro exI [of _ p]) (simp add: slots'_eq)
  qed
  show ?thesis
    unfolding patch_inv_def using inv key entry found pow len ne by (auto simp: patch_inv_def)
qed

end
