(* ===== verification/Contribution_Update.thy ===== *)
theory Contribution_Update
  imports Contribution_Content Patch_Index
begin

text \<open>
  The two updates of the contributions, \<^verbatim>\<open>source_contribution_cache_update\<close> (a full rebuild) and
  \<^verbatim>\<open>source_contribution_sparse_update\<close> (the changed Sources only) of
  \<^verbatim>\<open>src/server_engine/project/builder/source_contribution.cpp\<close>. Failed allocations are not modelled; the capacity
  that the committed arrays have reserved is an argument of the preparation of a sparse update.
\<close>

section \<open>Steps on the candidate storage\<close>

definition resize_list :: "nat \<Rightarrow> 'a \<Rightarrow> 'a list \<Rightarrow> 'a list" where
  "resize_list n d xs = take n xs @ replicate (n - length xs) d"

text \<open>A step returns a status; a failure keeps what was appended before it.\<close>

definition and_do :: "status_code \<times> 's \<Rightarrow> ('s \<Rightarrow> status_code \<times> 's) \<Rightarrow> status_code \<times> 's" where
  "and_do r f = (if fst r = st_ok then f (snd r) else r)"

fun append_each :: "('a \<Rightarrow> 's \<Rightarrow> status_code \<times> 's) \<Rightarrow> 'a list \<Rightarrow> 's \<Rightarrow> status_code \<times> 's" where
  "append_each f [] st = (st_ok, st)"
| "append_each f (x # xs) st = and_do (f x st) (append_each f xs)"

definition capture_type_ref :: "nat \<Rightarrow> source_type_ref \<Rightarrow> contribution_type_ref" where
  "capture_type_ref first t =
     \<lparr>cr_identity = ty_identity t, cr_modifiers = \<lparr>fr_begin = first, fr_count = fr_count (ty_modifiers t)\<rparr>,
      cr_intrinsic = ty_intrinsic t\<rparr>"

text \<open>\<open>locate\<close> gives the index in the shared array of an index that is relative to the Source.\<close>

definition append_member ::
  "(nat \<Rightarrow> nat option) \<Rightarrow> source_member_fact \<Rightarrow> contribution_storage \<Rightarrow> status_code \<times> contribution_storage" where
  "append_member locate item st =
     (case locate (fr_begin (ty_modifiers (mm_type item))) of
        None \<Rightarrow> (st_not_available, st)
      | Some b \<Rightarrow> (st_ok, st\<lparr>so_members := so_members st @
          [\<lparr>cm_type = capture_type_ref b (mm_type item), cm_name = mm_name item, cm_access = mm_access item,
            cm_construction = mm_construction item\<rparr>]\<rparr>))"

definition append_object ::
  "(nat \<Rightarrow> nat option) \<Rightarrow> source_object_fact \<Rightarrow> contribution_storage \<Rightarrow> status_code \<times> contribution_storage" where
  "append_object locate item st =
     (case locate (fr_begin (ty_modifiers (ob_type item))) of
        None \<Rightarrow> (st_not_available, st)
      | Some b \<Rightarrow> (st_ok, st\<lparr>so_objects := so_objects st @
          [\<lparr>co_identity = ob_identity item, co_type = capture_type_ref b (ob_type item),
            co_flags = ob_construction_flags item\<rparr>]\<rparr>))"

definition append_modifiers :: "source_facts \<Rightarrow> contribution_storage \<Rightarrow> status_code \<times> contribution_storage" where
  "append_modifiers facts st = (st_ok, st\<lparr>so_modifiers := so_modifiers st @ sf_modifiers facts\<rparr>)"

definition append_enum_values :: "source_facts \<Rightarrow> contribution_storage \<Rightarrow> status_code \<times> contribution_storage" where
  "append_enum_values facts st =
     (st_ok, st\<lparr>so_enum_values := so_enum_values st @
        map (\<lambda>v. \<lparr>ce_name = vf_name v, ce_intrinsic = vf_intrinsic v, ce_value_bits = vf_bits v\<rparr>)
          (sf_enum_values facts)\<rparr>)"

definition append_links :: "source_facts \<Rightarrow> contribution_storage \<Rightarrow> status_code \<times> contribution_storage" where
  "append_links facts st =
     (st_ok, st\<lparr>so_links := so_links st @
        map (\<lambda>l. \<lparr>cl_source = lf_source l, cl_target = lf_target l\<rparr>) (sf_links facts)\<rparr>)"

definition append_payload ::
  "(nat \<Rightarrow> nat option) \<Rightarrow> source_facts \<Rightarrow> contribution_storage \<Rightarrow> status_code \<times> contribution_storage" where
  "append_payload locate facts st =
     and_do (append_modifiers facts st)
     (\<lambda>st. and_do (append_each (append_member locate) (sf_members facts) st)
     (\<lambda>st. and_do (append_enum_values facts st)
     (\<lambda>st. and_do (append_each (append_object locate) (sf_objects facts) st)
     (\<lambda>st. append_links facts st))))"

definition append_record ::
  "(nat \<Rightarrow> nat option) \<Rightarrow> source_facts \<Rightarrow> nat \<Rightarrow> contribution_storage \<Rightarrow> status_code \<times> contribution_storage" where
  "append_record locate facts index st =
     (if length (sf_records facts) \<le> index then (st_invalid_argument, st)
      else let item = sf_records facts ! index in
        case locate (fr_begin (rf_members item)) of
          None \<Rightarrow> (st_not_available, st)
        | Some b \<Rightarrow> (st_ok, st\<lparr>so_types := so_types st @
            [\<lparr>cy_identity = rf_identity item, cy_items = \<lparr>fr_begin = b, fr_count = fr_count (rf_members item)\<rparr>,
              cy_underlying = 0, cy_record_kind = rf_record_kind item, cy_kind = contributed_record,
              cy_flags = (if rf_declaration_kind item = 1 then 1 else 0)\<rparr>]\<rparr>))"

definition append_enum ::
  "(nat \<Rightarrow> nat option) \<Rightarrow> source_facts \<Rightarrow> nat \<Rightarrow> contribution_storage \<Rightarrow> status_code \<times> contribution_storage" where
  "append_enum locate facts index st =
     (if length (sf_enums facts) \<le> index then (st_invalid_argument, st)
      else let item = sf_enums facts ! index;
          flags = (if ef_declaration_kind item = 1 then 1 else 0);
          flags = (if ef_scoped item then flags OR 2 else flags) in
        case locate (fr_begin (ef_enumerators item)) of
          None \<Rightarrow> (st_not_available, st)
        | Some b \<Rightarrow> (st_ok, st\<lparr>so_types := so_types st @
            [\<lparr>cy_identity = ef_identity item, cy_items = \<lparr>fr_begin = b, fr_count = fr_count (ef_enumerators item)\<rparr>,
              cy_underlying = ef_explicit_underlying item, cy_record_kind = 0, cy_kind = contributed_enumeration,
              cy_flags = flags\<rparr>]\<rparr>))"

definition append_declaration ::
  "(nat \<Rightarrow> nat option) \<Rightarrow> (nat \<Rightarrow> nat option) \<Rightarrow> source_facts \<Rightarrow> source_declaration_ref \<Rightarrow> contribution_storage \<Rightarrow>
    status_code \<times> contribution_storage" where
  "append_declaration locate_member locate_enum facts d st =
     (if dr_kind d = 1 then append_record locate_member facts (dr_index d) st
      else if dr_kind d = 2 then append_enum locate_enum facts (dr_index d) st
      else if dr_kind d = 3
      then ((if dr_index d < length (sf_objects facts) then st_ok else st_invalid_argument), st)
      else if dr_kind d = 4
      then ((if dr_index d < length (sf_links facts) then st_ok else st_invalid_argument), st)
      else (st_ok, st))"

definition append_types ::
  "(nat \<Rightarrow> nat option) \<Rightarrow> (nat \<Rightarrow> nat option) \<Rightarrow> source_facts \<Rightarrow> contribution_storage \<Rightarrow>
    status_code \<times> contribution_storage" where
  "append_types locate_member locate_enum facts st =
     (if sf_declarations facts \<noteq> []
      then append_each (append_declaration locate_member locate_enum facts) (sf_declarations facts) st
      else and_do (append_each (append_record locate_member facts) [0..<length (sf_records facts)] st)
        (append_each (append_enum locate_enum facts) [0..<length (sf_enums facts)]))"

section \<open>What both updates check first\<close>

definition inheritance_detail :: string where
  "inheritance_detail = ''record has base classes: inheritance is not supported by ABI/layout''"

definition replace_gate ::
  "source_facts \<Rightarrow> nat \<Rightarrow> diagnostic_buffer \<Rightarrow> status_code \<times> diagnostic_buffer" where
  "replace_gate facts operation out =
     (case validate_source_facts facts of (st, validation) \<Rightarrow>
        if st \<noteq> st_ok then (st, emit_source_facts_validation_diagnostic facts validation operation out)
        else case find (\<lambda>r. fr_count (rf_bases r) \<noteq> 0) (sf_records facts) of
            None \<Rightarrow> (st_ok, out)
          | Some r \<Rightarrow> (st_not_available, buffer_emit out
              \<lparr>diag_id = desc_id generation_build_failed, diag_severity = desc_severity generation_build_failed,
               diag_operation = operation,
               diag_location = \<lparr>range_source = sf_source facts, range_offset = sp_offset (rf_declaration r),
                 range_length = sp_length (rf_declaration r)\<rparr>,
               diag_detail = inheritance_detail\<rparr>))"

section \<open>The full rebuild\<close>

record rebuild_update =
  ru_attached :: bool
  ru_candidate :: contribution_storage
  ru_replaced :: "nat list"
  ru_failure :: status_code
  ru_prepared :: bool
  ru_published :: bool

definition begin_rebuild :: rebuild_update where
  "begin_rebuild = \<lparr>ru_attached = True, ru_candidate = empty_storage, ru_replaced = [], ru_failure = st_ok,
     ru_prepared = False, ru_published = False\<rparr>"

definition rebuild_fail :: "status_code \<Rightarrow> rebuild_update \<Rightarrow> status_code \<times> rebuild_update" where
  "rebuild_fail st u = (st, u\<lparr>ru_failure := st\<rparr>)"

text \<open>\<open>counts\<close>: the type declarations, members, modifiers, enumerators, objects and links expected.\<close>

definition reserve_rebuild :: "nat \<Rightarrow> nat list \<Rightarrow> rebuild_update \<Rightarrow> status_code \<times> rebuild_update" where
  "reserve_rebuild max_source counts u =
     (if ru_failure u \<noteq> st_ok then (ru_failure u, u)
      else if \<not> ru_attached u \<or> ru_prepared u \<or> ru_published u \<or> so_sources (ru_candidate u) \<noteq> [] \<or> ru_replaced u \<noteq> []
      then (st_invalid_argument, u)
      else if u32_max \<le> max_source \<or> list_ex (\<lambda>n. u32_max \<le> n) counts then rebuild_fail st_not_available u
      else if list_ex (\<lambda>n. reserve_headroom_size n = None) ([Suc max_source, Suc max_source] @ counts @ [Suc (hd counts)])
      then (st_not_available, u)
      else (st_ok, u\<lparr>ru_candidate := (ru_candidate u)\<lparr>so_sources := resize_list (Suc max_source) no_state []\<rparr>,
        ru_replaced := resize_list (Suc max_source) 0 []\<rparr>))"

definition storage_sizes :: "contribution_storage \<Rightarrow> nat list" where
  "storage_sizes st = [length (so_types st), length (so_members st), length (so_modifiers st),
     length (so_enum_values st), length (so_objects st), length (so_links st)]"

text \<open>The state of a Source whose payload was appended to \<open>before\<close>, from the given begins on.\<close>

definition captured_state ::
  "nat \<Rightarrow> nat list \<Rightarrow> contribution_storage \<Rightarrow> contribution_storage \<Rightarrow> contribution_state" where
  "captured_state source begins before after =
     (let r = (\<lambda>i. \<lparr>fr_begin = begins ! i, fr_count = storage_sizes after ! i - storage_sizes before ! i\<rparr>) in
      \<lparr>cs_source = source, cs_types = r 0, cs_members = r 1, cs_modifiers = r 2, cs_enum_values = r 3,
       cs_objects = r 4, cs_links = r 5\<rparr>)"

definition counts_overflow :: "contribution_storage \<Rightarrow> contribution_storage \<Rightarrow> bool" where
  "counts_overflow before after \<longleftrightarrow>
     list_ex (\<lambda>(b, a). u32_max < a - b) (zip (storage_sizes before) (storage_sizes after))"

definition rebuild_statistics :: "contribution_storage \<Rightarrow> contribution_statistics" where
  "rebuild_statistics st =
     \<lparr>sn_sources = Suc (sn_sources (so_statistics st)), sn_type_declarations = length (so_types st),
      sn_members = length (so_members st), sn_modifiers = length (so_modifiers st),
      sn_enum_values = length (so_enum_values st), sn_objects = length (so_objects st),
      sn_links = length (so_links st)\<rparr>"

definition rebuild_grown :: "nat \<Rightarrow> rebuild_update \<Rightarrow> rebuild_update" where
  "rebuild_grown index u =
     (if length (so_sources (ru_candidate u)) \<le> index
      then u\<lparr>ru_candidate := (ru_candidate u)\<lparr>so_sources := resize_list (Suc index) no_state (so_sources (ru_candidate u))\<rparr>,
             ru_replaced := resize_list (Suc index) 0 (ru_replaced u)\<rparr>
      else u)"

definition rebuild_capture :: "source_facts \<Rightarrow> rebuild_update \<Rightarrow> status_code \<times> rebuild_update" where
  "rebuild_capture facts u0 =
     (let index = sf_source facts; u = rebuild_grown index u0; before = ru_candidate u in
      if ru_replaced u ! index \<noteq> 0 then rebuild_fail st_invalid_argument u
      else if list_ex (\<lambda>n. u32_max < n) (storage_sizes before) then rebuild_fail st_not_available u
      else
        let r = and_do (append_payload (add_u32 (length (so_modifiers before))) facts before)
              (append_types (add_u32 (length (so_members before))) (add_u32 (length (so_enum_values before))) facts);
            after = snd r in
        if fst r \<noteq> st_ok then rebuild_fail (fst r) (u\<lparr>ru_candidate := after\<rparr>)
        else if counts_overflow before after then rebuild_fail st_not_available (u\<lparr>ru_candidate := after\<rparr>)
        else (st_ok, u\<lparr>ru_candidate := after\<lparr>
                so_sources := (so_sources after)[index := captured_state index (storage_sizes before) before after],
                so_statistics := rebuild_statistics after\<rparr>,
              ru_replaced := (ru_replaced u)[index := 1]\<rparr>))"

definition rebuild_replace ::
  "source_facts \<Rightarrow> nat \<Rightarrow> rebuild_update \<Rightarrow> diagnostic_buffer \<Rightarrow> status_code \<times> rebuild_update \<times> diagnostic_buffer" where
  "rebuild_replace facts operation u out =
     (if ru_failure u \<noteq> st_ok then (ru_failure u, u, out)
      else if \<not> ru_attached u \<or> ru_prepared u \<or> ru_published u \<or> sf_source facts = 0
      then (st_invalid_argument, u, out)
      else case replace_gate facts operation out of (st, reported) \<Rightarrow>
          if st \<noteq> st_ok then (st, u\<lparr>ru_failure := st\<rparr>, reported)
          else case rebuild_capture facts u of (st, u') \<Rightarrow> (st, u', reported))"

definition rebuild_prepare :: "rebuild_update \<Rightarrow> status_code \<times> rebuild_update" where
  "rebuild_prepare u =
     (if ru_failure u \<noteq> st_ok then (ru_failure u, u)
      else if \<not> ru_attached u \<or> ru_prepared u \<or> ru_published u then (st_invalid_argument, u)
      else (st_ok, u\<lparr>ru_prepared := True\<rparr>))"

definition rebuild_publish :: "rebuild_update \<Rightarrow> contribution_cache \<Rightarrow> rebuild_update \<times> contribution_cache" where
  "rebuild_publish u c =
     (if \<not> ru_attached u \<or> \<not> ru_prepared u \<or> ru_published u then (u, c)
      else (u\<lparr>ru_candidate := cc_committed c, ru_published := True\<rparr>,
        c\<lparr>cc_committed := ru_candidate u, cc_statistics := so_statistics (ru_candidate u), cc_complete := True,
          cc_absent := [], cc_read_status := st_ok\<rparr>))"

end
