(* ===== verification/Contribution_Sparse.thy ===== *)
theory Contribution_Sparse
  imports Contribution_Update
begin

text \<open>
  The sparse update of contributions: payload of the changed Sources is appended behind the committed arrays and
  their states, like the changed construction states, are patches that the publication writes.
\<close>

record source_patch =
  sp_source :: nat
  sp_state :: contribution_state
  sp_present :: bool

record construction_patch =
  cp_handle :: nat
  cp_state :: construction_state

record storage_capacity =
  sc_sources :: nat
  sc_construction :: nat
  sc_arrays :: "nat list"

record sparse_update =
  su_attached :: bool
  su_candidate :: contribution_storage
  su_source_patches :: "source_patch list"
  su_construction_patches :: "construction_patch list"
  su_source_index :: "patch_slot list"
  su_construction_index :: "patch_slot list"
  su_changed :: "nat list"
  su_statistics :: contribution_statistics
  su_source_size :: nat
  su_construction_size :: nat
  su_bases :: "nat list"
  su_failure :: status_code
  su_prepared :: bool
  su_published :: bool

text \<open>The bases are the sizes of the committed arrays of types, members, modifiers, enumerators, objects and links.\<close>

definition begin_incremental :: "contribution_cache \<Rightarrow> sparse_update" where
  "begin_incremental c =
     \<lparr>su_attached = True, su_candidate = empty_storage, su_source_patches = [], su_construction_patches = [],
      su_source_index = [], su_construction_index = [], su_changed = [], su_statistics = no_statistics,
      su_source_size = 0, su_construction_size = 0, su_bases = storage_sizes (cc_committed c),
      su_failure = st_ok, su_prepared = False, su_published = False\<rparr>"

definition sparse_fail :: "status_code \<Rightarrow> sparse_update \<Rightarrow> status_code \<times> sparse_update" where
  "sparse_fail st u = (st, u\<lparr>su_failure := st\<rparr>)"

text \<open>\<^verbatim>\<open>numeric_limits<uint32_t>::max() - base\<close> on \<^verbatim>\<open>size_t\<close>.\<close>

definition u32_left :: "nat \<Rightarrow> nat" where
  "u32_left base = (u32_max + 2 ^ 64 - base) mod 2 ^ 64"

definition reserve_incremental :: "nat \<Rightarrow> nat \<Rightarrow> nat list \<Rightarrow> sparse_update \<Rightarrow> status_code \<times> sparse_update" where
  "reserve_incremental source_changes touched counts u =
     (if su_failure u \<noteq> st_ok then (su_failure u, u)
      else if \<not> su_attached u \<or> su_prepared u \<or> su_published u \<or> su_source_patches u \<noteq> [] \<or>
        su_construction_patches u \<noteq> [] \<or> so_types (su_candidate u) \<noteq> []
      then (st_invalid_argument, u)
      else if list_ex (\<lambda>(n, base). u32_left base < n) (zip counts (su_bases u)) then sparse_fail st_not_available u
      else let source_capacity = patch_capacity source_changes; construction_capacity = patch_capacity touched in
        if source_changes \<noteq> 0 \<and> source_capacity = 0 \<or> touched \<noteq> 0 \<and> construction_capacity = 0
        then sparse_fail st_not_available u
        else (st_ok, u\<lparr>su_source_index := empty_slots source_capacity,
          su_construction_index := empty_slots construction_capacity\<rparr>))"

definition find_source_patch :: "sparse_update \<Rightarrow> nat \<Rightarrow> source_patch option" where
  "find_source_patch u source =
     map_option ((!) (su_source_patches u)) (patch_find (su_source_index u) (length (su_source_patches u)) source)"

definition find_construction_patch :: "sparse_update \<Rightarrow> nat \<Rightarrow> construction_patch option" where
  "find_construction_patch u handle =
     map_option ((!) (su_construction_patches u))
       (patch_find (su_construction_index u) (length (su_construction_patches u)) handle)"

text \<open>The new patch is the last one.\<close>

definition add_source_patch :: "nat \<Rightarrow> sparse_update \<Rightarrow> status_code \<times> sparse_update" where
  "add_source_patch source u =
     (if source = 0 \<or> su_source_index u = [] then (st_invalid_argument, u)
      else if find_source_patch u source \<noteq> None then (st_invalid_argument, u)
      else case patch_insert (su_source_index u) (length (su_source_patches u)) source of
          None \<Rightarrow> (st_not_available, u)
        | Some slots \<Rightarrow> (st_ok, u\<lparr>su_source_index := slots,
            su_source_patches := su_source_patches u @ [\<lparr>sp_source = source, sp_state = no_state, sp_present = False\<rparr>],
            su_changed := su_changed u @ [source]\<rparr>))"

text \<open>The position of the patch of a handle, an existing or a new one.\<close>

definition add_construction_patch :: "nat \<Rightarrow> sparse_update \<Rightarrow> (status_code \<times> nat) \<times> sparse_update" where
  "add_construction_patch handle u =
     (let patches = su_construction_patches u in
      if handle = 0 \<or> su_construction_index u = [] then ((st_invalid_argument, 0), u)
      else case patch_find (su_construction_index u) (length patches) handle of
          Some i \<Rightarrow> ((st_ok, i), u)
        | None \<Rightarrow>
            (case patch_insert (su_construction_index u) (length patches) handle of
               None \<Rightarrow> ((st_not_available, 0), u)
             | Some slots \<Rightarrow> ((st_ok, length patches), u\<lparr>su_construction_index := slots,
                 su_construction_patches := patches @ [\<lparr>cp_handle = handle, cp_state = no_construction\<rparr>]\<rparr>)))"

definition locate_from :: "nat \<Rightarrow> nat \<Rightarrow> nat \<Rightarrow> nat option" where
  "locate_from base local relative =
     (case absolute_u32 base local of None \<Rightarrow> None | Some global \<Rightarrow> add_u32 global relative)"

definition locate_failed :: "nat list \<Rightarrow> nat list \<Rightarrow> nat list \<Rightarrow> bool" where
  "locate_failed bases sizes arrays \<longleftrightarrow> list_ex (\<lambda>i. absolute_u32 (bases ! i) (sizes ! i) = None) arrays"

text \<open>The capture of a Source whose patch is the last one; arrays 1, 3, 4 and 5 are the ones located before the types.\<close>

definition sparse_capture :: "source_facts \<Rightarrow> sparse_update \<Rightarrow> status_code \<times> sparse_update" where
  "sparse_capture facts u =
     (let before = su_candidate u; sizes = storage_sizes before; bases = su_bases u;
          payload = append_payload (locate_from (bases ! 2) (sizes ! 2)) facts before in
      if fst payload \<noteq> st_ok then sparse_fail (fst payload) (u\<lparr>su_candidate := snd payload\<rparr>)
      else if locate_failed bases sizes [1, 3, 4, 5]
      then sparse_fail st_not_available (u\<lparr>su_candidate := snd payload\<rparr>)
      else
        let r = append_types (locate_from (bases ! 1) (sizes ! 1)) (locate_from (bases ! 3) (sizes ! 3)) facts (snd payload);
            after = snd r; u = u\<lparr>su_candidate := after\<rparr> in
        if fst r \<noteq> st_ok then sparse_fail (fst r) u
        else if counts_overflow before after then sparse_fail st_not_available u
        else if locate_failed bases sizes [0] then sparse_fail st_not_available u
        else
          let begins = map (\<lambda>i. bases ! i + sizes ! i) [0..<6];
              begins = begins[2 := to_u32 (bases ! 2 + sizes ! 2)];
              last = length (su_source_patches u) - 1 in
          (st_ok, u\<lparr>su_source_patches := (su_source_patches u)
             [last := (su_source_patches u ! last)\<lparr>sp_state := captured_state (sf_source facts) begins before after,
                sp_present := True\<rparr>]\<rparr>))"

definition sparse_replace ::
  "source_facts \<Rightarrow> nat \<Rightarrow> sparse_update \<Rightarrow> diagnostic_buffer \<Rightarrow> status_code \<times> sparse_update \<times> diagnostic_buffer" where
  "sparse_replace facts operation u out =
     (if su_failure u \<noteq> st_ok then (su_failure u, u, out)
      else if \<not> su_attached u \<or> su_prepared u \<or> su_published u \<or> sf_source facts = 0
      then (st_invalid_argument, u, out)
      else case replace_gate facts operation out of (st, reported) \<Rightarrow>
          if st \<noteq> st_ok then (st, u\<lparr>su_failure := st\<rparr>, reported)
          else case add_source_patch (sf_source facts) u of (st, patched) \<Rightarrow>
              if st \<noteq> st_ok then (st, patched\<lparr>su_failure := st\<rparr>, reported)
              else case sparse_capture facts patched of (st, u') \<Rightarrow> (st, u', reported))"

definition sparse_remove :: "nat \<Rightarrow> sparse_update \<Rightarrow> status_code \<times> sparse_update" where
  "sparse_remove source u =
     (if su_failure u \<noteq> st_ok then (su_failure u, u)
      else if \<not> su_attached u \<or> su_prepared u \<or> su_published u \<or> source = 0 then (st_invalid_argument, u)
      else case add_source_patch source u of (st, u') \<Rightarrow>
          if st \<noteq> st_ok then sparse_fail st u' else (st_ok, u'))"

definition set_construction :: "nat \<Rightarrow> construction_state \<Rightarrow> sparse_update \<Rightarrow> status_code \<times> sparse_update" where
  "set_construction handle v u =
     (if su_failure u \<noteq> st_ok then (su_failure u, u)
      else if \<not> su_attached u \<or> su_prepared u \<or> su_published u \<or> handle = 0 then (st_invalid_argument, u)
      else case add_construction_patch handle u of ((st, i), u') \<Rightarrow>
          if st \<noteq> st_ok then sparse_fail st u'
          else (st_ok, u'\<lparr>su_construction_patches := (su_construction_patches u')
            [i := (su_construction_patches u' ! i)\<lparr>cp_state := v\<rparr>]\<rparr>))"

section \<open>Reading through the update\<close>

definition replacement_state :: "sparse_update \<Rightarrow> nat \<Rightarrow> contribution_state option" where
  "replacement_state u source =
     (case find_source_patch u source of
        None \<Rightarrow> None
      | Some p \<Rightarrow> if sp_present p then Some (sp_state p) else None)"

definition sparse_type :: "contribution_cache \<Rightarrow> sparse_update \<Rightarrow> nat \<Rightarrow> contribution_type option" where
  "sparse_type c u index =
     (if \<not> su_attached u then None
      else if index < su_bases u ! 0
      then (if index < length (so_types (cc_committed c)) then Some (so_types (cc_committed c) ! index) else None)
      else let local = index - su_bases u ! 0 in
        if local < length (so_types (su_candidate u)) then Some (so_types (su_candidate u) ! local) else None)"

definition replacement_types :: "contribution_cache \<Rightarrow> sparse_update \<Rightarrow> nat \<Rightarrow> contribution_type list" where
  "replacement_types c u source =
     (case replacement_state u source of
        None \<Rightarrow> []
      | Some v \<Rightarrow> if su_attached u
          then combined_span (so_types (cc_committed c)) (so_types (su_candidate u)) (su_bases u ! 0) (cs_types v)
          else [])"

definition sparse_members :: "contribution_cache \<Rightarrow> sparse_update \<Rightarrow> source_fact_range \<Rightarrow> contribution_member list" where
  "sparse_members c u r =
     (if su_attached u
      then combined_span (so_members (cc_committed c)) (so_members (su_candidate u)) (su_bases u ! 1) r else [])"

definition sparse_modifiers :: "contribution_cache \<Rightarrow> sparse_update \<Rightarrow> source_fact_range \<Rightarrow> source_type_modifier list" where
  "sparse_modifiers c u r =
     (if su_attached u
      then combined_span (so_modifiers (cc_committed c)) (so_modifiers (su_candidate u)) (su_bases u ! 2) r else [])"

definition sparse_enum_values ::
  "contribution_cache \<Rightarrow> sparse_update \<Rightarrow> source_fact_range \<Rightarrow> contribution_enum_value list" where
  "sparse_enum_values c u r =
     (if su_attached u
      then combined_span (so_enum_values (cc_committed c)) (so_enum_values (su_candidate u)) (su_bases u ! 3) r else [])"

definition replacement_objects :: "contribution_cache \<Rightarrow> sparse_update \<Rightarrow> nat \<Rightarrow> contribution_object list" where
  "replacement_objects c u source =
     (case replacement_state u source of
        None \<Rightarrow> []
      | Some v \<Rightarrow> if su_attached u
          then combined_span (so_objects (cc_committed c)) (so_objects (su_candidate u)) (su_bases u ! 4) (cs_objects v)
          else [])"

definition replacement_links :: "contribution_cache \<Rightarrow> sparse_update \<Rightarrow> nat \<Rightarrow> contribution_link list" where
  "replacement_links c u source =
     (case replacement_state u source of
        None \<Rightarrow> []
      | Some v \<Rightarrow> if su_attached u
          then combined_span (so_links (cc_committed c)) (so_links (su_candidate u)) (su_bases u ! 5) (cs_links v)
          else [])"

definition sparse_construction :: "contribution_cache \<Rightarrow> sparse_update \<Rightarrow> nat \<Rightarrow> construction_state option" where
  "sparse_construction c u handle =
     (case find_construction_patch u handle of
        Some p \<Rightarrow> Some (cp_state p)
      | None \<Rightarrow> if su_attached u then cache_construction c handle else None)"

section \<open>Publication\<close>

definition subtract_state :: "contribution_state \<Rightarrow> contribution_statistics \<Rightarrow> contribution_statistics option" where
  "subtract_state old s =
     (if sn_sources s = 0 then None
      else case (subtract_count (sn_type_declarations s) (fr_count (cs_types old)),
                 subtract_count (sn_members s) (fr_count (cs_members old)),
                 subtract_count (sn_modifiers s) (fr_count (cs_modifiers old)),
                 subtract_count (sn_enum_values s) (fr_count (cs_enum_values old)),
                 subtract_count (sn_objects s) (fr_count (cs_objects old)),
                 subtract_count (sn_links s) (fr_count (cs_links old))) of
          (Some t, Some m, Some k, Some e, Some p, Some l) \<Rightarrow>
            Some \<lparr>sn_sources = sn_sources s - 1, sn_type_declarations = t, sn_members = m, sn_modifiers = k,
              sn_enum_values = e, sn_objects = p, sn_links = l\<rparr>
        | _ \<Rightarrow> None)"

definition add_state :: "contribution_state \<Rightarrow> contribution_statistics \<Rightarrow> contribution_statistics" where
  "add_state v s =
     \<lparr>sn_sources = Suc (sn_sources s), sn_type_declarations = sn_type_declarations s + fr_count (cs_types v),
      sn_members = sn_members s + fr_count (cs_members v), sn_modifiers = sn_modifiers s + fr_count (cs_modifiers v),
      sn_enum_values = sn_enum_values s + fr_count (cs_enum_values v), sn_objects = sn_objects s + fr_count (cs_objects v),
      sn_links = sn_links s + fr_count (cs_links v)\<rparr>"

text \<open>Reading the old state of a patched slot may mark the array of Sources.\<close>

fun patch_statistics ::
  "contribution_cache \<Rightarrow> source_patch list \<Rightarrow> contribution_statistics \<Rightarrow>
    contribution_statistics option \<times> contribution_cache" where
  "patch_statistics c [] s = (Some s, c)"
| "patch_statistics c (p # ps) s =
     (let touched = cache_touch c (sp_source p) in
      case (case cache_state c (sp_source p) of None \<Rightarrow> Some s | Some old \<Rightarrow> subtract_state old s) of
        None \<Rightarrow> (None, touched)
      | Some s' \<Rightarrow> patch_statistics touched ps (if sp_present p then add_state (sp_state p) s' else s'))"

definition exceeds :: "storage_capacity \<Rightarrow> sparse_update \<Rightarrow> bool" where
  "exceeds cap u \<longleftrightarrow>
     sc_sources cap < su_source_size u \<or> sc_construction cap < su_construction_size u \<or>
     list_ex (\<lambda>(limit, base, n). limit < base + n)
       (zip (sc_arrays cap) (zip (su_bases u) (storage_sizes (su_candidate u))))"

text \<open>
  Over an image the arrays are grown here and every patched slot is read, which may be refused; otherwise the
  capacity must suffice. The scratch statistics of a refused preparation are not kept.
\<close>

definition sparse_prepare ::
  "storage_capacity \<Rightarrow> contribution_cache \<Rightarrow> sparse_update \<Rightarrow> status_code \<times> sparse_update \<times> contribution_cache" where
  "sparse_prepare cap c u =
     (if su_failure u \<noteq> st_ok then (su_failure u, u, c)
      else if \<not> su_attached u \<or> su_prepared u \<or> su_published u \<or> \<not> cc_complete c then (st_invalid_argument, u, c)
      else
        let committed = cc_committed c in
        case patch_statistics c (su_source_patches u) (cc_statistics c) of
          (None, touched) \<Rightarrow> (st_invalid_argument, u, touched)
        | (Some statistics, touched) \<Rightarrow>
            let max_source = foldl max (length (so_sources committed) - 1) (map sp_source (su_source_patches u));
                max_handle = foldl max (length (so_construction committed) - 1) (map cp_handle (su_construction_patches u)) in
            if u32_max \<le> max_source \<or> u32_max \<le> max_handle then (st_not_available, u, touched)
            else
              let sized = u\<lparr>su_statistics := statistics, su_source_size := Suc max_source,
                    su_construction_size := Suc max_handle\<rparr> in
              if cc_baseline c
              then (if cc_read_status touched \<noteq> st_ok then (cc_read_status touched, sized, touched)
                    else (st_ok, sized\<lparr>su_prepared := True\<rparr>, touched))
              else if exceeds cap sized then (st_rebuild_required, sized, touched)
              else (st_ok, sized\<lparr>su_prepared := True\<rparr>, touched))"

definition extended :: "contribution_storage \<Rightarrow> contribution_storage \<Rightarrow> contribution_storage" where
  "extended committed candidate =
     committed\<lparr>so_types := so_types committed @ so_types candidate,
       so_members := so_members committed @ so_members candidate,
       so_modifiers := so_modifiers committed @ so_modifiers candidate,
       so_enum_values := so_enum_values committed @ so_enum_values candidate,
       so_objects := so_objects committed @ so_objects candidate,
       so_links := so_links committed @ so_links candidate\<rparr>"

definition patch_sources :: "source_patch list \<Rightarrow> contribution_state list \<Rightarrow> contribution_state list" where
  "patch_sources patches sources =
     foldl (\<lambda>xs p. xs[sp_source p := (if sp_present p then sp_state p else no_state)]) sources patches"

definition patch_construction :: "construction_patch list \<Rightarrow> construction_state list \<Rightarrow> construction_state list" where
  "patch_construction patches slots = foldl (\<lambda>xs p. xs[cp_handle p := cp_state p]) slots patches"

definition sparse_publish :: "sparse_update \<Rightarrow> contribution_cache \<Rightarrow> sparse_update \<times> contribution_cache" where
  "sparse_publish u c =
     (if \<not> su_attached u \<or> \<not> su_prepared u \<or> su_published u then (u, c)
      else
        let committed = cc_committed c;
            sources = patch_sources (su_source_patches u) (resize_list (su_source_size u) no_state (so_sources committed));
            slots = patch_construction (su_construction_patches u)
              (resize_list (su_construction_size u) no_construction (so_construction committed)) in
        (u\<lparr>su_published := True\<rparr>,
         c\<lparr>cc_committed := (extended committed (su_candidate u))\<lparr>so_sources := sources, so_construction := slots,
              so_statistics := su_statistics u\<rparr>,
           cc_statistics := su_statistics u, cc_complete := True,
           cc_absent := filter (\<lambda>i. i \<notin> set (map sp_source (su_source_patches u))) (cc_absent c)\<rparr>))"

end
