(* ===== verification/Contribution_Capture.thy ===== *)
theory Contribution_Capture
  imports Contribution_Update
begin

text \<open>
  What the capture of a Source appends, as one value, and why it means what the facts mean: read back through the
  state that is recorded for it, the appended payload has the content of the facts, and everything that was there
  before keeps its content.
\<close>

section \<open>The captured payload\<close>

definition captured_member :: "nat \<Rightarrow> source_member_fact \<Rightarrow> contribution_member" where
  "captured_member base m =
     \<lparr>cm_type = capture_type_ref (base + fr_begin (ty_modifiers (mm_type m))) (mm_type m), cm_name = mm_name m,
      cm_access = mm_access m, cm_construction = mm_construction m\<rparr>"

definition captured_object :: "nat \<Rightarrow> source_object_fact \<Rightarrow> contribution_object" where
  "captured_object base x =
     \<lparr>co_identity = ob_identity x, co_type = capture_type_ref (base + fr_begin (ty_modifiers (ob_type x))) (ob_type x),
      co_flags = ob_construction_flags x\<rparr>"

definition captured_enum_value :: "source_enum_value_fact \<Rightarrow> contribution_enum_value" where
  "captured_enum_value v = \<lparr>ce_name = vf_name v, ce_intrinsic = vf_intrinsic v, ce_value_bits = vf_bits v\<rparr>"

definition captured_link :: "source_link_fact \<Rightarrow> contribution_link" where
  "captured_link l = \<lparr>cl_source = lf_source l, cl_target = lf_target l\<rparr>"

definition captured_record :: "nat \<Rightarrow> source_record_fact \<Rightarrow> contribution_type" where
  "captured_record base x =
     \<lparr>cy_identity = rf_identity x, cy_items = \<lparr>fr_begin = base + fr_begin (rf_members x), fr_count = fr_count (rf_members x)\<rparr>,
      cy_underlying = 0, cy_record_kind = rf_record_kind x, cy_kind = contributed_record,
      cy_flags = (if rf_declaration_kind x = 1 then 1 else 0)\<rparr>"

definition captured_enum :: "nat \<Rightarrow> source_enum_fact \<Rightarrow> contribution_type" where
  "captured_enum base x =
     (let flags = (if ef_declaration_kind x = 1 then 1 else 0) in
      \<lparr>cy_identity = ef_identity x,
       cy_items = \<lparr>fr_begin = base + fr_begin (ef_enumerators x), fr_count = fr_count (ef_enumerators x)\<rparr>,
       cy_underlying = ef_explicit_underlying x, cy_record_kind = 0, cy_kind = contributed_enumeration,
       cy_flags = (if ef_scoped x then flags OR 2 else flags)\<rparr>)"

definition captured_declaration :: "nat \<Rightarrow> nat \<Rightarrow> source_facts \<Rightarrow> source_declaration_ref \<Rightarrow> contribution_type list" where
  "captured_declaration mb eb facts d =
     (if dr_kind d = 1 then [captured_record mb (sf_records facts ! dr_index d)]
      else if dr_kind d = 2 then [captured_enum eb (sf_enums facts ! dr_index d)] else [])"

definition captured_types :: "nat \<Rightarrow> nat \<Rightarrow> source_facts \<Rightarrow> contribution_type list" where
  "captured_types mb eb facts =
     (if sf_declarations facts \<noteq> [] then concat (map (captured_declaration mb eb facts) (sf_declarations facts))
      else map (captured_record mb) (sf_records facts) @ map (captured_enum eb) (sf_enums facts))"

text \<open>Payload appended with the given begins of members, enumerators and modifiers.\<close>

definition capture_at :: "nat \<Rightarrow> nat \<Rightarrow> nat \<Rightarrow> source_facts \<Rightarrow> contribution_storage \<Rightarrow> contribution_storage" where
  "capture_at mb eb kb facts st =
     st\<lparr>so_types := so_types st @ captured_types mb eb facts,
        so_members := so_members st @ map (captured_member kb) (sf_members facts),
        so_modifiers := so_modifiers st @ sf_modifiers facts,
        so_enum_values := so_enum_values st @ map captured_enum_value (sf_enum_values facts),
        so_objects := so_objects st @ map (captured_object kb) (sf_objects facts),
        so_links := so_links st @ map captured_link (sf_links facts)\<rparr>"

definition captured :: "source_facts \<Rightarrow> contribution_storage \<Rightarrow> contribution_storage" where
  "captured facts st =
     capture_at (length (so_members st)) (length (so_enum_values st)) (length (so_modifiers st)) facts st"

section \<open>The steps append the captured payload\<close>

lemma and_do_ok: "and_do r f = (st_ok, s) \<longleftrightarrow> (\<exists>s'. r = (st_ok, s') \<and> f s' = (st_ok, s))"
  by (cases r) (auto simp: and_do_def)

lemma append_each_app:
  assumes step: "\<And>x st st'. x \<in> set xs \<Longrightarrow> f x st = (st_ok, st') \<Longrightarrow> st' = upd (g x) st"
    and upd: "\<And>a b st. upd b (upd a st) = upd (a @ b) st" "\<And>st. upd [] st = st"
  shows "append_each f xs st = (st_ok, st') \<Longrightarrow> st' = upd (concat (map g xs)) st"
  using step
proof (induction xs arbitrary: st)
  case Nil
  then show ?case by (simp add: upd(2))
next
  case (Cons x xs)
  then obtain st1 where st1: "f x st = (st_ok, st1)" "append_each f xs st1 = (st_ok, st')" by (auto simp: and_do_ok)
  have "st1 = upd (g x) st" using Cons.prems(2) [OF _ st1(1)] by simp
  moreover have "st' = upd (concat (map g xs)) st1"
    by (rule Cons.IH [OF st1(2)]) (use Cons.prems(2) in auto)
  ultimately show ?case by (simp add: upd(1))
qed

definition locates :: "(nat \<Rightarrow> nat option) \<Rightarrow> nat \<Rightarrow> bool" where
  "locates locate base \<longleftrightarrow> (\<forall>n v. locate n = Some v \<longrightarrow> v = base + n)"

lemma located_add_u32: "locates (add_u32 base) base"
  by (auto simp: locates_def add_u32_def split: if_splits)

lemma append_members_app:
  assumes "locates locate kb" "append_each (append_member locate) xs st = (st_ok, st')"
  shows "st' = st\<lparr>so_members := so_members st @ map (captured_member kb) xs\<rparr>"
proof -
  have "st' = (\<lambda>ys st. st\<lparr>so_members := so_members st @ ys\<rparr>) (concat (map (\<lambda>x. [captured_member kb x]) xs)) st"
    by (rule append_each_app [OF _ _ _ assms(2)])
      (use assms(1) in \<open>auto simp: append_member_def captured_member_def locates_def split: option.splits\<close>)
  then show ?thesis by simp
qed

lemma append_objects_app:
  assumes "locates locate kb" "append_each (append_object locate) xs st = (st_ok, st')"
  shows "st' = st\<lparr>so_objects := so_objects st @ map (captured_object kb) xs\<rparr>"
proof -
  have "st' = (\<lambda>ys st. st\<lparr>so_objects := so_objects st @ ys\<rparr>) (concat (map (\<lambda>x. [captured_object kb x]) xs)) st"
    by (rule append_each_app [OF _ _ _ assms(2)])
      (use assms(1) in \<open>auto simp: append_object_def captured_object_def locates_def split: option.splits\<close>)
  then show ?thesis by simp
qed

lemma append_payload_app:
  assumes "locates locate kb" "append_payload locate facts st = (st_ok, st')"
  shows "st' = st\<lparr>so_members := so_members st @ map (captured_member kb) (sf_members facts),
        so_modifiers := so_modifiers st @ sf_modifiers facts,
        so_enum_values := so_enum_values st @ map captured_enum_value (sf_enum_values facts),
        so_objects := so_objects st @ map (captured_object kb) (sf_objects facts),
        so_links := so_links st @ map captured_link (sf_links facts)\<rparr>"
proof -
  obtain s1 s2 where
    "append_each (append_member locate) (sf_members facts) (snd (append_modifiers facts st)) = (st_ok, s1)"
    "append_each (append_object locate) (sf_objects facts) (snd (append_enum_values facts s1)) = (st_ok, s2)"
    "st' = snd (append_links facts s2)"
    using assms(2)
    by (auto simp: append_payload_def and_do_ok append_modifiers_def append_enum_values_def append_links_def)
  from append_members_app [OF assms(1) this(1)] append_objects_app [OF assms(1) this(2)] this(3) show ?thesis
    by (simp add: append_modifiers_def append_enum_values_def append_links_def captured_enum_value_def [abs_def]
        captured_link_def [abs_def])
qed

lemma append_record_app:
  "locates locate mb \<Longrightarrow> append_record locate facts i st = (st_ok, st') \<Longrightarrow>
    i < length (sf_records facts) \<and> st' = st\<lparr>so_types := so_types st @ [captured_record mb (sf_records facts ! i)]\<rparr>"
  by (auto simp: append_record_def captured_record_def locates_def Let_def split: if_splits option.splits)

lemma append_enum_app:
  "locates locate eb \<Longrightarrow> append_enum locate facts i st = (st_ok, st') \<Longrightarrow>
    i < length (sf_enums facts) \<and> st' = st\<lparr>so_types := so_types st @ [captured_enum eb (sf_enums facts ! i)]\<rparr>"
  by (simp add: append_enum_def captured_enum_def locates_def Let_def split: if_splits option.splits)

lemma map_index: "map (\<lambda>i. f (xs ! i)) [0..<length xs] = map f xs"
proof -
  have "map (\<lambda>i. f (xs ! i)) [0..<length xs] = map f (map ((!) xs) [0..<length xs])" by simp
  then show ?thesis by (simp only: map_nth)
qed

lemma append_types_app:
  assumes "locates lm mb" "locates le eb" "append_types lm le facts st = (st_ok, st')"
  shows "st' = st\<lparr>so_types := so_types st @ captured_types mb eb facts\<rparr>"
proof (cases "sf_declarations facts = []")
  case False
  let ?upd = "\<lambda>ys st. st\<lparr>so_types := so_types st @ ys\<rparr>"
  have run: "append_each (append_declaration lm le facts) (sf_declarations facts) st = (st_ok, st')"
    using assms(3) False by (simp add: append_types_def)
  have "st' = ?upd (concat (map (captured_declaration mb eb facts) (sf_declarations facts))) st"
  proof (rule append_each_app [OF _ _ _ run])
    fix d and s s' :: contribution_storage
    assume "append_declaration lm le facts d s = (st_ok, s')"
    then show "s' = ?upd (captured_declaration mb eb facts d) s"
      using append_record_app [OF assms(1)] append_enum_app [OF assms(2)]
      by (auto simp: append_declaration_def captured_declaration_def split: if_splits)
  qed simp_all
  with False show ?thesis by (simp add: captured_types_def)
next
  case True
  let ?upd = "\<lambda>ys st. st\<lparr>so_types := so_types st @ ys\<rparr>"
  obtain s where recs: "append_each (append_record lm facts) [0..<length (sf_records facts)] st = (st_ok, s)"
    and ens: "append_each (append_enum le facts) [0..<length (sf_enums facts)] s = (st_ok, st')"
    using assms(3) True by (auto simp: append_types_def and_do_ok)
  have "s = ?upd (concat (map (\<lambda>i. [captured_record mb (sf_records facts ! i)]) [0..<length (sf_records facts)])) st"
    by (rule append_each_app [OF _ _ _ recs]) (use append_record_app [OF assms(1)] in simp_all)
  moreover have "st' = ?upd (concat (map (\<lambda>i. [captured_enum eb (sf_enums facts ! i)]) [0..<length (sf_enums facts)])) s"
    by (rule append_each_app [OF _ _ _ ens]) (use append_enum_app [OF assms(2)] in simp_all)
  ultimately show ?thesis using True by (simp add: captured_types_def map_index)
qed

lemma capture_steps:
  assumes "locates lk kb" "locates lm mb" "locates le eb"
    and "append_payload lk facts st = (st_ok, s)" "append_types lm le facts s = (st_ok, st')"
  shows "st' = capture_at mb eb kb facts st"
  using append_payload_app [OF assms(1,4)] append_types_app [OF assms(2,3,5)] by (simp add: capture_at_def)

section \<open>Reading back\<close>

lemma checked_span_appended: "n = length ys \<Longrightarrow> checked_span (xs @ ys) \<lparr>fr_begin = length xs, fr_count = n\<rparr> = ys"
  by (simp add: checked_span_def facts_slice_def)

lemma checked_span_kept:
  "fr_begin r + fr_count r \<le> length xs \<Longrightarrow> checked_span (xs @ ys) r = checked_span xs r"
  by (simp add: checked_span_def facts_slice_def)

lemma shifted_base: "shifted base \<lparr>fr_begin = base + n, fr_count = k\<rparr> = Some \<lparr>fr_begin = n, fr_count = k\<rparr>"
  by (simp add: shifted_def)

lemma captured_type_ref: "type_ref_content base (capture_type_ref (base + fr_begin (ty_modifiers t)) t) = type_ref_fact t"
  by (simp add: type_ref_content_def capture_type_ref_def type_ref_fact_def shifted_base)

lemma captured_record_content: "type_content_of mb eb (captured_record mb x) = record_fact x"
  by (simp add: type_content_of_def captured_record_def record_fact_def shifted_base type_definition_def)

lemma captured_enum_content: "type_content_of mb eb (captured_enum eb x) = enum_fact x"
  by (simp add: type_content_of_def captured_enum_def enum_fact_def shifted_base type_definition_def
      type_enum_scoped_def Let_def)

lemma captured_types_content: "map (type_content_of mb eb) (captured_types mb eb facts) = facts_types facts"
proof -
  have "map (type_content_of mb eb) (captured_declaration mb eb facts d) = declared_types facts d" for d
    by (simp add: captured_declaration_def declared_types_def captured_record_content captured_enum_content)
  then show ?thesis
    by (simp add: captured_types_def facts_types_def map_concat comp_def captured_record_content captured_enum_content)
qed

text \<open>The state of a Source captured behind \<open>before\<close>.\<close>

definition state_of_capture :: "source_facts \<Rightarrow> contribution_storage \<Rightarrow> contribution_state" where
  "state_of_capture facts before =
     captured_state (sf_source facts) (storage_sizes before) before (captured facts before)"

lemma captured_content:
  "state_content (captured facts st) (state_of_capture facts st) = facts_content facts"
  by (simp add: state_content_def captured_def capture_at_def state_of_capture_def captured_state_def storage_sizes_def
      checked_span_appended facts_content_def Let_def captured_types_content comp_def member_content_def
      captured_member_def captured_type_ref object_content_def captured_object_def enum_value_content_def
      captured_enum_value_def link_content_def captured_link_def)

text \<open>The ranges of a state lie in the arrays.\<close>

definition range_in :: "source_fact_range \<Rightarrow> nat \<Rightarrow> bool" where
  "range_in r n \<longleftrightarrow> fr_begin r + fr_count r \<le> n"

definition state_in :: "contribution_storage \<Rightarrow> contribution_state \<Rightarrow> bool" where
  "state_in st v \<longleftrightarrow>
     range_in (cs_types v) (length (so_types st)) \<and> range_in (cs_members v) (length (so_members st)) \<and>
     range_in (cs_modifiers v) (length (so_modifiers st)) \<and> range_in (cs_enum_values v) (length (so_enum_values st)) \<and>
     range_in (cs_objects v) (length (so_objects st)) \<and> range_in (cs_links v) (length (so_links st))"

lemma captured_in: "state_in (captured facts st) (state_of_capture facts st)"
  by (simp add: state_in_def range_in_def captured_def capture_at_def state_of_capture_def captured_state_def
      storage_sizes_def Let_def)

lemma capture_keeps:
  assumes "state_in st v"
  shows "state_content (capture_at mb eb kb facts st) v = state_content st v" "state_in (capture_at mb eb kb facts st) v"
  using assms
  by (simp_all add: state_in_def range_in_def state_content_def capture_at_def checked_span_kept Let_def)

text \<open>Only the arrays matter to a content.\<close>

lemma state_content_cong:
  "so_types st = so_types st' \<Longrightarrow> so_members st = so_members st' \<Longrightarrow> so_modifiers st = so_modifiers st' \<Longrightarrow>
   so_enum_values st = so_enum_values st' \<Longrightarrow> so_objects st = so_objects st' \<Longrightarrow> so_links st = so_links st' \<Longrightarrow>
   state_content st v = state_content st' v"
  by (simp add: state_content_def)

lemma state_content_sources [simp]:
  "state_content (st\<lparr>so_sources := xs\<rparr>) = state_content st"
  "state_content (st\<lparr>so_statistics := s\<rparr>) = state_content st"
  "state_content (st\<lparr>so_construction := cs\<rparr>) = state_content st"
  by (auto simp: state_content_def)

lemma state_in_sources [simp]:
  "state_in (st\<lparr>so_sources := xs\<rparr>) = state_in st"
  "state_in (st\<lparr>so_statistics := s\<rparr>) = state_in st"
  "state_in (st\<lparr>so_construction := cs\<rparr>) = state_in st"
  by (auto simp: state_in_def)

section \<open>The array of Sources\<close>

definition state_at :: "contribution_state list \<Rightarrow> nat \<Rightarrow> contribution_state option" where
  "state_at xs source =
     (if source = 0 \<or> length xs \<le> source \<or> cs_source (xs ! source) \<noteq> source then None else Some (xs ! source))"

lemma storage_state_at: "storage_state st source = state_at (so_sources st) source"
  by (simp add: storage_state_def state_at_def Let_def)

lemma state_at_update:
  "i < length xs \<Longrightarrow> state_at (xs[i := v]) source =
     (if source = i then (if i = 0 \<or> cs_source v \<noteq> i then None else Some v) else state_at xs source)"
  by (auto simp: state_at_def nth_list_update)

lemma state_at_resize:
  "length xs \<le> n \<Longrightarrow> state_at (resize_list n no_state xs) source = state_at xs source"
  by (auto simp: state_at_def resize_list_def nth_append no_state_def)

lemma length_resize_list [simp]: "length (resize_list n d xs) = n"
  by (simp add: resize_list_def)

text \<open>The sum of a count over the Sources that have a state.\<close>

definition state_count :: "(contribution_state \<Rightarrow> nat) \<Rightarrow> contribution_state option \<Rightarrow> nat" where
  "state_count f v = (case v of None \<Rightarrow> 0 | Some w \<Rightarrow> f w)"

definition live_total :: "(contribution_state \<Rightarrow> nat) \<Rightarrow> contribution_state list \<Rightarrow> nat" where
  "live_total f xs = (\<Sum>s < length xs. state_count f (state_at xs s))"

lemma live_total_update:
  assumes "i < length xs"
  shows "live_total f (xs[i := v]) + state_count f (state_at xs i) =
    live_total f xs + state_count f (state_at (xs[i := v]) i)"
proof -
  let ?S = "{..<length xs} - {i}"
  have split: "(\<Sum>s < length xs. g s) = g i + (\<Sum>s \<in> ?S. g s)" for g :: "nat \<Rightarrow> nat"
    using assms by (simp add: sum.remove [of _ i])
  have "(\<Sum>s \<in> ?S. state_count f (state_at (xs[i := v]) s)) = (\<Sum>s \<in> ?S. state_count f (state_at xs s))"
    by (rule sum.cong) (use assms in \<open>simp_all add: state_at_update\<close>)
  then show ?thesis by (simp add: live_total_def split)
qed

lemma live_total_resize:
  assumes "length xs \<le> n"
  shows "live_total f (resize_list n no_state xs) = live_total f xs"
proof -
  have "(\<Sum>s < n. state_count f (state_at xs s)) = (\<Sum>s < length xs. state_count f (state_at xs s))"
    by (rule sum.mono_neutral_right) (use assms in \<open>auto simp: state_at_def state_count_def\<close>)
  then show ?thesis using assms by (simp add: live_total_def state_at_resize)
qed

definition statistics_exact :: "contribution_state list \<Rightarrow> contribution_statistics \<Rightarrow> bool" where
  "statistics_exact xs s \<longleftrightarrow>
     sn_sources s = live_total (\<lambda>_. 1) xs \<and>
     sn_type_declarations s = live_total (fr_count \<circ> cs_types) xs \<and>
     sn_members s = live_total (fr_count \<circ> cs_members) xs \<and>
     sn_modifiers s = live_total (fr_count \<circ> cs_modifiers) xs \<and>
     sn_enum_values s = live_total (fr_count \<circ> cs_enum_values) xs \<and>
     sn_objects s = live_total (fr_count \<circ> cs_objects) xs \<and>
     sn_links s = live_total (fr_count \<circ> cs_links) xs"

end
