(* ===== verification/Contribution_Rebuild.thy ===== *)
theory Contribution_Rebuild
  imports Contribution_Capture
begin

text \<open>
  The full rebuild: after its publication the cache holds, for each replaced Source, the content of its facts and
  nothing else, the statistics count exactly what is retained, and the semantic filter finds every Source unchanged.
\<close>

section \<open>One Source\<close>

lemma replace_gate_ok:
  assumes "replace_gate facts operation out = (st_ok, out')"
  shows "facts_valid facts" "\<forall>r \<in> set (sf_records facts). fr_count (rf_bases r) = 0" "out' = out"
proof -
  have v: "fst (validate_source_facts facts) = st_ok"
    using assms by (auto simp: replace_gate_def split: prod.splits if_splits)
  then show "facts_valid facts" by (simp add: accepted_iff)
  have f: "find (\<lambda>r. fr_count (rf_bases r) \<noteq> 0) (sf_records facts) = None \<and> out' = out"
    using assms v by (auto simp: replace_gate_def split: prod.splits if_splits option.splits)
  then show "\<forall>r \<in> set (sf_records facts). fr_count (rf_bases r) = 0" "out' = out" by (auto simp: find_None_iff)
qed

lemma replace_gate_passes:
  assumes "facts_valid facts" "\<forall>r \<in> set (sf_records facts). fr_count (rf_bases r) = 0"
  shows "replace_gate facts operation out = (st_ok, out)"
proof -
  have "find (\<lambda>r. fr_count (rf_bases r) \<noteq> 0) (sf_records facts) = None"
    using assms(2) by (auto simp: find_None_iff)
  moreover have "fst (validate_source_facts facts) = st_ok" using assms(1) by (simp add: accepted_iff)
  ultimately show ?thesis by (cases "validate_source_facts facts") (simp add: replace_gate_def)
qed

text \<open>The arrays of a full rebuild contain nothing but the retained payload.\<close>

definition arrays_full :: "contribution_storage \<Rightarrow> bool" where
  "arrays_full st \<longleftrightarrow>
     sn_type_declarations (so_statistics st) = length (so_types st) \<and>
     sn_members (so_statistics st) = length (so_members st) \<and>
     sn_modifiers (so_statistics st) = length (so_modifiers st) \<and>
     sn_enum_values (so_statistics st) = length (so_enum_values st) \<and>
     sn_objects (so_statistics st) = length (so_objects st) \<and>
     sn_links (so_statistics st) = length (so_links st)"

text \<open>The contents of a storage, as a function of the Sources.\<close>

definition holds :: "contribution_storage \<Rightarrow> (nat \<Rightarrow> source_content option) \<Rightarrow> bool" where
  "holds st m \<longleftrightarrow>
     (\<forall>s. case m s of None \<Rightarrow> storage_state st s = None
        | Some k \<Rightarrow> \<exists>v. storage_state st s = Some v \<and> state_in st v \<and> state_content st v = k)"

lemma holds_content: "holds st m \<Longrightarrow> storage_content st s = m s"
  by (auto simp: holds_def storage_content_def split: option.splits dest!: spec [of _ s])

definition contents_of :: "source_facts list \<Rightarrow> nat \<Rightarrow> source_content option" where
  "contents_of fs = map_of (map (\<lambda>f. (sf_source f, facts_content f)) fs)"

lemma contents_of_None: "contents_of fs s = None \<longleftrightarrow> s \<notin> sf_source ` set fs"
  by (simp add: contents_of_def map_of_eq_None_iff image_image)

text \<open>One capture at the level of the whole storage.\<close>

definition stored :: "source_facts \<Rightarrow> contribution_storage \<Rightarrow> contribution_storage" where
  "stored facts st =
     (captured facts st)\<lparr>so_sources := (so_sources st)[sf_source facts := state_of_capture facts st],
        so_statistics := rebuild_statistics (captured facts st)\<rparr>"

lemma captured_sources [simp]:
  "so_sources (captured facts st) = so_sources st" "so_statistics (captured facts st) = so_statistics st"
  by (simp_all add: captured_def capture_at_def)

lemma state_of_capture_source [simp]: "cs_source (state_of_capture facts st) = sf_source facts"
  by (simp add: state_of_capture_def captured_state_def Let_def)

lemma stored_holds:
  assumes "holds st m" and s: "sf_source facts \<noteq> 0" "sf_source facts < length (so_sources st)"
  shows "holds (stored facts st) (m(sf_source facts \<mapsto> facts_content facts))"
proof -
  have other: "storage_state (stored facts st) i = storage_state st i" if "i \<noteq> sf_source facts" for i
    using that s by (simp add: storage_state_at stored_def state_at_update)
  have own: "storage_state (stored facts st) (sf_source facts) = Some (state_of_capture facts st)"
    using s by (simp add: storage_state_at stored_def state_at_update)
  have kept: "state_content (stored facts st) v = state_content st v" "state_in (stored facts st) v"
    if "state_in st v" for v
    using capture_keeps [OF that] by (simp_all add: stored_def captured_def)
  have new: "state_content (stored facts st) (state_of_capture facts st) = facts_content facts"
    "state_in (stored facts st) (state_of_capture facts st)"
    by (simp_all add: stored_def captured_content captured_in)
  show ?thesis
    unfolding holds_def
  proof
    fix i
    show "case (m(sf_source facts \<mapsto> facts_content facts)) i of None \<Rightarrow> storage_state (stored facts st) i = None
        | Some k \<Rightarrow> \<exists>v. storage_state (stored facts st) i = Some v \<and> state_in (stored facts st) v \<and>
            state_content (stored facts st) v = k"
    proof (cases "i = sf_source facts")
      case False
      then show ?thesis
        using assms(1) [unfolded holds_def, rule_format, of i] other [OF False] kept by (auto split: option.splits)
    qed (use own new in simp)
  qed
qed

lemma stored_statistics:
  assumes "arrays_full st" "statistics_exact (so_sources st) (so_statistics st)"
    and s: "sf_source facts \<noteq> 0" "sf_source facts < length (so_sources st)" and fresh: "storage_state st (sf_source facts) = None"
  shows "arrays_full (stored facts st)" "statistics_exact (so_sources (stored facts st)) (so_statistics (stored facts st))"
proof -
  let ?v = "state_of_capture facts st"
  have total: "live_total f (so_sources (stored facts st)) = live_total f (so_sources st) + f ?v" for f
    using live_total_update [OF s(2), of f ?v] fresh s
    by (simp add: storage_state_at stored_def state_at_update state_count_def)
  show "arrays_full (stored facts st)" by (simp add: arrays_full_def stored_def rebuild_statistics_def)
  show "statistics_exact (so_sources (stored facts st)) (so_statistics (stored facts st))"
    using assms(1,2) unfolding arrays_full_def statistics_exact_def total
    by (simp add: stored_def rebuild_statistics_def state_of_capture_def captured_state_def Let_def storage_sizes_def
        captured_def capture_at_def)
qed

section \<open>The whole rebuild\<close>

definition rebuild_inv :: "rebuild_update \<Rightarrow> source_facts list \<Rightarrow> bool" where
  "rebuild_inv u fs \<longleftrightarrow>
     ru_attached u \<and> ru_failure u = st_ok \<and> \<not> ru_prepared u \<and> \<not> ru_published u \<and>
     length (ru_replaced u) = length (so_sources (ru_candidate u)) \<and>
     (\<forall>s < length (ru_replaced u). ru_replaced u ! s \<noteq> 0 \<longleftrightarrow> s \<in> sf_source ` set fs) \<and>
     0 \<notin> sf_source ` set fs \<and> distinct (map sf_source fs) \<and>
     holds (ru_candidate u) (contents_of fs) \<and> arrays_full (ru_candidate u) \<and>
     statistics_exact (so_sources (ru_candidate u)) (so_statistics (ru_candidate u))"

lemma holds_empty: "so_sources st = resize_list n no_state [] \<Longrightarrow> holds st (contents_of [])"
  by (auto simp: holds_def contents_of_def storage_state_at state_at_def resize_list_def no_state_def)

lemma rebuild_inv_begin: "rebuild_inv begin_rebuild []"
proof -
  have "holds empty_storage (contents_of [])"
    by (rule holds_empty [of _ 0]) (simp add: empty_storage_def resize_list_def)
  then show ?thesis
    by (simp add: rebuild_inv_def begin_rebuild_def arrays_full_def statistics_exact_def live_total_def
        empty_storage_def no_statistics_def)
qed

lemma resize_list_nth: "s < n \<Longrightarrow> resize_list n d [] ! s = d"
  by (simp add: resize_list_def)

lemma live_total_none: "live_total f (resize_list n no_state []) = 0"
  by (simp add: live_total_def state_at_def resize_list_def no_state_def state_count_def)

lemma rebuild_inv_reserve:
  assumes "reserve_rebuild n counts begin_rebuild = (st_ok, u)"
  shows "rebuild_inv u []"
proof -
  have u: "u = begin_rebuild\<lparr>ru_candidate := (ru_candidate begin_rebuild)\<lparr>so_sources := resize_list (Suc n) no_state []\<rparr>,
      ru_replaced := resize_list (Suc n) 0 []\<rparr>"
    using assms by (auto simp: reserve_rebuild_def rebuild_fail_def split: if_splits)
  have "holds (ru_candidate u) (contents_of [])" by (rule holds_empty [of _ "Suc n"]) (simp add: u)
  then show ?thesis
    using live_total_none [of _ "Suc n"]
    by (simp add: rebuild_inv_def u begin_rebuild_def arrays_full_def statistics_exact_def empty_storage_def
        no_statistics_def resize_list_nth)
qed

text \<open>Growing the array of Sources, which the capture may begin with, changes nothing else.\<close>

lemma rebuild_grown_inv:
  assumes "rebuild_inv u fs"
  shows "rebuild_inv (rebuild_grown index u) fs" "index < length (so_sources (ru_candidate (rebuild_grown index u)))"
proof -
  show "index < length (so_sources (ru_candidate (rebuild_grown index u)))" by (auto simp: rebuild_grown_def)
  show "rebuild_inv (rebuild_grown index u) fs"
  proof (cases "length (so_sources (ru_candidate u)) \<le> index")
    case True
    let ?st = "ru_candidate u"
    let ?st' = "?st\<lparr>so_sources := resize_list (Suc index) no_state (so_sources ?st)\<rparr>"
    have inside: "s < length (so_sources ?st)" if "s \<in> sf_source ` set fs" for s
    proof -
      have "contents_of fs s \<noteq> None" using that contents_of_None [of fs s] by blast
      then obtain v where "storage_state ?st s = Some v"
        using assms unfolding rebuild_inv_def holds_def by (auto split: option.splits dest!: spec [of _ s])
      then show ?thesis by (simp add: storage_state_def split: if_splits)
    qed
    have state: "storage_state ?st' = storage_state ?st"
      using True by (simp add: fun_eq_iff storage_state_at state_at_resize)
    have "holds ?st (contents_of fs)" using assms by (simp add: rebuild_inv_def)
    then have "holds ?st' (contents_of fs)" unfolding holds_def state state_content_sources state_in_sources .
    moreover have "live_total f (so_sources ?st') = live_total f (so_sources ?st)" for f
      using True by (simp add: live_total_resize)
    moreover have "resize_list (Suc index) 0 (ru_replaced u) ! s \<noteq> 0 \<longleftrightarrow> s \<in> sf_source ` set fs" if "s < Suc index" for s
    proof (cases "s < length (ru_replaced u)")
      case False
      then have "resize_list (Suc index) 0 (ru_replaced u) ! s = 0"
        using that True assms by (simp add: resize_list_def nth_append rebuild_inv_def)
      moreover have "s \<notin> sf_source ` set fs" using inside [of s] False assms unfolding rebuild_inv_def by metis
      ultimately show ?thesis by simp
    next
      case inside_replaced: True
      then have "resize_list (Suc index) 0 (ru_replaced u) ! s = ru_replaced u ! s"
        using True assms by (simp add: resize_list_def nth_append rebuild_inv_def)
      then show ?thesis using assms inside_replaced by (simp add: rebuild_inv_def)
    qed
    ultimately show ?thesis
      using assms True
      by (simp add: rebuild_inv_def rebuild_grown_def arrays_full_def statistics_exact_def)
  qed (use assms in \<open>simp add: rebuild_grown_def\<close>)
qed

lemma rebuild_capture_ok:
  assumes "rebuild_capture facts u0 = (st_ok, u')"
  defines "u \<equiv> rebuild_grown (sf_source facts) u0"
  shows "ru_replaced u ! sf_source facts = 0"
    "u' = u\<lparr>ru_candidate := stored facts (ru_candidate u), ru_replaced := (ru_replaced u)[sf_source facts := 1]\<rparr>"
proof -
  let ?before = "ru_candidate u"
  let ?r = "and_do (append_payload (add_u32 (length (so_modifiers ?before))) facts ?before)
      (append_types (add_u32 (length (so_members ?before))) (add_u32 (length (so_enum_values ?before))) facts)"
  define r where "r = ?r"
  have "rebuild_capture facts u0 =
      (if ru_replaced u ! sf_source facts \<noteq> 0 then rebuild_fail st_invalid_argument u
       else if list_ex (\<lambda>n. u32_max < n) (storage_sizes ?before) then rebuild_fail st_not_available u
       else if fst r \<noteq> st_ok then rebuild_fail (fst r) (u\<lparr>ru_candidate := snd r\<rparr>)
       else if counts_overflow ?before (snd r) then rebuild_fail st_not_available (u\<lparr>ru_candidate := snd r\<rparr>)
       else (st_ok, u\<lparr>ru_candidate := snd r\<lparr>so_sources := (so_sources (snd r))
            [sf_source facts := captured_state (sf_source facts) (storage_sizes ?before) ?before (snd r)],
          so_statistics := rebuild_statistics (snd r)\<rparr>,
        ru_replaced := (ru_replaced u)[sf_source facts := 1]\<rparr>))"
    unfolding rebuild_capture_def Let_def u_def r_def by (rule refl)
  note body = this [unfolded assms(1) rebuild_fail_def]
  have run: "ru_replaced u ! sf_source facts = 0 \<and> fst r = st_ok \<and>
      u' = u\<lparr>ru_candidate := snd r\<lparr>so_sources := (so_sources (snd r))
            [sf_source facts := captured_state (sf_source facts) (storage_sizes ?before) ?before (snd r)],
          so_statistics := rebuild_statistics (snd r)\<rparr>,
        ru_replaced := (ru_replaced u)[sf_source facts := 1]\<rparr>"
    using body by (simp split: if_split_asm)
  then obtain st where st: "r = (st_ok, st)" by (cases r) simp
  from this [unfolded r_def and_do_ok] obtain s where
    s: "append_payload (add_u32 (length (so_modifiers ?before))) facts ?before = (st_ok, s)"
      "append_types (add_u32 (length (so_members ?before))) (add_u32 (length (so_enum_values ?before))) facts s = (st_ok, st)"
    by blast
  have "st = captured facts ?before"
    unfolding captured_def by (rule capture_steps [OF located_add_u32 located_add_u32 located_add_u32 s])
  then show "ru_replaced u ! sf_source facts = 0"
    "u' = u\<lparr>ru_candidate := stored facts ?before, ru_replaced := (ru_replaced u)[sf_source facts := 1]\<rparr>"
    using run st by (simp_all add: stored_def state_of_capture_def)
qed

lemma rebuild_replace_inv:
  assumes inv: "rebuild_inv u0 fs" and run: "rebuild_replace facts operation u0 out = (st_ok, u', out')"
  shows "rebuild_inv u' (fs @ [facts])" "facts_valid facts" "out' = out"
proof -
  have capture: "replace_gate facts operation out = (st_ok, out')" "rebuild_capture facts u0 = (st_ok, u')"
    and nz: "sf_source facts \<noteq> 0"
    using run inv by (auto simp: rebuild_replace_def rebuild_inv_def split: if_splits prod.splits)
  show "facts_valid facts" "out' = out" using replace_gate_ok [OF capture(1)] by blast+
  define u where "u = rebuild_grown (sf_source facts) u0"
  have u: "rebuild_inv u fs" "sf_source facts < length (so_sources (ru_candidate u))"
    unfolding u_def by (rule rebuild_grown_inv [OF inv])+
  have free: "ru_replaced u ! sf_source facts = 0"
    and u': "u' = u\<lparr>ru_candidate := stored facts (ru_candidate u), ru_replaced := (ru_replaced u)[sf_source facts := 1]\<rparr>"
    using rebuild_capture_ok [OF capture(2)] by (simp_all add: u_def)
  have fresh: "sf_source facts \<notin> sf_source ` set fs"
    using u free unfolding rebuild_inv_def by metis
  then have none: "contents_of fs (sf_source facts) = None" by (simp add: contents_of_None)
  then have absent: "storage_state (ru_candidate u) (sf_source facts) = None"
    using u(1) unfolding rebuild_inv_def holds_def by (auto dest!: spec [of _ "sf_source facts"])
  have contents: "contents_of (fs @ [facts]) = (contents_of fs)(sf_source facts \<mapsto> facts_content facts)"
    using none by (auto simp: contents_of_def map_add_def fun_eq_iff split: option.splits)
  have len: "length (so_sources (stored facts (ru_candidate u))) = length (so_sources (ru_candidate u))"
    by (simp add: stored_def)
  have "holds (stored facts (ru_candidate u)) (contents_of (fs @ [facts]))"
    unfolding contents using u nz by (intro stored_holds) (simp_all add: rebuild_inv_def)
  moreover have "arrays_full (stored facts (ru_candidate u))"
    "statistics_exact (so_sources (stored facts (ru_candidate u))) (so_statistics (stored facts (ru_candidate u)))"
    using u nz absent by (intro stored_statistics; simp add: rebuild_inv_def)+
  ultimately show "rebuild_inv u' (fs @ [facts])"
    using u nz fresh len by (auto simp: rebuild_inv_def u' nth_list_update)
qed

text \<open>Replacing Sources one after the other, up to the first failure; then publication.\<close>

fun rebuild_each ::
  "nat \<Rightarrow> source_facts list \<Rightarrow> rebuild_update \<Rightarrow> diagnostic_buffer \<Rightarrow> status_code \<times> rebuild_update \<times> diagnostic_buffer" where
  "rebuild_each operation [] u out = (st_ok, u, out)"
| "rebuild_each operation (f # fs) u out =
     (case rebuild_replace f operation u out of (st, u', out') \<Rightarrow>
        if st = st_ok then rebuild_each operation fs u' out' else (st, u', out'))"

definition full_rebuild ::
  "nat \<Rightarrow> source_facts list \<Rightarrow> contribution_cache \<Rightarrow> diagnostic_buffer \<Rightarrow>
    status_code \<times> contribution_cache \<times> diagnostic_buffer" where
  "full_rebuild operation fs c out =
     (case rebuild_each operation fs begin_rebuild out of (st, u, out') \<Rightarrow>
        if st \<noteq> st_ok then (st, c, out')
        else case rebuild_prepare u of (st, u') \<Rightarrow>
            (st, (if st = st_ok then snd (rebuild_publish u' c) else c), out'))"

lemma rebuild_each_inv:
  "rebuild_each operation fs u out = (st_ok, u', out') \<Longrightarrow> rebuild_inv u done \<Longrightarrow>
   rebuild_inv u' (done @ fs) \<and> (\<forall>f \<in> set fs. facts_valid f) \<and> out' = out"
proof (induction fs arbitrary: u out "done")
  case (Cons f fs)
  then obtain u1 out1 where step: "rebuild_replace f operation u out = (st_ok, u1, out1)"
    "rebuild_each operation fs u1 out1 = (st_ok, u', out')"
    by (auto split: prod.splits if_splits)
  note inv = rebuild_replace_inv [OF Cons.prems(2) step(1)]
  from Cons.IH [OF step(2) inv(1)] inv(2,3) show ?case by simp
qed simp

text \<open>What is true of every published cache.\<close>

definition cache_wf :: "contribution_cache \<Rightarrow> bool" where
  "cache_wf c \<longleftrightarrow>
     holds (cc_committed c) (cache_content c) \<and> statistics_exact (so_sources (cc_committed c)) (cc_statistics c) \<and>
     cc_complete c"

lemma holds_self: "holds st m \<Longrightarrow> holds st (storage_content st)"
  using holds_content [of st m] by (metis ext)

lemma full_rebuild_contents:
  assumes "full_rebuild operation fs c out = (st_ok, c', out')"
  shows "cache_content c' = contents_of fs" "cache_wf c'" "\<forall>f \<in> set fs. facts_valid f" "distinct (map sf_source fs)"
    "out' = out"
proof -
  obtain u where u: "rebuild_each operation fs begin_rebuild out = (st_ok, u, out')"
    and pub: "rebuild_prepare u = (st_ok, u\<lparr>ru_prepared := True\<rparr>)" "c' = snd (rebuild_publish (u\<lparr>ru_prepared := True\<rparr>) c)"
    using assms by (auto simp: full_rebuild_def rebuild_prepare_def split: prod.splits if_splits)
  have inv: "rebuild_inv u fs" "\<forall>f \<in> set fs. facts_valid f" "out' = out"
    using rebuild_each_inv [OF u rebuild_inv_begin] by simp_all
  then have c': "cc_committed c' = ru_candidate u" "cc_statistics c' = so_statistics (ru_candidate u)" "cc_complete c'"
    using pub(2) by (simp_all add: rebuild_publish_def rebuild_inv_def)
  have h: "holds (ru_candidate u) (contents_of fs)" using inv(1) by (simp add: rebuild_inv_def)
  show contents: "cache_content c' = contents_of fs" by (rule ext) (simp add: cache_content_def c' holds_content [OF h])
  show "cache_wf c'" using inv(1) h by (simp add: cache_wf_def contents c' rebuild_inv_def)
  show "\<forall>f \<in> set fs. facts_valid f" "distinct (map sf_source fs)" "out' = out"
    using inv by (simp_all add: rebuild_inv_def)
qed

end
