(* ===== verification/Contribution_Incremental.thy ===== *)
theory Contribution_Incremental
  imports Contribution_Sparse Contribution_Rebuild
begin

text \<open>
  What a sparse update does to the contents of a cache: the changed Sources get their new content or lose it, all
  others keep theirs, the statistics stay exact; so an incremental update ends where a full rebuild would.
\<close>

section \<open>The committed arrays with the candidate's behind them\<close>

lemma extended_arrays [simp]:
  "so_types (extended st cand) = so_types st @ so_types cand"
  "so_members (extended st cand) = so_members st @ so_members cand"
  "so_modifiers (extended st cand) = so_modifiers st @ so_modifiers cand"
  "so_enum_values (extended st cand) = so_enum_values st @ so_enum_values cand"
  "so_objects (extended st cand) = so_objects st @ so_objects cand"
  "so_links (extended st cand) = so_links st @ so_links cand"
  "so_sources (extended st cand) = so_sources st"
  by (simp_all add: extended_def)

lemma extended_keeps:
  assumes "state_in st v"
  shows "state_content (extended st cand) v = state_content st v" "state_in (extended st cand) v"
  using assms by (simp_all add: state_in_def range_in_def state_content_def checked_span_kept Let_def)

lemma extended_capture:
  "extended st (capture_at (length (so_members (extended st cand))) (length (so_enum_values (extended st cand)))
     (length (so_modifiers (extended st cand))) facts cand) = captured facts (extended st cand)"
  by (simp add: captured_def capture_at_def extended_def)

lemma storage_sizes_extended:
  "storage_sizes (extended st cand) = map (\<lambda>i. storage_sizes st ! i + storage_sizes cand ! i) [0..<6]"
  by (simp add: storage_sizes_def upt_rec)

text \<open>The state does not depend on where no modifiers begin.\<close>

lemma no_modifiers:
  assumes "facts_valid facts" "sf_members facts = []" "sf_objects facts = []"
  shows "sf_modifiers facts = []"
  using assms by (simp add: facts_valid_def type_modifiers_ok_def dense_ranges_def)

lemma captured_content_moved:
  assumes "sf_members facts = []" "sf_objects facts = []" "sf_modifiers facts = []"
    and v: "v = (state_of_capture facts st)\<lparr>cs_modifiers := \<lparr>fr_begin = b, fr_count = 0\<rparr>\<rparr>"
  shows "state_content (captured facts st) v = facts_content facts"
proof -
  have "state_content (captured facts st) v = state_content (captured facts st) (state_of_capture facts st)"
    using assms(1-3)
    by (simp add: v state_content_def Let_def checked_span_def state_of_capture_def captured_state_def storage_sizes_def
        captured_def capture_at_def)
  then show ?thesis by (simp add: captured_content)
qed

section \<open>The invariant of a sparse update\<close>

definition patch_content :: "contribution_storage \<Rightarrow> source_patch \<Rightarrow> source_content option" where
  "patch_content st p = (if sp_present p then Some (state_content st (sp_state p)) else None)"

definition patch_ok :: "contribution_storage \<Rightarrow> source_patch \<Rightarrow> bool" where
  "patch_ok st p \<longleftrightarrow> (sp_present p \<longrightarrow> state_in st (sp_state p) \<and> cs_source (sp_state p) = sp_source p)"

text \<open>\<open>changes\<close>: the changed Sources with their new content, nothing for a removed one, in order.\<close>

definition sparse_inv ::
  "contribution_cache \<Rightarrow> sparse_update \<Rightarrow> (nat \<times> source_content option) list \<Rightarrow> bool" where
  "sparse_inv c u changes \<longleftrightarrow>
     su_attached u \<and> su_failure u = st_ok \<and> \<not> su_prepared u \<and> \<not> su_published u \<and>
     su_bases u = storage_sizes (cc_committed c) \<and>
     patch_inv (su_source_index u) (map sp_source (su_source_patches u)) \<and>
     patch_inv (su_construction_index u) (map cp_handle (su_construction_patches u)) \<and>
     (\<forall>p \<in> set (su_source_patches u). patch_ok (extended (cc_committed c) (su_candidate u)) p) \<and>
     map (\<lambda>p. (sp_source p, patch_content (extended (cc_committed c) (su_candidate u)) p)) (su_source_patches u) = changes"

lemma sparse_inv_begin: "sparse_inv c (begin_incremental c) []"
  using patch_inv_empty [of 0] by (simp add: sparse_inv_def begin_incremental_def empty_slots_def)

lemma sparse_inv_reserve:
  assumes "reserve_incremental n k counts (begin_incremental c) = (st_ok, u)"
  shows "sparse_inv c u []"
proof -
  have u: "u = (begin_incremental c)\<lparr>su_source_index := empty_slots (patch_capacity n),
      su_construction_index := empty_slots (patch_capacity k)\<rparr>"
    using assms by (auto simp: reserve_incremental_def sparse_fail_def Let_def split: if_splits)
  have "patch_inv (empty_slots (patch_capacity i)) []" for i
    using patch_capacity_power [of i] by (intro patch_inv_empty) blast
  then show ?thesis by (simp add: u sparse_inv_def begin_incremental_def)
qed

lemma add_source_patch_inv:
  assumes inv: "sparse_inv c u changes" and run: "add_source_patch source u = (st_ok, u')"
  shows "sparse_inv c u' (changes @ [(source, None)])" "source \<notin> set (map sp_source (su_source_patches u))" "source \<noteq> 0"
    "u' = u\<lparr>su_source_index := su_source_index u',
       su_source_patches := su_source_patches u @ [\<lparr>sp_source = source, sp_state = no_state, sp_present = False\<rparr>],
       su_changed := su_changed u @ [source]\<rparr>"
proof -
  let ?keys = "map sp_source (su_source_patches u)"
  have pinv: "patch_inv (su_source_index u) ?keys" using inv by (simp add: sparse_inv_def)
  obtain slots where run': "source \<noteq> 0" "find_source_patch u source = None"
    "patch_insert (su_source_index u) (length ?keys) source = Some slots"
    and u': "u' = u\<lparr>su_source_index := slots,
       su_source_patches := su_source_patches u @ [\<lparr>sp_source = source, sp_state = no_state, sp_present = False\<rparr>],
       su_changed := su_changed u @ [source]\<rparr>"
    using run by (auto simp: add_source_patch_def split: if_splits option.splits)
  have fresh: "source \<notin> set ?keys"
  proof
    assume "source \<in> set ?keys"
    then obtain i where "i < length ?keys" "?keys ! i = source" by (metis in_set_conv_nth)
    then have "patch_find (su_source_index u) (length ?keys) source = Some i" using patch_find_present [OF pinv] by metis
    then show False using run'(2) by (simp add: find_source_patch_def)
  qed
  then show "source \<notin> set (map sp_source (su_source_patches u))" .
  show "source \<noteq> 0" by (rule run')
  show "u' = u\<lparr>su_source_index := su_source_index u',
       su_source_patches := su_source_patches u @ [\<lparr>sp_source = source, sp_state = no_state, sp_present = False\<rparr>],
       su_changed := su_changed u @ [source]\<rparr>" using u' by simp
  show "sparse_inv c u' (changes @ [(source, None)])"
    using inv patch_insert_inv [OF pinv fresh run'(1,3)]
    by (auto simp: sparse_inv_def u' patch_ok_def patch_content_def)
qed

lemma sparse_remove_inv:
  assumes inv: "sparse_inv c u changes" and run: "sparse_remove source u = (st_ok, u')"
  shows "sparse_inv c u' (changes @ [(source, None)])"
proof -
  have "add_source_patch source u = (st_ok, u')"
    using run inv by (auto simp: sparse_remove_def sparse_fail_def sparse_inv_def split: if_splits prod.splits)
  from add_source_patch_inv(1) [OF inv this] show ?thesis .
qed

lemma set_construction_inv:
  assumes inv: "sparse_inv c u changes" and run: "set_construction handle v u = (st_ok, u')"
  shows "sparse_inv c u' changes"
proof -
  let ?patches = "su_construction_patches u" let ?keys = "map cp_handle (su_construction_patches u)"
  have pinv: "patch_inv (su_construction_index u) ?keys" using inv by (simp add: sparse_inv_def)
  obtain i w where add: "add_construction_patch handle u = ((st_ok, i), w)" "handle \<noteq> 0"
    and u': "u' = w\<lparr>su_construction_patches := (su_construction_patches w)
            [i := (su_construction_patches w ! i)\<lparr>cp_state := v\<rparr>]\<rparr>"
    using run inv by (auto simp: set_construction_def sparse_fail_def sparse_inv_def split: if_splits prod.splits)
  have keys: "map cp_handle ((xs :: construction_patch list)[i := (xs ! i)\<lparr>cp_state := v\<rparr>]) = map cp_handle xs" for xs
  proof (cases "i < length xs")
    case True
    then show ?thesis by (simp add: map_update list_update_same_conv)
  qed (simp add: list_update_beyond)
  have "sparse_inv c w changes"
  proof (cases "patch_find (su_construction_index u) (length ?keys) handle")
    case (Some j)
    then show ?thesis using add inv by (simp add: add_construction_patch_def Let_def split: if_splits)
  next
    case None
    obtain slots where slots: "patch_insert (su_construction_index u) (length ?keys) handle = Some slots"
      and w: "w = u\<lparr>su_construction_index := slots,
        su_construction_patches := ?patches @ [\<lparr>cp_handle = handle, cp_state = no_construction\<rparr>]\<rparr>"
      using add None by (auto simp: add_construction_patch_def Let_def split: if_splits option.splits)
    have "handle \<notin> set ?keys"
    proof
      assume "handle \<in> set ?keys"
      then obtain j where "j < length ?keys" "?keys ! j = handle" by (metis in_set_conv_nth)
      then show False using patch_find_present [OF pinv] None by (metis option.simps(3))
    qed
    then show ?thesis
      using inv patch_insert_inv [OF pinv _ add(2) slots] by (simp add: sparse_inv_def w)
  qed
  then show ?thesis by (simp add: sparse_inv_def u' keys)
qed

lemma located_from: "locates (locate_from base local) (base + local)"
  by (auto simp: locates_def locate_from_def absolute_u32_def add_u32_def split: if_splits option.splits)

lemma sparse_capture_ok:
  assumes "sparse_capture facts u = (st_ok, u')"
  defines "cand \<equiv> su_candidate u" and "bases \<equiv> su_bases u" and "sizes \<equiv> storage_sizes (su_candidate u)"
    and "newest \<equiv> length (su_source_patches u) - 1"
  obtains s after where
    "append_payload (locate_from (bases ! 2) (sizes ! 2)) facts cand = (st_ok, s)"
    "append_types (locate_from (bases ! 1) (sizes ! 1)) (locate_from (bases ! 3) (sizes ! 3)) facts s = (st_ok, after)"
    "u' = u\<lparr>su_candidate := after, su_source_patches := (su_source_patches u)
       [newest := (su_source_patches u ! newest)\<lparr>
          sp_state := captured_state (sf_source facts)
            ((map (\<lambda>i. bases ! i + sizes ! i) [0..<6])[2 := to_u32 (bases ! 2 + sizes ! 2)]) cand after,
          sp_present := True\<rparr>]\<rparr>"
proof -
  define payload where "payload = append_payload (locate_from (bases ! 2) (sizes ! 2)) facts cand"
  define r where "r = append_types (locate_from (bases ! 1) (sizes ! 1)) (locate_from (bases ! 3) (sizes ! 3)) facts (snd payload)"
  define final where "final = (su_source_patches u)
       [newest := (su_source_patches u ! newest)\<lparr>
          sp_state := captured_state (sf_source facts)
            ((map (\<lambda>i. bases ! i + sizes ! i) [0..<6])[2 := to_u32 (bases ! 2 + sizes ! 2)]) cand (snd r),
          sp_present := True\<rparr>]"
  have "sparse_capture facts u =
      (if fst payload \<noteq> st_ok then sparse_fail (fst payload) (u\<lparr>su_candidate := snd payload\<rparr>)
       else if locate_failed bases sizes [1, 3, 4, 5] then sparse_fail st_not_available (u\<lparr>su_candidate := snd payload\<rparr>)
       else if fst r \<noteq> st_ok then sparse_fail (fst r) (u\<lparr>su_candidate := snd r\<rparr>)
       else if counts_overflow cand (snd r) then sparse_fail st_not_available (u\<lparr>su_candidate := snd r\<rparr>)
       else if locate_failed bases sizes [0] then sparse_fail st_not_available (u\<lparr>su_candidate := snd r\<rparr>)
       else (st_ok, (u\<lparr>su_candidate := snd r\<rparr>)\<lparr>su_source_patches := final\<rparr>))"
    unfolding sparse_capture_def Let_def final_def r_def payload_def cand_def bases_def sizes_def newest_def by simp
  note body = this [unfolded assms(1) sparse_fail_def]
  have "fst payload = st_ok \<and> fst r = st_ok \<and> u' = (u\<lparr>su_candidate := snd r\<rparr>)\<lparr>su_source_patches := final\<rparr>"
    using body by (simp split: if_split_asm)
  then show thesis
    by (intro that [of "snd payload" "snd r"]) (simp_all add: payload_def r_def final_def prod_eq_iff)
qed

lemma sparse_replace_inv:
  assumes inv: "sparse_inv c u changes" and run: "sparse_replace facts operation u out = (st_ok, u', out')"
  shows "sparse_inv c u' (changes @ [(sf_source facts, Some (facts_content facts))])" "facts_valid facts" "out' = out"
proof -
  obtain w where gate: "replace_gate facts operation out = (st_ok, out')"
    and patch: "add_source_patch (sf_source facts) u = (st_ok, w)" and capture: "sparse_capture facts w = (st_ok, u')"
    using run inv by (auto simp: sparse_replace_def sparse_inv_def split: if_splits prod.splits)
  show valid: "facts_valid facts" and "out' = out" using replace_gate_ok [OF gate] by blast+
  note added = add_source_patch_inv [OF inv patch]
  let ?c = "cc_committed c" let ?T = "extended ?c (su_candidate u)"
  let ?bases = "storage_sizes ?c" and ?sizes = "storage_sizes (su_candidate u)"
  let ?begins = "(map (\<lambda>i. ?bases ! i + ?sizes ! i) [0..<6])[2 := to_u32 (?bases ! 2 + ?sizes ! 2)]"
  let ?new = "\<lparr>sp_source = sf_source facts, sp_state = no_state, sp_present = False\<rparr>"
  have w: "su_candidate w = su_candidate u" "su_bases w = ?bases" "su_source_patches w = su_source_patches u @ [?new]"
    using inv by (subst added(4); simp add: sparse_inv_def)+
  obtain s after where
    s: "append_payload (locate_from (?bases ! 2) (?sizes ! 2)) facts (su_candidate u) = (st_ok, s)"
      "append_types (locate_from (?bases ! 1) (?sizes ! 1)) (locate_from (?bases ! 3) (?sizes ! 3)) facts s = (st_ok, after)"
    and u': "u' = w\<lparr>su_candidate := after, su_source_patches := su_source_patches u @ [?new\<lparr>
          sp_state := captured_state (sf_source facts) ?begins (su_candidate u) after, sp_present := True\<rparr>]\<rparr>"
    using sparse_capture_ok [OF capture] w by (simp add: nth_append list_update_append) blast
  have "after = capture_at (?bases ! 1 + ?sizes ! 1) (?bases ! 3 + ?sizes ! 3) (?bases ! 2 + ?sizes ! 2) facts (su_candidate u)"
    by (rule capture_steps [OF located_from located_from located_from s])
  then have after: "extended ?c after = captured facts ?T"
    using extended_capture [of ?c "su_candidate u" facts] by (simp add: storage_sizes_def)
  have counts: "storage_sizes after ! i - ?sizes ! i = storage_sizes (extended ?c after) ! i - storage_sizes ?T ! i" if "i < 6" for i
  proof -
    have "storage_sizes (extended ?c st) ! i = ?bases ! i + storage_sizes st ! i" for st
      using that by (simp add: storage_sizes_extended)
    then show ?thesis by simp
  qed
  define v where "v = captured_state (sf_source facts) ?begins (su_candidate u) after"
  define k where "k = \<lparr>fr_begin = to_u32 (?bases ! 2 + ?sizes ! 2), fr_count = fr_count (cs_modifiers (state_of_capture facts ?T))\<rparr>"
  have v: "v = (state_of_capture facts ?T)\<lparr>cs_modifiers := k\<rparr>"
    using counts [of 0] counts [of 1] counts [of 2] counts [of 3] counts [of 4] counts [of 5]
    by (simp add: v_def k_def state_of_capture_def captured_state_def Let_def after storage_sizes_extended [of ?c "su_candidate u"] nth_list_update)
  have own: "state_content (captured facts ?T) v = facts_content facts \<and> state_in (captured facts ?T) v"
  proof (cases "sf_members facts = [] \<and> sf_objects facts = []")
    case True
    then have none: "sf_modifiers facts = []" using no_modifiers [OF valid] by blast
    then have "fr_count k = 0"
      by (simp add: k_def state_of_capture_def captured_state_def Let_def storage_sizes_def captured_def capture_at_def)
    then have "\<lparr>fr_begin = fr_begin k, fr_count = 0\<rparr> = k" by (cases k) simp
    then have v': "v = (state_of_capture facts ?T)\<lparr>cs_modifiers := \<lparr>fr_begin = fr_begin k, fr_count = 0\<rparr>\<rparr>"
      using v by simp
    have "fr_begin k \<le> length (so_modifiers (captured facts ?T))"
      by (simp add: k_def to_u32_def storage_sizes_def captured_def capture_at_def)
    then have "state_in (captured facts ?T) v"
      using captured_in [of facts ?T] \<open>fr_count k = 0\<close> by (simp add: state_in_def v range_in_def)
    then show ?thesis using captured_content_moved [OF _ _ none v'] True by simp
  next
    case False
    obtain x where "locate_from (?bases ! 2) (?sizes ! 2) x \<noteq> None"
    proof -
      have "\<exists>x. locate_from (?bases ! 2) (?sizes ! 2) x \<noteq> None"
      proof (rule ccontr)
        assume none: "\<nexists>x. locate_from (?bases ! 2) (?sizes ! 2) x \<noteq> None"
        then have "fst (append_payload (locate_from (?bases ! 2) (?sizes ! 2)) facts (su_candidate u)) \<noteq> st_ok"
          using False
          by (cases "sf_members facts"; cases "sf_objects facts")
            (auto simp: append_payload_def and_do_def append_member_def append_object_def append_modifiers_def
              append_enum_values_def)
        then show False using s(1) by simp
      qed
      then show thesis using that by blast
    qed
    then have "?bases ! 2 + ?sizes ! 2 \<le> u32_max"
      by (auto simp: locate_from_def absolute_u32_def split: if_splits)
    then have "k = cs_modifiers (state_of_capture facts ?T)"
      by (simp add: k_def state_of_capture_def captured_state_def Let_def storage_sizes_extended numeral_2_eq_2)
    then have "v = state_of_capture facts ?T" by (simp add: v)
    then show ?thesis using captured_content captured_in by simp
  qed
  have src: "cs_source v = sf_source facts" by (simp add: v)
  have old: "patch_ok (captured facts ?T) p \<and> patch_content (captured facts ?T) p = patch_content ?T p"
    if "p \<in> set (su_source_patches u)" for p
  proof -
    have "patch_ok ?T p" using inv that by (simp add: sparse_inv_def)
    then show ?thesis using capture_keeps [of ?T "sp_state p"] by (auto simp: patch_ok_def patch_content_def captured_def)
  qed
  let ?p = "?new\<lparr>sp_state := v, sp_present := True\<rparr>"
  have newest: "patch_ok (captured facts ?T) ?p" "patch_content (captured facts ?T) ?p = Some (facts_content facts)"
    using own src by (simp_all add: patch_ok_def patch_content_def)
  have winv: "sparse_inv c w (changes @ [(sf_source facts, None)])" by (rule added(1))
  have fields: "su_attached u'" "su_failure u' = st_ok" "\<not> su_prepared u'" "\<not> su_published u'"
    "su_bases u' = ?bases" "su_source_index u' = su_source_index w" "su_construction_index u' = su_construction_index w"
    "su_construction_patches u' = su_construction_patches w" "su_candidate u' = after"
    "su_source_patches u' = su_source_patches u @ [?p]"
    using winv unfolding u' v_def [symmetric] sparse_inv_def by simp_all
  have keys: "map sp_source (su_source_patches u @ [?p]) = map sp_source (su_source_patches w)" by (simp add: w)
  have all_ok: "\<forall>p \<in> set (su_source_patches u @ [?p]). patch_ok (captured facts ?T) p"
    using old newest(1) by simp
  have "map (\<lambda>p. (sp_source p, patch_content (captured facts ?T) p)) (su_source_patches u) =
      map (\<lambda>p. (sp_source p, patch_content ?T p)) (su_source_patches u)"
    using old by (intro map_cong) simp_all
  also have "\<dots> = changes" using inv by (simp add: sparse_inv_def)
  finally have "map (\<lambda>p. (sp_source p, patch_content (captured facts ?T) p)) (su_source_patches u @ [?p]) =
      changes @ [(sf_source facts, Some (facts_content facts))]"
    using newest(2) by simp
  then show "sparse_inv c u' (changes @ [(sf_source facts, Some (facts_content facts))])"
    using winv all_ok fields(1-4) unfolding sparse_inv_def fields(5-) keys after by simp
qed

section \<open>Publication\<close>

lemma foldl_max_ge: "m \<le> foldl max m xs" for m :: nat
proof (induction xs arbitrary: m)
  case (Cons x xs)
  have "m \<le> max m x" by simp
  also have "\<dots> \<le> foldl max (max m x) xs" by (rule Cons.IH)
  finally show ?case by simp
qed simp

lemma foldl_max_mem: "x \<in> set xs \<Longrightarrow> x \<le> foldl max m xs" for m :: nat
proof (induction xs arbitrary: m)
  case (Cons y xs)
  then show ?case using foldl_max_ge [of "max m y" xs] by auto
qed simp

lemma distinct_keys: "distinct (map f (p # ps)) \<Longrightarrow> q \<in> set ps \<Longrightarrow> f q \<noteq> f p"
  by (metis distinct.simps(2) image_eqI list.set_map list.simps(9))

definition find_patch :: "source_patch list \<Rightarrow> nat \<Rightarrow> source_patch option" where
  "find_patch ps s = find (\<lambda>p. sp_source p = s) ps"

lemma length_patch_sources [simp]: "length (patch_sources ps xs) = length xs"
  by (induction ps arbitrary: xs) (simp_all add: patch_sources_def)

lemma patch_sources_Cons:
  "patch_sources (p # ps) xs = patch_sources ps (xs[sp_source p := (if sp_present p then sp_state p else no_state)])"
  by (simp add: patch_sources_def)

lemma patch_sources_at:
  assumes "distinct (map sp_source ps)" "\<forall>p \<in> set ps. sp_source p < length xs \<and> sp_source p \<noteq> 0 \<and>
      (sp_present p \<longrightarrow> cs_source (sp_state p) = sp_source p)"
  shows "state_at (patch_sources ps xs) s =
    (case find_patch ps s of None \<Rightarrow> state_at xs s | Some p \<Rightarrow> if sp_present p then Some (sp_state p) else None)"
  using assms
proof (induction ps arbitrary: xs)
  case Nil
  then show ?case by (simp add: patch_sources_def find_patch_def)
next
  case (Cons p ps)
  let ?xs = "xs[sp_source p := (if sp_present p then sp_state p else no_state)]"
  have p: "sp_source p < length xs" "sp_source p \<noteq> 0" "sp_present p \<longrightarrow> cs_source (sp_state p) = sp_source p"
    using Cons.prems(2) by simp_all
  have IH: "state_at (patch_sources ps ?xs) s =
      (case find_patch ps s of None \<Rightarrow> state_at ?xs s | Some p \<Rightarrow> if sp_present p then Some (sp_state p) else None)"
    by (rule Cons.IH) (use Cons.prems in auto)
  have fresh: "find_patch ps (sp_source p) = None"
    using distinct_keys [OF Cons.prems(1)] by (auto simp: find_patch_def find_None_iff)
  show ?case
  proof (cases "s = sp_source p")
    case True
    then have "state_at ?xs s = (if sp_present p then Some (sp_state p) else None)"
      using p by (simp add: state_at_update no_state_def)
    then show ?thesis using True IH fresh by (simp add: patch_sources_Cons find_patch_def)
  next
    case False
    then have same: "state_at ?xs s = state_at xs s" using p by (simp add: state_at_update)
    have skip: "find_patch (p # ps) s = find_patch ps s" using False by (simp add: find_patch_def)
    show ?thesis unfolding patch_sources_Cons IH same skip by (rule refl)
  qed
qed

text \<open>Statistics.\<close>

lemma statistics_update:
  assumes exact: "statistics_exact xs s" and i: "i < length xs" "i \<noteq> 0"
    and sub: "(case state_at xs i of None \<Rightarrow> Some s | Some old \<Rightarrow> subtract_state old s) = Some s'"
    and v: "present \<Longrightarrow> cs_source v = i"
  shows "statistics_exact (xs[i := (if present then v else no_state)]) (if present then add_state v s' else s')"
proof -
  let ?w = "if present then v else no_state"
  have new: "state_at (xs[i := ?w]) i = (if present then Some v else None)"
    using i v by (simp add: state_at_update no_state_def)
  have total: "live_total f (xs[i := ?w]) + state_count f (state_at xs i) =
      live_total f xs + (if present then f v else 0)" for f
    using live_total_update [OF i(1), of f ?w] by (simp add: new state_count_def)
  show ?thesis
  proof (cases "state_at xs i")
    case None
    then have "s' = s" using sub by simp
    moreover have "live_total f (xs[i := ?w]) = live_total f xs + (if present then f v else 0)" for f
      using total [of f] None by (simp add: state_count_def)
    ultimately show ?thesis using exact by (simp add: statistics_exact_def add_state_def)
  next
    case (Some old)
    have plus: "live_total f (xs[i := ?w]) + f old = live_total f xs + (if present then f v else 0)" for f
      using total [of f] Some by (simp add: state_count_def)
    have sub': "sn_sources s' + 1 = sn_sources s \<and>
        sn_type_declarations s' + fr_count (cs_types old) = sn_type_declarations s \<and>
        sn_members s' + fr_count (cs_members old) = sn_members s \<and>
        sn_modifiers s' + fr_count (cs_modifiers old) = sn_modifiers s \<and>
        sn_enum_values s' + fr_count (cs_enum_values old) = sn_enum_values s \<and>
        sn_objects s' + fr_count (cs_objects old) = sn_objects s \<and>
        sn_links s' + fr_count (cs_links old) = sn_links s"
      using sub Some by (auto simp: subtract_state_def subtract_count_def split: if_splits)
    note p = plus [of "\<lambda>_. 1"] plus [of "fr_count \<circ> cs_types"] plus [of "fr_count \<circ> cs_members"]
      plus [of "fr_count \<circ> cs_modifiers"] plus [of "fr_count \<circ> cs_enum_values"] plus [of "fr_count \<circ> cs_objects"]
      plus [of "fr_count \<circ> cs_links"]
    show ?thesis using p sub' exact unfolding statistics_exact_def by (auto simp: add_state_def)
  qed
qed

lemma statistics_subtract:
  assumes exact: "statistics_exact xs s" and old: "state_at xs i = Some old"
  shows "subtract_state old s \<noteq> None"
proof -
  have i: "i < length xs" using old by (auto simp: state_at_def split: if_splits)
  have le: "f old \<le> live_total f xs" for f
    using live_total_update [OF i, of f no_state] old
    by (simp add: state_count_def state_at_update [OF i] no_state_def split: if_splits)
  show ?thesis
    using exact le [of "\<lambda>_. 1"] le [of "fr_count \<circ> cs_types"] le [of "fr_count \<circ> cs_members"]
      le [of "fr_count \<circ> cs_modifiers"] le [of "fr_count \<circ> cs_enum_values"] le [of "fr_count \<circ> cs_objects"]
      le [of "fr_count \<circ> cs_links"]
    by (auto simp: statistics_exact_def subtract_state_def subtract_count_def)
qed

lemma cache_touch_simps [simp]:
  "cc_committed (cache_touch c s) = cc_committed c" "cc_statistics (cache_touch c s) = cc_statistics c"
  "cc_complete (cache_touch c s) = cc_complete c" "cache_state (cache_touch c s) = cache_state c"
  by (auto simp: cache_touch_def cache_state_def)

lemma patch_statistics_exact:
  assumes "statistics_exact xs s" "distinct (map sp_source ps)"
    "\<forall>p \<in> set ps. sp_source p < length xs \<and> sp_source p \<noteq> 0 \<and> (sp_present p \<longrightarrow> cs_source (sp_state p) = sp_source p)"
    "\<forall>p \<in> set ps. state_at xs (sp_source p) = cache_state c (sp_source p)"
  shows "\<exists>s' c'. patch_statistics c ps s = (Some s', c') \<and> statistics_exact (patch_sources ps xs) s' \<and>
    cc_committed c' = cc_committed c \<and> cc_complete c' = cc_complete c"
  using assms
proof (induction ps arbitrary: xs s c)
  case Nil
  then show ?case by (simp add: patch_sources_def)
next
  case (Cons p ps)
  let ?i = "sp_source p" and ?v = "sp_state p"
  let ?xs = "xs[?i := (if sp_present p then ?v else no_state)]"
  have p: "?i < length xs" "?i \<noteq> 0" "sp_present p \<Longrightarrow> cs_source ?v = ?i" "state_at xs ?i = cache_state c ?i"
    using Cons.prems(3,4) by simp_all
  have "(case state_at xs ?i of None \<Rightarrow> Some s | Some old \<Rightarrow> subtract_state old s) \<noteq> None"
    using statistics_subtract [OF Cons.prems(1)] by (auto split: option.splits)
  then obtain s1 where s1: "(case state_at xs ?i of None \<Rightarrow> Some s | Some old \<Rightarrow> subtract_state old s) = Some s1" by blast
  let ?s = "if sp_present p then add_state ?v s1 else s1"
  have "\<exists>s' c'. patch_statistics (cache_touch c ?i) ps ?s = (Some s', c') \<and> statistics_exact (patch_sources ps ?xs) s' \<and>
      cc_committed c' = cc_committed (cache_touch c ?i) \<and> cc_complete c' = cc_complete (cache_touch c ?i)"
  proof (rule Cons.IH)
    show "statistics_exact ?xs ?s" by (rule statistics_update [OF Cons.prems(1) p(1,2) s1 p(3)])
    show "\<forall>q \<in> set ps. state_at ?xs (sp_source q) = cache_state (cache_touch c ?i) (sp_source q)"
    proof
      fix q assume q: "q \<in> set ps"
      then have "sp_source q \<noteq> ?i" using distinct_keys [OF Cons.prems(2)] by blast
      then show "state_at ?xs (sp_source q) = cache_state (cache_touch c ?i) (sp_source q)"
        using Cons.prems(4) q p(1) by (simp add: state_at_update)
    qed
  qed (use Cons.prems in auto)
  then show ?case using s1 p(4) by (simp add: Let_def patch_sources_Cons)
qed

end
