(* ===== verification/Contribution_Refinement.thy ===== *)
theory Contribution_Refinement
  imports Contribution_Incremental
begin

text \<open>
  Whole updates of the contributions: an incremental update changes the contents of exactly the requested Sources,
  ends with the same contents and statistics as a full rebuild of the resulting Sources, and the semantic filter
  compares contents.
\<close>

section \<open>Publication of a sparse update\<close>

lemma cache_touch_patches:
  "patch_statistics c ps s = (r, c') \<Longrightarrow> cc_committed c' = cc_committed c \<and> cc_complete c' = cc_complete c"
proof (induction ps arbitrary: c s)
  case (Cons p ps)
  show ?case
  proof (cases "case cache_state c (sp_source p) of None \<Rightarrow> Some s | Some old \<Rightarrow> subtract_state old s")
    case None
    then show ?thesis using Cons.prems by (auto simp: Let_def)
  next
    case (Some s')
    then have "patch_statistics (cache_touch c (sp_source p)) ps (if sp_present p then add_state (sp_state p) s' else s') = (r, c')"
      using Cons.prems by (simp add: Let_def)
    from Cons.IH [OF this] show ?thesis by simp
  qed
qed simp

text \<open>What a successful preparation leaves for the publication.\<close>

lemma sparse_prepare_ok:
  assumes "sparse_prepare cap c u = (st_ok, u', c')"
  obtains statistics source_size construction_size where
    "patch_statistics c (su_source_patches u) (cc_statistics c) = (Some statistics, c')"
    "u' = u\<lparr>su_statistics := statistics, su_source_size := source_size, su_construction_size := construction_size,
        su_prepared := True\<rparr>"
    "source_size = Suc (foldl max (length (so_sources (cc_committed c)) - 1) (map sp_source (su_source_patches u)))"
    "construction_size = Suc (foldl max (length (so_construction (cc_committed c)) - 1) (map cp_handle (su_construction_patches u)))"
proof -
  define source_size where
    "source_size = Suc (foldl max (length (so_sources (cc_committed c)) - 1) (map sp_source (su_source_patches u)))"
  define construction_size where "construction_size =
     Suc (foldl max (length (so_construction (cc_committed c)) - 1) (map cp_handle (su_construction_patches u)))"
  have live: "su_failure u = st_ok" "\<not> (\<not> su_attached u \<or> su_prepared u \<or> su_published u \<or> \<not> cc_complete c)"
    using assms by (auto simp: sparse_prepare_def split: if_splits)
  obtain r touched where r: "patch_statistics c (su_source_patches u) (cc_statistics c) = (r, touched)" by fastforce
  have "r \<noteq> None" using assms live r by (cases r) (auto simp: sparse_prepare_def)
  then obtain statistics where st: "r = Some statistics" by blast
  let ?sized = "u\<lparr>su_statistics := statistics, su_source_size := source_size, su_construction_size := construction_size\<rparr>"
  have "sparse_prepare cap c u =
      (if u32_max \<le> source_size - 1 \<or> u32_max \<le> construction_size - 1 then (st_not_available, u, touched)
       else if cc_baseline c
       then (if cc_read_status touched \<noteq> st_ok then (cc_read_status touched, ?sized, touched)
             else (st_ok, ?sized\<lparr>su_prepared := True\<rparr>, touched))
       else if exceeds cap ?sized then (st_rebuild_required, ?sized, touched)
       else (st_ok, ?sized\<lparr>su_prepared := True\<rparr>, touched))"
    unfolding sparse_prepare_def Let_def r st source_size_def construction_size_def using live by simp
  then have "u' = ?sized\<lparr>su_prepared := True\<rparr> \<and> c' = touched"
    using assms by (simp split: if_split_asm) 
  then show thesis
    by (intro that [of statistics construction_size source_size]) (simp_all add: r st source_size_def construction_size_def)
qed

lemma find_patch_changes:
  "map_of (map (\<lambda>p. (sp_source p, patch_content st p)) ps) s = map_option (patch_content st) (find_patch ps s)"
  by (induction ps) (auto simp: find_patch_def)

lemma find_patchD: "find_patch ps s = Some p \<Longrightarrow> p \<in> set ps \<and> sp_source p = s"
  by (auto simp: find_patch_def find_Some_iff)

definition override :: "(nat \<Rightarrow> source_content option) \<Rightarrow> (nat \<times> source_content option) list \<Rightarrow> nat \<Rightarrow> source_content option" where
  "override m changes s = (case map_of changes s of None \<Rightarrow> m s | Some k \<Rightarrow> k)"

lemma sparse_publish_contents:
  assumes wf: "cache_wf c" and inv: "sparse_inv c u changes" and prep: "sparse_prepare cap c u = (st_ok, u1, c1)"
  defines "c' \<equiv> snd (sparse_publish u1 c1)"
  shows "cache_content c' = override (cache_content c) changes" "cache_wf c'"
proof -
  obtain statistics source_size construction_size where
    stats: "patch_statistics c (su_source_patches u) (cc_statistics c) = (Some statistics, c1)"
    and u1: "u1 = u\<lparr>su_statistics := statistics, su_source_size := source_size, su_construction_size := construction_size,
        su_prepared := True\<rparr>"
    and size: "source_size = Suc (foldl max (length (so_sources (cc_committed c)) - 1) (map sp_source (su_source_patches u)))"
    by (rule sparse_prepare_ok [OF prep])
  let ?ps = "su_source_patches u" and ?st = "cc_committed c"
  let ?T = "extended ?st (su_candidate u)"
  let ?xs = "resize_list source_size no_state (so_sources ?st)"
  have c1: "cc_committed c1 = ?st" using cache_touch_patches [OF stats] by simp
  have keys: "distinct (map sp_source ?ps)" "\<forall>p \<in> set ?ps. sp_source p \<noteq> 0"
    using inv unfolding sparse_inv_def patch_inv_def by auto
  have ok: "patch_ok ?T p" if "p \<in> set ?ps" for p using inv that by (simp add: sparse_inv_def)
  have len: "length (so_sources ?st) \<le> source_size"
    using foldl_max_ge [of "length (so_sources ?st) - 1" "map sp_source ?ps"] by (simp add: size)
  have slots: "\<forall>p \<in> set ?ps. sp_source p < length ?xs \<and> sp_source p \<noteq> 0 \<and>
      (sp_present p \<longrightarrow> cs_source (sp_state p) = sp_source p)"
    using keys(2) ok foldl_max_mem [of _ "map sp_source ?ps" "length (so_sources ?st) - 1"]
    by (auto simp: size patch_ok_def less_Suc_eq_le)
  define sources where "sources = patch_sources ?ps ?xs"
  have at: "state_at sources s = (case find_patch ?ps s of None \<Rightarrow> state_at (so_sources ?st) s
      | Some p \<Rightarrow> if sp_present p then Some (sp_state p) else None)" for s
    unfolding sources_def patch_sources_at [OF keys(1) slots] state_at_resize [OF len] by (rule refl)
  have attached: "su_attached u" "\<not> su_published u" using inv by (simp_all add: sparse_inv_def)
  have c': "so_sources (cc_committed c') = sources" "cc_statistics c' = statistics" "cc_complete c'"
    and content: "state_content (cc_committed c') = state_content ?T" and inside: "state_in (cc_committed c') = state_in ?T"
    unfolding c'_def sparse_publish_def Let_def u1 sources_def using attached
    by (simp_all add: c1 size)
  have "holds (cc_committed c') (override (cache_content c) changes)"
    unfolding holds_def
  proof
    fix s
    have m: "override (cache_content c) changes s =
        (case find_patch ?ps s of None \<Rightarrow> cache_content c s | Some p \<Rightarrow> patch_content ?T p)"
      using inv find_patch_changes [of ?T ?ps s] by (cases "find_patch ?ps s") (simp_all add: override_def sparse_inv_def)
    have state: "storage_state (cc_committed c') s = state_at sources s" by (simp add: storage_state_at c')
    show "case override (cache_content c) changes s of None \<Rightarrow> storage_state (cc_committed c') s = None
        | Some k \<Rightarrow> \<exists>v. storage_state (cc_committed c') s = Some v \<and> state_in (cc_committed c') v \<and>
            state_content (cc_committed c') v = k"
    proof (cases "find_patch ?ps s")
      case (Some p)
      then have "patch_ok ?T p" using ok find_patchD by blast
      then show ?thesis
        unfolding m state at Some content inside by (auto simp: patch_ok_def patch_content_def)
    next
      case None
      have "case cache_content c s of None \<Rightarrow> storage_state ?st s = None
          | Some k \<Rightarrow> \<exists>v. storage_state ?st s = Some v \<and> state_in ?st v \<and> state_content ?st v = k"
        using wf by (simp add: cache_wf_def holds_def)
      then have old: "case cache_content c s of None \<Rightarrow> state_at (so_sources ?st) s = None
          | Some k \<Rightarrow> \<exists>v. state_at (so_sources ?st) s = Some v \<and> state_in ?T v \<and> state_content ?T v = k"
        using extended_keeps [of ?st _ "su_candidate u"]
        by (cases "cache_content c s") (fastforce simp: storage_state_at)+
      show ?thesis unfolding m state at None content inside option.case by (rule old)
    qed
  qed
  then have contents: "cache_content c' = override (cache_content c) changes" and h: "holds (cc_committed c') (cache_content c')"
    using holds_content [of "cc_committed c'"] holds_self [of "cc_committed c'"]
    by (auto simp: cache_content_def [abs_def] fun_eq_iff)
  show "cache_content c' = override (cache_content c) changes" by (rule contents)
  have exact: "statistics_exact ?xs (cc_statistics c)"
    using wf len by (simp add: cache_wf_def statistics_exact_def live_total_resize)
  have same: "\<forall>p \<in> set ?ps. state_at ?xs (sp_source p) = cache_state c (sp_source p)"
    using len by (simp add: state_at_resize cache_state_def storage_state_at)
  have "statistics_exact sources statistics"
    using patch_statistics_exact [OF exact keys(1) slots same] stats by (auto simp: sources_def)
  then show "cache_wf c'" using h by (simp add: cache_wf_def c')
qed

section \<open>Whole updates\<close>

datatype request = Replace_source source_facts | Remove_source nat | Set_construction nat construction_state

fun apply_request ::
  "nat \<Rightarrow> request \<Rightarrow> sparse_update \<Rightarrow> diagnostic_buffer \<Rightarrow> status_code \<times> sparse_update \<times> diagnostic_buffer" where
  "apply_request operation (Replace_source f) u out = sparse_replace f operation u out"
| "apply_request operation (Remove_source s) u out = (case sparse_remove s u of (st, u') \<Rightarrow> (st, u', out))"
| "apply_request operation (Set_construction h v) u out = (case set_construction h v u of (st, u') \<Rightarrow> (st, u', out))"

fun apply_requests ::
  "nat \<Rightarrow> request list \<Rightarrow> sparse_update \<Rightarrow> diagnostic_buffer \<Rightarrow> status_code \<times> sparse_update \<times> diagnostic_buffer" where
  "apply_requests operation [] u out = (st_ok, u, out)"
| "apply_requests operation (r # rs) u out =
     (case apply_request operation r u out of (st, u', out') \<Rightarrow>
        if st = st_ok then apply_requests operation rs u' out' else (st, u', out'))"

text \<open>An incremental update: reservation of \<open>n\<close> Sources and \<open>k\<close> types, the requests, preparation, publication.\<close>

definition incremental ::
  "nat \<Rightarrow> nat \<Rightarrow> nat \<Rightarrow> nat list \<Rightarrow> storage_capacity \<Rightarrow> request list \<Rightarrow> contribution_cache \<Rightarrow> diagnostic_buffer \<Rightarrow>
    status_code \<times> contribution_cache \<times> diagnostic_buffer" where
  "incremental operation n k counts cap rs c out =
     (case reserve_incremental n k counts (begin_incremental c) of (st, u) \<Rightarrow>
        if st \<noteq> st_ok then (st, c, out)
        else case apply_requests operation rs u out of (st, u, out') \<Rightarrow>
            if st \<noteq> st_ok then (st, c, out')
            else case sparse_prepare cap c u of (st, u, c) \<Rightarrow>
                (st, (if st = st_ok then snd (sparse_publish u c) else c), out'))"

definition request_change :: "request \<Rightarrow> (nat \<times> source_content option) list" where
  "request_change r =
     (case r of Replace_source f \<Rightarrow> [(sf_source f, Some (facts_content f))] | Remove_source s \<Rightarrow> [(s, None)]
      | Set_construction h v \<Rightarrow> [])"

definition changes_of :: "request list \<Rightarrow> (nat \<times> source_content option) list" where
  "changes_of rs = concat (map request_change rs)"

lemma apply_request_inv:
  assumes "sparse_inv c u changes" "apply_request operation r u out = (st_ok, u', out')"
  shows "sparse_inv c u' (changes @ request_change r)"
proof (cases r)
  case (Replace_source f)
  then show ?thesis using sparse_replace_inv(1) [OF assms(1)] assms(2) by (simp add: request_change_def)
next
  case (Remove_source s)
  then show ?thesis using sparse_remove_inv [OF assms(1)] assms(2) by (simp add: request_change_def split: prod.splits)
next
  case (Set_construction h v)
  then show ?thesis using set_construction_inv [OF assms(1)] assms(2) by (simp add: request_change_def split: prod.splits)
qed

lemma apply_requests_inv:
  "apply_requests operation rs u out = (st_ok, u', out') \<Longrightarrow> sparse_inv c u changes \<Longrightarrow>
   sparse_inv c u' (changes @ changes_of rs)"
proof (induction rs arbitrary: u out changes)
  case (Cons r rs)
  then obtain u1 out1 where step: "apply_request operation r u out = (st_ok, u1, out1)"
    "apply_requests operation rs u1 out1 = (st_ok, u', out')"
    by (auto split: prod.splits if_splits)
  from Cons.IH [OF step(2) apply_request_inv [OF Cons.prems(2) step(1)]] show ?case by (simp add: changes_of_def)
qed (simp add: changes_of_def)

lemma incremental_contents:
  assumes "incremental operation n k counts cap rs c out = (st_ok, c', out')" "cache_wf c"
  shows "cache_content c' = override (cache_content c) (changes_of rs)" "cache_wf c'" "distinct (map fst (changes_of rs))"
proof -
  obtain u0 u u1 c1 where run: "reserve_incremental n k counts (begin_incremental c) = (st_ok, u0)"
    "apply_requests operation rs u0 out = (st_ok, u, out')" "sparse_prepare cap c u = (st_ok, u1, c1)"
    and c': "c' = snd (sparse_publish u1 c1)"
    using assms(1) by (auto simp: incremental_def split: prod.splits if_splits)
  have inv: "sparse_inv c u (changes_of rs)"
    using apply_requests_inv [OF run(2) sparse_inv_reserve [OF run(1)]] by simp
  show "cache_content c' = override (cache_content c) (changes_of rs)" "cache_wf c'"
    unfolding c' by (rule sparse_publish_contents [OF assms(2) inv run(3)])+
  have "changes_of rs =
      map (\<lambda>p. (sp_source p, patch_content (extended (cc_committed c) (su_candidate u)) p)) (su_source_patches u)"
    using inv by (simp add: sparse_inv_def)
  then have "map fst (changes_of rs) = map sp_source (su_source_patches u)" by (simp add: comp_def)
  then show "distinct (map fst (changes_of rs))" using inv by (simp add: sparse_inv_def patch_inv_def)
qed

section \<open>Incremental updates and rebuilds\<close>

text \<open>The Sources of a project after the requests: those not named, and those given anew.\<close>

definition replaced_facts :: "request list \<Rightarrow> source_facts list" where
  "replaced_facts rs = concat (map (\<lambda>r. case r of Replace_source f \<Rightarrow> [f] | _ \<Rightarrow> []) rs)"

definition resulting_sources :: "source_facts list \<Rightarrow> request list \<Rightarrow> source_facts list" where
  "resulting_sources fs rs =
     filter (\<lambda>f. sf_source f \<notin> fst ` set (changes_of rs)) fs @ replaced_facts rs"

lemma contents_of_append: "contents_of (fs @ gs) s = (case contents_of fs s of None \<Rightarrow> contents_of gs s | Some k \<Rightarrow> Some k)"
  by (simp add: contents_of_def map_add_def split: option.splits)

lemma contents_of_filter: "contents_of (filter (\<lambda>f. P (sf_source f)) fs) s = (if P s then contents_of fs s else None)"
  by (induction fs) (auto simp: contents_of_def)

lemma contents_of_replaced:
  assumes "distinct (map fst (changes_of rs))"
  shows "contents_of (replaced_facts rs) s = (case map_of (changes_of rs) s of None \<Rightarrow> None | Some k \<Rightarrow> k)"
  using assms
proof (induction rs)
  case (Cons r rs)
  have rest: "distinct (map fst (changes_of rs))" using Cons.prems by (simp add: changes_of_def)
  note IH = Cons.IH [OF rest]
  show ?case
  proof (cases r)
    case (Replace_source f)
    then show ?thesis using IH by (simp add: changes_of_def replaced_facts_def request_change_def contents_of_def)
  next
    case (Remove_source x)
    then have "x \<notin> fst ` set (changes_of rs)" using Cons.prems by (auto simp: changes_of_def request_change_def)
    then have "map_of (changes_of rs) x = None" by (simp add: map_of_eq_None_iff)
    then show ?thesis using IH Remove_source by (simp add: changes_of_def replaced_facts_def request_change_def)
  next
    case (Set_construction h v)
    then show ?thesis using IH by (simp add: changes_of_def replaced_facts_def request_change_def)
  qed
qed (simp add: changes_of_def replaced_facts_def contents_of_def)

lemma resulting_contents:
  assumes "distinct (map fst (changes_of rs))"
  shows "contents_of (resulting_sources fs rs) = override (contents_of fs) (changes_of rs)"
proof
  fix s
  have "map_of (changes_of rs) s = None \<longleftrightarrow> s \<notin> fst ` set (changes_of rs)" by (rule map_of_eq_None_iff)
  then show "contents_of (resulting_sources fs rs) s = override (contents_of fs) (changes_of rs) s"
    unfolding resulting_sources_def contents_of_append contents_of_replaced [OF assms] override_def
      contents_of_filter [where P = "\<lambda>x. x \<notin> fst ` set (changes_of rs)"]
    by (auto split: option.splits)
qed

section \<open>Statistics of contents\<close>

definition content_total :: "(source_content \<Rightarrow> nat) \<Rightarrow> (nat \<Rightarrow> source_content option) \<Rightarrow> nat" where
  "content_total g m = (\<Sum>s | m s \<noteq> None. g (the (m s)))"

definition content_statistics :: "(nat \<Rightarrow> source_content option) \<Rightarrow> contribution_statistics" where
  "content_statistics m =
     \<lparr>sn_sources = content_total (\<lambda>_. 1) m, sn_type_declarations = content_total (\<lambda>k. length (kc_types k)) m,
      sn_members = content_total (\<lambda>k. length (kc_members k)) m,
      sn_modifiers = content_total (\<lambda>k. length (kc_modifiers k)) m,
      sn_enum_values = content_total (\<lambda>k. length (kc_enum_values k)) m,
      sn_objects = content_total (\<lambda>k. length (kc_objects k)) m, sn_links = content_total (\<lambda>k. length (kc_links k)) m\<rparr>"

lemma live_total_content:
  assumes "holds st m" and fg: "\<And>v. state_in st v \<Longrightarrow> f v = g (state_content st v)"
  shows "live_total f (so_sources st) = content_total g m"
proof -
  let ?xs = "so_sources st"
  have entry: "state_count f (state_at ?xs s) = (case m s of None \<Rightarrow> 0 | Some k \<Rightarrow> g k)" for s
  proof (cases "m s")
    case None
    then show ?thesis
      using assms(1) [unfolded holds_def, rule_format, of s] by (simp add: storage_state_at state_count_def)
  next
    case (Some k)
    then obtain v where "state_at ?xs s = Some v" "state_in st v" "state_content st v = k"
      using assms(1) [unfolded holds_def, rule_format, of s] by (auto simp: storage_state_at)
    then show ?thesis using Some fg by (simp add: state_count_def)
  qed
  have inside: "s < length ?xs" if "m s \<noteq> None" for s
    using assms(1) [unfolded holds_def, rule_format, of s] that
    by (auto simp: storage_state_at state_at_def split: if_splits)
  have "live_total f ?xs = (\<Sum>s < length ?xs. case m s of None \<Rightarrow> 0 | Some k \<Rightarrow> g k)"
    by (simp add: live_total_def entry)
  also have "\<dots> = (\<Sum>s | m s \<noteq> None. case m s of None \<Rightarrow> 0 | Some k \<Rightarrow> g k)"
    by (rule sum.mono_neutral_right) (use inside in auto)
  also have "\<dots> = content_total g m" unfolding content_total_def by (rule sum.cong) auto
  finally show ?thesis .
qed

lemma length_checked_span: "range_in r (length xs) \<Longrightarrow> length (checked_span xs r) = fr_count r"
  by (simp add: range_in_def checked_span_def facts_slice_def)

lemma cache_wf_statistics:
  assumes "cache_wf c"
  shows "cc_statistics c = content_statistics (cache_content c)"
proof -
  have h: "holds (cc_committed c) (cache_content c)" using assms by (simp add: cache_wf_def)
  note total = live_total_content [OF h]
  have "live_total (\<lambda>_. 1) (so_sources (cc_committed c)) = content_total (\<lambda>_. 1) (cache_content c)"
    by (rule total) simp
  moreover have "live_total (fr_count \<circ> cs_types) (so_sources (cc_committed c)) = content_total (\<lambda>k. length (kc_types k)) (cache_content c)"
    by (rule total) (simp add: state_content_def Let_def state_in_def length_checked_span)
  moreover have "live_total (fr_count \<circ> cs_members) (so_sources (cc_committed c)) = content_total (\<lambda>k. length (kc_members k)) (cache_content c)"
    by (rule total) (simp add: state_content_def Let_def state_in_def length_checked_span)
  moreover have "live_total (fr_count \<circ> cs_modifiers) (so_sources (cc_committed c)) = content_total (\<lambda>k. length (kc_modifiers k)) (cache_content c)"
    by (rule total) (simp add: state_content_def Let_def state_in_def length_checked_span)
  moreover have "live_total (fr_count \<circ> cs_enum_values) (so_sources (cc_committed c)) = content_total (\<lambda>k. length (kc_enum_values k)) (cache_content c)"
    by (rule total) (simp add: state_content_def Let_def state_in_def length_checked_span)
  moreover have "live_total (fr_count \<circ> cs_objects) (so_sources (cc_committed c)) = content_total (\<lambda>k. length (kc_objects k)) (cache_content c)"
    by (rule total) (simp add: state_content_def Let_def state_in_def length_checked_span)
  moreover have "live_total (fr_count \<circ> cs_links) (so_sources (cc_committed c)) = content_total (\<lambda>k. length (kc_links k)) (cache_content c)"
    by (rule total) (simp add: state_content_def Let_def state_in_def length_checked_span)
  ultimately show ?thesis
    using assms by (simp add: cache_wf_def statistics_exact_def content_statistics_def)
qed

section \<open>Properties\<close>

text \<open>
  C32. The semantic filter is exact: for facts that validation accepts, it says a Source is unchanged if and only if
  what the cache retains of that Source has the content of the facts.
\<close>

theorem filter_exact:
  assumes "fst (validate_source_facts facts) = st_ok"
  shows "equivalent c facts \<longleftrightarrow> cache_content c (sf_source facts) = Some (facts_content facts)"
  using assms by (simp add: equivalent_content accepted_iff)

theorem filter_exact_witness:
  "\<not> equivalent empty_cache sample_facts"
proof -
  have "cache_content empty_cache (sf_source sample_facts) = None"
    by (simp add: cache_content_def storage_content_def storage_state_def empty_cache_def empty_storage_def)
  then show ?thesis using filter_exact [OF sample_accepted, of empty_cache] by simp
qed

end
