(* ===== verification/Contribution_Progress.thy ===== *)
theory Contribution_Progress
  imports Contribution_Refinement
begin

text \<open>
  When the updates of contributions succeed: accepted facts without base classes, fresh Sources and arrays that stay
  below \<^verbatim>\<open>2 ^ 32\<close> entries are enough, and for a sparse update the reserved number of patches and the capacity.
\<close>

section \<open>Room\<close>

definition facts_sizes :: "source_facts \<Rightarrow> nat list" where
  "facts_sizes f = [length (facts_types f), length (sf_members f), length (sf_modifiers f), length (sf_enum_values f),
     length (sf_objects f), length (sf_links f)]"

definition sizes_total :: "source_facts list \<Rightarrow> nat \<Rightarrow> nat" where
  "sizes_total fs i = sum_list (map (\<lambda>f. facts_sizes f ! i) fs)"

definition room :: "contribution_storage \<Rightarrow> source_facts list \<Rightarrow> bool" where
  "room st fs \<longleftrightarrow> (\<forall>i < 6. storage_sizes st ! i + sizes_total fs i \<le> u32_max)"

lemma length_captured_types: "length (captured_types mb eb facts) = length (facts_types facts)"
  by (metis captured_types_content length_map)

lemma below_six: "(\<forall>i < 6. P i) \<longleftrightarrow> P 0 \<and> P 1 \<and> P 2 \<and> P 3 \<and> P 4 \<and> P (5 :: nat)"
  by (auto simp: numeral_eq_Suc All_less_Suc)

lemma storage_sizes_captured: "i < 6 \<Longrightarrow> storage_sizes (captured facts st) ! i = storage_sizes st ! i + facts_sizes facts ! i"
proof -
  have "\<forall>i < 6. storage_sizes (captured facts st) ! i = storage_sizes st ! i + facts_sizes facts ! i"
    unfolding below_six by (simp add: storage_sizes_def captured_def capture_at_def facts_sizes_def length_captured_types)
  then show "i < 6 \<Longrightarrow> ?thesis" by blast
qed

lemma room_captured: "room st (f # fs) \<Longrightarrow> room (captured f st) fs"
  by (simp add: room_def storage_sizes_captured sizes_total_def add.assoc)

lemma room_first: "room st (f # fs) \<Longrightarrow> i < 6 \<Longrightarrow> storage_sizes st ! i + facts_sizes f ! i \<le> u32_max"
  by (fastforce simp: room_def sizes_total_def)

section \<open>The capture succeeds\<close>

definition reaches :: "(nat \<Rightarrow> nat option) \<Rightarrow> nat \<Rightarrow> bool" where
  "reaches locate n \<longleftrightarrow> (\<forall>k \<le> n. locate k \<noteq> None)"

lemma reaches_add: "base + n \<le> u32_max \<Longrightarrow> reaches (add_u32 base) n"
  by (auto simp: reaches_def add_u32_def)

lemma reaches_from: "base + local + n \<le> u32_max \<Longrightarrow> reaches (locate_from base local) n"
  by (auto simp: reaches_def locate_from_def absolute_u32_def add_u32_def)

lemma append_each_succeeds:
  assumes "\<And>x st. x \<in> set xs \<Longrightarrow> \<exists>st'. f x st = (st_ok, st')"
  shows "\<exists>st'. append_each f xs st = (st_ok, st')"
  using assms
proof (induction xs arbitrary: st)
  case (Cons x xs)
  from Cons.prems [of x st] obtain s where "f x st = (st_ok, s)" by auto
  moreover have "\<exists>st'. append_each f xs s = (st_ok, st')" by (rule Cons.IH) (use Cons.prems in auto)
  ultimately show ?case by (simp add: and_do_def)
qed simp

lemma append_payload_succeeds:
  assumes "facts_valid facts" "reaches locate (length (sf_modifiers facts))"
  shows "\<exists>st'. append_payload locate facts st = (st_ok, st')"
proof -
  have m: "\<exists>st'. append_member locate x s = (st_ok, st')" if "x \<in> set (sf_members facts)" for x s
  proof -
    have "fr_begin (ty_modifiers (mm_type x)) \<le> length (sf_modifiers facts)"
      using assms(1) that by (auto simp: facts_valid_def members_ok_def valid_range_def)
    then have "locate (fr_begin (ty_modifiers (mm_type x))) \<noteq> None" using assms(2) by (simp add: reaches_def)
    then show ?thesis by (auto simp: append_member_def)
  qed
  have p: "\<exists>st'. append_object locate x s = (st_ok, st')" if "x \<in> set (sf_objects facts)" for x s
  proof -
    have "fr_begin (ty_modifiers (ob_type x)) \<le> length (sf_modifiers facts)"
      using assms(1) that by (auto simp: facts_valid_def objects_ok_def valid_range_def)
    then have "locate (fr_begin (ty_modifiers (ob_type x))) \<noteq> None" using assms(2) by (simp add: reaches_def)
    then show ?thesis by (auto simp: append_object_def)
  qed
  obtain s1 where s1: "append_each (append_member locate) (sf_members facts) (snd (append_modifiers facts st)) = (st_ok, s1)"
    using append_each_succeeds [of "sf_members facts" "append_member locate"] m by blast
  obtain s2 where s2: "append_each (append_object locate) (sf_objects facts) (snd (append_enum_values facts s1)) = (st_ok, s2)"
    using append_each_succeeds [of "sf_objects facts" "append_object locate"] p by blast
  show ?thesis using s1 s2
    by (simp add: append_payload_def and_do_def append_modifiers_def append_enum_values_def append_links_def)
qed

lemma dense_begin_le: "dense_ranges n (map f xs) \<Longrightarrow> x \<in> set xs \<Longrightarrow> fr_begin (f x) \<le> n"
  using dense_ranges_valid(2) [of n "map f xs"] by (fastforce simp: in_set_conv_nth)

lemma append_types_succeeds:
  assumes "facts_valid facts" "reaches lm (length (sf_members facts))" "reaches le (length (sf_enum_values facts))"
  shows "\<exists>st'. append_types lm le facts st = (st_ok, st')"
proof -
  have r: "\<exists>st'. append_record lm facts i s = (st_ok, st')" if "i < length (sf_records facts)" for i s
  proof -
    have "fr_begin (rf_members (sf_records facts ! i)) \<le> length (sf_members facts)"
      using assms(1) that dense_begin_le [of "length (sf_members facts)" rf_members "sf_records facts"]
      by (simp add: facts_valid_def records_ok_def)
    then have "lm (fr_begin (rf_members (sf_records facts ! i))) \<noteq> None" using assms(2) by (simp add: reaches_def)
    then show ?thesis using that by (auto simp: append_record_def Let_def)
  qed
  have e: "\<exists>st'. append_enum le facts i s = (st_ok, st')" if "i < length (sf_enums facts)" for i s
  proof -
    have "fr_begin (ef_enumerators (sf_enums facts ! i)) \<le> length (sf_enum_values facts)"
      using assms(1) that dense_begin_le [of "length (sf_enum_values facts)" ef_enumerators "sf_enums facts"]
      by (simp add: facts_valid_def enums_ok_def)
    then have "le (fr_begin (ef_enumerators (sf_enums facts ! i))) \<noteq> None" using assms(3) by (simp add: reaches_def)
    then show ?thesis using that by (auto simp: append_enum_def Let_def)
  qed
  have d: "\<exists>st'. append_declaration lm le facts x s = (st_ok, st')" if "x \<in> set (sf_declarations facts)" for x s
    using accepted_indices [OF assms(1)] that r [of "dr_index x" s] e [of "dr_index x" s]
    by (auto simp: indices_ok_def append_declaration_def)
  show ?thesis
  proof (cases "sf_declarations facts = []")
    case False
    then show ?thesis using append_each_succeeds [OF d] by (simp add: append_types_def)
  next
    case True
    have "\<exists>s. append_each (append_record lm facts) [0..<length (sf_records facts)] st = (st_ok, s)"
      by (rule append_each_succeeds) (use r in simp)
    then obtain s where s: "append_each (append_record lm facts) [0..<length (sf_records facts)] st = (st_ok, s)" by blast
    have "\<exists>s'. append_each (append_enum le facts) [0..<length (sf_enums facts)] s = (st_ok, s')"
      by (rule append_each_succeeds) (use e in simp)
    with s True show ?thesis by (simp add: append_types_def and_do_def)
  qed
qed

lemma no_counts_overflow:
  assumes "\<And>i. i < 6 \<Longrightarrow> storage_sizes after ! i - storage_sizes before ! i \<le> u32_max"
  shows "\<not> counts_overflow before after"
  using assms [of 0] assms [of 1] assms [of 2] assms [of 3] assms [of 4] assms [of 5]
  by (simp add: counts_overflow_def storage_sizes_def not_less)

section \<open>The full rebuild succeeds\<close>

text \<open>Accepted by validation and without base classes.\<close>

definition capturable :: "source_facts \<Rightarrow> bool" where
  "capturable f \<longleftrightarrow> fst (validate_source_facts f) = st_ok \<and> (\<forall>r \<in> set (sf_records f). fr_count (rf_bases r) = 0)"

lemma rebuild_grown_sizes [simp]: "storage_sizes (ru_candidate (rebuild_grown i u)) = storage_sizes (ru_candidate u)"
  by (simp add: rebuild_grown_def storage_sizes_def)

lemma rebuild_capture_succeeds:
  assumes valid: "facts_valid facts" and room: "room (ru_candidate u0) (facts # fs)"
    and free: "ru_replaced (rebuild_grown (sf_source facts) u0) ! sf_source facts = 0"
  shows "\<exists>u'. rebuild_capture facts u0 = (st_ok, u')"
proof -
  define u where "u = rebuild_grown (sf_source facts) u0"
  let ?before = "ru_candidate u"
  have sizes: "storage_sizes ?before ! i + facts_sizes facts ! i \<le> u32_max" if "i < 6" for i
    using room_first [OF room that] by (simp add: u_def)
  have small: "length (so_modifiers ?before) + length (sf_modifiers facts) \<le> u32_max"
    "length (so_members ?before) + length (sf_members facts) \<le> u32_max"
    "length (so_enum_values ?before) + length (sf_enum_values facts) \<le> u32_max"
    using sizes [of 2] sizes [of 1] sizes [of 3] by (simp_all add: storage_sizes_def facts_sizes_def)
  obtain s where s: "append_payload (add_u32 (length (so_modifiers ?before))) facts ?before = (st_ok, s)"
    using append_payload_succeeds [OF valid reaches_add [OF small(1)]] by blast
  obtain after where after:
    "append_types (add_u32 (length (so_members ?before))) (add_u32 (length (so_enum_values ?before))) facts s = (st_ok, after)"
    using append_types_succeeds [OF valid reaches_add [OF small(2)] reaches_add [OF small(3)]] by blast
  have eq: "after = captured facts ?before"
    unfolding captured_def by (rule capture_steps [OF located_add_u32 located_add_u32 located_add_u32 s after])
  have "\<not> counts_overflow ?before after"
    by (rule no_counts_overflow) (use sizes in \<open>simp add: eq storage_sizes_captured, fastforce\<close>)
  moreover have "\<not> list_ex (\<lambda>n. u32_max < n) (storage_sizes ?before)"
  proof -
    have "storage_sizes ?before ! i \<le> u32_max" if "i < 6" for i using sizes [OF that] by linarith
    moreover have "length (storage_sizes ?before) = 6" by (simp add: storage_sizes_def)
    ultimately show ?thesis by (auto simp: list_ex_iff in_set_conv_nth not_less [symmetric])
  qed
  moreover have "and_do (append_payload (add_u32 (length (so_modifiers ?before))) facts ?before)
      (append_types (add_u32 (length (so_members ?before))) (add_u32 (length (so_enum_values ?before))) facts) = (st_ok, after)"
    using s after by (simp add: and_do_def)
  ultimately show ?thesis
    using free unfolding rebuild_capture_def Let_def u_def [symmetric] by simp
qed

lemma rebuild_replace_succeeds:
  assumes inv: "rebuild_inv u done" and f: "capturable f" "sf_source f \<noteq> 0" "sf_source f \<notin> sf_source ` set done"
    and room: "room (ru_candidate u) (f # fs)"
  shows "\<exists>u'. rebuild_replace f operation u out = (st_ok, u', out)" (is ?ok)
    "rebuild_replace f operation u out = (st_ok, u', out') \<Longrightarrow> room (ru_candidate u') fs"
proof -
  have valid: "facts_valid f" and gate: "replace_gate f operation out = (st_ok, out)"
    using f(1) replace_gate_passes [of f] by (simp_all add: capturable_def accepted_iff)
  let ?w = "rebuild_grown (sf_source f) u"
  have w: "rebuild_inv ?w done" "sf_source f < length (so_sources (ru_candidate ?w))" by (rule rebuild_grown_inv [OF inv])+
  then have "ru_replaced ?w ! sf_source f = 0" using f(3) unfolding rebuild_inv_def by metis
  then obtain u1 where "rebuild_capture f u = (st_ok, u1)" using rebuild_capture_succeeds [OF valid room] by blast
  then show ?ok using inv f(2) gate by (simp add: rebuild_replace_def rebuild_inv_def)
  show "room (ru_candidate u') fs" if "rebuild_replace f operation u out = (st_ok, u', out')"
  proof -
    have "rebuild_capture f u = (st_ok, u')"
      using that inv gate by (auto simp: rebuild_replace_def rebuild_inv_def split: if_splits prod.splits)
    then have "ru_candidate u' = stored f (ru_candidate ?w)" using rebuild_capture_ok(2) [of f u u'] by simp
    then have "storage_sizes (ru_candidate u') = storage_sizes (captured f (ru_candidate ?w))"
      by (simp add: stored_def storage_sizes_def)
    moreover have "room (ru_candidate ?w) (f # fs)" using room by (simp add: room_def)
    ultimately show ?thesis using room_captured by (simp add: room_def)
  qed
qed

lemma rebuild_each_succeeds:
  assumes "rebuild_inv u done" "list_all capturable fs" "distinct (map sf_source (done @ fs))" "0 \<notin> sf_source ` set fs"
    and "room (ru_candidate u) fs"
  shows "\<exists>u'. rebuild_each operation fs u out = (st_ok, u', out)"
  using assms
proof (induction fs arbitrary: u "done")
  case (Cons f fs)
  have f: "capturable f" "sf_source f \<noteq> 0" "sf_source f \<notin> sf_source ` set done" using Cons.prems by auto
  obtain u1 where u1: "rebuild_replace f operation u out = (st_ok, u1, out)"
    using rebuild_replace_succeeds(1) [OF Cons.prems(1) f Cons.prems(5)] by blast
  have "\<exists>u'. rebuild_each operation fs u1 out = (st_ok, u', out)"
  proof (rule Cons.IH)
    show "rebuild_inv u1 (done @ [f])" by (rule rebuild_replace_inv(1) [OF Cons.prems(1) u1])
    show "room (ru_candidate u1) fs" by (rule rebuild_replace_succeeds(2) [OF Cons.prems(1) f Cons.prems(5) u1])
  qed (use Cons.prems in auto)
  with u1 show ?case by simp
qed simp

lemma full_rebuild_succeeds:
  assumes "list_all capturable fs" "distinct (map sf_source fs)" "0 \<notin> sf_source ` set fs"
    and "\<forall>i < 6. sizes_total fs i \<le> u32_max"
  shows "\<exists>c'. full_rebuild operation fs c out = (st_ok, c', out)"
proof -
  have "room (ru_candidate begin_rebuild) fs"
  proof -
    have "storage_sizes empty_storage ! i = 0" if "i < 6" for i
      using that below_six [of "\<lambda>i. storage_sizes empty_storage ! i = 0"] by (simp add: storage_sizes_def empty_storage_def)
    then show ?thesis using assms(4) by (simp add: room_def begin_rebuild_def)
  qed
  then obtain u where u: "rebuild_each operation fs begin_rebuild out = (st_ok, u, out)"
    using rebuild_each_succeeds [OF rebuild_inv_begin assms(1), of operation out] assms(2,3) by auto
  then have "rebuild_inv u fs" using rebuild_each_inv [OF _ rebuild_inv_begin] by fastforce
  then show ?thesis using u by (simp add: full_rebuild_def rebuild_prepare_def rebuild_inv_def)
qed

section \<open>The patch indexes have room\<close>

lemma ceil_from_ge: "0 < p \<Longrightarrow> n \<le> ceil_from p n"
proof (induction p n rule: ceil_from.induct)
  case (1 p n)
  show ?case
  proof (cases "p < n")
    case True
    with 1 show ?thesis by (simp add: ceil_from.simps [of p n])
  next
    case False
    then show ?thesis by (subst ceil_from.simps) simp
  qed
qed

lemma patch_capacity_ge:
  assumes "n \<noteq> 0" "n \<le> u64_max div 2"
  shows "n < patch_capacity n"
proof -
  let ?m = "if n * 2 < 8 then 8 else n * 2"
  have "n * 2 \<le> ?m" by simp
  also have "?m \<le> ceil_from 1 ?m" by (rule ceil_from_ge) simp
  also have "\<dots> = patch_capacity n" using assms by (simp add: patch_capacity_def Let_def bit_ceil_def not_less)
  finally show ?thesis using assms(1) by simp
qed

definition patch_load :: "patch_slot list \<Rightarrow> nat \<Rightarrow> bool" where
  "patch_load slots n \<longleftrightarrow> length (filter (\<lambda>s. ps_key s \<noteq> 0) slots) = n"

lemma patch_load_empty: "patch_load (empty_slots n) 0"
  by (simp add: patch_load_def empty_slots_def)

lemma patch_insert_succeeds:
  assumes inv: "patch_inv slots keys" and load: "patch_load slots (length keys)" "length keys < length slots" and key: "key \<noteq> 0"
  shows "\<exists>slots'. patch_insert slots (length keys) key = Some slots' \<and> length slots' = length slots \<and>
    patch_load slots' (Suc (length keys))"
proof -
  let ?stop = "\<lambda>s. ps_key s = 0" and ?home = "index_home slots (patch_hash key)"
  have ne: "slots \<noteq> []" using load(2) by auto
  have pow: "power_of_two (length slots)" using inv ne by (simp add: patch_inv_def)
  have home: "?home < length slots" using ne by (simp add: index_positions(1) [OF pow])
  have "\<exists>s \<in> set slots. ps_key s = 0"
  proof (rule ccontr)
    assume "\<not> ?thesis"
    then have "filter (\<lambda>s. ps_key s \<noteq> 0) slots = slots" by (simp add: filter_id_conv)
    then show False using load by (simp add: patch_load_def)
  qed
  then obtain e where e: "e < length slots" "ps_key (slots ! e) = 0" by (metis in_set_conv_nth)
  obtain j where "j < length slots" "(?home + j) mod length slots = e" using every_slot_seen [OF home e(1)] by blast
  then have "\<exists>j < length slots. ?stop (seen slots ?home j)" using e(2) by (auto simp: seen_def)
  then obtain q where q: "probe (length slots) ?stop slots ?home = Some q"
    and "\<exists>j. q = (?home + j) mod length slots" "ps_key (slots ! q) = 0"
    using probe_first [OF pow home, of "length slots" ?stop] by (auto split: option.splits)
  then have q_less: "q < length slots" and empty: "ps_key (slots ! q) = 0" using ne by auto
  let ?s = "\<lparr>ps_key = key, ps_position = Suc (length keys)\<rparr>"
  let ?f = "\<lambda>xs. length (filter (\<lambda>s. ps_key s \<noteq> 0) xs)"
  have "?f (slots[q := ?s]) = ?f (take q slots @ ?s # drop (Suc q) slots)" using q_less by (simp add: upd_conv_take_nth_drop)
  also have "\<dots> = Suc (?f (take q slots @ slots ! q # drop (Suc q) slots))" using key empty by simp
  also have "take q slots @ slots ! q # drop (Suc q) slots = slots" using q_less by (simp add: id_take_nth_drop [symmetric])
  finally have "patch_load (slots[q := ?s]) (Suc (length keys))" using load(1) by (simp add: patch_load_def)
  then show ?thesis using q by (simp add: patch_insert_def)
qed

section \<open>The sparse update succeeds\<close>

fun request_ok :: "request \<Rightarrow> bool" where
  "request_ok (Replace_source f) \<longleftrightarrow> capturable f \<and> sf_source f \<noteq> 0"
| "request_ok (Remove_source s) \<longleftrightarrow> s \<noteq> 0"
| "request_ok (Set_construction h v) \<longleftrightarrow> h \<noteq> 0"

fun request_handles :: "request \<Rightarrow> nat list" where
  "request_handles (Set_construction h v) = [h]"
| "request_handles _ = []"

definition handles_of :: "request list \<Rightarrow> nat list" where
  "handles_of rs = concat (map request_handles rs)"

text \<open>The update still has room for these requests.\<close>

definition sparse_room :: "contribution_cache \<Rightarrow> sparse_update \<Rightarrow> request list \<Rightarrow> bool" where
  "sparse_room c u rs \<longleftrightarrow>
     room (extended (cc_committed c) (su_candidate u)) (replaced_facts rs) \<and>
     patch_load (su_source_index u) (length (su_source_patches u)) \<and>
     (changes_of rs \<noteq> [] \<longrightarrow> length (su_source_patches u) + length (changes_of rs) < length (su_source_index u)) \<and>
     patch_load (su_construction_index u) (length (su_construction_patches u)) \<and>
     (handles_of rs \<noteq> [] \<longrightarrow> length (su_construction_patches u) + length (handles_of rs) < length (su_construction_index u)) \<and>
     distinct (map sp_source (su_source_patches u) @ map fst (changes_of rs))"

lemma find_source_patch_none:
  assumes "sparse_inv c u changes" "source \<notin> set (map sp_source (su_source_patches u))"
  shows "find_source_patch u source = None"
  using assms patch_find_absent [of "su_source_index u" "map sp_source (su_source_patches u)" source]
  by (simp add: find_source_patch_def sparse_inv_def)

lemma add_source_patch_succeeds:
  assumes inv: "sparse_inv c u changes" and fresh: "source \<notin> set (map sp_source (su_source_patches u))" "source \<noteq> 0"
    and load: "patch_load (su_source_index u) (length (su_source_patches u))"
      "length (su_source_patches u) < length (su_source_index u)"
  shows "\<exists>u'. add_source_patch source u = (st_ok, u') \<and> su_candidate u' = su_candidate u \<and>
    length (su_source_index u') = length (su_source_index u) \<and>
    patch_load (su_source_index u') (Suc (length (su_source_patches u))) \<and>
    su_source_patches u' = su_source_patches u @ [\<lparr>sp_source = source, sp_state = no_state, sp_present = False\<rparr>] \<and>
    su_construction_index u' = su_construction_index u \<and> su_construction_patches u' = su_construction_patches u"
proof -
  have "patch_inv (su_source_index u) (map sp_source (su_source_patches u))" using inv by (simp add: sparse_inv_def)
  from patch_insert_succeeds [OF this, of source] load fresh(2) obtain slots where
    "patch_insert (su_source_index u) (length (su_source_patches u)) source = Some slots"
    "length slots = length (su_source_index u)" "patch_load slots (Suc (length (su_source_patches u)))"
    by auto
  then show ?thesis
    using fresh(2) load(2) find_source_patch_none [OF inv fresh(1)] by (auto simp: add_source_patch_def)
qed

lemma add_construction_patch_succeeds:
  assumes inv: "sparse_inv c u changes" and h: "handle \<noteq> 0"
    and load: "patch_load (su_construction_index u) (length (su_construction_patches u))"
      "length (su_construction_patches u) < length (su_construction_index u)"
  shows "\<exists>i u'. add_construction_patch handle u = ((st_ok, i), u') \<and> su_candidate u' = su_candidate u \<and>
    length (su_construction_index u') = length (su_construction_index u) \<and>
    patch_load (su_construction_index u') (length (su_construction_patches u')) \<and>
    length (su_construction_patches u') \<le> Suc (length (su_construction_patches u)) \<and>
    su_source_index u' = su_source_index u \<and> su_source_patches u' = su_source_patches u"
proof (cases "patch_find (su_construction_index u) (length (su_construction_patches u)) handle")
  case (Some i)
  moreover have "su_construction_index u \<noteq> []" using load(2) by auto
  ultimately show ?thesis using h load(1) by (simp add: add_construction_patch_def Let_def)
next
  case None
  have "patch_inv (su_construction_index u) (map cp_handle (su_construction_patches u))" using inv by (simp add: sparse_inv_def)
  from patch_insert_succeeds [OF this, of handle] load h obtain slots where
    "patch_insert (su_construction_index u) (length (su_construction_patches u)) handle = Some slots"
    "length slots = length (su_construction_index u)" "patch_load slots (Suc (length (su_construction_patches u)))"
    by auto
  moreover have "su_construction_index u \<noteq> []" using load(2) by auto
  ultimately show ?thesis using h None by (simp add: add_construction_patch_def Let_def)
qed

end
