(* ===== verification/Contribution_Success.thy ===== *)
theory Contribution_Success
  imports Contribution_Progress
begin

text \<open>A sparse update with enough room succeeds; what two successful updates lead to is concluded on an example.\<close>

section \<open>One request\<close>

lemma sparse_capture_succeeds:
  assumes valid: "facts_valid facts" and bases: "su_bases u = storage_sizes (cc_committed c)"
    and room: "room (extended (cc_committed c) (su_candidate u)) (facts # fs)"
  shows "\<exists>u'. sparse_capture facts u = (st_ok, u') \<and>
    extended (cc_committed c) (su_candidate u') = captured facts (extended (cc_committed c) (su_candidate u)) \<and>
    su_source_index u' = su_source_index u \<and> length (su_source_patches u') = length (su_source_patches u) \<and>
    su_construction_index u' = su_construction_index u \<and> su_construction_patches u' = su_construction_patches u"
proof -
  let ?c = "cc_committed c" and ?cand = "su_candidate u"
  let ?T = "extended ?c ?cand" and ?bases = "storage_sizes ?c" and ?sizes = "storage_sizes ?cand"
  have sum: "?bases ! i + ?sizes ! i = storage_sizes ?T ! i" if "i < 6" for i
    using that by (simp add: storage_sizes_extended)
  have small: "?bases ! i + ?sizes ! i + facts_sizes facts ! i \<le> u32_max" if "i < 6" for i
    using room_first [OF room that] sum [OF that] by simp
  have reach: "reaches (locate_from (?bases ! 2) (?sizes ! 2)) (length (sf_modifiers facts))"
    "reaches (locate_from (?bases ! 1) (?sizes ! 1)) (length (sf_members facts))"
    "reaches (locate_from (?bases ! 3) (?sizes ! 3)) (length (sf_enum_values facts))"
    using small [of 2] small [of 1] small [of 3] by (auto intro!: reaches_from simp: facts_sizes_def)
  obtain s where s: "append_payload (locate_from (?bases ! 2) (?sizes ! 2)) facts ?cand = (st_ok, s)"
    using append_payload_succeeds [OF valid reach(1)] by blast
  obtain after where after: "append_types (locate_from (?bases ! 1) (?sizes ! 1)) (locate_from (?bases ! 3) (?sizes ! 3)) facts s = (st_ok, after)"
    using append_types_succeeds [OF valid reach(2,3)] by blast
  have "after = capture_at (?bases ! 1 + ?sizes ! 1) (?bases ! 3 + ?sizes ! 3) (?bases ! 2 + ?sizes ! 2) facts ?cand"
    by (rule capture_steps [OF located_from located_from located_from s after])
  then have ext: "extended ?c after = captured facts ?T"
    using extended_capture [of ?c ?cand facts] by (simp add: storage_sizes_def)
  have counts: "storage_sizes after ! i - ?sizes ! i \<le> u32_max" if "i < 6" for i
  proof -
    have "?bases ! i + storage_sizes after ! i = storage_sizes (captured facts ?T) ! i"
      using that by (simp add: ext [symmetric] storage_sizes_extended)
    also have "\<dots> = ?bases ! i + ?sizes ! i + facts_sizes facts ! i"
      using that sum by (simp add: storage_sizes_captured)
    finally show ?thesis using small [OF that] by linarith
  qed
  have no_overflow: "\<not> counts_overflow ?cand after" by (rule no_counts_overflow) (rule counts)
  have located_fine: "absolute_u32 (?bases ! i) (?sizes ! i) \<noteq> None" if "i < 6" for i
    using small [OF that] by (simp add: absolute_u32_def)
  have fine: "\<not> locate_failed ?bases ?sizes [1, 3, 4, 5]" "\<not> locate_failed ?bases ?sizes [0]"
    using located_fine by (simp_all add: locate_failed_def)
  show ?thesis
    unfolding sparse_capture_def Let_def bases s after fst_conv snd_conv using fine no_overflow ext by simp
qed

text \<open>What a request adds to the arrays and to the types with a patch.\<close>

definition grown :: "contribution_cache \<Rightarrow> sparse_update \<Rightarrow> sparse_update \<Rightarrow> request \<Rightarrow> bool" where
  "grown c u u' r \<longleftrightarrow>
     (\<forall>i < 6. storage_sizes (extended (cc_committed c) (su_candidate u')) ! i =
        storage_sizes (extended (cc_committed c) (su_candidate u)) ! i + sizes_total (replaced_facts [r]) i) \<and>
     set (map cp_handle (su_construction_patches u')) \<subseteq>
       set (map cp_handle (su_construction_patches u)) \<union> set (request_handles r)"

lemma construction_update_keys:
  "map cp_handle ((xs :: construction_patch list)[i := (xs ! i)\<lparr>cp_state := v\<rparr>]) = map cp_handle xs"
proof (cases "i < length xs")
  case True
  then show ?thesis by (simp add: map_update list_update_same_conv)
qed (simp add: list_update_beyond)

lemma sparse_inv_keys: "sparse_inv c u changes \<Longrightarrow> map sp_source (su_source_patches u) = map fst changes"
  by (auto simp: sparse_inv_def comp_def)

lemma sparse_replace_succeeds:
  assumes inv: "sparse_inv c u changes" and room: "sparse_room c u (Replace_source f # rs)" and ok: "request_ok (Replace_source f)"
  shows "\<exists>u'. sparse_replace f operation u out = (st_ok, u', out) \<and> sparse_room c u' rs \<and>
    grown c u u' (Replace_source f)"
proof -
  have f: "facts_valid f" "sf_source f \<noteq> 0" and gate: "replace_gate f operation out = (st_ok, out)"
    using ok replace_gate_passes [of f] by (simp_all add: capturable_def accepted_iff)
  have changes: "changes_of (Replace_source f # rs) = (sf_source f, Some (facts_content f)) # changes_of rs"
    "replaced_facts (Replace_source f # rs) = f # replaced_facts rs" "handles_of (Replace_source f # rs) = handles_of rs"
    by (simp_all add: changes_of_def request_change_def replaced_facts_def handles_of_def)
  have r: "room (extended (cc_committed c) (su_candidate u)) (f # replaced_facts rs)"
    "patch_load (su_source_index u) (length (su_source_patches u))"
    "Suc (length (su_source_patches u) + length (changes_of rs)) < length (su_source_index u)"
    "sf_source f \<notin> set (map sp_source (su_source_patches u))"
    using room by (auto simp: sparse_room_def changes)
  then obtain w where w: "add_source_patch (sf_source f) u = (st_ok, w)" "su_candidate w = su_candidate u"
    "length (su_source_index w) = length (su_source_index u)" "patch_load (su_source_index w) (Suc (length (su_source_patches u)))"
    "su_source_patches w = su_source_patches u @ [\<lparr>sp_source = sf_source f, sp_state = no_state, sp_present = False\<rparr>]"
    "su_construction_index w = su_construction_index u" "su_construction_patches w = su_construction_patches u"
    using add_source_patch_succeeds [OF inv r(4) f(2) r(2)] by auto
  have bases: "su_bases w = storage_sizes (cc_committed c)"
    using add_source_patch_inv(1) [OF inv w(1)] by (simp add: sparse_inv_def)
  obtain u' where u': "sparse_capture f w = (st_ok, u')"
    "extended (cc_committed c) (su_candidate u') = captured f (extended (cc_committed c) (su_candidate u))"
    "su_source_index u' = su_source_index w" "length (su_source_patches u') = length (su_source_patches w)"
    "su_construction_index u' = su_construction_index w" "su_construction_patches u' = su_construction_patches w"
    using sparse_capture_succeeds [OF f(1) bases, of "replaced_facts rs"] r(1) w(2) by auto
  have run: "sparse_replace f operation u out = (st_ok, u', out)"
    using inv f(2) gate w(1) u'(1) by (simp add: sparse_replace_def sparse_inv_def)
  have inv': "sparse_inv c u' (changes @ [(sf_source f, Some (facts_content f))])"
    by (rule sparse_replace_inv(1) [OF inv run])
  have keys: "map sp_source (su_source_patches u') = map sp_source (su_source_patches u) @ [sf_source f]"
    using sparse_inv_keys [OF inv'] sparse_inv_keys [OF inv] by simp
  have "sparse_room c u' rs"
    using room r(3) u' w keys room_captured [OF r(1)] by (auto simp: sparse_room_def changes)
  moreover have "grown c u u' (Replace_source f)"
    using u'(2,6) w(7) by (simp add: grown_def storage_sizes_captured sizes_total_def replaced_facts_def)
  ultimately show ?thesis using run by blast
qed

lemma sparse_remove_succeeds:
  assumes inv: "sparse_inv c u changes" and room: "sparse_room c u (Remove_source s # rs)" and ok: "s \<noteq> 0"
  shows "\<exists>u'. sparse_remove s u = (st_ok, u') \<and> sparse_room c u' rs \<and> grown c u u' (Remove_source s)"
proof -
  have changes: "changes_of (Remove_source s # rs) = (s, None) # changes_of rs"
    "replaced_facts (Remove_source s # rs) = replaced_facts rs" "handles_of (Remove_source s # rs) = handles_of rs"
    by (simp_all add: changes_of_def request_change_def replaced_facts_def handles_of_def)
  have r: "patch_load (su_source_index u) (length (su_source_patches u))"
    "Suc (length (su_source_patches u) + length (changes_of rs)) < length (su_source_index u)"
    "s \<notin> set (map sp_source (su_source_patches u))"
    using room by (auto simp: sparse_room_def changes)
  then obtain w where w: "add_source_patch s u = (st_ok, w)" "su_candidate w = su_candidate u"
    "length (su_source_index w) = length (su_source_index u)" "patch_load (su_source_index w) (Suc (length (su_source_patches u)))"
    "su_source_patches w = su_source_patches u @ [\<lparr>sp_source = s, sp_state = no_state, sp_present = False\<rparr>]"
    "su_construction_index w = su_construction_index u" "su_construction_patches w = su_construction_patches u"
    using add_source_patch_succeeds [OF inv r(3) ok r(1)] by auto
  have "sparse_remove s u = (st_ok, w)" using inv ok w(1) by (simp add: sparse_remove_def sparse_inv_def)
  moreover have "sparse_room c w rs" using room r(2) w by (auto simp: sparse_room_def changes)
  moreover have "grown c u w (Remove_source s)" using w by (simp add: grown_def sizes_total_def replaced_facts_def)
  ultimately show ?thesis by blast
qed

lemma set_construction_succeeds:
  assumes inv: "sparse_inv c u changes" and room: "sparse_room c u (Set_construction h v # rs)" and ok: "h \<noteq> 0"
  shows "\<exists>u'. set_construction h v u = (st_ok, u') \<and> sparse_room c u' rs \<and> grown c u u' (Set_construction h v)"
proof -
  have changes: "changes_of (Set_construction h v # rs) = changes_of rs"
    "replaced_facts (Set_construction h v # rs) = replaced_facts rs" "handles_of (Set_construction h v # rs) = h # handles_of rs"
    by (simp_all add: changes_of_def request_change_def replaced_facts_def handles_of_def)
  have r: "patch_load (su_construction_index u) (length (su_construction_patches u))"
    "Suc (length (su_construction_patches u) + length (handles_of rs)) < length (su_construction_index u)"
    using room by (auto simp: sparse_room_def changes)
  then obtain i w where w: "add_construction_patch h u = ((st_ok, i), w)" "su_candidate w = su_candidate u"
    "length (su_construction_index w) = length (su_construction_index u)"
    "patch_load (su_construction_index w) (length (su_construction_patches w))"
    "length (su_construction_patches w) \<le> Suc (length (su_construction_patches u))"
    "su_source_index w = su_source_index u" "su_source_patches w = su_source_patches u"
    using add_construction_patch_succeeds [OF inv ok r(1)] by auto
  let ?u = "w\<lparr>su_construction_patches := (su_construction_patches w)
            [i := (su_construction_patches w ! i)\<lparr>cp_state := v\<rparr>]\<rparr>"
  have "set_construction h v u = (st_ok, ?u)" using inv ok w(1) by (simp add: set_construction_def sparse_inv_def)
  moreover have "sparse_room c ?u rs" using room r(2) w by (auto simp: sparse_room_def changes)
  moreover have "set (map cp_handle (su_construction_patches w)) \<subseteq> set (map cp_handle (su_construction_patches u)) \<union> {h}"
    using w(1) by (auto simp: add_construction_patch_def Let_def split: if_splits option.splits)
  then have "grown c u ?u (Set_construction h v)"
    unfolding grown_def using w(2) construction_update_keys [of "su_construction_patches w" i v]
    by (simp add: sizes_total_def replaced_facts_def flip: set_map)
  ultimately show ?thesis by blast
qed

lemma apply_requests_succeed:
  "sparse_inv c u changes \<Longrightarrow> sparse_room c u rs \<Longrightarrow> list_all request_ok rs \<Longrightarrow>
   \<exists>u'. apply_requests operation rs u out = (st_ok, u', out) \<and>
     (\<forall>i < 6. storage_sizes (extended (cc_committed c) (su_candidate u')) ! i =
        storage_sizes (extended (cc_committed c) (su_candidate u)) ! i + sizes_total (replaced_facts rs) i) \<and>
     set (map cp_handle (su_construction_patches u')) \<subseteq>
       set (map cp_handle (su_construction_patches u)) \<union> set (handles_of rs)"
proof (induction rs arbitrary: u changes)
  case Nil
  then show ?case by (simp add: replaced_facts_def sizes_total_def)
next
  case (Cons r rs)
  have "\<exists>u1. apply_request operation r u out = (st_ok, u1, out) \<and> sparse_room c u1 rs \<and> grown c u u1 r"
  proof (cases r)
    case (Replace_source f)
    then show ?thesis using sparse_replace_succeeds [OF Cons.prems(1)] Cons.prems(2,3) by simp
  next
    case (Remove_source s)
    then show ?thesis using sparse_remove_succeeds [OF Cons.prems(1)] Cons.prems(2,3) by fastforce
  next
    case (Set_construction h v)
    then show ?thesis using set_construction_succeeds [OF Cons.prems(1)] Cons.prems(2,3) by fastforce
  qed
  then obtain u1 where u1: "apply_request operation r u out = (st_ok, u1, out)" "sparse_room c u1 rs" "grown c u u1 r" by blast
  have total: "sizes_total (replaced_facts (r # rs)) i = sizes_total (replaced_facts [r]) i + sizes_total (replaced_facts rs) i" for i
    by (simp add: sizes_total_def replaced_facts_def)
  have handles: "set (handles_of (r # rs)) = set (request_handles r) \<union> set (handles_of rs)" by (simp add: handles_of_def)
  from Cons.IH [OF apply_request_inv [OF Cons.prems(1) u1(1)] u1(2)] Cons.prems(3) obtain u' where
    u': "apply_requests operation rs u1 out = (st_ok, u', out)"
    "\<forall>i < 6. storage_sizes (extended (cc_committed c) (su_candidate u')) ! i =
        storage_sizes (extended (cc_committed c) (su_candidate u1)) ! i + sizes_total (replaced_facts rs) i"
    "set (map cp_handle (su_construction_patches u')) \<subseteq>
       set (map cp_handle (su_construction_patches u1)) \<union> set (handles_of rs)" by auto
  have "apply_requests operation (r # rs) u out = (st_ok, u', out)" using u1(1) u'(1) by simp
  moreover have "\<forall>i < 6. storage_sizes (extended (cc_committed c) (su_candidate u')) ! i =
        storage_sizes (extended (cc_committed c) (su_candidate u)) ! i + sizes_total (replaced_facts (r # rs)) i"
    using u'(2) u1(3) unfolding total grown_def by simp
  moreover have "set (map cp_handle (su_construction_patches u')) \<subseteq>
       set (map cp_handle (su_construction_patches u)) \<union> set (handles_of (r # rs))"
    using u'(3) u1(3) unfolding handles grown_def by blast
  ultimately show ?case by blast
qed

section \<open>The whole update\<close>

text \<open>
  Enough patches are reserved for the \<open>n\<close> Sources and \<open>k\<close> types, Source numbers stay below \<open>S\<close> and type handles
  below \<open>H\<close>, for which the cache has the capacity, and the arrays have room for the new payload.
\<close>

definition enough ::
  "nat \<Rightarrow> nat \<Rightarrow> nat list \<Rightarrow> storage_capacity \<Rightarrow> request list \<Rightarrow> contribution_cache \<Rightarrow> bool" where
  "enough n k counts cap rs c \<longleftrightarrow>
     n \<le> u64_max div 2 \<and> k \<le> u64_max div 2 \<and> length (changes_of rs) \<le> n \<and> length (handles_of rs) \<le> k \<and>
     list_all2 (\<lambda>m base. m + base \<le> u32_max) counts (storage_sizes (cc_committed c)) \<and>
     (\<forall>s \<in> fst ` set (changes_of rs). s < min (sc_sources cap) u32_max) \<and>
     length (so_sources (cc_committed c)) \<le> min (sc_sources cap) u32_max \<and> 0 < sc_sources cap \<and>
     (\<forall>h \<in> set (handles_of rs). h < min (sc_construction cap) u32_max) \<and>
     length (so_construction (cc_committed c)) \<le> min (sc_construction cap) u32_max \<and> 0 < sc_construction cap \<and>
     room (cc_committed c) (replaced_facts rs) \<and>
     length (sc_arrays cap) = 6 \<and>
     (\<forall>i < 6. storage_sizes (cc_committed c) ! i + sizes_total (replaced_facts rs) i \<le> sc_arrays cap ! i)"

lemma reserve_succeeds:
  assumes "enough n k counts cap rs c"
  shows "reserve_incremental n k counts (begin_incremental c) =
    (st_ok, (begin_incremental c)\<lparr>su_source_index := empty_slots (patch_capacity n),
       su_construction_index := empty_slots (patch_capacity k)\<rparr>)"
proof -
  have fit: "list_all2 (\<lambda>m base. m + base \<le> u32_max) counts (storage_sizes (cc_committed c))"
    and n: "n \<le> u64_max div 2" "k \<le> u64_max div 2"
    using assms by (simp_all add: enough_def)
  have left: "u32_left b = u32_max - b" if "b \<le> u32_max" for b
  proof -
    have "u32_left b = (u32_max - b + 2 ^ 64) mod 2 ^ 64" using that by (simp add: u32_left_def)
    also have "\<dots> = (u32_max - b) mod 2 ^ 64" by (rule mod_add_self2)
    also have "\<dots> = u32_max - b" by (rule mod_less) simp
    finally show ?thesis .
  qed
  have "\<not> list_ex (\<lambda>(m, base). u32_left base < m) (zip counts (storage_sizes (cc_committed c)))"
    using fit left by (fastforce simp: list_ex_iff list_all2_iff)
  moreover have "n \<noteq> 0 \<Longrightarrow> patch_capacity n \<noteq> 0" "k \<noteq> 0 \<Longrightarrow> patch_capacity k \<noteq> 0"
    using patch_capacity_ge [OF _ n(1)] patch_capacity_ge [OF _ n(2)] by fastforce+
  ultimately show ?thesis
    by (auto simp: reserve_incremental_def begin_incremental_def Let_def empty_storage_def)
qed

lemma foldl_max_less: "m < b \<Longrightarrow> \<forall>x \<in> set xs. x < b \<Longrightarrow> foldl max m xs < b" for m :: nat
  by (induction xs arbitrary: m) simp_all

lemma prepare_succeeds:
  assumes wf: "cache_wf c" "\<not> cc_baseline c" and inv: "sparse_inv c u changes" and enough: "enough n k counts cap rs c"
    and keys: "map fst changes = map fst (changes_of rs)" "set (map cp_handle (su_construction_patches u)) \<subseteq> set (handles_of rs)"
    and sizes: "\<forall>i < 6. storage_sizes (extended (cc_committed c) (su_candidate u)) ! i =
        storage_sizes (cc_committed c) ! i + sizes_total (replaced_facts rs) i"
  shows "\<exists>u' c'. sparse_prepare cap c u = (st_ok, u', c')"
proof -
  let ?st = "cc_committed c" and ?ps = "su_source_patches u"
  let ?source = "foldl max (length (so_sources ?st) - 1) (map sp_source ?ps)"
  let ?handle = "foldl max (length (so_construction ?st) - 1) (map cp_handle (su_construction_patches u))"
  have pkeys: "map sp_source ?ps = map fst (changes_of rs)" using sparse_inv_keys [OF inv] keys(1) by simp
  have "\<forall>x \<in> set (map sp_source ?ps). x < min (sc_sources cap) u32_max"
    unfolding pkeys using enough by (simp add: enough_def)
  moreover have "length (so_sources ?st) - 1 < min (sc_sources cap) u32_max" using enough by (auto simp: enough_def)
  ultimately have source: "?source < min (sc_sources cap) u32_max" by (intro foldl_max_less)
  have "\<forall>x \<in> set (map cp_handle (su_construction_patches u)). x < min (sc_construction cap) u32_max"
    using keys(2) enough by (auto simp: enough_def)
  moreover have "length (so_construction ?st) - 1 < min (sc_construction cap) u32_max" using enough by (auto simp: enough_def)
  ultimately have handle: "?handle < min (sc_construction cap) u32_max" by (intro foldl_max_less)
  let ?xs = "resize_list (Suc ?source) no_state (so_sources ?st)"
  have len: "length (so_sources ?st) \<le> Suc ?source"
    using foldl_max_ge [of "length (so_sources ?st) - 1" "map sp_source ?ps"] by simp
  have pinv: "patch_inv (su_source_index u) (map sp_source ?ps)" using inv by (simp add: sparse_inv_def)
  have "distinct (map sp_source ?ps)" using pinv unfolding patch_inv_def by blast
  moreover have "\<forall>p \<in> set ?ps. sp_source p < length ?xs \<and> sp_source p \<noteq> 0 \<and> (sp_present p \<longrightarrow> cs_source (sp_state p) = sp_source p)"
    using inv foldl_max_mem [of _ "map sp_source ?ps" "length (so_sources ?st) - 1"]
    by (auto simp: sparse_inv_def patch_ok_def patch_inv_def less_Suc_eq_le)
  moreover have "statistics_exact ?xs (cc_statistics c)"
    using wf(1) len by (simp add: cache_wf_def statistics_exact_def live_total_resize)
  moreover have "\<forall>p \<in> set ?ps. state_at ?xs (sp_source p) = cache_state c (sp_source p)"
    using len by (simp add: state_at_resize cache_state_def storage_state_at)
  ultimately obtain s c' where s: "patch_statistics c ?ps (cc_statistics c) = (Some s, c')"
    using patch_statistics_exact by blast
  have "storage_sizes ?st ! i + storage_sizes (su_candidate u) ! i \<le> sc_arrays cap ! i" if "i < 6" for i
    using sizes enough that by (simp add: storage_sizes_extended enough_def)
  note fits = this
  have six: "length (storage_sizes st) = 6" for st by (simp add: storage_sizes_def)
  have arrays: "\<not> list_ex (\<lambda>(limit, base, n). limit < base + n)
      (zip (sc_arrays cap) (zip (storage_sizes ?st) (storage_sizes (su_candidate u))))" (is "\<not> list_ex ?P ?zs")
  proof
    assume "list_ex ?P ?zs"
    then obtain i where "i < length ?zs" "?P (?zs ! i)" by (auto simp: list_ex_iff in_set_conv_nth)
    then show False using fits [of i] enough by (simp add: enough_def six)
  qed
  have "\<not> exceeds cap (u\<lparr>su_statistics := s, su_source_size := Suc ?source, su_construction_size := Suc ?handle\<rparr>)"
    using source handle arrays inv by (simp add: exceeds_def sparse_inv_def)
  moreover have "su_attached u" "su_failure u = st_ok" "\<not> su_prepared u" "\<not> su_published u" "cc_complete c"
    using inv wf(1) by (simp_all add: sparse_inv_def cache_wf_def)
  ultimately show ?thesis
    using wf(2) source handle s unfolding sparse_prepare_def Let_def by simp
qed

lemma incremental_succeeds:
  assumes "cache_wf c" and "\<not> cc_baseline c" and "list_all request_ok rs" and "distinct (map fst (changes_of rs))"
    and "enough n k counts cap rs c"
  shows "\<exists>c'. incremental operation n k counts cap rs c out = (st_ok, c', out)"
proof -
  let ?u = "(begin_incremental c)\<lparr>su_source_index := empty_slots (patch_capacity n),
       su_construction_index := empty_slots (patch_capacity k)\<rparr>"
  note reserve = reserve_succeeds [OF assms(5)]
  note inv0 = sparse_inv_reserve [OF reserve]
  have empty: "extended (cc_committed c) (su_candidate ?u) = cc_committed c"
    by (simp add: begin_incremental_def extended_def empty_storage_def)
  have n: "n \<le> u64_max div 2" "k \<le> u64_max div 2" "length (changes_of rs) \<le> n" "length (handles_of rs) \<le> k"
    "room (cc_committed c) (replaced_facts rs)"
    using assms(5) by (simp_all add: enough_def)
  have cap: "changes_of rs \<noteq> [] \<Longrightarrow> length (changes_of rs) < patch_capacity n"
    "handles_of rs \<noteq> [] \<Longrightarrow> length (handles_of rs) < patch_capacity k"
    using patch_capacity_ge [OF _ n(1)] patch_capacity_ge [OF _ n(2)] n(3,4) by (fastforce dest: le_less_trans)+
  have "sparse_room c ?u rs"
    unfolding sparse_room_def empty
    using n(5) cap assms(4) by (simp add: patch_load_empty begin_incremental_def) (simp add: empty_slots_def)
  then obtain u where u: "apply_requests operation rs ?u out = (st_ok, u, out)"
    "\<forall>i < 6. storage_sizes (extended (cc_committed c) (su_candidate u)) ! i =
        storage_sizes (cc_committed c) ! i + sizes_total (replaced_facts rs) i"
    "set (map cp_handle (su_construction_patches u)) \<subseteq> set (handles_of rs)"
    using apply_requests_succeed [OF inv0 _ assms(3)] unfolding empty
    by (fastforce simp: begin_incremental_def)
  have inv: "sparse_inv c u (changes_of rs)" using apply_requests_inv [OF u(1) inv0] by simp
  obtain u' c' where "sparse_prepare cap c u = (st_ok, u', c')"
    using prepare_succeeds [OF assms(1,2) inv assms(5) refl u(3,2)] by blast
  with reserve u(1) show ?thesis by (simp add: incremental_def)
qed

section \<open>Properties\<close>

lemma full_rebuild_baseline: "full_rebuild operation fs c0 out = (st_ok, c, out') \<Longrightarrow> cc_baseline c = cc_baseline c0"
  by (auto simp: full_rebuild_def rebuild_prepare_def rebuild_publish_def split: prod.splits if_splits)


text \<open>The facts of \<^verbatim>\<open>struct A{const int b;};\<close> as one and as another Source.\<close>

definition sample_of :: "nat \<Rightarrow> source_facts" where
  "sample_of s = sample_facts\<lparr>sf_source := s\<rparr>"

lemma sample_valid: "s \<noteq> 0 \<Longrightarrow> facts_valid (sample_of s)"
proof -
  assume "s \<noteq> 0"
  have same: "located (sample_of s) = located sample_facts" "part_of (sample_of s) = part_of sample_facts"
    "spans_of (sample_of s) = spans_of sample_facts"
    by (simp_all add: fun_eq_iff located_def part_of_def spans_of_def sample_of_def)
  have bodies: "record_ok (sample_of s) = record_ok sample_facts" "enum_value_ok (sample_of s) = enum_value_ok sample_facts"
    by (simp_all add: fun_eq_iff record_ok_def record_body_ok_def enum_value_ok_def same) (simp add: sample_of_def)
  have "facts_valid sample_facts" using sample_accepted by (simp add: accepted_iff)
  then show ?thesis
    using \<open>s \<noteq> 0\<close>
    unfolding facts_valid_def namespaces_ok_def records_ok_def methods_ok_def bases_ok_def members_ok_def
      modifiers_ok_def enums_ok_def objects_ok_def type_modifiers_ok_def links_ok_def aliases_ok_def declarations_ok_def
      same bodies
    by (simp add: sample_of_def)
qed

lemma sample_capturable: "s \<noteq> 0 \<Longrightarrow> capturable (sample_of s)"
  by (simp add: capturable_def accepted_iff sample_valid) (simp add: sample_of_def sample_facts_def)


text \<open>
  C26. An incremental update ends where a full rebuild of the resulting Sources would: when both succeed, the
  contents of all Sources and the statistics agree, and so does the semantic filter on every Source.
\<close>

theorem incremental_equals_rebuild:
  assumes "full_rebuild operation fs c0 out0 = (st_ok, c, out1)"
    and "incremental operation n k counts cap rs c out1 = (st_ok, c', out2)"
    and "full_rebuild operation (resulting_sources fs rs) c1 out3 = (st_ok, d, out4)"
  shows "cache_content c' = cache_content d \<and> cc_statistics c' = cc_statistics d \<and>
    (\<forall>f \<in> set (resulting_sources fs rs). equivalent c' f \<and> equivalent d f)"
proof -
  note base = full_rebuild_contents [OF assms(1)] and target = full_rebuild_contents [OF assms(3)]
  note inc = incremental_contents [OF assms(2) base(2)]
  have "cache_content c' = contents_of (resulting_sources fs rs)"
    unfolding inc(1) base(1) resulting_contents [OF inc(3)] by (rule refl)
  then have same: "cache_content c' = contents_of (resulting_sources fs rs)" "cache_content d = contents_of (resulting_sources fs rs)"
    using target(1) by simp_all
  have "contents_of (resulting_sources fs rs) (sf_source f) = Some (facts_content f)"
    if "f \<in> set (resulting_sources fs rs)" for f
    unfolding contents_of_def by (rule map_of_is_SomeI) (use target(4) that in \<open>auto simp: comp_def\<close>)
  then show ?thesis
    using same cache_wf_statistics [OF inc(2)] cache_wf_statistics [OF target(2)] target(3)
    by (simp add: equivalent_content)
qed

text \<open>One Source is removed and another added.\<close>

definition sample_requests :: "request list" where
  "sample_requests = [Remove_source 1, Replace_source (sample_of 2)]"

definition sample_capacity :: storage_capacity where
  "sample_capacity = \<lparr>sc_sources = 64, sc_construction = 64, sc_arrays = [64, 64, 64, 64, 64, 64]\<rparr>"

lemma sample_rebuild: "\<exists>c. full_rebuild 7 [sample_of s] empty_cache [] = (st_ok, c, [])" if "s \<noteq> 0" for s
proof (rule full_rebuild_succeeds)
  have sizes: "facts_sizes (sample_of s) = [1, 1, 1, 0, 0, 0]"
    by (simp add: facts_sizes_def facts_types_def sample_of_def sample_facts_def declared_types_def)
  show "\<forall>i < 6. sizes_total [sample_of s] i \<le> u32_max"
    unfolding below_six by (simp add: sizes_total_def sizes)
qed (use that sample_capturable in \<open>simp_all add: sample_of_def\<close>)

text \<open>What the cache holds after the first Source.\<close>

lemma sample_cache:
  "\<exists>c. full_rebuild 7 [sample_of 1] empty_cache [] = (st_ok, c, []) \<and>
     storage_sizes (cc_committed c) = [1, 1, 1, 0, 0, 0] \<and> length (so_sources (cc_committed c)) = 2 \<and>
     so_construction (cc_committed c) = []"
proof -
  have gate: "replace_gate (sample_of 1) 7 [] = (st_ok, [])"
    by (rule replace_gate_passes) (simp_all add: sample_valid, simp add: sample_of_def sample_facts_def)
  obtain u where u: "rebuild_capture (sample_of 1) begin_rebuild = (st_ok, u)"
    "storage_sizes (ru_candidate u) = [1, 1, 1, 0, 0, 0]" "length (so_sources (ru_candidate u)) = 2"
    "so_construction (ru_candidate u) = []" "ru_failure u = st_ok" "ru_attached u" "\<not> ru_prepared u" "\<not> ru_published u"
    by (simp add: rebuild_capture_def Let_def begin_rebuild_def rebuild_grown_def empty_storage_def resize_list_def
        storage_sizes_def append_payload_def and_do_def append_modifiers_def append_member_def append_enum_values_def
        append_links_def append_types_def append_declaration_def append_record_def counts_overflow_def add_u32_def
        sample_of_def sample_facts_def)
  have "rebuild_replace (sample_of 1) 7 begin_rebuild [] = (st_ok, u, [])"
    using gate u(1) by (simp add: rebuild_replace_def) (simp add: begin_rebuild_def sample_of_def)
  then show ?thesis
    using u by (simp add: full_rebuild_def rebuild_prepare_def rebuild_publish_def)
qed

theorem incremental_equals_rebuild_witness:
  "\<exists>c c' d. full_rebuild 7 [sample_of 1] empty_cache [] = (st_ok, c, []) \<and>
     incremental 7 2 0 [1, 1, 1, 0, 0, 0] sample_capacity sample_requests c [] = (st_ok, c', []) \<and>
     full_rebuild 7 [sample_of 2] empty_cache [] = (st_ok, d, []) \<and> cache_content c' = cache_content d"
proof -
  obtain c where c: "full_rebuild 7 [sample_of 1] empty_cache [] = (st_ok, c, [])"
    "storage_sizes (cc_committed c) = [1, 1, 1, 0, 0, 0]" "length (so_sources (cc_committed c)) = 2"
    "so_construction (cc_committed c) = []"
    using sample_cache by blast
  have names: "map fst (changes_of sample_requests) = [1, 2]" "handles_of sample_requests = []"
    "replaced_facts sample_requests = [sample_of 2]" "resulting_sources [sample_of 1] sample_requests = [sample_of 2]"
    by (simp_all add: sample_requests_def changes_of_def request_change_def handles_of_def replaced_facts_def resulting_sources_def sample_of_def)
  have sizes: "facts_sizes (sample_of s) = [1, 1, 1, 0, 0, 0]" for s
    by (simp add: facts_sizes_def facts_types_def sample_of_def sample_facts_def declared_types_def)
  have "length (changes_of sample_requests) = 2" using names(1) by (metis length_map length_Cons list.size(3) numeral_2_eq_2)
  moreover have "fst ` set (changes_of sample_requests) = {1, 2}" using names(1) by (metis list.set(1,2) list.set_map)
  ultimately have "enough 2 0 [1, 1, 1, 0, 0, 0] sample_capacity sample_requests c"
    unfolding enough_def room_def below_six names(2,3) c(2-4)
    by (simp add: sizes_total_def sizes sample_capacity_def)
  moreover have "cache_wf c" "\<not> cc_baseline c"
    using full_rebuild_contents(2) [OF c(1)] full_rebuild_baseline [OF c(1)] by (simp_all add: empty_cache_def)
  moreover have "list_all request_ok sample_requests"
    by (simp add: sample_requests_def sample_capturable) (simp add: sample_of_def)
  ultimately obtain c' where c': "incremental 7 2 0 [1, 1, 1, 0, 0, 0] sample_capacity sample_requests c [] = (st_ok, c', [])"
    using incremental_succeeds [of c sample_requests 2 0 _ sample_capacity 7 "[]"] names(1) by auto
  obtain d where d: "full_rebuild 7 [sample_of 2] empty_cache [] = (st_ok, d, [])"
    using sample_rebuild [of 2] by auto
  have "cache_content c' = cache_content d"
    using incremental_equals_rebuild [OF c(1) c'] d unfolding names(4) by blast
  with c(1) c' d show ?thesis by blast
qed

end
