(* ===== verification/Managed_Fields.thy ===== *)
theory Managed_Fields
  imports Graph Project_Config
begin

text \<open>
  The scalar fields of the Managed Runtime, \<^verbatim>\<open>src/server_engine/project/runtime/managed_runtime.cpp\<close>: their layout
  from a type expression, which integers they hold, their initial bytes, and their reading and writing in
  little-endian storage. Conversions between integers and floating-point numbers are arguments: they are the
  host's, on bit patterns.
\<close>

section \<open>Records\<close>

record managed_field_layout =
  mf_endpoint :: object_endpoint
  mf_offset :: nat
  mf_size :: nat
  mf_alignment :: nat
  mf_value_type :: nat
  mf_initial :: construction_value
  mf_reference :: bool
  mf_signed :: bool
  mf_floating :: bool
  mf_pointer :: bool
  mf_read_only :: bool
  mf_boolean :: bool
  mf_aggregate :: bool
  mf_first_child :: nat
  mf_child_count :: nat
  mf_sibling_first :: nat
  mf_sibling_count :: nat

definition invalid_endpoint :: object_endpoint where
  "invalid_endpoint = \<lparr>ep_object = 0, ep_member = invalid_member\<rparr>"

definition blank_field :: managed_field_layout where
  "blank_field = \<lparr>mf_endpoint = invalid_endpoint, mf_offset = 0, mf_size = 0, mf_alignment = 1, mf_value_type = 0,
     mf_initial = cv_default, mf_reference = False, mf_signed = False, mf_floating = False, mf_pointer = False,
     mf_read_only = False, mf_boolean = False, mf_aggregate = False, mf_first_child = 0, mf_child_count = 0,
     mf_sibling_first = 0, mf_sibling_count = 0\<rparr>"

text \<open>A construction that gives up with a message, or a loop over type expressions that does not end.\<close>

datatype managed_error = me_fail string | me_diverges

definition align_offset :: "nat \<Rightarrow> nat \<Rightarrow> nat option" where
  "align_offset offset alignment =
     (if offset > u64_max - (alignment - 1) then None else Some ((offset + alignment - 1) div alignment * alignment))"

section \<open>Layout of a scalar\<close>

text \<open>
  The loop over qualifiers and indirections. The result is \<^const>\<open>None\<close> for a type that is not scalar. A chain of
  type expressions without repetition is no longer than their number.
\<close>

primrec strip_scalar :: "nat \<Rightarrow> graph \<Rightarrow> nat \<Rightarrow> bool \<Rightarrow> managed_field_layout \<Rightarrow> managed_error + (nat \<times> managed_field_layout) option" where
  "strip_scalar 0 g t indirect f = Inl me_diverges"
| "strip_scalar (Suc fuel) g t indirect f =
     (case derived g t of
        None \<Rightarrow> Inr (Some (t, f))
      | Some d \<Rightarrow>
          (case dt_kind d of
             dk_const \<Rightarrow> strip_scalar fuel g (dt_child d) indirect (f\<lparr>mf_read_only := True\<rparr>)
           | dk_lvalue_reference \<Rightarrow>
               if indirect then Inr None else strip_scalar fuel g (dt_child d) True (f\<lparr>mf_reference := True\<rparr>)
           | dk_pointer \<Rightarrow>
               if indirect then Inr None else strip_scalar fuel g (dt_child d) True (f\<lparr>mf_pointer := True\<rparr>)
           | _ \<Rightarrow> Inr None))"

fun scalar_type :: "abi_target \<Rightarrow> intrinsic_type \<Rightarrow> managed_field_layout \<Rightarrow> managed_field_layout option" where
  "scalar_type abi it_bool f = Some (f\<lparr>mf_size := 1, mf_boolean := True\<rparr>)"
| "scalar_type abi it_unsigned_char f = Some (f\<lparr>mf_size := 1\<rparr>)"
| "scalar_type abi it_char8 f = Some (f\<lparr>mf_size := 1\<rparr>)"
| "scalar_type abi it_char f = Some (f\<lparr>mf_size := 1, mf_signed := True\<rparr>)"
| "scalar_type abi it_signed_char f = Some (f\<lparr>mf_size := 1, mf_signed := True\<rparr>)"
| "scalar_type abi it_signed_short f = Some (f\<lparr>mf_size := 2, mf_signed := True\<rparr>)"
| "scalar_type abi it_unsigned_short f = Some (f\<lparr>mf_size := 2\<rparr>)"
| "scalar_type abi it_char16 f = Some (f\<lparr>mf_size := 2\<rparr>)"
| "scalar_type abi it_signed_int f = Some (f\<lparr>mf_size := 4, mf_signed := True\<rparr>)"
| "scalar_type abi it_unsigned_int f = Some (f\<lparr>mf_size := 4\<rparr>)"
| "scalar_type abi it_char32 f = Some (f\<lparr>mf_size := 4\<rparr>)"
| "scalar_type abi it_wchar f = Some (f\<lparr>mf_size := if abi = windows_x64 then 2 else 4\<rparr>)"
| "scalar_type abi it_signed_long f = Some (f\<lparr>mf_size := if abi = windows_x64 then 4 else 8, mf_signed := True\<rparr>)"
| "scalar_type abi it_unsigned_long f = Some (f\<lparr>mf_size := if abi = windows_x64 then 4 else 8\<rparr>)"
| "scalar_type abi it_signed_long_long f = Some (f\<lparr>mf_size := 8, mf_signed := True\<rparr>)"
| "scalar_type abi it_unsigned_long_long f = Some (f\<lparr>mf_size := 8\<rparr>)"
| "scalar_type abi it_float f = Some (f\<lparr>mf_size := 4, mf_floating := True\<rparr>)"
| "scalar_type abi it_double f = Some (f\<lparr>mf_size := 8, mf_floating := True\<rparr>)"
| "scalar_type abi _ f = None"

definition scalar_layout :: "graph \<Rightarrow> nat \<Rightarrow> abi_target \<Rightarrow> managed_field_layout \<Rightarrow> managed_error + managed_field_layout option" where
  "scalar_layout g t abi f =
     (case strip_scalar (Suc (length (gr_canonical g))) g t False f of
        Inl e \<Rightarrow> Inl e
      | Inr None \<Rightarrow> Inr None
      | Inr (Some (base, f')) \<Rightarrow>
          (case intrinsic g base of
             None \<Rightarrow> Inr None
           | Some i \<Rightarrow>
               let f1 = f'\<lparr>mf_value_type := base\<rparr> in
               if mf_pointer f1 then Inr (Some (f1\<lparr>mf_size := 8, mf_alignment := 8\<rparr>))
               else Inr (case scalar_type abi i f1 of None \<Rightarrow> None | Some f2 \<Rightarrow> Some (f2\<lparr>mf_alignment := mf_size f2\<rparr>))))"

section \<open>Integers\<close>

definition integer_fits :: "managed_field_layout \<Rightarrow> u64 \<Rightarrow> bool \<Rightarrow> bool" where
  "integer_fits f bits negative =
     (if mf_pointer f then bits = 0
      else if mf_boolean f then \<not> negative \<and> bits \<le> 1
      else if \<not> mf_signed f \<and> negative then False
      else if mf_size f = 8 then \<not> mf_signed f \<or> negative \<or> unat bits \<le> 2 ^ 63 - 1
      else
        let width = mf_size f * 8 in
        if negative then sint bits \<ge> - (2 ^ (width - 1))
        else unat bits < 2 ^ (width - (if mf_signed f then 1 else 0)))"

text \<open>\<^verbatim>\<open>memcpy\<close> of the low bytes of a 64-bit word, and into one.\<close>

definition le_bytes :: "nat \<Rightarrow> u64 \<Rightarrow> u8 list" where
  "le_bytes n bits = map (\<lambda>j. ucast (drop_bit (8 * j) bits)) [0..<n]"

primrec le_word :: "u8 list \<Rightarrow> u64" where
  "le_word [] = 0"
| "le_word (b # bs) = ucast b OR push_bit 8 (le_word bs)"

definition store_bytes :: "nat \<Rightarrow> u8 list \<Rightarrow> u8 list \<Rightarrow> u8 list" where
  "store_bytes offset bytes storage = take offset storage @ bytes @ drop (offset + length bytes) storage"

definition load_bytes :: "nat \<Rightarrow> nat \<Rightarrow> u8 list \<Rightarrow> u8 list" where
  "load_bytes offset n storage = take n (drop offset storage)"

text \<open>The sign extension of \<^verbatim>\<open>read_integer\<close>.\<close>

definition extend_sign :: "managed_field_layout \<Rightarrow> u64 \<Rightarrow> u64" where
  "extend_sign f bits =
     (if mf_signed f \<and> mf_size f < 8 \<and> bits AND push_bit (mf_size f * 8 - 1) 1 \<noteq> 0
      then bits OR NOT (push_bit (mf_size f * 8) 1 - 1) else bits)"

section \<open>Floating point\<close>

record float_host =
  fl_of_signed :: "u64 \<Rightarrow> u64"
  fl_of_unsigned :: "u64 \<Rightarrow> u64"
  fl_narrow :: "u64 \<Rightarrow> u32"
  fl_widen :: "u32 \<Rightarrow> u64"

definition finite_double :: "u64 \<Rightarrow> bool" where
  "finite_double bits \<longleftrightarrow> drop_bit 52 bits AND 0x7ff \<noteq> 0x7ff"

definition finite_float :: "u32 \<Rightarrow> bool" where
  "finite_float bits \<longleftrightarrow> drop_bit 23 bits AND 0xff \<noteq> 0xff"

section \<open>Initial bytes\<close>

definition initialize :: "float_host \<Rightarrow> managed_field_layout \<Rightarrow> u8 list \<Rightarrow> u8 list option" where
  "initialize fh f storage =
     (let v = mf_initial f in
      if \<not> valid_construction v \<or> cv_kind v = ck_unsupported \<or> cv_kind v = ck_aggregate then None
      else if mf_aggregate f then (if cv_kind v = ck_zero then Some storage else None)
      else if mf_reference f then (if cv_kind v = ck_zero \<or> cv_kind v = ck_member_binding then Some storage else None)
      else if cv_kind v = ck_member_binding then None
      else if mf_floating f then
        let number = (if cv_kind v = ck_real then cv_bits v
                      else if cv_kind v = ck_signed_integer then fl_of_signed fh (cv_bits v) else fl_of_unsigned fh (cv_bits v)) in
        if \<not> finite_double number then None
        else if mf_size f = 4 then
          (let narrowed = fl_narrow fh number in
           if \<not> finite_float narrowed then None
           else Some (store_bytes (mf_offset f) (le_bytes 4 (ucast narrowed)) storage))
        else Some (store_bytes (mf_offset f) (le_bytes 8 number) storage)
      else if cv_kind v = ck_real \<or>
        \<not> integer_fits f (cv_bits v) (cv_kind v = ck_signed_integer \<and> sint (cv_bits v) < 0) then None
      else Some (store_bytes (mf_offset f) (le_bytes (mf_size f) (cv_bits v)) storage))"

end
