(* ===== verification/Managed_Layout.thy ===== *)
theory Managed_Layout
  imports Managed_Fields
begin

text \<open>
  The storage layout of the Managed Runtime, the first part of \<^verbatim>\<open>construct\<close> in
  \<^verbatim>\<open>src/server_engine/project/runtime/managed_runtime.cpp\<close>: the fs of every object, nested records included,
  with their offsets. The fs of one record are reserved together, those of nested records follow.
\<close>

section \<open>Records\<close>

record managed_object_layout =
  mo_object :: nat
  mo_offset :: nat
  mo_size :: nat
  mo_alignment :: nat
  mo_first_field :: nat
  mo_field_count :: nat

text \<open>The loop over the \<^verbatim>\<open>const\<close> qualifiers of a record held by value.\<close>

primrec strip_const :: "nat \<Rightarrow> graph \<Rightarrow> nat \<Rightarrow> bool \<Rightarrow> managed_error + (nat \<times> bool)" where
  "strip_const 0 g base is_const = Inl me_diverges"
| "strip_const (Suc fuel) g base is_const =
     (case derived g base of
        None \<Rightarrow> Inr (base, is_const)
      | Some d \<Rightarrow> if dt_kind d = dk_const then strip_const fuel g (dt_child d) True else Inr (base, is_const))"

type_synonym laid_record = "managed_field_layout list \<times> nat \<times> nat \<times> nat \<times> nat"

definition member_endpoint :: "object_endpoint \<Rightarrow> nat \<Rightarrow> object_endpoint" where
  "member_endpoint root local =
     (if ep_member root \<noteq> invalid_member then root
      else \<lparr>ep_object = ep_object root, ep_member = to_u32 local\<rparr>)"

text \<open>
  The field of one member, and the fields after those of a nested record, which \<open>self\<close> lays out, are added.
  A nested layout is its fs, size, alignment, first field and number of fs.
\<close>

definition member_field ::
  "(nat \<Rightarrow> object_endpoint \<Rightarrow> bool \<Rightarrow> managed_field_layout list \<Rightarrow> managed_error + laid_record) \<Rightarrow> graph \<Rightarrow>
   abi_configuration \<Rightarrow> object_endpoint \<Rightarrow> bool \<Rightarrow> nat \<Rightarrow> nat \<Rightarrow> nat \<Rightarrow> member_record \<Rightarrow> managed_field_layout list \<Rightarrow>
   managed_error + managed_field_layout \<times> managed_field_layout list" where
  "member_field self g abi root read_only first members_count local member fs =
     (let f = blank_field\<lparr>mf_endpoint := member_endpoint root local, mf_initial := mr_construction member,
                mf_sibling_first := first, mf_sibling_count := members_count\<rparr> in
      case scalar_layout g (mr_type member) (abi_target_of abi) f of
        Inl e \<Rightarrow> Inl e
      | Inr (Some f') \<Rightarrow>
          Inr (if mf_reference f' then f' else f'\<lparr>mf_read_only := mf_read_only f' \<or> read_only\<rparr>, fs)
      | Inr None \<Rightarrow>
          (case strip_const (Suc (length (gr_canonical g))) g (mr_type member) False of
             Inl e \<Rightarrow> Inl e
           | Inr (base, is_const) \<Rightarrow>
               (case named g base of
                  None \<Rightarrow> Inl (me_fail ''Unsupported managed field type'')
                | Some nested \<Rightarrow>
                    let f' = f\<lparr>mf_value_type := base, mf_aggregate := True, mf_read_only := read_only \<or> is_const\<rparr> in
                    case self nested (mf_endpoint f') (mf_read_only f') fs of
                      Inl e \<Rightarrow> Inl e
                    | Inr (fs', nested_size, nested_alignment, first_child, child_count) \<Rightarrow>
                        if nested_size > u32_max then Inl (me_fail ''Managed record layout exceeds 4 GiB'')
                        else Inr (f'\<lparr>mf_size := to_u32 nested_size, mf_alignment := to_u32 nested_alignment,
                                     mf_first_child := first_child, mf_child_count := child_count\<rparr>, fs'))))"

text \<open>A reference occupies eight bytes, whatever the size of its referent.\<close>

definition field_bytes :: "managed_field_layout \<Rightarrow> nat" where
  "field_bytes f = (if mf_reference f then 8 else mf_size f)"

definition field_alignment :: "abi_configuration \<Rightarrow> managed_field_layout \<Rightarrow> nat" where
  "field_alignment abi f = min (if mf_reference f then 8 else mf_alignment f) (abi_pack abi)"

definition shift_fields :: "nat \<Rightarrow> nat \<Rightarrow> managed_field_layout list \<Rightarrow> managed_field_layout list" where
  "shift_fields from by_bytes fs =
     take from fs @ map (\<lambda>f. f\<lparr>mf_offset := mf_offset f + by_bytes\<rparr>) (drop from fs)"

definition place_member ::
  "abi_configuration \<Rightarrow> nat \<Rightarrow> managed_field_layout \<Rightarrow> nat \<Rightarrow> managed_field_layout list \<Rightarrow> nat \<Rightarrow> nat \<Rightarrow>
   managed_error + managed_field_layout list \<times> nat \<times> nat" where
  "place_member abi index f descendants_begin fs used alignment =
     (case align_offset used (field_alignment abi f) of
        None \<Rightarrow> Inl (me_fail ''Layout overflow'')
      | Some start \<Rightarrow>
          if start > u64_max - field_bytes f then Inl (me_fail ''Layout overflow'')
          else Inr ((shift_fields descendants_begin start fs)[index := f\<lparr>mf_offset := start\<rparr>],
                    start + field_bytes f, max alignment (field_alignment abi f)))"

primrec layout_members ::
  "(nat \<Rightarrow> object_endpoint \<Rightarrow> bool \<Rightarrow> managed_field_layout list \<Rightarrow> managed_error + laid_record) \<Rightarrow> graph \<Rightarrow>
   abi_configuration \<Rightarrow> object_endpoint \<Rightarrow> bool \<Rightarrow> nat \<Rightarrow> nat \<Rightarrow> member_record list \<Rightarrow> nat \<Rightarrow> managed_field_layout list \<Rightarrow>
   nat \<Rightarrow> nat \<Rightarrow> managed_error + managed_field_layout list \<times> nat \<times> nat" where
  "layout_members self g abi root read_only first members_count [] local fs used alignment = Inr (fs, used, alignment)"
| "layout_members self g abi root read_only first members_count (member # ms) local fs used alignment =
     (case member_field self g abi root read_only first members_count local member fs of
        Inl e \<Rightarrow> Inl e
      | Inr (f, fs') \<Rightarrow>
          (case place_member abi (first + local) f (length fs) fs' used alignment of
             Inl e \<Rightarrow> Inl e
           | Inr (fs'', used', alignment') \<Rightarrow>
               layout_members self g abi root read_only first members_count ms (Suc local) fs'' used' alignment'))"

text \<open>\<open>depth\<close> is what is left of the 64 levels: 64 less the length of \<open>active\<close>.\<close>

primrec layout_record ::
  "nat \<Rightarrow> graph \<Rightarrow> abi_configuration \<Rightarrow> nat list \<Rightarrow> nat \<Rightarrow> object_endpoint \<Rightarrow> bool \<Rightarrow> managed_field_layout list \<Rightarrow>
   managed_error + laid_record" where
  "layout_record 0 g abi active type root read_only fs =
     Inl (me_fail ''Recursive value containment or managed nesting depth exceeds 64'')"
| "layout_record (Suc depth) g abi active type root read_only fs =
     (if type \<in> set active then Inl (me_fail ''Recursive value containment or managed nesting depth exceeds 64'')
      else
        case find_entry g type of
          None \<Rightarrow> Inl (me_fail ''Managed values require defined struct/class records; unions are unsupported'')
        | Some record \<Rightarrow>
            if \<not> te_defined record \<or> te_kind record \<noteq> gk_record \<or> te_record_kind record = rk_union
            then Inl (me_fail ''Managed values require defined struct/class records; unions are unsupported'')
            else
              let ms = members g type; first = length fs; members_count = length ms in
              case layout_members (layout_record depth g abi (active @ [type])) g abi root read_only first members_count ms 0
                     (fs @ replicate members_count blank_field) 0 1 of
                Inl e \<Rightarrow> Inl e
              | Inr (fs', used, alignment) \<Rightarrow>
                  (case align_offset (if used = 0 then 1 else used) alignment of
                     None \<Rightarrow> Inl (me_fail ''Layout overflow'')
                   | Some used' \<Rightarrow> Inr (fs', used', alignment, first, members_count)))"

section \<open>Objects\<close>

text \<open>The layout under construction. \<open>ml_slots\<close> maps an object handle to its position, if it has one.\<close>

record managed_layout =
  ml_objects :: "managed_object_layout list"
  ml_fields :: "managed_field_layout list"
  ml_slots :: "nat option list"
  ml_total :: nat

definition layout_object :: "graph \<Rightarrow> abi_configuration \<Rightarrow> nat \<Rightarrow> managed_layout \<Rightarrow> managed_error + managed_layout" where
  "layout_object g abi i l =
     (let object = object_at g i in
      case find_object_entry g object of
        None \<Rightarrow> Inr l
      | Some entry \<Rightarrow>
          if oe_flags entry AND 1 \<noteq> 0
          then Inl (me_fail ''Non-default object initializers are unsupported by managed construction'')
          else
            case named g (oe_type entry) of
              None \<Rightarrow> Inl (me_fail ''Managed objects require a direct record type'')
            | Some type \<Rightarrow>
                (case layout_record 64 g abi [] type \<lparr>ep_object = object, ep_member = invalid_member\<rparr> False (ml_fields l) of
                   Inl e \<Rightarrow> Inl e
                 | Inr (fs, used, alignment, first, members_count) \<Rightarrow>
                     (case (align_offset used alignment, align_offset (ml_total l) alignment) of
                        (Some used', Some start) \<Rightarrow>
                          if start > u64_max - used' then Inl (me_fail ''Layout overflow'')
                          else Inr \<lparr>ml_objects = ml_objects l @
                                      [\<lparr>mo_object = object, mo_offset = start, mo_size = used', mo_alignment = alignment,
                                        mo_first_field = first, mo_field_count = members_count\<rparr>],
                                    ml_fields = shift_fields first start fs,
                                    ml_slots = (ml_slots l)[object := Some (length (ml_objects l))],
                                    ml_total = start + used'\<rparr>
                      | _ \<Rightarrow> Inl (me_fail ''Layout overflow''))))"

primrec layout_objects :: "graph \<Rightarrow> abi_configuration \<Rightarrow> nat list \<Rightarrow> managed_layout \<Rightarrow> managed_error + managed_layout" where
  "layout_objects g abi [] l = Inr l"
| "layout_objects g abi (i # is) l =
     (case layout_object g abi i l of Inl e \<Rightarrow> Inl e | Inr l' \<Rightarrow> layout_objects g abi is l')"

definition layout_graph :: "graph \<Rightarrow> abi_configuration \<Rightarrow> managed_error + managed_layout" where
  "layout_graph g abi =
     layout_objects g abi [0..<length (gr_objects g)]
       \<lparr>ml_objects = [], ml_fields = [], ml_slots = replicate (length (gr_objects g) + 1) None, ml_total = 0\<rparr>"

section \<open>What a layout promises\<close>

text \<open>A field of at most eight bytes that holds a number, a truth value or a null pointer.\<close>

definition leaf_shape :: "managed_field_layout \<Rightarrow> bool" where
  "leaf_shape f \<longleftrightarrow>
     mf_size f \<in> {1, 2, 4, 8} \<and> mf_alignment f = mf_size f \<and> (mf_pointer f \<longrightarrow> mf_size f = 8) \<and>
     (mf_floating f \<longrightarrow> mf_size f \<in> {4, 8} \<and> \<not> mf_signed f)"

definition fields_apart :: "managed_field_layout \<Rightarrow> managed_field_layout \<Rightarrow> bool" where
  "fields_apart f f' \<longleftrightarrow>
     mf_aggregate f \<or> mf_aggregate f' \<or> mf_offset f + field_bytes f \<le> mf_offset f' \<or>
     mf_offset f' + field_bytes f' \<le> mf_offset f"

definition field_within :: "abi_configuration \<Rightarrow> nat \<Rightarrow> nat \<Rightarrow> nat \<Rightarrow> nat \<Rightarrow> managed_field_layout \<Rightarrow> bool" where
  "field_within abi n lo hi a f \<longleftrightarrow>
     mf_first_child f + mf_child_count f \<le> n \<and> mf_sibling_first f + mf_sibling_count f \<le> n \<and>
     (mf_aggregate f \<or>
      leaf_shape f \<and> lo \<le> mf_offset f \<and> mf_offset f + field_bytes f \<le> hi \<and>
      field_alignment abi f dvd mf_offset f \<and> field_alignment abi f dvd a)"

text \<open>The fields at some positions lie in a range of bytes, aligned for a storage aligned to \<open>a\<close>, and apart.\<close>

definition laid_out :: "abi_configuration \<Rightarrow> managed_field_layout list \<Rightarrow> nat set \<Rightarrow> nat \<Rightarrow> nat \<Rightarrow> nat \<Rightarrow> bool" where
  "laid_out abi fs I lo hi a \<longleftrightarrow>
     (\<forall>i\<in>I. i < length fs \<and> field_within abi (length fs) lo hi a (fs ! i)) \<and>
     (\<forall>i\<in>I. \<forall>j\<in>I. i \<noteq> j \<longrightarrow> fields_apart (fs ! i) (fs ! j))"

definition abi_step :: "abi_configuration \<Rightarrow> nat \<Rightarrow> bool" where
  "abi_step abi a \<longleftrightarrow> a \<in> {1, 2, 4, 8} \<and> a \<le> abi_pack abi"

lemma abi_step_one [simp]: "is_supported_abi_pack (abi_pack abi) \<Longrightarrow> abi_step abi 1"
  by (auto simp: abi_step_def is_supported_abi_pack_def)

lemma abi_step_pos: "abi_step abi a \<Longrightarrow> 0 < a"
  by (auto simp: abi_step_def)

lemma abi_step_max:
  assumes "abi_step abi a" "abi_step abi b"
  shows "abi_step abi (max a b)" "a dvd max a b" "b dvd max a b"
  using assms by (auto simp: abi_step_def max_def)

lemma align_offset_some:
  assumes "align_offset x a = Some y" "0 < a"
  shows "x \<le> y" "a dvd y" "y \<le> u64_max"
proof -
  have y: "y = (x + a - 1) div a * a" and x: "x \<le> u64_max - (a - 1)"
    using assms by (auto simp: align_offset_def split: if_splits)
  show "a dvd y" by (simp add: y)
  have "x + a - 1 < y + a" using mod_less_divisor [OF assms(2), of "x + a - 1"] div_mult_mod_eq [of "x + a - 1" a] y
    by linarith
  then show "x \<le> y" using assms(2) by linarith
  have "a - 1 \<le> u64_max \<or> x = 0" using x by linarith
  then show "y \<le> u64_max"
  proof
    assume "a - 1 \<le> u64_max"
    moreover have "y \<le> x + a - 1" using div_mult_mod_eq [of "x + a - 1" a] y by linarith
    ultimately show ?thesis using x assms(2) by linarith
  next
    assume "x = 0"
    then show ?thesis using y assms(2) by simp
  qed
qed

lemma field_within_mono:
  assumes "field_within abi n lo hi a f" "n \<le> n'" "lo' \<le> lo" "hi \<le> hi'" "a dvd a'"
  shows "field_within abi n' lo' hi' a' f"
proof -
  have "field_alignment abi f dvd a \<Longrightarrow> field_alignment abi f dvd a'" using assms(5) by (rule dvd_trans [rotated])
  then show ?thesis using assms(1-4) unfolding field_within_def by linarith
qed

lemma laid_out_union:
  assumes "laid_out abi fs I lo mid a" "laid_out abi fs J mid hi a" "lo \<le> mid" "mid \<le> hi"
  shows "laid_out abi fs (I \<union> J) lo hi a"
  unfolding laid_out_def
proof (intro conjI ballI impI)
  fix i assume i: "i \<in> I \<union> J"
  show "i < length fs" using i assms by (auto simp: laid_out_def)
  show "field_within abi (length fs) lo hi a (fs ! i)"
    using i
  proof
    assume "i \<in> I"
    then have "field_within abi (length fs) lo mid a (fs ! i)" using assms(1) by (simp add: laid_out_def)
    then show ?thesis by (rule field_within_mono) (use assms(4) in simp_all)
  next
    assume "i \<in> J"
    then have "field_within abi (length fs) mid hi a (fs ! i)" using assms(2) by (simp add: laid_out_def)
    then show ?thesis by (rule field_within_mono) (use assms(3) in simp_all)
  qed
next
  fix i j assume ij: "i \<in> I \<union> J" "j \<in> I \<union> J" "i \<noteq> j"
  have mixed: "fields_apart (fs ! i) (fs ! j)" "fields_apart (fs ! j) (fs ! i)" if "i \<in> I" "j \<in> J" for i j
  proof -
    have "field_within abi (length fs) lo mid a (fs ! i)" "field_within abi (length fs) mid hi a (fs ! j)"
      using that assms(1,2) by (auto simp: laid_out_def)
    then show "fields_apart (fs ! i) (fs ! j)" "fields_apart (fs ! j) (fs ! i)"
      unfolding field_within_def fields_apart_def by linarith+
  qed
  show "fields_apart (fs ! i) (fs ! j)"
    using ij assms(1,2) mixed unfolding laid_out_def by blast
qed

lemma laid_out_transfer:
  assumes "laid_out abi fs I lo hi a" "\<And>i. i \<in> I \<Longrightarrow> fs' ! i = fs ! i" "length fs \<le> length fs'" "a dvd a'"
  shows "laid_out abi fs' I lo hi a'"
proof -
  have "field_within abi (length fs') lo hi a' (fs' ! i)" if "i \<in> I" for i
  proof -
    have "field_within abi (length fs) lo hi a (fs ! i)" using assms(1) that by (simp add: laid_out_def)
    then show ?thesis unfolding assms(2) [OF that] by (rule field_within_mono) (simp_all add: assms(3,4))
  qed
  moreover have "fields_apart (fs' ! i) (fs' ! j)" if "i \<in> I" "j \<in> I" "i \<noteq> j" for i j
    using assms(1) that unfolding assms(2) [OF that(1)] assms(2) [OF that(2)] laid_out_def by blast
  moreover have "i < length fs'" if "i \<in> I" for i
    using assms(1,3) that by (fastforce simp: laid_out_def)
  ultimately show ?thesis unfolding laid_out_def by blast
qed

lemma laid_out_widen:
  assumes "laid_out abi fs I lo hi a" "hi \<le> hi'"
  shows "laid_out abi fs I lo hi' a"
  using assms(1) field_within_mono [OF _ le_refl le_refl assms(2) dvd_refl] unfolding laid_out_def by blast

lemma laid_out_empty [simp]: "laid_out abi fs {} lo hi a"
  by (simp add: laid_out_def)

lemma length_shift_fields [simp]: "length (shift_fields n k fs) = length fs"
  by (simp add: shift_fields_def)

lemma nth_shift_fields:
  "i < length fs \<Longrightarrow> shift_fields n k fs ! i = (if i < n then fs ! i else (fs ! i)\<lparr>mf_offset := mf_offset (fs ! i) + k\<rparr>)"
  by (auto simp: shift_fields_def nth_append min_def)

lemma laid_out_shift:
  assumes "laid_out abi fs I 0 hi a" "\<And>i. i \<in> I \<Longrightarrow> n \<le> i" "a dvd k"
  shows "laid_out abi (shift_fields n k fs) I k (k + hi) a"
proof -
  have same: "field_bytes (f\<lparr>mf_offset := x\<rparr>) = field_bytes f" "field_alignment abi (f\<lparr>mf_offset := x\<rparr>) = field_alignment abi f"
    "leaf_shape (f\<lparr>mf_offset := x\<rparr>) = leaf_shape f" for f x
    by (simp_all add: field_bytes_def field_alignment_def leaf_shape_def)
  have nth: "shift_fields n k fs ! i = (fs ! i)\<lparr>mf_offset := mf_offset (fs ! i) + k\<rparr>" "i < length fs" if "i \<in> I" for i
    using that assms(1) assms(2) [OF that] by (auto simp: nth_shift_fields laid_out_def)
  have "field_within abi (length fs) k (k + hi) a (shift_fields n k fs ! i)" if "i \<in> I" for i
  proof -
    have "field_within abi (length fs) 0 hi a (fs ! i)" using assms(1) that by (simp add: laid_out_def)
    moreover have "field_alignment abi (fs ! i) dvd a \<Longrightarrow> field_alignment abi (fs ! i) dvd k"
      using assms(3) by (rule dvd_trans [rotated])
    ultimately show ?thesis unfolding field_within_def nth(1) [OF that] same by simp (use dvd_add in blast)
  qed
  moreover have "fields_apart (shift_fields n k fs ! i) (shift_fields n k fs ! j)" if "i \<in> I" "j \<in> I" "i \<noteq> j" for i j
    using assms(1) that nth(1) [OF that(1)] nth(1) [OF that(2)] by (auto simp: laid_out_def fields_apart_def same)
  ultimately show ?thesis using nth(2) by (simp add: laid_out_def)
qed

text \<open>What laying out one record from the fields \<open>fs\<close> gives.\<close>

definition record_laid :: "abi_configuration \<Rightarrow> managed_field_layout list \<Rightarrow> laid_record \<Rightarrow> bool" where
  "record_laid abi fs r \<longleftrightarrow>
     (case r of (fs', used, alignment, first, members_count) \<Rightarrow>
        first = length fs \<and> first + members_count \<le> length fs' \<and> take (length fs) fs' = fs \<and> abi_step abi alignment \<and>
        alignment dvd used \<and> laid_out abi fs' {length fs..<length fs'} 0 used alignment)"

text \<open>The loop over qualifiers sets the three flags of indirection and constness only.\<close>

definition same_scalar :: "managed_field_layout \<Rightarrow> managed_field_layout \<Rightarrow> bool" where
  "same_scalar f f' \<longleftrightarrow>
     mf_size f' = mf_size f \<and> mf_signed f' = mf_signed f \<and> mf_floating f' = mf_floating f \<and> mf_aggregate f' = mf_aggregate f \<and>
     mf_first_child f' = mf_first_child f \<and> mf_child_count f' = mf_child_count f \<and>
     mf_sibling_first f' = mf_sibling_first f \<and> mf_sibling_count f' = mf_sibling_count f"

lemma same_scalar_flags [simp]:
  "same_scalar (f\<lparr>mf_read_only := b\<rparr>) = same_scalar f" "same_scalar (f\<lparr>mf_reference := b\<rparr>) = same_scalar f"
  "same_scalar (f\<lparr>mf_pointer := b\<rparr>) = same_scalar f" "same_scalar f f"
  by (simp_all add: same_scalar_def fun_eq_iff)

lemma strip_scalar_same: "strip_scalar fuel g t indirect f = Inr (Some (base, f')) \<Longrightarrow> same_scalar f f'"
proof (induction fuel arbitrary: t indirect f)
  case (Suc fuel)
  from Suc.prems show ?case
    by (auto dest!: Suc.IH split: option.splits derived_type_kind.splits if_splits)
qed simp

lemma scalar_type_shape:
  assumes "scalar_type abi i f = Some f'" "\<not> mf_pointer f" "\<not> mf_signed f" "\<not> mf_floating f" "mf_child_count f = 0" "mf_first_child f = 0"
  shows "leaf_shape (f'\<lparr>mf_alignment := mf_size f'\<rparr>) \<and> mf_aggregate f' = mf_aggregate f \<and> mf_first_child f' = 0 \<and> mf_child_count f' = 0 \<and>
    mf_sibling_first f' = mf_sibling_first f \<and> mf_sibling_count f' = mf_sibling_count f"
  using assms by (cases i) (auto simp: leaf_shape_def split: if_splits)

lemma scalar_layout_shape:
  assumes "scalar_layout g t abi f = Inr (Some f')" "\<not> mf_signed f" "\<not> mf_floating f" "mf_child_count f = 0" "mf_first_child f = 0"
  shows "leaf_shape f'" "mf_aggregate f' = mf_aggregate f" "mf_first_child f' = 0" "mf_child_count f' = 0"
    "mf_sibling_first f' = mf_sibling_first f" "mf_sibling_count f' = mf_sibling_count f"
proof -
  obtain base f1 i where f1: "strip_scalar (Suc (length (gr_canonical g))) g t False f = Inr (Some (base, f1))"
    and i: "intrinsic g base = Some i"
    using assms(1) by (auto simp: scalar_layout_def split: sum.splits option.splits prod.splits)
  let ?f = "f1\<lparr>mf_value_type := base\<rparr>"
  note shape = strip_scalar_same [OF f1, unfolded same_scalar_def]
  have "leaf_shape f' \<and> mf_aggregate f' = mf_aggregate f \<and> mf_first_child f' = 0 \<and> mf_child_count f' = 0 \<and>
    mf_sibling_first f' = mf_sibling_first f \<and> mf_sibling_count f' = mf_sibling_count f"
  proof (cases "mf_pointer ?f")
    case True
    then show ?thesis using assms f1 i shape by (auto simp: scalar_layout_def Let_def leaf_shape_def)
  next
    case False
    then obtain f2 where f2: "scalar_type abi i ?f = Some f2" and f': "f' = f2\<lparr>mf_alignment := mf_size f2\<rparr>"
      using assms(1) f1 i by (auto simp: scalar_layout_def Let_def split: option.splits)
    show ?thesis using scalar_type_shape [OF f2] False assms(2-) shape by (simp add: f')
  qed
  then show "leaf_shape f'" "mf_aggregate f' = mf_aggregate f" "mf_first_child f' = 0" "mf_child_count f' = 0"
    "mf_sibling_first f' = mf_sibling_first f" "mf_sibling_count f' = mf_sibling_count f" by auto
qed

lemma leaf_shape_step:
  assumes "leaf_shape f" "is_supported_abi_pack (abi_pack abi)"
  shows "abi_step abi (field_alignment abi f)"
  using assms by (auto simp: leaf_shape_def is_supported_abi_pack_def abi_step_def field_alignment_def)

text \<open>The field of a member and the fields below it.\<close>

definition member_laid ::
  "abi_configuration \<Rightarrow> nat \<Rightarrow> nat \<Rightarrow> managed_field_layout list \<Rightarrow> managed_field_layout \<Rightarrow> managed_field_layout list \<Rightarrow> bool" where
  "member_laid abi first members_count fs f fs' \<longleftrightarrow>
     length fs \<le> length fs' \<and> take (length fs) fs' = fs \<and> abi_step abi (field_alignment abi f) \<and>
     mf_first_child f + mf_child_count f \<le> length fs' \<and> mf_sibling_first f = first \<and> mf_sibling_count f = members_count \<and>
     (\<not> mf_aggregate f \<longrightarrow> leaf_shape f \<and> fs' = fs) \<and>
     laid_out abi fs' {length fs..<length fs'} 0 (field_bytes f) (field_alignment abi f)"

lemma member_field_laid:
  assumes "member_field self g abi root read_only first members_count local member fs = Inr (f, fs')"
    and self: "\<And>type root read_only r. self type root read_only fs = Inr r \<Longrightarrow> record_laid abi fs r"
    and pack: "is_supported_abi_pack (abi_pack abi)"
  shows "member_laid abi first members_count fs f fs'"
proof -
  let ?f = "blank_field\<lparr>mf_endpoint := member_endpoint root local, mf_initial := mr_construction member,
                mf_sibling_first := first, mf_sibling_count := members_count\<rparr>"
  have blank: "\<not> mf_signed ?f" "\<not> mf_floating ?f" "mf_child_count ?f = 0" "mf_first_child ?f = 0" "\<not> mf_aggregate ?f"
    "\<not> mf_reference ?f" by (simp_all add: blank_field_def)
  show ?thesis
  proof (cases "\<exists>f1. scalar_layout g (mr_type member) (abi_target_of abi) ?f = Inr (Some f1)")
    case True
    then obtain f1 where f1: "scalar_layout g (mr_type member) (abi_target_of abi) ?f = Inr (Some f1)" by blast
    have f: "f = (if mf_reference f1 then f1 else f1\<lparr>mf_read_only := mf_read_only f1 \<or> read_only\<rparr>)" and fs: "fs' = fs"
      using assms(1) f1 by (auto simp: member_field_def)
    have leaf: "leaf_shape f" using scalar_layout_shape(1) [OF f1 blank(1-4)] by (simp add: f leaf_shape_def)
    show ?thesis
      using scalar_layout_shape [OF f1 blank(1-4)] blank(5) leaf leaf_shape_step [OF leaf pack]
      by (simp add: member_laid_def fs) (simp add: f)
  next
    case False
    then have none: "scalar_layout g (mr_type member) (abi_target_of abi) ?f = Inr None"
      using assms(1) unfolding member_field_def Let_def by (auto simp del: strip_const.simps split: sum.splits option.splits)
    obtain base is_const where strip: "strip_const (Suc (length (gr_canonical g))) g (mr_type member) False = Inr (base, is_const)"
      using assms(1) none unfolding member_field_def Let_def by (auto simp del: strip_const.simps split: sum.splits)
    obtain nested where "named g base = Some nested"
      using assms(1) none strip unfolding member_field_def Let_def by (auto simp del: strip_const.simps split: option.splits)
    then obtain used alignment first_child child_count where
      r: "self nested (member_endpoint root local) (read_only \<or> is_const) fs = Inr (fs', used, alignment, first_child, child_count)"
      and used: "used \<le> u32_max"
      and f: "f = ?f\<lparr>mf_value_type := base, mf_aggregate := True, mf_read_only := read_only \<or> is_const,
        mf_size := to_u32 used, mf_alignment := to_u32 alignment, mf_first_child := first_child, mf_child_count := child_count\<rparr>"
      using assms(1) none strip unfolding member_field_def Let_def
      by (auto simp del: strip_const.simps split: sum.splits prod.splits if_splits)
    have rec: "record_laid abi fs (fs', used, alignment, first_child, child_count)" by (rule self [OF r])
    then have a: "abi_step abi alignment" by (simp add: record_laid_def)
    have al: "field_alignment abi f = alignment"
      using a blank(6) by (auto simp: f field_alignment_def abi_step_def)
    have bytes: "field_bytes f = used" using used blank(6) by (simp add: f field_bytes_def)
    have "length fs \<le> length fs'" using rec by (simp add: record_laid_def)
    then show ?thesis using rec by (simp add: member_laid_def al bytes record_laid_def) (simp add: f)
  qed
qed

text \<open>Placing a member extends what is laid out: its siblings before it and everything after the siblings.\<close>

lemma place_member_laid:
  assumes place: "place_member abi (first + local) f (length fs) fs' used alignment = Inr (fs'', used', alignment')"
    and member: "member_laid abi first members_count fs f fs'"
    and before: "laid_out abi fs ({first..<first + local} \<union> {first + members_count..<length fs}) 0 used alignment"
    and bounds: "local < members_count" "first + members_count \<le> length fs"
    and step: "abi_step abi alignment"
  shows "laid_out abi fs'' ({first..<first + Suc local} \<union> {first + members_count..<length fs''}) 0 used' alignment'"
    and "abi_step abi alignment'" and "length fs \<le> length fs''" and "take first fs'' = take first fs"
proof -
  note m = member [unfolded member_laid_def]
  obtain start where start: "align_offset used (field_alignment abi f) = Some start"
    and fs'': "fs'' = (shift_fields (length fs) start fs')[first + local := f\<lparr>mf_offset := start\<rparr>]"
    and used': "used' = start + field_bytes f" and al': "alignment' = max alignment (field_alignment abi f)"
    using place by (auto simp: place_member_def split: option.splits if_splits)
  have fa: "abi_step abi (field_alignment abi f)" using m by blast
  note al = align_offset_some [OF start abi_step_pos [OF fa]]
  note mx = abi_step_max [OF step fa]
  show "abi_step abi alignment'" using mx(1) by (simp add: al')
  show len: "length fs \<le> length fs''" using m by (simp add: fs'')
  have old: "fs'' ! i = fs ! i" if "i < length fs" "i \<noteq> first + local" for i
  proof -
    have "fs'' ! i = fs' ! i" using that m by (simp add: fs'' nth_shift_fields)
    also have "\<dots> = take (length fs) fs' ! i" using that by simp
    finally show ?thesis using m by simp
  qed
  show "take first fs'' = take first fs" using bounds len by (intro nth_equalityI) (auto simp: old)
  let ?I = "{first..<first + local} \<union> {first + members_count..<length fs}" and ?J = "{length fs..<length fs''}"
  have I: "laid_out abi fs'' ?I 0 used alignment'"
    by (rule laid_out_transfer [OF before]) (use old len bounds mx(2) in \<open>auto simp: al'\<close>)
  have "laid_out abi (shift_fields (length fs) start fs') ?J start (start + field_bytes f) (field_alignment abi f)"
    by (rule laid_out_shift) (use m al(2) in \<open>auto simp: fs''\<close>)
  then have J: "laid_out abi fs'' ?J start used' alignment'"
    unfolding used' by (rule laid_out_transfer) (use bounds mx(3) in \<open>auto simp: fs'' al'\<close>)
  have here: "fs'' ! (first + local) = f\<lparr>mf_offset := start\<rparr>" using bounds m by (simp add: fs'')
  have within: "field_within abi (length fs'') start used' alignment' (f\<lparr>mf_offset := start\<rparr>)"
    using m bounds al(2) mx(3)
    by (auto simp: field_within_def fs'' used' al' leaf_shape_def field_bytes_def field_alignment_def)
  have alone: "mf_aggregate f \<or> ?J = {}" using m by (auto simp: fs'')
  have "laid_out abi fs'' (insert (first + local) ?J) start used' alignment'"
    using J within here alone bounds len unfolding laid_out_def fields_apart_def by (auto simp: field_within_def)
  then have "laid_out abi fs'' (?I \<union> insert (first + local) ?J) 0 used' alignment'"
    by (intro laid_out_union [OF laid_out_widen [OF I al(1)]]) (simp_all add: used')
  moreover have "?I \<union> insert (first + local) ?J = {first..<first + Suc local} \<union> {first + members_count..<length fs''}"
    using bounds len by auto
  ultimately show "laid_out abi fs'' ({first..<first + Suc local} \<union> {first + members_count..<length fs''}) 0 used' alignment'"
    by simp
qed

lemma layout_members_laid:
  assumes "layout_members self g abi root read_only first members_count ms local fs used alignment = Inr (fs', used', alignment')"
    and "\<And>type root read_only fs r. self type root read_only fs = Inr r \<Longrightarrow> record_laid abi fs r"
    and "is_supported_abi_pack (abi_pack abi)"
    and "laid_out abi fs ({first..<first + local} \<union> {first + members_count..<length fs}) 0 used alignment"
    and "local + length ms = members_count" "first + members_count \<le> length fs" "abi_step abi alignment"
  shows "laid_out abi fs' {first..<length fs'} 0 used' alignment' \<and> abi_step abi alignment' \<and> length fs \<le> length fs' \<and>
    take first fs' = take first fs"
  using assms
proof (induction ms arbitrary: local fs used alignment)
  case Nil
  then have "{first..<first + local} \<union> {first + members_count..<length fs} = {first..<length fs}" by auto
  then show ?case using Nil by simp
next
  case (Cons m ms)
  obtain f fs1 where f: "member_field self g abi root read_only first members_count local m fs = Inr (f, fs1)"
    using Cons.prems(1) by (auto split: sum.splits)
  obtain fs2 used2 al2 where p: "place_member abi (first + local) f (length fs) fs1 used alignment = Inr (fs2, used2, al2)"
    using Cons.prems(1) f by (auto split: sum.splits)
  have rest: "layout_members self g abi root read_only first members_count ms (Suc local) fs2 used2 al2 = Inr (fs', used', alignment')"
    using Cons.prems(1) f p by simp
  have "member_laid abi first members_count fs f fs1" by (rule member_field_laid [OF f Cons.prems(2,3)])
  note step = place_member_laid [OF p this Cons.prems(4) _ Cons.prems(6,7)]
  have "laid_out abi fs' {first..<length fs'} 0 used' alignment' \<and> abi_step abi alignment' \<and> length fs2 \<le> length fs' \<and>
    take first fs' = take first fs2"
    by (rule Cons.IH [OF rest Cons.prems(2,3)]) (use step Cons.prems in auto)
  then show ?case using step(3,4) Cons.prems(5) by auto
qed

lemma layout_record_laid:
  assumes "is_supported_abi_pack (abi_pack abi)" "layout_record depth g abi active type root read_only fs = Inr r"
  shows "record_laid abi fs r"
  using assms(2)
proof (induction depth arbitrary: active type root read_only fs r)
  case (Suc depth)
  let ?ms = "members g type"
  obtain fs' used alignment used' where
    ms: "layout_members (layout_record depth g abi (active @ [type])) g abi root read_only (length fs) (length ?ms) ?ms 0
           (fs @ replicate (length ?ms) blank_field) 0 1 = Inr (fs', used, alignment)"
    and al: "align_offset (if used = 0 then 1 else used) alignment = Some used'"
    and r: "r = (fs', used', alignment, length fs, length ?ms)"
    using Suc.prems by (auto simp: Let_def split: sum.splits option.splits prod.splits if_splits)
  have m: "laid_out abi fs' {length fs..<length fs'} 0 used alignment \<and> abi_step abi alignment \<and>
    length (fs @ replicate (length ?ms) blank_field) \<le> length fs' \<and>
    take (length fs) fs' = take (length fs) (fs @ replicate (length ?ms) blank_field)"
    by (rule layout_members_laid [OF ms _ assms(1)]) (use Suc.IH assms(1) abi_step_one [of abi] in auto)
  note a = align_offset_some [OF al abi_step_pos [of abi]]
  have "used \<le> used'" using a(1) m by (cases "used = 0") auto
  then have "laid_out abi fs' {length fs..<length fs'} 0 used' alignment"
    using m laid_out_widen by blast
  then show ?case using m a(2) by (simp add: record_laid_def r)
qed simp

section \<open>The layout of a Graph\<close>

definition layout_ok :: "abi_configuration \<Rightarrow> 'a managed_layout_scheme \<Rightarrow> bool" where
  "layout_ok abi l \<longleftrightarrow>
     laid_out abi (ml_fields l) {0..<length (ml_fields l)} 0 (ml_total l) 8 \<and> ml_total l \<le> u64_max \<and>
     (\<forall>ob\<in>set (ml_objects l). mo_first_field ob + mo_field_count ob \<le> length (ml_fields l)) \<and>
     (\<forall>k. Some k \<in> set (ml_slots l) \<longrightarrow> k < length (ml_objects l))"

lemma layout_object_ok:
  assumes "layout_object g abi i l = Inr l'" "layout_ok abi l" "is_supported_abi_configuration abi"
  shows "layout_ok abi l'"
proof (cases "find_object_entry g (object_at g i)")
  case None
  then show ?thesis using assms by (simp add: layout_object_def)
next
  case (Some entry)
  let ?object = "object_at g i" and ?fs = "ml_fields l"
  obtain type fs used alignment first members_count used' start where
    r: "layout_record 64 g abi [] type \<lparr>ep_object = ?object, ep_member = invalid_member\<rparr> False ?fs =
          Inr (fs, used, alignment, first, members_count)"
    and u: "align_offset used alignment = Some used'" and st: "align_offset (ml_total l) alignment = Some start"
    and max: "\<not> start > u64_max - used'"
    and l': "l' = \<lparr>ml_objects = ml_objects l @
                    [\<lparr>mo_object = ?object, mo_offset = start, mo_size = used', mo_alignment = alignment,
                      mo_first_field = first, mo_field_count = members_count\<rparr>],
                  ml_fields = shift_fields first start fs,
                  ml_slots = (ml_slots l)[?object := Some (length (ml_objects l))],
                  ml_total = start + used'\<rparr>"
    using assms(1) Some unfolding layout_object_def Let_def
    by (auto simp del: layout_record.simps split: sum.splits option.splits if_splits prod.splits)
  have pack: "is_supported_abi_pack (abi_pack abi)" using assms(3) by (simp add: is_supported_abi_configuration_def)
  note rec = layout_record_laid [OF pack r, unfolded record_laid_def prod.case]
  have step: "abi_step abi alignment" using rec by blast
  note a = align_offset_some [OF u abi_step_pos [OF step]] and b = align_offset_some [OF st abi_step_pos [OF step]]
  have eight: "alignment dvd 8" using step by (auto simp: abi_step_def)
  let ?new = "shift_fields first start fs"
  have first: "first = length ?fs" "length ?fs \<le> length fs" using rec by auto
  have old: "?new ! i = ?fs ! i" if "i < length ?fs" for i
  proof -
    have "?new ! i = fs ! i" using that first by (simp add: nth_shift_fields)
    also have "\<dots> = take (length ?fs) fs ! i" using that by simp
    finally show ?thesis using rec by simp
  qed
  have "laid_out abi ?new {0..<length ?fs} 0 (ml_total l) 8"
    by (rule laid_out_transfer) (use assms(2) old first in \<open>auto simp: layout_ok_def\<close>)
  then have A: "laid_out abi ?new {0..<length ?fs} 0 start 8" using b(1) by (rule laid_out_widen)
  have "laid_out abi ?new {length ?fs..<length fs} start (start + used) alignment"
    by (rule laid_out_shift) (use rec b(2) in auto)
  then have "laid_out abi ?new {length ?fs..<length fs} start (start + used') alignment"
    by (rule laid_out_widen) (use a(1) in simp)
  then have B: "laid_out abi ?new {length ?fs..<length fs} start (start + used') 8"
    by (rule laid_out_transfer) (use eight in auto)
  have "{0..<length ?fs} \<union> {length ?fs..<length fs} = {0..<length fs}" using first by auto
  then have "laid_out abi ?new {0..<length fs} 0 (start + used') 8" using laid_out_union [OF A B] by simp
  moreover have "start + used' \<le> u64_max" using max b(3) a(3) by linarith
  moreover have "mo_first_field ob + mo_field_count ob \<le> length fs" if "ob \<in> set (ml_objects l)" for ob
    using assms(2) that first by (fastforce simp: layout_ok_def)
  moreover have "k < Suc (length (ml_objects l))" if "Some k \<in> set ((ml_slots l)[?object := Some (length (ml_objects l))])" for k
    using assms(2) that set_update_subset_insert [of "ml_slots l" ?object "Some (length (ml_objects l))"]
    by (fastforce simp: layout_ok_def)
  ultimately show ?thesis using rec by (auto simp: layout_ok_def l')
qed

lemma layout_graph_ok:
  assumes "layout_graph g abi = Inr l" "is_supported_abi_configuration abi"
  shows "layout_ok abi l"
proof -
  have "layout_objects g abi is m = Inr l \<Longrightarrow> layout_ok abi m \<Longrightarrow> layout_ok abi l" for "is" m
    by (induction "is" arbitrary: m) (auto simp: layout_object_ok [OF _ _ assms(2)] split: sum.splits)
  then show ?thesis using assms(1) by (auto simp: layout_graph_def layout_ok_def)
qed

text \<open>
  C36. In the layout of a Graph, every field with storage of its own lies within the storage, at an offset that
  is a multiple of its alignment, and shares no byte with another such field, in the same object or another.
  No offset exceeds 64 bits, so the additions that the model makes on natural numbers do not wrap in the code.
\<close>

theorem managed_fields_disjoint:
  assumes "layout_graph g abi = Inr l" "is_supported_abi_configuration abi"
    and "i < length (ml_fields l)" "\<not> mf_aggregate (ml_fields l ! i)"
  shows "mf_offset (ml_fields l ! i) + field_bytes (ml_fields l ! i) \<le> ml_total l \<and> ml_total l \<le> u64_max \<and>
    field_alignment abi (ml_fields l ! i) dvd mf_offset (ml_fields l ! i) \<and>
    (\<forall>j < length (ml_fields l). j \<noteq> i \<longrightarrow> \<not> mf_aggregate (ml_fields l ! j) \<longrightarrow>
       mf_offset (ml_fields l ! i) + field_bytes (ml_fields l ! i) \<le> mf_offset (ml_fields l ! j) \<or>
       mf_offset (ml_fields l ! j) + field_bytes (ml_fields l ! j) \<le> mf_offset (ml_fields l ! i))"
proof -
  have ok: "layout_ok abi l" by (rule layout_graph_ok [OF assms(1,2)])
  then have "field_within abi (length (ml_fields l)) 0 (ml_total l) 8 (ml_fields l ! i)"
    using assms(3) by (simp add: layout_ok_def laid_out_def)
  moreover have "fields_apart (ml_fields l ! i) (ml_fields l ! j)" if "j < length (ml_fields l)" "j \<noteq> i" for j
    using ok that assms(3) by (auto simp: layout_ok_def laid_out_def)
  ultimately show ?thesis using ok assms(4) by (auto simp: field_within_def layout_ok_def fields_apart_def)
qed

text \<open>An object of a record with a character and two integers, the second linked to the first.\<close>

definition sample_graph :: graph where
  "sample_graph =
     \<lparr>gr_types = [\<lparr>te_begin = 1, te_count = 3, te_kind = gk_record, te_record_kind = rk_struct, te_underlying = it_none,
        te_flags = 0x80\<rparr>],
      gr_identities = [1],
      gr_members =
        [\<lparr>mr_name = 1, mr_type = 2, mr_access = ma_public, mr_construction = cv_default\<rparr>,
         \<lparr>mr_name = 2, mr_type = 1, mr_access = ma_public, mr_construction = cv_constant ck_signed_integer 5\<rparr>,
         \<lparr>mr_name = 3, mr_type = 1, mr_access = ma_public, mr_construction = cv_default\<rparr>],
      gr_enum_values = [], gr_objects = [\<lparr>oe_type = 3, oe_flags = 0x80000000\<rparr>], gr_object_identities = [2],
      gr_links = [\<lparr>ln_source = \<lparr>ep_object = 1, ep_member = 1\<rparr>, ln_target = \<lparr>ep_object = 1, ep_member = 2\<rparr>\<rparr>],
      gr_canonical =
        [\<lparr>ct_payload = 0, ct_child = 0, ct_kind = tk_intrinsic, ct_detail = 0\<rparr>,
         \<lparr>ct_payload = 0, ct_child = 0, ct_kind = tk_intrinsic, ct_detail = 12\<rparr>,
         \<lparr>ct_payload = 0, ct_child = 0, ct_kind = tk_intrinsic, ct_detail = 3\<rparr>,
         \<lparr>ct_payload = 0, ct_child = 1, ct_kind = tk_named, ct_detail = 0\<rparr>],
      gr_identity_index = [], gr_object_index = [], gr_link_index = [], gr_intrinsic_refs = [], gr_named_refs = [],
      gr_derived_index = [], gr_derived_entries = 0, gr_versions = [], gr_heads = [], gr_edges = [], gr_live_types = 1,
      gr_live_objects = 1, gr_live_links = 1\<rparr>"

lemma sample_graph_queries:
  "members sample_graph (Suc 0) = gr_members sample_graph"
  "find_entry sample_graph (Suc 0) = Some \<lparr>te_begin = 1, te_count = 3, te_kind = gk_record, te_record_kind = rk_struct,
     te_underlying = it_none, te_flags = 0x80\<rparr>"
  "object_at sample_graph 0 = Suc 0" "find_object_entry sample_graph (Suc 0) = Some \<lparr>oe_type = 3, oe_flags = 0x80000000\<rparr>"
  "named sample_graph 3 = Some (Suc 0)" "derived sample_graph (Suc 0) = None" "derived sample_graph 2 = None"
  "intrinsic sample_graph (Suc 0) = Some it_signed_int" "intrinsic sample_graph 2 = Some it_char"
  "length (gr_canonical sample_graph) = Suc (Suc (Suc (Suc 0)))" "length (gr_objects sample_graph) = 1"
  by (simp_all add: sample_graph_def members_def find_entry_def find_raw_def te_live_def te_defined_def definition_span_def
    object_at_def find_object_entry_def oe_live_def named_def named_raw_def canonical_at_def derived_def intrinsic_def
    intrinsic_of_code_def intrinsic_types_def)

definition sample_field :: "nat \<Rightarrow> nat \<Rightarrow> nat \<Rightarrow> nat \<Rightarrow> construction_value \<Rightarrow> managed_field_layout" where
  "sample_field local offset bytes type v =
     blank_field\<lparr>mf_endpoint := \<lparr>ep_object = 1, ep_member = local\<rparr>, mf_offset := offset, mf_size := bytes, mf_alignment := bytes,
       mf_value_type := type, mf_initial := v, mf_signed := True, mf_sibling_count := Suc (Suc (Suc 0))\<rparr>"

definition sample_layout :: managed_layout where
  "sample_layout =
     \<lparr>ml_objects = [\<lparr>mo_object = 1, mo_offset = 0, mo_size = 12, mo_alignment = 4, mo_first_field = 0, mo_field_count = 3\<rparr>],
      ml_fields = [sample_field 0 0 1 2 cv_default, sample_field 1 4 4 1 (cv_constant ck_signed_integer 5),
        sample_field 2 8 4 1 cv_default],
      ml_slots = [None, Some 0], ml_total = 12\<rparr>"

lemma sample_record_laid:
  "layout_record (Suc d) sample_graph default_abi_configuration [] (Suc 0)
     \<lparr>ep_object = Suc 0, ep_member = invalid_member\<rparr> False [] =
   Inr (ml_fields sample_layout, 12, 4, 0, 3)"
proof -
  have ms: "gr_members sample_graph = [\<lparr>mr_name = 1, mr_type = 2, mr_access = ma_public, mr_construction = cv_default\<rparr>,
         \<lparr>mr_name = 2, mr_type = Suc 0, mr_access = ma_public, mr_construction = cv_constant ck_signed_integer 5\<rparr>,
         \<lparr>mr_name = 3, mr_type = Suc 0, mr_access = ma_public, mr_construction = cv_default\<rparr>]"
    by (simp add: sample_graph_def)
  show ?thesis
    by (simp add: sample_graph_queries ms te_defined_def Let_def member_field_def place_member_def scalar_layout_def align_offset_def
    field_alignment_def field_bytes_def shift_fields_def default_abi_configuration_def blank_field_def member_endpoint_def to_u32_def
    sample_layout_def sample_field_def)
qed

lemma sample_graph_laid: "layout_graph sample_graph default_abi_configuration = Inr sample_layout"
  using sample_record_laid [of 63]
  by (simp add: layout_graph_def layout_object_def sample_graph_queries Let_def align_offset_def shift_fields_def)
    (simp add: sample_layout_def sample_field_def blank_field_def)

theorem managed_fields_disjoint_witness:
  "layout_graph sample_graph default_abi_configuration = Inr sample_layout \<and>
   mf_offset (ml_fields sample_layout ! 1) + field_bytes (ml_fields sample_layout ! 1) \<le> ml_total sample_layout"
  using managed_fields_disjoint [OF sample_graph_laid, of 1] sample_graph_laid
  by (simp add: is_supported_abi_configuration_def is_supported_abi_target_def is_supported_abi_pack_def
      default_abi_configuration_def sample_layout_def sample_field_def blank_field_def)

end
