(* ===== verification/Managed_Links.thy ===== *)
theory Managed_Links
  imports Managed_Layout Aggregate_Initializer
begin

text \<open>
  The initial values and the links of the Managed Runtime, the second part of \<^verbatim>\<open>construct\<close> in
  \<^verbatim>\<open>src/server_engine/project/runtime/managed_runtime.cpp\<close>: initializer lists spread over nested fields, references
  resolved to the fields they alias, and value links put in an order in which every source is final before it
  is copied. A position that is missing is \<^const>\<open>None\<close>.
\<close>

section \<open>Fields by name\<close>

definition field_of_endpoint :: "'a managed_layout_scheme \<Rightarrow> object_endpoint \<Rightarrow> nat option" where
  "field_of_endpoint l e =
     (if ep_object e = 0 \<or> ep_member e = invalid_member \<or> ep_object e \<ge> length (ml_slots l) then None
      else
        case ml_slots l ! ep_object e of
          None \<Rightarrow> None
        | Some slot \<Rightarrow>
            let ob = ml_objects l ! slot in
            if ep_member e < mo_field_count ob then Some (mo_first_field ob + ep_member e) else None)"

primrec field_walk :: "'a managed_layout_scheme \<Rightarrow> nat option \<Rightarrow> nat list \<Rightarrow> nat option" where
  "field_walk l index [] = index"
| "field_walk l index (member # route) =
     (case index of
        None \<Rightarrow> None
      | Some i \<Rightarrow>
          if member = invalid_member then None
          else
            let parent = ml_fields l ! i in
            if \<not> mf_aggregate parent \<or> member \<ge> mf_child_count parent then None
            else field_walk l (Some (mf_first_child parent + member)) route)"

definition field_of_path :: "'a managed_layout_scheme \<Rightarrow> object_endpoint \<Rightarrow> nat list \<Rightarrow> nat option" where
  "field_of_path l e route = field_walk l (field_of_endpoint l e) route"

section \<open>Initializer lists\<close>

fun apply_initializer :: "managed_field_layout list \<Rightarrow> nat \<Rightarrow> aggregate_initializer \<Rightarrow> managed_field_layout list option"
  and apply_initializers :: "managed_field_layout list \<Rightarrow> nat \<Rightarrow> aggregate_initializer list \<Rightarrow> managed_field_layout list option" where
  "apply_initializer fs index (aggregate_initializer v is_list children) =
     (let f = fs ! index in
      if mf_aggregate f then
        if \<not> is_list \<or> length children > mf_child_count f then None
        else
          case apply_initializers fs (mf_first_child f) children of
            None \<Rightarrow> None
          | Some fs' \<Rightarrow> Some (fs'[index := (fs' ! index)\<lparr>mf_initial := cv_default\<rparr>])
      else if is_list then
        case children of
          [] \<Rightarrow> Some (fs[index := f\<lparr>mf_initial := cv_default\<rparr>])
        | [child] \<Rightarrow> apply_initializer fs index child
        | _ \<Rightarrow> None
      else if mf_reference f then None
      else Some (fs[index := f\<lparr>mf_initial := v\<rparr>]))"
| "apply_initializers fs index [] = Some fs"
| "apply_initializers fs index (child # children) =
     (case apply_initializer fs index child of None \<Rightarrow> None | Some fs' \<Rightarrow> apply_initializers fs' (Suc index) children)"

text \<open>The loop from the last field to the first: \<open>n\<close> fields are left.\<close>

primrec spread_initializers ::
  "(u32 \<Rightarrow> string) \<Rightarrow> (string \<Rightarrow> u64 option) \<Rightarrow> nat \<Rightarrow> managed_field_layout list \<Rightarrow> managed_error + managed_field_layout list" where
  "spread_initializers strings read_double 0 fs = Inr fs"
| "spread_initializers strings read_double (Suc n) fs =
     (let f = fs ! n in
      if cv_kind (mf_initial f) = ck_aggregate then
        case parse_aggregate_initializer read_double (strings (cv_operand (mf_initial f))) of
          None \<Rightarrow> Inl (me_fail ''Invalid aggregate initializer shape, too many elements or unsupported reference initializer'')
        | Some v \<Rightarrow>
            (case apply_initializer fs n v of
               None \<Rightarrow> Inl (me_fail ''Invalid aggregate initializer shape, too many elements or unsupported reference initializer'')
             | Some fs' \<Rightarrow> spread_initializers strings read_double n fs')
      else if mf_aggregate f \<and> cv_kind (mf_initial f) \<noteq> ck_zero then Inl (me_fail ''Nested record initialization requires braces'')
      else spread_initializers strings read_double n fs)"

section \<open>References and links\<close>

definition compatible :: "managed_field_layout list \<Rightarrow> nat \<Rightarrow> nat \<Rightarrow> bool" where
  "compatible fs target source =
     (let t = fs ! target; s = fs ! source in
      \<not> mf_aggregate t \<and> \<not> mf_aggregate s \<and> mf_value_type t = mf_value_type s \<and> mf_pointer t = mf_pointer s \<and>
      mf_size t = mf_size s \<and> (\<not> mf_reference t \<or> mf_read_only t \<or> \<not> mf_read_only s))"

definition bind_member :: "managed_field_layout list \<Rightarrow> nat \<Rightarrow> nat option list \<Rightarrow> managed_error + nat option list" where
  "bind_member fs i references =
     (let f = fs ! i; operand = unat (cv_operand (mf_initial f)) in
      if cv_kind (mf_initial f) \<noteq> ck_member_binding then Inr references
      else if \<not> mf_reference f \<or> \<not> (operand \<noteq> 0 \<and> operand \<le> mf_sibling_count f) \<or>
        \<not> compatible fs i (mf_sibling_first f + operand - 1) then Inl (me_fail ''Invalid local reference binding'')
      else Inr (references[i := Some (mf_sibling_first f + operand - 1)]))"

primrec bind_members :: "managed_field_layout list \<Rightarrow> nat list \<Rightarrow> nat option list \<Rightarrow> managed_error + nat option list" where
  "bind_members fs [] references = Inr references"
| "bind_members fs (i # is) references =
     (case bind_member fs i references of Inl e \<Rightarrow> Inl e | Inr references' \<Rightarrow> bind_members fs is references')"

definition connect_link ::
  "'a managed_layout_scheme \<Rightarrow> link_record \<Rightarrow> nat option list \<times> nat option list \<Rightarrow> managed_error + nat option list \<times> nat option list" where
  "connect_link l link = (\<lambda>(references, incoming).
     if \<not> ln_live link then Inr (references, incoming)
     else
       case (field_of_endpoint l (ln_target link), field_of_endpoint l (ln_source link)) of
         (Some target, Some source) \<Rightarrow>
           if \<not> compatible (ml_fields l) target source then Inl (me_fail ''Link endpoint type mismatch'')
           else if incoming ! target \<noteq> None then Inl (me_fail ''Multiple links target one field'')
           else
             let incoming' = incoming[target := Some source] in
             if mf_reference (ml_fields l ! target) then Inr (references[target := Some source], incoming')
             else if mf_read_only (ml_fields l ! target) then Inl (me_fail ''A value link cannot target a const field'')
             else Inr (references, incoming')
       | _ \<Rightarrow> Inl (me_fail ''Link endpoint type mismatch''))"

primrec connect_links ::
  "'a managed_layout_scheme \<Rightarrow> link_record list \<Rightarrow> nat option list \<times> nat option list \<Rightarrow>
   managed_error + nat option list \<times> nat option list" where
  "connect_links l [] s = Inr s"
| "connect_links l (link # links) s = (case connect_link l link s of Inl e \<Rightarrow> Inl e | Inr s' \<Rightarrow> connect_links l links s')"

section \<open>Aliases\<close>

text \<open>
  One walk along references, from the field \<open>current\<close>. It marks every field that it passes, and fails at a mark: the
  walk has fuel for every field. It returns the field where it ends, the route and the marks.
\<close>

primrec alias_walk ::
  "nat \<Rightarrow> managed_field_layout list \<Rightarrow> nat option list \<Rightarrow> nat \<Rightarrow> nat list \<Rightarrow> nat list \<Rightarrow> nat option list \<Rightarrow>
   managed_error + nat \<times> nat list \<times> nat list \<times> nat option list" where
  "alias_walk 0 fs references current route marks resolved = Inl me_diverges"
| "alias_walk (Suc fuel) fs references current route marks resolved =
     (if resolved ! current \<noteq> None then Inr (current, route, marks, resolved)
      else if marks ! current = 1 then Inl (me_fail ''Reference binding cycle'')
      else
        let marks' = marks[current := 1]; route' = route @ [current] in
        if \<not> mf_reference (fs ! current) then Inr (current, route', marks', resolved[current := Some current])
        else
          case references ! current of
            None \<Rightarrow> Inl (me_fail ''Reference field has no binding'')
          | Some referent \<Rightarrow> alias_walk fuel fs references referent route' marks' resolved)"

definition resolve_alias ::
  "managed_field_layout list \<Rightarrow> nat option list \<Rightarrow> nat \<Rightarrow> nat list \<times> nat option list \<Rightarrow> managed_error + nat list \<times> nat option list" where
  "resolve_alias fs references i = (\<lambda>(marks, resolved).
     case alias_walk (Suc (length fs)) fs references i [] marks resolved of
       Inl e \<Rightarrow> Inl e
     | Inr (current, route, marks', resolved') \<Rightarrow>
         Inr (foldl (\<lambda>m item. m[item := 2]) marks' route, foldl (\<lambda>r item. r[item := r ! current]) resolved' route))"

primrec resolve_aliases ::
  "managed_field_layout list \<Rightarrow> nat option list \<Rightarrow> nat list \<Rightarrow> nat list \<times> nat option list \<Rightarrow> managed_error + nat list \<times> nat option list" where
  "resolve_aliases fs references [] s = Inr s"
| "resolve_aliases fs references (i # is) s =
     (case resolve_alias fs references i s of Inl e \<Rightarrow> Inl e | Inr s' \<Rightarrow> resolve_aliases fs references is s')"

section \<open>Order of value links\<close>

record managed_binding =
  mb_target :: nat
  mb_source :: nat

text \<open>The source of each target, the targets of each source, and how many sources a target still waits for.\<close>

definition source_of :: "managed_field_layout list \<Rightarrow> nat option list \<Rightarrow> nat option list \<Rightarrow> nat \<Rightarrow> nat option" where
  "source_of fs incoming resolved i =
     (if incoming ! i = None \<or> mf_reference (fs ! i) then None
      else
        let source = the (resolved ! the (incoming ! i)) in
        if source = i then None else Some source)"

definition value_edge ::
  "managed_field_layout list \<Rightarrow> nat option list \<Rightarrow> nat option list \<Rightarrow> nat \<Rightarrow>
   nat list list \<times> nat list \<times> nat option list \<Rightarrow> nat list list \<times> nat list \<times> nat option list" where
  "value_edge fs incoming resolved i = (\<lambda>(outgoing, indegree, source_for).
     case source_of fs incoming resolved i of
       None \<Rightarrow> (outgoing, indegree, source_for)
     | Some source \<Rightarrow>
         (outgoing[source := outgoing ! source @ [i]], indegree[i := indegree ! i + 1], source_for[i := Some source]))"

definition release_target :: "nat list \<times> nat list \<Rightarrow> nat \<Rightarrow> nat list \<times> nat list" where
  "release_target = (\<lambda>(indegree, queue) target.
     let waiting = indegree ! target - 1 in
     (indegree[target := waiting], if waiting = 0 then queue @ [target] else queue))"

text \<open>The loop over the queue, which grows while it runs; every field enters it at most once.\<close>

primrec order_links ::
  "nat \<Rightarrow> nat list list \<Rightarrow> nat option list \<Rightarrow> nat \<Rightarrow> nat list \<Rightarrow> nat list \<Rightarrow> managed_binding list \<Rightarrow>
   managed_error + nat list \<times> managed_binding list" where
  "order_links 0 outgoing source_for i indegree queue copies = Inl me_diverges"
| "order_links (Suc fuel) outgoing source_for i indegree queue copies =
     (if i \<ge> length queue then Inr (queue, copies)
      else
        let node = queue ! i;
            copies' = (case source_for ! node of
                         None \<Rightarrow> copies
                       | Some source \<Rightarrow> copies @ [\<lparr>mb_target = node, mb_source = source\<rparr>]);
            (indegree', queue') = foldl release_target (indegree, queue) (outgoing ! node)
        in order_links fuel outgoing source_for (Suc i) indegree' queue' copies')"

definition order_values ::
  "managed_field_layout list \<Rightarrow> nat option list \<Rightarrow> nat option list \<Rightarrow> managed_error + managed_binding list" where
  "order_values fs incoming resolved =
     (let n = length fs;
          (outgoing, indegree, source_for) =
            fold (value_edge fs incoming resolved) [0..<n] (replicate n [], replicate n 0, replicate n None);
          queue = filter (\<lambda>i. indegree ! i = 0) [0..<n]
      in case order_links (Suc n) outgoing source_for 0 indegree queue [] of
           Inl e \<Rightarrow> Inl e
         | Inr (queue', copies) \<Rightarrow>
             if length queue' \<noteq> n then Inl (me_fail ''Value link cycle'') else Inr copies)"

section \<open>References end at the field they alias\<close>

text \<open>The specification of the walks: the field that a chain of references ends at.\<close>

inductive alias_end :: "managed_field_layout list \<Rightarrow> nat option list \<Rightarrow> nat \<Rightarrow> nat \<Rightarrow> bool" for fs references where
  here: "\<not> mf_reference (fs ! i) \<Longrightarrow> alias_end fs references i i"
| step: "mf_reference (fs ! i) \<Longrightarrow> references ! i = Some s \<Longrightarrow> alias_end fs references s r \<Longrightarrow> alias_end fs references i r"

lemma alias_end_unique: "alias_end fs references i r \<Longrightarrow> alias_end fs references i r' \<Longrightarrow> r = r'"
proof (induction rule: alias_end.induct)
  case (here i)
  from here(2) show ?case by cases (use here(1) in auto)
next
  case (step i s r)
  from step.prems have "alias_end fs references s r'" by cases (use step.hyps(1,2) in auto)
  then show ?case by (rule step.IH)
qed

lemma alias_end_closed:
  assumes "alias_end fs references i r" "i \<in> S"
    and "\<And>p. p \<in> S \<Longrightarrow> mf_reference (fs ! p) \<and> (\<forall>s. references ! p = Some s \<longrightarrow> s \<in> S)"
  shows False
  using assms by (induction rule: alias_end.induct) auto

lemma alias_end_value: "alias_end fs references i r \<Longrightarrow> \<not> mf_reference (fs ! r)"
  by (induction rule: alias_end.induct) auto

text \<open>Bindings lead from a field to a compatible field.\<close>

definition bindings_ok :: "managed_field_layout list \<Rightarrow> nat option list \<Rightarrow> bool" where
  "bindings_ok fs bs \<longleftrightarrow>
     length bs = length fs \<and> (\<forall>i < length fs. \<forall>s. bs ! i = Some s \<longrightarrow> s < length fs \<and> compatible fs i s)"

lemma nth_update_if: "xs[i := x] ! j = (if i = j \<and> i < length xs then x else xs ! j)"
  by (cases "i < length xs") (auto simp: nth_list_update list_update_beyond)

lemma bindings_ok_update:
  "bindings_ok fs bs \<Longrightarrow> s < length fs \<Longrightarrow> compatible fs i s \<Longrightarrow> bindings_ok fs (bs[i := Some s])"
  by (auto simp: bindings_ok_def nth_update_if split: if_splits)

definition resolved_ok :: "managed_field_layout list \<Rightarrow> nat option list \<Rightarrow> nat option list \<Rightarrow> bool" where
  "resolved_ok fs references resolved \<longleftrightarrow>
     length resolved = length fs \<and>
     (\<forall>i < length fs. \<forall>r. resolved ! i = Some r \<longrightarrow> r < length fs \<and> alias_end fs references i r)"

text \<open>The state of a walk: the path is what is marked, and leads to the current field.\<close>

definition walking :: "managed_field_layout list \<Rightarrow> nat option list \<Rightarrow> nat \<Rightarrow> nat list \<Rightarrow> nat list \<Rightarrow> nat option list \<Rightarrow> bool" where
  "walking fs references current route marks resolved \<longleftrightarrow>
     current < length fs \<and> length marks = length fs \<and> resolved_ok fs references resolved \<and> distinct route \<and>
     (\<forall>p < length fs. marks ! p = 1 \<longleftrightarrow> p \<in> set route) \<and>
     (\<forall>p \<in> set route. p < length fs \<and> mf_reference (fs ! p) \<and>
        (\<exists>s. references ! p = Some s \<and> (s \<in> set route \<or> s = current)) \<and>
        (\<forall>r. alias_end fs references current r \<longrightarrow> alias_end fs references p r))"

definition walked ::
  "managed_field_layout list \<Rightarrow> nat option list \<Rightarrow> nat \<Rightarrow> nat list \<times> nat list \<times> nat option list \<Rightarrow> bool" where
  "walked fs references current r =
     (case r of (route, marks, resolved) \<Rightarrow>
        current < length fs \<and> length marks = length fs \<and> resolved_ok fs references resolved \<and>
        (\<forall>p < length fs. marks ! p = 1 \<longrightarrow> p \<in> set route) \<and>
        (\<exists>e. resolved ! current = Some e \<and> e < length fs \<and> (\<forall>p \<in> set route. p < length fs \<and> alias_end fs references p e)))"

definition unbound_somewhere :: "managed_field_layout list \<Rightarrow> nat option list \<Rightarrow> bool" where
  "unbound_somewhere fs references \<longleftrightarrow> (\<exists>i < length fs. \<forall>r. \<not> alias_end fs references i r)"

lemma walking_step:
  assumes "walking fs references current route marks resolved" "bindings_ok fs references"
    and "marks ! current \<noteq> 1" "mf_reference (fs ! current)" "references ! current = Some s"
  shows "walking fs references s (route @ [current]) (marks[current := 1]) resolved"
proof -
  have c: "current < length fs" "current \<notin> set route" using assms(1,3) by (auto simp: walking_def)
  have "s < length fs" using assms(2,5) c(1) by (simp add: bindings_ok_def)
  moreover have "alias_end fs references s r \<Longrightarrow> alias_end fs references current r" for r
    using assms(4,5) by (rule alias_end.step)
  ultimately show ?thesis
    using assms(1,4,5) c unfolding walking_def by (auto simp: nth_list_update)
qed

lemma alias_walk_ok:
  assumes "walking fs references current route marks resolved" "bindings_ok fs references" "length fs < fuel + length route"
  shows "case alias_walk fuel fs references current route marks resolved of
       Inl e \<Rightarrow> e \<noteq> me_diverges \<and> unbound_somewhere fs references
     | Inr (current', r) \<Rightarrow> walked fs references current' r \<and> set route \<subseteq> set (fst r) \<and>
         (current = current' \<or> current \<in> set (fst r)) \<and>
         (\<forall>i. resolved ! i \<noteq> None \<longrightarrow> (snd (snd r)) ! i \<noteq> None)"
  using assms
proof (induction fuel arbitrary: current route marks)
  case 0
  then have "set route \<subseteq> {..<length fs}" "distinct route" by (auto simp: walking_def)
  then have "length route \<le> length fs" using card_mono [of "{..<length fs}" "set route"] by (simp add: distinct_card)
  then show ?case using 0 by simp
next
  case (Suc fuel)
  note w = Suc.prems(1) [unfolded walking_def]
  consider (resolved) "resolved ! current \<noteq> None" | (cycle) "resolved ! current = None" "marks ! current = 1"
    | (ends) "resolved ! current = None" "marks ! current \<noteq> 1" "\<not> mf_reference (fs ! current)"
    | (unbound) "resolved ! current = None" "marks ! current \<noteq> 1" "mf_reference (fs ! current)" "references ! current = None"
    | (bound) s where "resolved ! current = None" "marks ! current \<noteq> 1" "mf_reference (fs ! current)" "references ! current = Some s"
    by fastforce
  then show ?case
  proof cases
    case resolved
    then obtain e where e: "resolved ! current = Some e" by blast
    then have "alias_end fs references current e" "e < length fs" using w by (auto simp: resolved_ok_def)
    then show ?thesis using w e by (auto simp: walked_def)
  next
    case cycle
    have "\<not> alias_end fs references current r" for r
    proof
      assume "alias_end fs references current r"
      then show False by (rule alias_end_closed [of _ _ _ _ "set route"]) (use cycle w in auto)
    qed
    then show ?thesis using cycle w by (auto simp: unbound_somewhere_def)
  next
    case ends
    have "alias_end fs references current current" using ends(3) by (rule alias_end.here)
    then show ?thesis using ends w by (auto simp: walked_def Let_def resolved_ok_def nth_list_update)
  next
    case unbound
    then have "\<not> alias_end fs references current r" for r by (auto elim: alias_end.cases)
    then show ?thesis using unbound w by (auto simp: unbound_somewhere_def)
  next
    case bound
    note next_walk = Suc.IH [OF walking_step [OF Suc.prems(1,2) bound(2-4)] Suc.prems(2)]
    show ?thesis using next_walk Suc.prems(3) bound by (auto simp: Let_def split: sum.splits)
  qed
qed

lemma assign_from_nth:
  "foldl (\<lambda>r item. r[item := r ! c]) rs items ! j = (if j \<in> set items \<and> j < length rs then rs ! c else rs ! j)"
  "length (foldl (\<lambda>r item. r[item := r ! c]) rs items) = length rs"
  by (induction items arbitrary: rs) (auto simp: nth_update_if)

lemma assign_mark_nth:
  "foldl (\<lambda>m item. m[item := v]) ms items ! j = (if j \<in> set items \<and> j < length ms then v else ms ! j)"
  "length (foldl (\<lambda>m item. m[item := v]) ms items) = length ms"
  by (induction items arbitrary: ms) (auto simp: nth_update_if)

text \<open>Between two walks nothing is marked as being walked.\<close>

definition alias_state :: "managed_field_layout list \<Rightarrow> nat option list \<Rightarrow> nat list \<times> nat option list \<Rightarrow> bool" where
  "alias_state fs references s \<longleftrightarrow>
     length (fst s) = length fs \<and> 1 \<notin> set (fst s) \<and> resolved_ok fs references (snd s)"

lemma resolve_alias_ok:
  assumes "alias_state fs references s" "bindings_ok fs references" "i < length fs"
  shows "case resolve_alias fs references i s of
       Inl e \<Rightarrow> e \<noteq> me_diverges \<and> unbound_somewhere fs references
     | Inr s' \<Rightarrow> alias_state fs references s' \<and> snd s' ! i \<noteq> None \<and> (\<forall>j. snd s ! j \<noteq> None \<longrightarrow> snd s' ! j \<noteq> None)"
proof -
  obtain marks resolved where s: "s = (marks, resolved)" by (cases s)
  have marks: "length marks = length fs" "\<forall>p < length fs. marks ! p \<noteq> 1"
    using assms(1) by (auto simp: alias_state_def s) (metis nth_mem)
  have w: "walking fs references i [] marks resolved"
    using assms marks by (auto simp: walking_def alias_state_def s)
  note walk = alias_walk_ok [OF w assms(2), of "Suc (length fs)"]
  show ?thesis
  proof (cases "alias_walk (Suc (length fs)) fs references i [] marks resolved")
    case (Inl e)
    then show ?thesis using walk by (simp add: resolve_alias_def s del: alias_walk.simps)
  next
    case (Inr q)
    obtain current route marks' resolved' where q: "q = (current, route, marks', resolved')" by (cases q)
    let ?marks = "foldl (\<lambda>m item. m[item := 2]) marks' route" and ?resolved = "foldl (\<lambda>r item. r[item := r ! current]) resolved' route"
    have r: "resolve_alias fs references i s = Inr (?marks, ?resolved)" using Inr by (simp add: resolve_alias_def s q del: alias_walk.simps)
    have walked: "walked fs references current (route, marks', resolved')" and i: "i = current \<or> i \<in> set route"
      and old: "\<And>j. resolved ! j \<noteq> None \<Longrightarrow> resolved' ! j \<noteq> None"
      using walk Inr by (simp_all add: q del: alias_walk.simps)
    from walked obtain e where e: "resolved' ! current = Some e" "e < length fs"
      "\<And>p. p \<in> set route \<Longrightarrow> p < length fs \<and> alias_end fs references p e"
      and ok: "resolved_ok fs references resolved'" and m: "length marks' = length fs" "\<And>p. p < length fs \<Longrightarrow> marks' ! p = 1 \<Longrightarrow> p \<in> set route"
      unfolding walked_def prod.case by metis
    have nth: "?resolved ! j = (if j \<in> set route then Some e else resolved' ! j)" for j
      using e ok by (auto simp: assign_from_nth resolved_ok_def)
    have "resolved_ok fs references ?resolved"
      using ok e(2,3) unfolding resolved_ok_def nth by (auto simp: assign_from_nth)
    moreover have "1 \<notin> set ?marks" using m by (auto simp: in_set_conv_nth assign_mark_nth split: if_splits)
    ultimately have "alias_state fs references (?marks, ?resolved)" using m by (simp add: alias_state_def assign_mark_nth)
    moreover have "?resolved ! i \<noteq> None" using i e(1) by (auto simp: nth)
    moreover have "?resolved ! j \<noteq> None" if "resolved ! j \<noteq> None" for j using old [OF that] by (auto simp: nth)
    ultimately show ?thesis unfolding r by (simp add: s)
  qed
qed

lemma resolve_aliases_ok:
  assumes "alias_state fs references s" "bindings_ok fs references" "set is \<subseteq> {..<length fs}"
  shows "case resolve_aliases fs references is s of
       Inl e \<Rightarrow> e \<noteq> me_diverges \<and> unbound_somewhere fs references
     | Inr s' \<Rightarrow> alias_state fs references s' \<and> (\<forall>i \<in> set is. snd s' ! i \<noteq> None) \<and>
         (\<forall>j. snd s ! j \<noteq> None \<longrightarrow> snd s' ! j \<noteq> None)"
  using assms
proof (induction "is" arbitrary: s)
  case (Cons i "is")
  have i: "i < length fs" "set is \<subseteq> {..<length fs}" using Cons.prems(3) by auto
  note one = resolve_alias_ok [OF Cons.prems(1,2) i(1)]
  show ?case
  proof (cases "resolve_alias fs references i s")
    case (Inl e)
    then show ?thesis using one by simp
  next
    case (Inr s1)
    then have "alias_state fs references s1" using one by simp
    note Cons.IH [OF this Cons.prems(2) i(2)]
    then show ?thesis using one Inr by (auto split: sum.splits)
  qed
qed simp

lemma resolve_all_ok:
  assumes "bindings_ok fs references"
  shows "case resolve_aliases fs references [0..<length fs] (replicate (length fs) 0, replicate (length fs) None) of
       Inl e \<Rightarrow> e \<noteq> me_diverges \<and> unbound_somewhere fs references
     | Inr (marks, resolved) \<Rightarrow> length resolved = length fs \<and>
         (\<forall>i < length fs. \<exists>r < length fs. resolved ! i = Some r \<and> alias_end fs references i r)"
proof -
  have "alias_state fs references (replicate (length fs) 0, replicate (length fs) None)"
    by (simp add: alias_state_def resolved_ok_def)
  note resolve_aliases_ok [OF this assms, of "[0..<length fs]"]
  then show ?thesis by (fastforce simp: alias_state_def resolved_ok_def split: sum.splits)
qed

section \<open>Sources come before their targets\<close>

text \<open>What the three arrays hold after the first \<open>m\<close> fields, for the source function \<open>\<sigma>\<close>.\<close>

lemma value_edges:
  assumes "\<And>i s. i < n \<Longrightarrow> source_of fs incoming resolved i = Some s \<Longrightarrow> s < n" "m \<le> n"
  defines "\<sigma> \<equiv> source_of fs incoming resolved"
  shows "fold (value_edge fs incoming resolved) [0..<m] (replicate n [], replicate n 0, replicate n None) =
    (map (\<lambda>s. filter (\<lambda>i. \<sigma> i = Some s) [0..<m]) [0..<n],
     map (\<lambda>i. if i < m \<and> \<sigma> i \<noteq> None then 1 else 0) [0..<n],
     map (\<lambda>i. if i < m then \<sigma> i else None) [0..<n])"
  using assms(2)
proof (induction m)
  case 0
  show ?case by (simp add: list_eq_iff_nth_eq)
next
  case (Suc m)
  show ?case
  proof (cases "\<sigma> m")
    case None
    then show ?thesis using Suc by (auto simp: value_edge_def \<sigma>_def less_Suc_eq intro!: map_cong)
  next
    case (Some s)
    then have "s < n" using assms(1) [of m s] Suc.prems by (simp add: \<sigma>_def)
    then show ?thesis using Suc Some
      by (auto simp: value_edge_def \<sigma>_def less_Suc_eq list_eq_iff_nth_eq nth_update_if)
  qed
qed

lemma release_targets:
  assumes "distinct ts" "\<And>t. t \<in> set ts \<Longrightarrow> t < length indegree \<and> indegree ! t = 1"
  shows "foldl release_target (indegree, queue) ts = (foldl (\<lambda>d t. d[t := 0]) indegree ts, queue @ ts)"
  using assms
proof (induction ts arbitrary: indegree queue)
  case (Cons t ts)
  have "release_target (indegree, queue) t = (indegree[t := 0], queue @ [t])"
    using Cons.prems(2) [of t] by (simp add: release_target_def)
  moreover have "foldl release_target (indegree[t := 0], queue @ [t]) ts =
      (foldl (\<lambda>d t. d[t := 0]) (indegree[t := 0]) ts, (queue @ [t]) @ ts)"
    by (rule Cons.IH) (use Cons.prems in \<open>auto simp: nth_update_if\<close>)
  ultimately show ?case by simp
qed simp

text \<open>The copies of the fields that the queue holds.\<close>

definition copies_of :: "(nat \<Rightarrow> nat option) \<Rightarrow> nat list \<Rightarrow> managed_binding list" where
  "copies_of \<sigma> nodes = concat (map (\<lambda>i. case \<sigma> i of None \<Rightarrow> [] | Some s \<Rightarrow> [\<lparr>mb_target = i, mb_source = s\<rparr>]) nodes)"

text \<open>
  The queue after \<open>i\<close> of its fields: the fields without a source and those whose source is among the \<open>i\<close>,
  each behind its source.
\<close>

definition queue_ok :: "nat \<Rightarrow> (nat \<Rightarrow> nat option) \<Rightarrow> nat \<Rightarrow> nat list \<Rightarrow> bool" where
  "queue_ok n \<sigma> i queue \<longleftrightarrow>
     distinct queue \<and> i \<le> length queue \<and>
     set queue = {t. t < n \<and> (case \<sigma> t of None \<Rightarrow> True | Some s \<Rightarrow> s \<in> set (take i queue))} \<and>
     (\<forall>k < length queue. \<forall>s. \<sigma> (queue ! k) = Some s \<longrightarrow> s \<in> set (take k queue))"

lemma queue_step:
  assumes q: "queue_ok n \<sigma> i queue" and i: "i < length queue"
  defines "ts \<equiv> filter (\<lambda>t. \<sigma> t = Some (queue ! i)) [0..<n]"
  shows "queue_ok n \<sigma> (Suc i) (queue @ ts)" "set ts \<inter> set queue = {}"
proof -
  let ?node = "queue ! i"
  have d: "distinct queue" and s: "set queue = {t. t < n \<and> (case \<sigma> t of None \<Rightarrow> True | Some s \<Rightarrow> s \<in> set (take i queue))}"
    and o: "\<And>k s. k < length queue \<Longrightarrow> \<sigma> (queue ! k) = Some s \<Longrightarrow> s \<in> set (take k queue)"
    using q by (auto simp: queue_ok_def)
  have take: "take (Suc i) (queue @ ts) = take i queue @ [?node]" using i by (simp add: take_Suc_conv_app_nth)
  have notin: "?node \<notin> set (take i queue)"
    using d i by (metis distinct_take not_distinct_conv_prefix take_Suc_conv_app_nth)
  show disj: "set ts \<inter> set queue = {}" using notin by (auto simp: ts_def s)
  have "distinct (queue @ ts)" using d disj by (auto simp: ts_def)
  moreover have "set (queue @ ts) = {t. t < n \<and> (case \<sigma> t of None \<Rightarrow> True | Some s \<Rightarrow> s \<in> set (take (Suc i) (queue @ ts)))}"
    unfolding take by (auto simp: s ts_def split: option.splits)
  moreover have "s' \<in> set (take k (queue @ ts))" if k: "k < length (queue @ ts)" "\<sigma> ((queue @ ts) ! k) = Some s'" for k s'
  proof (cases "k < length queue")
    case True
    then show ?thesis using o k by (simp add: nth_append)
  next
    case False
    then have "(queue @ ts) ! k \<in> set ts" using k(1) by (simp add: nth_append)
    then have "s' = ?node" using k(2) by (auto simp: ts_def)
    then show ?thesis using False i by (simp add: nth_mem)
  qed
  ultimately show "queue_ok n \<sigma> (Suc i) (queue @ ts)" using i by (simp add: queue_ok_def)
qed

lemma order_links_ok:
  assumes "queue_ok n \<sigma> i queue" "length queue \<le> n" "n < fuel + i"
    and "outgoing = map (\<lambda>s. filter (\<lambda>i. \<sigma> i = Some s) [0..<n]) [0..<n]" "source_for = map \<sigma> [0..<n]"
    and "length indegree = n" "\<And>t. t < n \<Longrightarrow> indegree ! t = (if t \<in> set queue then 0 else 1)"
  shows "\<exists>queue'. order_links fuel outgoing source_for i indegree queue (copies_of \<sigma> (take i queue)) = Inr (queue', copies_of \<sigma> queue') \<and>
    queue_ok n \<sigma> (length queue') queue' \<and> length queue' \<le> n"
  using assms
proof (induction fuel arbitrary: i queue indegree)
  case 0
  then show ?case by (simp add: queue_ok_def)
next
  case (Suc fuel)
  show ?case
  proof (cases "i \<ge> length queue")
    case True
    then have "i = length queue" using Suc.prems(1) by (simp add: queue_ok_def)
    then show ?thesis using Suc.prems by auto
  next
    case False
    let ?node = "queue ! i"
    define ts where "ts = filter (\<lambda>t. \<sigma> t = Some ?node) [0..<n]"
    have i: "i < length queue" using False by simp
    have node: "?node < n" using Suc.prems(1) i nth_mem [of i queue] by (auto simp: queue_ok_def)
    note step = queue_step [OF Suc.prems(1) i, folded ts_def]
    have out: "outgoing ! ?node = ts" "source_for ! ?node = \<sigma> ?node" using node Suc.prems(4,5) by (simp_all add: ts_def)
    let ?indegree = "foldl (\<lambda>d t. d[t := 0]) indegree ts"
    have release: "foldl release_target (indegree, queue) ts = (?indegree, queue @ ts)"
      by (rule release_targets) (use step(2) Suc.prems(6,7) in \<open>auto simp: ts_def\<close>)
    have copies: "(case source_for ! ?node of None \<Rightarrow> copies_of \<sigma> (take i queue)
         | Some source \<Rightarrow> copies_of \<sigma> (take i queue) @ [\<lparr>mb_target = ?node, mb_source = source\<rparr>]) = copies_of \<sigma> (take (Suc i) (queue @ ts))"
      using i by (simp add: out copies_of_def take_Suc_conv_app_nth split: option.splits)
    have len: "length (queue @ ts) \<le> n"
    proof -
      have "set (queue @ ts) \<subseteq> {..<n}" "distinct (queue @ ts)" using step(1) by (auto simp: queue_ok_def)
      then show ?thesis using card_mono [of "{..<n}" "set (queue @ ts)"] by (simp add: distinct_card del: set_append length_append)
    qed
    have "\<exists>queue'. order_links fuel outgoing source_for (Suc i) ?indegree (queue @ ts) (copies_of \<sigma> (take (Suc i) (queue @ ts))) =
        Inr (queue', copies_of \<sigma> queue') \<and> queue_ok n \<sigma> (length queue') queue' \<and> length queue' \<le> n"
      by (rule Suc.IH [OF step(1) len]) (use Suc.prems in \<open>auto simp: assign_mark_nth\<close>)
    then show ?thesis using False copies by (simp add: out release)
  qed
qed

text \<open>Every link is copied after the link into its source, and each target once.\<close>

primrec links_ordered :: "managed_binding list \<Rightarrow> bool" where
  "links_ordered [] = True"
| "links_ordered (c # cs) =
     (mb_source c \<noteq> mb_target c \<and> mb_source c \<notin> mb_target ` set cs \<and> mb_target c \<notin> mb_target ` set cs \<and> links_ordered cs)"

lemma copies_of_Cons:
  "copies_of \<sigma> (x # xs) = (case \<sigma> x of None \<Rightarrow> [] | Some s \<Rightarrow> [\<lparr>mb_target = x, mb_source = s\<rparr>]) @ copies_of \<sigma> xs"
  by (simp add: copies_of_def)

lemma set_copies_of: "set (copies_of \<sigma> xs) = {c. mb_target c \<in> set xs \<and> \<sigma> (mb_target c) = Some (mb_source c)}"
proof -
  have "c \<in> set (copies_of \<sigma> xs) \<longleftrightarrow> mb_target c \<in> set xs \<and> \<sigma> (mb_target c) = Some (mb_source c)" for c
    by (cases c) (auto simp: copies_of_def split: option.splits)
  then show ?thesis by blast
qed

lemma copies_of_ordered:
  assumes "distinct (pre @ nodes)" "\<And>k s. k < length (pre @ nodes) \<Longrightarrow> \<sigma> ((pre @ nodes) ! k) = Some s \<Longrightarrow> s \<in> set (take k (pre @ nodes))"
  shows "links_ordered (copies_of \<sigma> nodes)"
  using assms
proof (induction nodes arbitrary: pre)
  case (Cons x nodes)
  have rest: "links_ordered (copies_of \<sigma> nodes)" by (rule Cons.IH [of "pre @ [x]"]) (use Cons.prems in auto)
  show ?case
  proof (cases "\<sigma> x")
    case None
    then show ?thesis using rest by (simp add: copies_of_Cons)
  next
    case (Some s)
    then have "s \<in> set pre" using Cons.prems(2) [of "length pre" s] by simp
    then have "s \<noteq> x" "s \<notin> set nodes" "x \<notin> set nodes" using Cons.prems(1) by auto
    then show ?thesis using Some rest by (auto simp: copies_of_Cons set_copies_of)
  qed
qed (simp add: copies_of_def)

text \<open>A set of fields that take their values from each other only.\<close>

definition link_cycle :: "nat \<Rightarrow> (nat \<Rightarrow> nat option) \<Rightarrow> bool" where
  "link_cycle n \<sigma> \<longleftrightarrow> (\<exists>C. C \<noteq> {} \<and> C \<subseteq> {..<n} \<and> (\<forall>t \<in> C. \<exists>s \<in> C. \<sigma> t = Some s))"

lemma order_values_ok:
  assumes range: "\<And>i s. i < length fs \<Longrightarrow> source_of fs incoming resolved i = Some s \<Longrightarrow> s < length fs"
  shows "case order_values fs incoming resolved of
       Inl e \<Rightarrow> e \<noteq> me_diverges \<and> link_cycle (length fs) (source_of fs incoming resolved)
     | Inr copies \<Rightarrow> links_ordered copies \<and>
         set copies = {c. mb_target c < length fs \<and> source_of fs incoming resolved (mb_target c) = Some (mb_source c)}"
proof -
  let ?n = "length fs" and ?\<sigma> = "source_of fs incoming resolved"
  let ?out = "map (\<lambda>s. filter (\<lambda>i. ?\<sigma> i = Some s) [0..<?n]) [0..<?n]" and ?src = "map ?\<sigma> [0..<?n]"
  define ind :: "nat list" where "ind = map (\<lambda>i. if ?\<sigma> i \<noteq> None then 1 else 0) [0..<?n]"
  define queue where "queue = filter (\<lambda>i. ind ! i = 0) [0..<?n]"
  have edges: "fold (value_edge fs incoming resolved) [0..<?n] (replicate ?n [], replicate ?n 0, replicate ?n None) = (?out, ind, ?src)"
    by (subst value_edges [where m = ?n]) (use range in \<open>auto simp: ind_def\<close>)
  have set: "set queue = {t. t < ?n \<and> ?\<sigma> t = None}" by (auto simp: queue_def ind_def split: if_splits)
  have q: "queue_ok ?n ?\<sigma> 0 queue"
    unfolding queue_ok_def set using set nth_mem [of _ queue] by (auto simp: queue_def split: option.splits)
  have "length queue \<le> ?n" using length_filter_le [of _ "[0..<?n]"] by (simp add: queue_def)
  moreover have "ind ! t = (if t \<in> set queue then 0 else 1)" if "t < ?n" for t using that by (auto simp: set ind_def)
  ultimately obtain queue' where
    run: "order_links (Suc ?n) ?out ?src 0 ind queue [] = Inr (queue', copies_of ?\<sigma> queue')"
    and ok: "queue_ok ?n ?\<sigma> (length queue') queue'" and len: "length queue' \<le> ?n"
    using order_links_ok [OF q, of "Suc ?n" ?out ?src ind] by (auto simp: copies_of_def ind_def simp del: order_links.simps)
  have result: "order_values fs incoming resolved =
      (if length queue' \<noteq> ?n then Inl (me_fail ''Value link cycle'') else Inr (copies_of ?\<sigma> queue'))"
    unfolding order_values_def Let_def edges prod.case queue_def [symmetric] run by simp
  have sub: "set queue' \<subseteq> {..<?n}" and dist: "distinct queue'" using ok by (auto simp: queue_ok_def)
  show ?thesis
  proof (cases "length queue' = ?n")
    case True
    have "set queue' = {..<?n}" using sub dist True by (simp add: card_subset_eq distinct_card)
    moreover have "links_ordered (copies_of ?\<sigma> queue')"
      by (rule copies_of_ordered [of "[]"]) (use ok in \<open>auto simp: queue_ok_def\<close>)
    ultimately show ?thesis using True by (auto simp: result set_copies_of)
  next
    case False
    let ?C = "{..<?n} - set queue'"
    have "?C \<noteq> {}" using False len sub dist by (metis Diff_eq_empty_iff card_lessThan card_mono distinct_card finite_set le_antisym)
    moreover have "\<exists>s \<in> ?C. ?\<sigma> t = Some s" if t: "t \<in> ?C" for t
    proof -
      have "\<not> (case ?\<sigma> t of None \<Rightarrow> True | Some s \<Rightarrow> s \<in> set (take (length queue') queue'))"
        using ok t unfolding queue_ok_def by blast
      then obtain s where "?\<sigma> t = Some s" "s \<notin> set queue'" by (auto split: option.splits)
      then show ?thesis using range t by auto
    qed
    ultimately have "link_cycle ?n ?\<sigma>" unfolding link_cycle_def by (intro exI [of _ ?C]) auto
    then show ?thesis using False by (simp add: result)
  qed
qed

end
