(* ===== verification/Managed_Runtime.thy ===== *)
theory Managed_Runtime
  imports Managed_Links
begin

text \<open>
  The Managed Runtime, \<^verbatim>\<open>src/server_engine/project/runtime/managed_runtime.cpp\<close>: its construction from a Graph, and
  reading and writing its fields. A write to a field reaches every field that a value link copies it to.
\<close>

section \<open>State\<close>

record managed_runtime = managed_layout +
  rt_resolved :: "nat option list"
  rt_copies :: "managed_binding list"
  rt_storage :: "u8 list"

definition empty_runtime :: managed_runtime where
  "empty_runtime = \<lparr>ml_objects = [], ml_fields = [], ml_slots = [], ml_total = 0, rt_resolved = [], rt_copies = [], rt_storage = []\<rparr>"

text \<open>What construction takes from its host and from the project beside the Graph.\<close>

record managed_project =
  mp_valid :: bool
  mp_graph :: graph
  mp_abi :: abi_configuration
  mp_string :: "u32 \<Rightarrow> string"

record managed_host =
  mh_little_endian :: bool
  mh_float :: float_host
  mh_read_double :: "string \<Rightarrow> u64 option"

section \<open>Propagation\<close>

definition copy_link :: "managed_field_layout list \<Rightarrow> managed_binding \<Rightarrow> u8 list \<Rightarrow> u8 list" where
  "copy_link fs link storage =
     (let source = fs ! mb_source link; target = fs ! mb_target link
      in store_bytes (mf_offset target) (load_bytes (mf_offset source) (mf_size target) storage) storage)"

definition propagate :: "managed_runtime \<Rightarrow> managed_runtime" where
  "propagate rt = rt\<lparr>rt_storage := fold (copy_link (ml_fields rt)) (rt_copies rt) (rt_storage rt)\<rparr>"

section \<open>Construction\<close>

primrec initialize_all :: "float_host \<Rightarrow> managed_field_layout list \<Rightarrow> u8 list \<Rightarrow> managed_error + u8 list" where
  "initialize_all fh [] storage = Inr storage"
| "initialize_all fh (f # fs) storage =
     (case initialize fh f storage of
        None \<Rightarrow> Inl (me_fail ''Unsupported initializer or constant out of range'')
      | Some storage' \<Rightarrow> initialize_all fh fs storage')"

text \<open>The links of a layout whose initial values are in place, and the bytes.\<close>

definition link_layout :: "graph \<Rightarrow> managed_layout \<Rightarrow> managed_error + nat option list \<times> managed_binding list" where
  "link_layout g l =
     (let fs = ml_fields l; n = length fs in
      case bind_members fs [0..<n] (replicate n None) of
        Inl e \<Rightarrow> Inl e
      | Inr references \<Rightarrow>
          (case connect_links l (gr_links g) (references, replicate n None) of
             Inl e \<Rightarrow> Inl e
           | Inr (references', incoming) \<Rightarrow>
               (case resolve_aliases fs references' [0..<n] (replicate n 0, replicate n None) of
                  Inl e \<Rightarrow> Inl e
                | Inr (marks, resolved) \<Rightarrow>
                    (case order_values fs incoming resolved of
                       Inl e \<Rightarrow> Inl e
                     | Inr copies \<Rightarrow> Inr (resolved, copies)))))"

definition build_runtime :: "managed_host \<Rightarrow> managed_project \<Rightarrow> managed_error + managed_runtime" where
  "build_runtime host p =
     (if \<not> mp_valid p then Inl (me_fail ''Project is not available'')
      else if \<not> mh_little_endian host then Inl (me_fail ''Managed Runtime requires a little-endian host'')
      else if \<not> is_supported_abi_configuration (mp_abi p) then Inl (me_fail ''Unsupported ABI configuration'')
      else
        case layout_graph (mp_graph p) (mp_abi p) of
          Inl e \<Rightarrow> Inl e
        | Inr l0 \<Rightarrow>
            (case spread_initializers (mp_string p) (mh_read_double host) (length (ml_fields l0)) (ml_fields l0) of
               Inl e \<Rightarrow> Inl e
             | Inr fs \<Rightarrow>
                 let l = l0\<lparr>ml_fields := fs\<rparr> in
                 case link_layout (mp_graph p) l of
                   Inl e \<Rightarrow> Inl e
                 | Inr (resolved, copies) \<Rightarrow>
                     (case initialize_all (mh_float host) fs (replicate (ml_total l) 0) of
                        Inl e \<Rightarrow> Inl e
                      | Inr storage \<Rightarrow>
                          Inr (propagate \<lparr>ml_objects = ml_objects l, ml_fields = fs, ml_slots = ml_slots l, ml_total = ml_total l,
                             rt_resolved = resolved, rt_copies = copies, rt_storage = storage\<rparr>))))"

text \<open>The status, the message and the new state; \<^const>\<open>None\<close> when construction does not return.\<close>

definition construct :: "managed_host \<Rightarrow> managed_project \<Rightarrow> managed_runtime \<Rightarrow> (status_code \<times> string \<times> managed_runtime) option" where
  "construct host p rt =
     (case build_runtime host p of
        Inl me_diverges \<Rightarrow> None
      | Inl (me_fail detail) \<Rightarrow> Some (st_not_available, detail, rt)
      | Inr candidate \<Rightarrow> Some (st_ok, [], candidate))"

section \<open>Access\<close>

definition aliases :: "managed_runtime \<Rightarrow> object_endpoint \<Rightarrow> object_endpoint \<Rightarrow> bool" where
  "aliases rt a b =
     (case (field_of_endpoint rt a, field_of_endpoint rt b) of
        (Some i, Some j) \<Rightarrow> rt_resolved rt ! i = rt_resolved rt ! j
      | _ \<Rightarrow> False)"

text \<open>The field that an access reaches.\<close>

definition referent :: "managed_runtime \<Rightarrow> nat \<Rightarrow> managed_field_layout" where
  "referent rt index = ml_fields rt ! the (rt_resolved rt ! index)"

definition read_integer :: "managed_runtime \<Rightarrow> object_endpoint \<Rightarrow> nat list \<Rightarrow> status_code + int" where
  "read_integer rt e route =
     (case field_of_path rt e route of
        None \<Rightarrow> Inl st_not_found
      | Some index \<Rightarrow>
          let f = referent rt index in
          if mf_aggregate f \<or> mf_floating f \<or> mf_pointer f then Inl st_invalid_argument
          else
            let bits = extend_sign f (le_word (load_bytes (mf_offset f) (mf_size f) (rt_storage rt))) in
            if \<not> mf_signed f \<and> unat bits > 2 ^ 63 - 1 then Inl st_invalid_argument else Inr (sint bits))"

definition write_integer :: "managed_runtime \<Rightarrow> object_endpoint \<Rightarrow> nat list \<Rightarrow> u64 \<Rightarrow> status_code \<times> managed_runtime" where
  "write_integer rt e route bits =
     (case field_of_path rt e route of
        None \<Rightarrow> (st_not_found, rt)
      | Some index \<Rightarrow>
          let f = referent rt index in
          if mf_aggregate f \<or> mf_floating f \<or> mf_pointer f \<or> mf_read_only (ml_fields rt ! index) \<or> mf_read_only f \<or>
            \<not> integer_fits f bits (sint bits < 0) then (st_invalid_argument, rt)
          else
            (st_ok, propagate (rt\<lparr>rt_storage := store_bytes (mf_offset f) (le_bytes (mf_size f) bits) (rt_storage rt)\<rparr>)))"

definition read_real :: "float_host \<Rightarrow> managed_runtime \<Rightarrow> object_endpoint \<Rightarrow> nat list \<Rightarrow> status_code + u64" where
  "read_real fh rt e route =
     (case field_of_path rt e route of
        None \<Rightarrow> Inl st_not_found
      | Some index \<Rightarrow>
          let f = referent rt index in
          if \<not> mf_floating f then Inl st_invalid_argument
          else if mf_size f = 4 then Inr (fl_widen fh (ucast (le_word (load_bytes (mf_offset f) 4 (rt_storage rt)))))
          else Inr (le_word (load_bytes (mf_offset f) 8 (rt_storage rt))))"

definition write_real :: "float_host \<Rightarrow> managed_runtime \<Rightarrow> object_endpoint \<Rightarrow> nat list \<Rightarrow> u64 \<Rightarrow> status_code \<times> managed_runtime" where
  "write_real fh rt e route value =
     (case field_of_path rt e route of
        None \<Rightarrow> (st_not_found, rt)
      | Some index \<Rightarrow>
          let f = referent rt index in
          if \<not> mf_floating f \<or> mf_read_only f \<or> mf_read_only (ml_fields rt ! index) then (st_invalid_argument, rt)
          else
            case initialize fh (f\<lparr>mf_initial := cv_constant ck_real value\<rparr>) (rt_storage rt) of
              None \<Rightarrow> (st_invalid_argument, rt)
            | Some storage \<Rightarrow> (st_ok, propagate (rt\<lparr>rt_storage := storage\<rparr>)))"

end
