(* ===== verification/Cell_Store.thy ===== *)
theory Cell_Store
  imports Prelude
begin

text \<open>
  The contract of a store of cells that do not overlap, and what copying between its cells gives: the interface
  between the bytes of the Managed Runtime and the value links between its fields.
\<close>

text \<open>Copies as pairs of target and source, in an order in which no source is overwritten later.\<close>

primrec copies_ordered :: "('a \<times> 'a) list \<Rightarrow> bool" where
  "copies_ordered [] = True"
| "copies_ordered (c # cs) = (snd c \<noteq> fst c \<and> snd c \<notin> fst ` set cs \<and> fst c \<notin> fst ` set cs \<and> copies_ordered cs)"

locale cell_store =
  fixes good :: "'s \<Rightarrow> bool"
    and cells :: "'s \<Rightarrow> 'i set"
    and fits :: "'s \<Rightarrow> 'i \<Rightarrow> 'v \<Rightarrow> bool"
    and get :: "'s \<Rightarrow> 'i \<Rightarrow> 'v"
    and put :: "'i \<Rightarrow> 'v \<Rightarrow> 's \<Rightarrow> 's"
  assumes put_good: "good s \<Longrightarrow> i \<in> cells s \<Longrightarrow> fits s i v \<Longrightarrow> good (put i v s)"
    and put_cells: "cells (put i v s) = cells s"
    and put_fits: "fits (put i v s) = fits s"
    and get_fits: "good s \<Longrightarrow> i \<in> cells s \<Longrightarrow> fits s i (get s i)"
    and get_put: "good s \<Longrightarrow> i \<in> cells s \<Longrightarrow> fits s i v \<Longrightarrow> get (put i v s) i = v"
    and get_put_other: "good s \<Longrightarrow> i \<in> cells s \<Longrightarrow> fits s i v \<Longrightarrow> j \<in> cells s \<Longrightarrow> i \<noteq> j \<Longrightarrow> get (put i v s) j = get s j"
begin

lemma copy_one:
  assumes "good s" "t \<in> cells s" "r \<in> cells s" "fits s t = fits s r"
  shows "good (put t (get s r) s)" "get (put t (get s r) s) t = get s r"
    and "j \<in> cells s \<Longrightarrow> j \<noteq> t \<Longrightarrow> get (put t (get s r) s) j = get s j"
proof -
  have "fits s t (get s r)" using get_fits [OF assms(1,3)] assms(4) by simp
  note fit = this
  show "good (put t (get s r) s)" by (rule put_good [OF assms(1,2) fit])
  show "get (put t (get s r) s) t = get s r" by (rule get_put [OF assms(1,2) fit])
  show "get (put t (get s r) s) j = get s j" if "j \<in> cells s" "j \<noteq> t"
    using get_put_other [OF assms(1,2) fit that(1)] that(2) by blast
qed

lemma copies_frame:
  assumes "good s" "\<And>t r. (t, r) \<in> set cs \<Longrightarrow> t \<in> cells s \<and> r \<in> cells s \<and> fits s t = fits s r"
  shows "good (fold (\<lambda>(t, r) s. put t (get s r) s) cs s) \<and>
    cells (fold (\<lambda>(t, r) s. put t (get s r) s) cs s) = cells s \<and>
    (\<forall>j \<in> cells s. j \<notin> fst ` set cs \<longrightarrow> get (fold (\<lambda>(t, r) s. put t (get s r) s) cs s) j = get s j)"
  using assms
proof (induction cs arbitrary: s)
  case (Cons c cs)
  obtain t r where c: "c = (t, r)" by (cases c)
  have tr: "t \<in> cells s" "r \<in> cells s" "fits s t = fits s r" using Cons.prems(2) [of t r] by (auto simp: c)
  note one = copy_one [OF Cons.prems(1) tr]
  have "\<And>t' r'. (t', r') \<in> set cs \<Longrightarrow> t' \<in> cells (put t (get s r) s) \<and> r' \<in> cells (put t (get s r) s) \<and>
      fits (put t (get s r) s) t' = fits (put t (get s r) s) r'"
    unfolding put_cells put_fits by (rule Cons.prems(2)) simp
  note Cons.IH [OF one(1) this]
  then show ?case using one(3) by (auto simp: c put_cells)
qed simp

text \<open>In such an order every copy holds in the end.\<close>

lemma copies_agree:
  assumes "good s" "\<And>t r. (t, r) \<in> set cs \<Longrightarrow> t \<in> cells s \<and> r \<in> cells s \<and> fits s t = fits s r"
    and "copies_ordered cs" "(t, r) \<in> set cs"
  shows "get (fold (\<lambda>(t, r) s. put t (get s r) s) cs s) t = get (fold (\<lambda>(t, r) s. put t (get s r) s) cs s) r"
  using assms
proof (induction cs arbitrary: s)
  case (Cons c cs)
  obtain a b where c: "c = (a, b)" by (cases c)
  have ab: "a \<in> cells s" "b \<in> cells s" "fits s a = fits s b" using Cons.prems(2) [of a b] by (auto simp: c)
  note one = copy_one [OF Cons.prems(1) ab]
  have rest: "\<And>t' r'. (t', r') \<in> set cs \<Longrightarrow> t' \<in> cells (put a (get s b) s) \<and> r' \<in> cells (put a (get s b) s) \<and>
      fits (put a (get s b) s) t' = fits (put a (get s b) s) r'"
    unfolding put_cells put_fits by (rule Cons.prems(2)) simp
  show ?case
  proof (cases "(t, r) = (a, b)")
    case True
    note frame = copies_frame [OF one(1) rest]
    have "get (put a (get s b) s) a = get (put a (get s b) s) b" using one(2) one(3) [OF ab(2)] Cons.prems(3) by (auto simp: c)
    then show ?thesis using frame True Cons.prems(3) ab by (auto simp: c put_cells)
  next
    case False
    then have "(t, r) \<in> set cs" using Cons.prems(4) by (auto simp: c)
    then show ?thesis using Cons.IH [OF one(1) rest] Cons.prems(3) by (simp add: c)
  qed
qed simp

end

end
