(* ===== verification/Managed_Storage.thy ===== *)
theory Managed_Storage
  imports Managed_Runtime Cell_Store
begin

text \<open>
  The bytes of the Managed Runtime as a store of cells: what the layout guarantees makes storage an interpretation
  of \<open>cell_store\<close>, and links in the order of construction hold after every propagation. The plan of a
  runtime, what construction establishes beside the bytes, is collected in one predicate.
\<close>

section \<open>Bytes\<close>

lemma length_store_bytes [simp]: "offset + length bs \<le> length st \<Longrightarrow> length (store_bytes offset bs st) = length st"
  by (simp add: store_bytes_def)

lemma length_load_bytes [simp]: "offset + n \<le> length st \<Longrightarrow> length (load_bytes offset n st) = n"
  by (simp add: load_bytes_def)

lemma length_le_bytes [simp]: "length (le_bytes n bits) = n"
  by (simp add: le_bytes_def)

lemma load_store_same: "offset + length bs \<le> length st \<Longrightarrow> load_bytes offset (length bs) (store_bytes offset bs st) = bs"
  by (simp add: load_bytes_def store_bytes_def)

lemma load_store_apart:
  assumes "offset + length bs \<le> length st" "p + n \<le> offset \<or> offset + length bs \<le> p" "p + n \<le> length st"
  shows "load_bytes p n (store_bytes offset bs st) = load_bytes p n st"
proof (rule nth_equalityI)
  show "length (load_bytes p n (store_bytes offset bs st)) = length (load_bytes p n st)" using assms by simp
  fix k assume "k < length (load_bytes p n (store_bytes offset bs st))"
  then have k: "k < n" using assms by simp
  have "store_bytes offset bs st ! (p + k) = st ! (p + k)"
    using assms k by (auto simp: store_bytes_def nth_append min_def)
  then show "load_bytes p n (store_bytes offset bs st) ! k = load_bytes p n st ! k"
    using assms k by (simp add: load_bytes_def)
qed

section \<open>Fields as cells\<close>

type_synonym field_bytes_state = "managed_field_layout list \<times> u8 list"

definition storage_good :: "field_bytes_state \<Rightarrow> bool" where
  "storage_good = (\<lambda>(fs, st).
     (\<forall>i < length fs. \<not> mf_aggregate (fs ! i) \<longrightarrow>
        mf_size (fs ! i) \<le> field_bytes (fs ! i) \<and> mf_offset (fs ! i) + field_bytes (fs ! i) \<le> length st) \<and>
     (\<forall>i < length fs. \<forall>j < length fs. i \<noteq> j \<longrightarrow> fields_apart (fs ! i) (fs ! j)))"

definition field_cells :: "field_bytes_state \<Rightarrow> nat set" where
  "field_cells = (\<lambda>(fs, st). {i. i < length fs \<and> \<not> mf_aggregate (fs ! i)})"

definition field_fits :: "field_bytes_state \<Rightarrow> nat \<Rightarrow> u8 list \<Rightarrow> bool" where
  "field_fits = (\<lambda>(fs, st) i v. length v = mf_size (fs ! i))"

definition field_get :: "field_bytes_state \<Rightarrow> nat \<Rightarrow> u8 list" where
  "field_get = (\<lambda>(fs, st) i. load_bytes (mf_offset (fs ! i)) (mf_size (fs ! i)) st)"

definition field_put :: "nat \<Rightarrow> u8 list \<Rightarrow> field_bytes_state \<Rightarrow> field_bytes_state" where
  "field_put i v = (\<lambda>(fs, st). (fs, store_bytes (mf_offset (fs ! i)) v st))"

lemmas field_cell_defs = storage_good_def field_cells_def field_fits_def field_get_def field_put_def

lemma storage_good_range:
  assumes "storage_good (fs, st)" "i < length fs" "\<not> mf_aggregate (fs ! i)"
  shows "mf_offset (fs ! i) + mf_size (fs ! i) \<le> length st"
  using assms by (fastforce simp: storage_good_def)

lemma storage_good_apart:
  assumes "storage_good (fs, st)" "i < length fs" "\<not> mf_aggregate (fs ! i)" "j < length fs" "\<not> mf_aggregate (fs ! j)" "i \<noteq> j"
  shows "mf_offset (fs ! i) + mf_size (fs ! i) \<le> mf_offset (fs ! j) \<or> mf_offset (fs ! j) + mf_size (fs ! j) \<le> mf_offset (fs ! i)"
proof -
  have "fields_apart (fs ! i) (fs ! j)" "mf_size (fs ! i) \<le> field_bytes (fs ! i)" "mf_size (fs ! j) \<le> field_bytes (fs ! j)"
    using assms by (auto simp: storage_good_def)
  then show ?thesis using assms(3,5) by (auto simp: fields_apart_def)
qed

interpretation managed_cells: cell_store storage_good field_cells field_fits field_get field_put
proof
  fix s :: field_bytes_state and i j :: nat and v :: "u8 list"
  obtain fs st where s: "s = (fs, st)" by (cases s)
  show "field_cells (field_put i v s) = field_cells s" "field_fits (field_put i v s) = field_fits s"
    by (simp_all add: s field_cell_defs)
  assume good: "storage_good s" and i: "i \<in> field_cells s"
  then have ifs: "i < length fs" "\<not> mf_aggregate (fs ! i)" by (auto simp: s field_cells_def)
  note range = storage_good_range [OF good [unfolded s] ifs]
  show "field_fits s i (field_get s i)" using range by (simp add: s field_fits_def field_get_def)
  assume fits: "field_fits s i v"
  then have len: "length v = mf_size (fs ! i)" by (simp add: s field_fits_def)
  show "storage_good (field_put i v s)" using good range len by (simp add: s storage_good_def field_put_def)
  show "field_get (field_put i v s) i = v" using load_store_same [of "mf_offset (fs ! i)" v st] range len
    by (simp add: s field_get_def field_put_def)
  assume j: "j \<in> field_cells s" "i \<noteq> j"
  then have jfs: "j < length fs" "\<not> mf_aggregate (fs ! j)" by (auto simp: s field_cells_def)
  show "field_get (field_put i v s) j = field_get s j"
    using storage_good_apart [OF good [unfolded s] ifs jfs j(2)] storage_good_range [OF good [unfolded s] jfs] range len
    by (auto simp: s field_get_def field_put_def intro!: load_store_apart)
qed

section \<open>Propagation\<close>

text \<open>Links between fields with storage of their own and of equal size, in the order of construction.\<close>

definition copies_ok :: "managed_field_layout list \<Rightarrow> managed_binding list \<Rightarrow> bool" where
  "copies_ok fs copies \<longleftrightarrow>
     links_ordered copies \<and>
     (\<forall>c \<in> set copies. mb_target c < length fs \<and> mb_source c < length fs \<and>
        \<not> mf_aggregate (fs ! mb_target c) \<and> \<not> mf_aggregate (fs ! mb_source c) \<and>
        mf_size (fs ! mb_target c) = mf_size (fs ! mb_source c))"

abbreviation link_pair :: "managed_binding \<Rightarrow> nat \<times> nat" where
  "link_pair c \<equiv> (mb_target c, mb_source c)"

lemma links_ordered_pairs: "links_ordered copies = copies_ordered (map link_pair copies)"
  by (induction copies) (auto simp: image_image)

lemma copy_links_cells:
  assumes "\<And>c. c \<in> set copies \<Longrightarrow> mf_size (fs ! mb_target c) = mf_size (fs ! mb_source c)"
  shows "(fs, fold (copy_link fs) copies st) = fold (\<lambda>(t, r) s. field_put t (field_get s r) s) (map link_pair copies) (fs, st)"
  using assms by (induction copies arbitrary: st) (simp_all add: copy_link_def field_put_def field_get_def Let_def)

text \<open>The bytes of a field.\<close>

abbreviation field_value :: "managed_field_layout list \<Rightarrow> u8 list \<Rightarrow> nat \<Rightarrow> u8 list" where
  "field_value fs st i \<equiv> field_get (fs, st) i"

lemma propagation:
  assumes good: "storage_good (fs, st)" and copies: "copies_ok fs copies"
  defines "st' \<equiv> fold (copy_link fs) copies st"
  shows "storage_good (fs, st')"
    and "c \<in> set copies \<Longrightarrow> field_value fs st' (mb_target c) = field_value fs st' (mb_source c)"
    and "i < length fs \<Longrightarrow> \<not> mf_aggregate (fs ! i) \<Longrightarrow> i \<notin> mb_target ` set copies \<Longrightarrow> field_value fs st' i = field_value fs st i"
proof -
  have eq: "(fs, st') = fold (\<lambda>(t, r) s. field_put t (field_get s r) s) (map link_pair copies) (fs, st)"
    unfolding st'_def using copies by (intro copy_links_cells) (simp add: copies_ok_def)
  have pairs: "t \<in> field_cells (fs, st) \<and> r \<in> field_cells (fs, st) \<and> field_fits (fs, st) t = field_fits (fs, st) r"
    if "(t, r) \<in> set (map link_pair copies)" for t r
    using that copies by (auto simp: copies_ok_def field_cells_def field_fits_def)
  note frame = managed_cells.copies_frame [OF good pairs, of "map link_pair copies", folded eq]
  show "storage_good (fs, st')" using frame by blast
  show "field_value fs st' i = field_value fs st i"
    if "i < length fs" "\<not> mf_aggregate (fs ! i)" "i \<notin> mb_target ` set copies"
    using frame that by (auto simp: field_cells_def image_image)
  have "copies_ordered (map link_pair copies)" using copies by (simp add: copies_ok_def links_ordered_pairs)
  note agree = managed_cells.copies_agree [OF good pairs this, folded eq]
  show "field_value fs st' (mb_target c) = field_value fs st' (mb_source c)" if "c \<in> set copies"
    by (rule agree) (use that in auto)
qed

end
