(* ===== verification/Managed_Plan.thy ===== *)
theory Managed_Plan
  imports Managed_Storage
begin

text \<open>
  What the construction of a Managed Runtime establishes: initial values change nothing of the layout, bindings
  lead to compatible fields, every field is resolved to the end of its chain of references, and value links
  connect fields with storage of their own.
\<close>

section \<open>Initial values leave the layout alone\<close>

definition bare :: "managed_field_layout \<Rightarrow> managed_field_layout" where
  "bare f = f\<lparr>mf_initial := cv_default\<rparr>"

lemma bare_initial [simp]: "bare (f\<lparr>mf_initial := v\<rparr>) = bare f"
  by (simp add: bare_def)

lemma bare_fields [simp]:
  "mf_aggregate (bare f) = mf_aggregate f" "mf_reference (bare f) = mf_reference f" "mf_size (bare f) = mf_size f"
  "field_within abi n lo hi a (bare f) = field_within abi n lo hi a f" "fields_apart (bare f) = fields_apart f"
  "fields_apart f' (bare f) = fields_apart f' f"
  by (simp_all add: bare_def field_within_def leaf_shape_def field_bytes_def field_alignment_def fields_apart_def fun_eq_iff)

lemma map_bare_update: "map bare (fs[i := (fs ! i)\<lparr>mf_initial := v\<rparr>]) = map bare fs"
  by (cases "i < length fs") (simp_all add: map_update list_update_beyond list_eq_iff_nth_eq nth_update_if)

lemma apply_initializer_bare:
  "apply_initializer fs index value = Some fs' \<Longrightarrow> map bare fs' = map bare fs"
  "apply_initializers fs index values = Some fs' \<Longrightarrow> map bare fs' = map bare fs"
proof (induction fs index "value" and fs index "values" arbitrary: fs' and fs' rule: apply_initializer_apply_initializers.induct)
  case (1 fs index v is_list children)
  show ?case
  proof (cases "mf_aggregate (fs ! index)")
    case True
    then obtain fs1 where fs1: "apply_initializers fs (mf_first_child (fs ! index)) children = Some fs1"
      and fs': "fs' = fs1[index := (fs1 ! index)\<lparr>mf_initial := cv_default\<rparr>]" and "\<not> (\<not> is_list \<or> mf_child_count (fs ! index) < length children)"
      using "1.prems" by (auto simp: Let_def split: if_splits option.splits)
    have "map bare fs1 = map bare fs" using "1.IH"(1) [OF refl True] fs1 \<open>\<not> (\<not> is_list \<or> _)\<close> by blast
    then show ?thesis by (simp add: fs' map_bare_update)
  next
    case False
    then show ?thesis using 1
      by (auto simp: Let_def map_bare_update split: if_splits list.splits)
  qed
next
  case (3 fs index child children)
  then show ?case by (fastforce split: option.splits)
qed simp

lemma spread_initializers_bare:
  "spread_initializers strings read_double n fs = Inr fs' \<Longrightarrow> map bare fs' = map bare fs"
proof (induction n arbitrary: fs)
  case (Suc n)
  from Suc.prems consider "spread_initializers strings read_double n fs = Inr fs'"
    | v fs1 where "apply_initializer fs n v = Some fs1" "spread_initializers strings read_double n fs1 = Inr fs'"
    by (auto simp: Let_def split: if_splits option.splits)
  then show ?case using Suc.IH apply_initializer_bare(1) by cases force+
qed simp

lemma bare_nth: "map bare fs' = map bare fs \<Longrightarrow> i < length fs \<Longrightarrow> bare (fs' ! i) = bare (fs ! i)"
  by (metis length_map nth_map)

lemma laid_out_bare:
  assumes "map bare fs' = map bare fs" "laid_out abi fs {0..<length fs} lo hi a"
  shows "laid_out abi fs' {0..<length fs'} lo hi a"
proof -
  have len: "length fs' = length fs" using assms(1) by (metis length_map)
  have "field_within abi (length fs) lo hi a (fs' ! i)" if "i < length fs" for i
    using bare_fields(4) [of abi "length fs" lo hi a "fs' ! i"] bare_fields(4) [of abi "length fs" lo hi a "fs ! i"]
      bare_nth [OF assms(1) that] assms(2) that by (simp add: laid_out_def)
  moreover have "fields_apart (fs' ! i) (fs' ! j)" if "i < length fs" "j < length fs" "i \<noteq> j" for i j
  proof -
    have "fields_apart (bare (fs' ! i)) (bare (fs' ! j)) = fields_apart (bare (fs ! i)) (bare (fs ! j))"
      by (simp only: bare_nth [OF assms(1) that(1)] bare_nth [OF assms(1) that(2)])
    then show ?thesis using assms(2) that by (simp add: laid_out_def)
  qed
  ultimately show ?thesis by (simp add: laid_out_def len)
qed

lemma layout_ok_bare:
  assumes "layout_ok abi l" "map bare fs = map bare (ml_fields l)"
  shows "layout_ok abi (l\<lparr>ml_fields := fs\<rparr>)"
proof -
  have "length fs = length (ml_fields l)" using assms(2) by (metis length_map)
  then show ?thesis using assms laid_out_bare [OF assms(2)] by (simp add: layout_ok_def)
qed

section \<open>Names of fields\<close>

lemma field_of_endpoint_range:
  assumes "layout_ok abi l" "field_of_endpoint l e = Some i"
  shows "i < length (ml_fields l)"
proof -
  obtain slot where slot: "ep_object e < length (ml_slots l)" "ml_slots l ! ep_object e = Some slot"
    and i: "i = mo_first_field (ml_objects l ! slot) + ep_member e" "ep_member e < mo_field_count (ml_objects l ! slot)"
    using assms(2) by (auto simp: field_of_endpoint_def Let_def split: if_splits option.splits)
  have "slot < length (ml_objects l)" using assms(1) slot by (metis layout_ok_def nth_mem)
  then have "mo_first_field (ml_objects l ! slot) + mo_field_count (ml_objects l ! slot) \<le> length (ml_fields l)"
    using assms(1) by (simp add: layout_ok_def)
  then show ?thesis using i by simp
qed

lemma field_of_path_range:
  assumes "layout_ok abi l" "field_of_path l e route = Some i"
  shows "i < length (ml_fields l)"
proof -
  have "\<And>k. index = Some k \<Longrightarrow> k < length (ml_fields l) \<Longrightarrow> field_walk l index route = Some i \<Longrightarrow> i < length (ml_fields l)" for index
  proof (induction route arbitrary: index)
    case (Cons m route)
    let ?p = "ml_fields l ! k"
    have next_field: "field_walk l (Some (mf_first_child ?p + m)) route = Some i" "m < mf_child_count ?p"
      using Cons.prems by (auto simp: Let_def split: if_splits)
    have "mf_first_child ?p + mf_child_count ?p \<le> length (ml_fields l)"
      using assms(1) Cons.prems(2) by (simp add: layout_ok_def laid_out_def field_within_def)
    then show ?case using Cons.IH [OF refl _ next_field(1)] next_field(2) by simp
  qed simp
  moreover obtain k where "field_of_endpoint l e = Some k"
    using assms(2) by (cases "field_of_endpoint l e"; cases route) (auto simp: field_of_path_def)
  ultimately show ?thesis using assms field_of_endpoint_range by (metis field_of_path_def)
qed

section \<open>Bindings\<close>

lemma bind_members_ok:
  assumes "layout_ok abi l" "bindings_ok (ml_fields l) references" "set is \<subseteq> {..<length (ml_fields l)}"
    and "bind_members (ml_fields l) is references = Inr references'"
  shows "bindings_ok (ml_fields l) references'"
  using assms(2-4)
proof (induction "is" arbitrary: references)
  case (Cons i "is")
  let ?fs = "ml_fields l"
  obtain rs where one: "bind_member ?fs i references = Inr rs" and rest: "bind_members ?fs is rs = Inr references'"
    using Cons.prems(3) by (auto split: sum.splits)
  have i: "i < length ?fs" using Cons.prems(2) by simp
  have sib: "mf_sibling_first (?fs ! i) + mf_sibling_count (?fs ! i) \<le> length ?fs"
    using assms(1) i by (simp add: layout_ok_def laid_out_def field_within_def)
  have "bindings_ok ?fs rs"
    using one Cons.prems(1) sib by (auto simp: bind_member_def Let_def intro!: bindings_ok_update split: if_splits)
  then show ?case using Cons.IH Cons.prems(2) rest by simp
qed simp

lemma connect_links_ok:
  assumes "layout_ok abi l" "bindings_ok (ml_fields l) (fst s)" "bindings_ok (ml_fields l) (snd s)"
    and "connect_links l links s = Inr s'"
  shows "bindings_ok (ml_fields l) (fst s') \<and> bindings_ok (ml_fields l) (snd s')"
  using assms(2-4)
proof (induction links arbitrary: s)
  case (Cons link links)
  obtain s1 where one: "connect_link l link s = Inr s1" and rest: "connect_links l links s1 = Inr s'"
    using Cons.prems(3) by (auto split: sum.splits)
  obtain references incoming where s: "s = (references, incoming)" by (cases s)
  have "bindings_ok (ml_fields l) (fst s1) \<and> bindings_ok (ml_fields l) (snd s1)"
  proof (cases "ln_live link")
    case False
    then show ?thesis using one Cons.prems(1,2) by (simp add: connect_link_def s)
  next
    case True
    then obtain target source where f: "field_of_endpoint l (ln_target link) = Some target" "field_of_endpoint l (ln_source link) = Some source"
      using one by (cases "field_of_endpoint l (ln_target link)"; cases "field_of_endpoint l (ln_source link)")
        (simp_all add: connect_link_def s)
    note range = field_of_endpoint_range [OF assms(1) f(2)]
    have c: "compatible (ml_fields l) target source"
      using one by (rule contrapos_pp) (simp add: connect_link_def s f True)
    have "s1 = (references[target := Some source], incoming[target := Some source]) \<or> s1 = (references, incoming[target := Some source])"
      using one by (simp add: connect_link_def s f True c Let_def split: if_splits)
    then show ?thesis using Cons.prems(1,2) bindings_ok_update [OF _ range c] unfolding s by (elim disjE) simp_all
  qed
  then show ?case by (elim conjE) (rule Cons.IH [OF _ _ rest])
qed simp

section \<open>Ends of references\<close>

text \<open>A field and the field that it is resolved to.\<close>

definition same_value_field :: "managed_field_layout \<Rightarrow> managed_field_layout \<Rightarrow> bool" where
  "same_value_field f r \<longleftrightarrow>
     \<not> mf_aggregate f \<and> \<not> mf_aggregate r \<and> mf_value_type f = mf_value_type r \<and> mf_pointer f = mf_pointer r \<and> mf_size f = mf_size r"

lemma alias_end_compatible:
  assumes "alias_end fs references i r" "bindings_ok fs references" "i < length fs"
  shows "r = i \<or> same_value_field (fs ! i) (fs ! r)"
  using assms
proof (induction rule: alias_end.induct)
  case (step i s r)
  have c: "compatible fs i s" "s < length fs" using step.prems step.hyps(2) by (auto simp: bindings_ok_def)
  then show ?case using step.IH step.prems(1) by (auto simp: compatible_def same_value_field_def Let_def)
qed simp

text \<open>What construction plans for the fields: where each is resolved to, and the copies.\<close>

definition plan_ok :: "managed_field_layout list \<Rightarrow> nat option list \<Rightarrow> managed_binding list \<Rightarrow> bool" where
  "plan_ok fs resolved copies \<longleftrightarrow>
     length resolved = length fs \<and>
     (\<forall>i < length fs. \<exists>r < length fs. resolved ! i = Some r \<and> \<not> mf_reference (fs ! r) \<and>
        (r = i \<or> same_value_field (fs ! i) (fs ! r))) \<and>
     copies_ok fs copies \<and> (\<forall>c \<in> set copies. \<not> mf_reference (fs ! mb_target c) \<and> \<not> mf_reference (fs ! mb_source c))"

lemma source_of_plan:
  assumes "bindings_ok fs incoming" "bindings_ok fs references" "i < length fs"
    and resolved: "\<And>j. j < length fs \<Longrightarrow> \<exists>r < length fs. resolved ! j = Some r \<and> alias_end fs references j r"
    and "source_of fs incoming resolved i = Some s"
  shows "s < length fs" "\<not> mf_reference (fs ! s)" "\<not> mf_reference (fs ! i)" "same_value_field (fs ! i) (fs ! s)"
proof -
  obtain j where j: "incoming ! i = Some j" "\<not> mf_reference (fs ! i)" "s = the (resolved ! j)"
    using assms(5) by (auto simp: source_of_def Let_def split: if_splits)
  have c: "j < length fs" "compatible fs i j" using assms(1,3) j(1) by (auto simp: bindings_ok_def)
  obtain r where "r < length fs" "resolved ! j = Some r" "alias_end fs references j r" using resolved c(1) by blast
  then have s: "s < length fs" "alias_end fs references j s" using j(3) by auto
  show "s < length fs" "\<not> mf_reference (fs ! s)" "\<not> mf_reference (fs ! i)" using s j(2) alias_end_value by auto
  show "same_value_field (fs ! i) (fs ! s)"
    using alias_end_compatible [OF s(2) assms(2) c(1)] c(2) by (auto simp: compatible_def same_value_field_def Let_def)
qed

lemma link_layout_ok:
  assumes "layout_ok abi l" "link_layout g l = Inr (resolved, copies)"
  shows "plan_ok (ml_fields l) resolved copies"
proof -
  let ?fs = "ml_fields l" and ?n = "length (ml_fields l)"
  have none: "bindings_ok ?fs (replicate ?n None)" by (simp add: bindings_ok_def)
  obtain references references' incoming marks where
    b: "bind_members ?fs [0..<?n] (replicate ?n None) = Inr references"
    and c: "connect_links l (gr_links g) (references, replicate ?n None) = Inr (references', incoming)"
    and r: "resolve_aliases ?fs references' [0..<?n] (replicate ?n 0, replicate ?n None) = Inr (marks, resolved)"
    and o: "order_values ?fs incoming resolved = Inr copies"
    using assms(2) by (auto simp: link_layout_def Let_def split: sum.splits)
  have "bindings_ok ?fs references" by (rule bind_members_ok [OF assms(1) none _ b]) auto
  then have ok: "bindings_ok ?fs references'" "bindings_ok ?fs incoming"
    using connect_links_ok [OF assms(1) _ _ c] none by auto
  have resolved: "length resolved = ?n" "\<And>i. i < ?n \<Longrightarrow> \<exists>r < ?n. resolved ! i = Some r \<and> alias_end ?fs references' i r"
    using resolve_all_ok [OF ok(1)] by (auto simp: r)
  note source = source_of_plan [OF ok(2,1) _ resolved(2)]
  have ordered: "links_ordered copies"
    and copies: "set copies = {c. mb_target c < ?n \<and> source_of ?fs incoming resolved (mb_target c) = Some (mb_source c)}"
    using order_values_ok [of ?fs incoming resolved] source(1) by (auto simp: o)
  have "copies_ok ?fs copies"
    using ordered source(1,4) by (auto simp: copies_ok_def copies same_value_field_def)
  moreover have "\<not> mf_reference (?fs ! mb_target c) \<and> \<not> mf_reference (?fs ! mb_source c)" if "c \<in> set copies" for c
    using that source(2,3) by (auto simp: copies)
  moreover have "\<exists>r < ?n. resolved ! i = Some r \<and> \<not> mf_reference (?fs ! r) \<and> (r = i \<or> same_value_field (?fs ! i) (?fs ! r))" if "i < ?n" for i
    using resolved(2) [OF that] alias_end_compatible [OF _ ok(1) that] alias_end_value by metis
  ultimately show ?thesis using resolved(1) by (simp add: plan_ok_def)
qed

end
