(* ===== verification/Managed_Invariant.thy ===== *)
theory Managed_Invariant
  imports Managed_Plan
begin

text \<open>
  The invariant of the Managed Runtime over any sequence of constructions and writes, and what it gives:
  accesses stay in the storage and reach a field of the same type, value links hold after every operation,
  and an integer that was written is read back.
\<close>

section \<open>Integers in little-endian bytes\<close>

lemma le_word_bytes:
  assumes "n \<le> 8"
  shows "le_word (le_bytes n bits) = take_bit (8 * n) bits"
proof -
  have "le_word (map (\<lambda>j. ucast (drop_bit (8 * j) bits)) [m..<m + k]) = take_bit (8 * k) (drop_bit (8 * m) bits)"
    if "m + k \<le> 8" for m k
    using that
  proof (induction k arbitrary: m)
    case (Suc k)
    have upt: "[m..<m + Suc k] = m # [Suc m..<Suc m + k]" by (simp add: upt_conv_Cons)
    have IH: "le_word (map (\<lambda>j. ucast (drop_bit (8 * j) bits)) [Suc m..<Suc m + k]) = take_bit (8 * k) (drop_bit (8 * Suc m) bits)"
      by (rule Suc.IH) (use Suc.prems in simp)
    show ?case unfolding upt list.map le_word.simps IH
    proof (rule bit_word_eqI)
      fix i assume "i < LENGTH(64)"
      then show "bit (ucast (ucast (drop_bit (8 * m) bits) :: u8) OR push_bit 8 (take_bit (8 * k) (drop_bit (8 * Suc m) bits))) i =
          bit (take_bit (8 * Suc k) (drop_bit (8 * m) bits)) i"
        by (auto simp: bit_or_iff bit_push_bit_iff bit_ucast_iff bit_take_bit_iff bit_drop_bit_eq algebra_simps not_less)
    qed
  qed simp
  from this [of 0 n] show ?thesis using assms by (simp add: le_bytes_def)
qed

lemma negative_high_bits:
  fixes bits :: u64
  assumes "- (2 ^ w) \<le> sint bits" "sint bits < 0" "w \<le> k" "k < 64"
  shows "bit bits k"
proof -
  have "(2 :: int) ^ w \<le> 2 ^ k" using assms(3) by simp
  then have "sint bits div 2 ^ k = - 1"
    using assms(1,2) by (intro int_div_pos_eq [of _ _ _ "sint bits + 2 ^ k"]) linarith+
  then have "bit (sint bits) k" by (simp add: bit_iff_odd)
  moreover have "bit bits k = bit (word_of_int (sint bits) :: u64) k" by simp
  ultimately show ?thesis using assms(4) by (simp only: bit_word_of_int_iff) simp
qed

lemma low_bits:
  fixes bits :: u64
  assumes "unat bits < 2 ^ w" "w \<le> k"
  shows "\<not> bit bits k"
proof -
  have "unat bits < 2 ^ k" using assms(1) power_increasing [OF assms(2), of "2 :: nat"] by linarith
  then have "\<not> bit (unat bits) k" by (simp add: bit_iff_odd)
  then show ?thesis by (simp add: bit_unsigned_iff)
qed

text \<open>Reading the low bytes of a number that fits and extending its sign gives the number.\<close>

lemma extend_sign_fits:
  assumes fits: "integer_fits f bits (sint bits < 0)" and leaf: "leaf_shape f" and "\<not> mf_pointer f"
  shows "extend_sign f (take_bit (8 * mf_size f) bits) = bits"
proof (cases "mf_size f = 8")
  case True
  have "take_bit 64 bits = bits" by (rule bit_word_eqI) (simp add: bit_take_bit_iff)
  then show ?thesis using True by (simp add: extend_sign_def)
next
  case False
  let ?w = "8 * mf_size f"
  have w: "mf_size f < 8" "0 < mf_size f" "?w - 1 < 64" using False leaf by (auto simp: leaf_shape_def)
  have test: "(take_bit ?w bits AND push_bit (mf_size f * 8 - 1) 1 \<noteq> 0) = bit bits (?w - 1)"
    using w by (simp add: and_exp_eq_0_iff_not_bit bit_take_bit_iff mult.commute)
  have high: "bit (NOT (push_bit (mf_size f * 8) 1 - 1) :: u64) k = (?w \<le> k)" if "k < 64" for k
    using that w by (simp add: mask_eq_exp_minus_1 [symmetric] push_bit_eq_mult bit_not_iff bit_mask_iff mult.commute not_less)
  show ?thesis
  proof (cases "mf_signed f \<and> sint bits < 0")
    case True
    have bool: "\<not> mf_boolean f" using fits True assms(3) by (auto simp: integer_fits_def)
    then have "- (2 ^ (?w - 1)) \<le> sint bits" using fits True False assms(3) by (simp add: integer_fits_def Let_def mult.commute)
    note ones = negative_high_bits [OF this]
    have "bit bits (?w - 1)" using ones True w by simp
    then have "extend_sign f (take_bit ?w bits) = take_bit ?w bits OR NOT (push_bit (mf_size f * 8) 1 - 1)"
      using True w test by (simp add: extend_sign_def)
    also have "\<dots> = bits"
    proof (rule bit_word_eqI)
      fix k assume "k < LENGTH(64)"
      then have k: "k < 64" by simp
      have "?w \<le> k \<Longrightarrow> bit bits k" using ones [of k] True k by simp
      then show "bit (take_bit ?w bits OR NOT (push_bit (mf_size f * 8) 1 - 1)) k = bit bits k"
        using high [OF k] by (auto simp: bit_or_iff bit_take_bit_iff)
    qed
    finally show ?thesis .
  next
    case pos: False
    let ?v = "if mf_signed f \<or> mf_boolean f then ?w - 1 else ?w"
    have "unat bits < 2 ^ ?v"
    proof (cases "mf_boolean f")
      case True
      then have "bits \<le> 1" using fits assms(3) by (simp add: integer_fits_def)
      then have "unat bits \<le> 1" by (simp add: word_le_nat_alt)
      moreover have "(2 :: nat) ^ 1 \<le> 2 ^ (?w - 1)" by (rule power_increasing) (use w in simp_all)
      ultimately show ?thesis using True by simp
    next
      case bool: False
      then show ?thesis using fits assms(3) False pos by (auto simp: integer_fits_def Let_def mult.commute split: if_splits)
    qed
    note zeros = low_bits [OF this]
    have "\<not> bit bits k" if "?w \<le> k" for k by (rule zeros) (use that in auto)
    then have "take_bit ?w bits = bits" by (intro bit_word_eqI) (auto simp: bit_take_bit_iff not_less [symmetric])
    moreover have "\<not> bit bits (?w - 1)" if "mf_signed f" using zeros [of "?w - 1"] that by simp
    ultimately show ?thesis using test by (auto simp: extend_sign_def)
  qed
qed

section \<open>The invariant\<close>

definition runtime_ok :: "managed_runtime \<Rightarrow> bool" where
  "runtime_ok rt \<longleftrightarrow>
     (\<exists>abi. layout_ok abi rt) \<and> length (rt_storage rt) = ml_total rt \<and> plan_ok (ml_fields rt) (rt_resolved rt) (rt_copies rt) \<and>
     (\<forall>c \<in> set (rt_copies rt). field_value (ml_fields rt) (rt_storage rt) (mb_target c) =
        field_value (ml_fields rt) (rt_storage rt) (mb_source c))"

lemma leaf_bytes:
  assumes "layout_ok abi l" "i < length (ml_fields l)" "\<not> mf_aggregate (ml_fields l ! i)"
  shows "leaf_shape (ml_fields l ! i)" "mf_size (ml_fields l ! i) \<le> field_bytes (ml_fields l ! i)"
    and "mf_offset (ml_fields l ! i) + field_bytes (ml_fields l ! i) \<le> ml_total l"
proof -
  have w: "field_within abi (length (ml_fields l)) 0 (ml_total l) 8 (ml_fields l ! i)"
    using assms(1,2) by (simp add: layout_ok_def laid_out_def)
  then show leaf: "leaf_shape (ml_fields l ! i)" and "mf_offset (ml_fields l ! i) + field_bytes (ml_fields l ! i) \<le> ml_total l"
    using assms(3) by (auto simp: field_within_def)
  show "mf_size (ml_fields l ! i) \<le> field_bytes (ml_fields l ! i)" using leaf by (auto simp: leaf_shape_def field_bytes_def)
qed

lemma layout_storage_good:
  assumes "layout_ok abi l" "length st = ml_total l"
  shows "storage_good (ml_fields l, st)"
  using assms leaf_bytes [OF assms(1)] by (auto simp: storage_good_def layout_ok_def laid_out_def)

lemma propagate_simps [simp]:
  "ml_objects (propagate rt) = ml_objects rt" "ml_fields (propagate rt) = ml_fields rt" "ml_slots (propagate rt) = ml_slots rt"
  "ml_total (propagate rt) = ml_total rt" "rt_resolved (propagate rt) = rt_resolved rt" "rt_copies (propagate rt) = rt_copies rt"
  "rt_storage (propagate rt) = fold (copy_link (ml_fields rt)) (rt_copies rt) (rt_storage rt)"
  by (simp_all add: propagate_def)

lemma layout_ok_extend:
  fixes l :: "'a managed_layout_scheme" and l' :: "'b managed_layout_scheme"
  assumes "ml_objects l = ml_objects l'" "ml_fields l = ml_fields l'" "ml_slots l = ml_slots l'" "ml_total l = ml_total l'"
  shows "layout_ok abi l = layout_ok abi l'"
  using assms by (simp add: layout_ok_def)

lemma length_copy_links:
  assumes "\<And>c. c \<in> set copies \<Longrightarrow> mf_offset (fs ! mb_target c) + mf_size (fs ! mb_target c) \<le> length st \<and>
      mf_offset (fs ! mb_source c) + mf_size (fs ! mb_target c) \<le> length st"
  shows "length (fold (copy_link fs) copies st) = length st"
  using assms by (induction copies arbitrary: st) (simp_all add: copy_link_def Let_def)

text \<open>Any change of the bytes followed by propagation keeps the invariant.\<close>

lemma propagate_ok:
  assumes layout: "layout_ok abi rt" and len: "length (rt_storage rt) = ml_total rt"
    and plan: "plan_ok (ml_fields rt) (rt_resolved rt) (rt_copies rt)"
  shows "runtime_ok (propagate rt)"
proof -
  let ?fs = "ml_fields rt"
  have good: "storage_good (?fs, rt_storage rt)" by (rule layout_storage_good [OF layout len])
  have copies: "copies_ok ?fs (rt_copies rt)" using plan by (simp add: plan_ok_def)
  have "length (fold (copy_link ?fs) (rt_copies rt) (rt_storage rt)) = length (rt_storage rt)"
  proof (rule length_copy_links)
    fix c assume "c \<in> set (rt_copies rt)"
    then have c: "mb_target c < length ?fs" "mb_source c < length ?fs" "\<not> mf_aggregate (?fs ! mb_target c)"
      "\<not> mf_aggregate (?fs ! mb_source c)" "mf_size (?fs ! mb_target c) = mf_size (?fs ! mb_source c)"
      using copies by (auto simp: copies_ok_def)
    show "mf_offset (?fs ! mb_target c) + mf_size (?fs ! mb_target c) \<le> length (rt_storage rt) \<and>
      mf_offset (?fs ! mb_source c) + mf_size (?fs ! mb_target c) \<le> length (rt_storage rt)"
      using storage_good_range [OF good c(1,3)] storage_good_range [OF good c(2,4)] c(5) by simp
  qed
  moreover have "layout_ok abi (propagate rt)" using layout layout_ok_extend [of "propagate rt" rt abi] by simp
  ultimately show ?thesis using plan len propagation(2) [OF good copies] by (auto simp: runtime_ok_def)
qed

lemma runtime_ok_store:
  assumes "runtime_ok rt" "length st = length (rt_storage rt)"
  shows "runtime_ok (propagate (rt\<lparr>rt_storage := st\<rparr>))"
proof -
  obtain abi where abi: "layout_ok abi rt" using assms(1) by (auto simp: runtime_ok_def)
  have "layout_ok abi (rt\<lparr>rt_storage := st\<rparr>)" using abi layout_ok_extend [of "rt\<lparr>rt_storage := st\<rparr>" rt abi] by simp
  then show ?thesis by (rule propagate_ok) (use assms in \<open>simp_all add: runtime_ok_def\<close>)
qed

section \<open>Construction and writes keep it\<close>

lemma length_initialize:
  assumes "initialize fh f st = Some st'" "\<not> mf_aggregate f \<longrightarrow> leaf_shape f \<and> mf_offset f + mf_size f \<le> length st"
  shows "length st' = length st"
  using assms unfolding initialize_def Let_def leaf_shape_def by (auto split: if_splits)

lemma length_initialize_all:
  assumes "initialize_all fh fs st = Inr st'" "\<And>f. f \<in> set fs \<Longrightarrow> \<not> mf_aggregate f \<Longrightarrow> leaf_shape f \<and> mf_offset f + mf_size f \<le> length st"
  shows "length st' = length st"
  using assms
proof (induction fs arbitrary: st)
  case (Cons f fs)
  obtain st1 where st1: "initialize fh f st = Some st1" "initialize_all fh fs st1 = Inr st'"
    using Cons.prems(1) by (auto split: option.splits)
  have len: "length st1 = length st" by (rule length_initialize [OF st1(1)]) (use Cons.prems(2) in auto)
  then show ?case using Cons.IH [OF st1(2)] Cons.prems(2) by auto
qed simp

lemma build_runtime_ok:
  assumes "build_runtime host p = Inr rt"
  shows "runtime_ok rt"
proof -
  let ?g = "mp_graph p" and ?abi = "mp_abi p"
  obtain l0 fs resolved copies st where
    abi: "is_supported_abi_configuration ?abi" and l0: "layout_graph ?g ?abi = Inr l0"
    and fs: "spread_initializers (mp_string p) (mh_read_double host) (length (ml_fields l0)) (ml_fields l0) = Inr fs"
    and plan: "link_layout ?g (l0\<lparr>ml_fields := fs\<rparr>) = Inr (resolved, copies)"
    and st: "initialize_all (mh_float host) fs (replicate (ml_total l0) 0) = Inr st"
    and rt: "rt = propagate \<lparr>ml_objects = ml_objects l0, ml_fields = fs, ml_slots = ml_slots l0, ml_total = ml_total l0,
      rt_resolved = resolved, rt_copies = copies, rt_storage = st\<rparr>"
    using assms unfolding build_runtime_def Let_def
    by (auto split: if_splits sum.splits)
  have layout: "layout_ok ?abi (l0\<lparr>ml_fields := fs\<rparr>)"
    by (rule layout_ok_bare [OF layout_graph_ok [OF l0 abi] spread_initializers_bare [OF fs]])
  have len: "length st = ml_total l0"
  proof -
    have "length st = length (replicate (ml_total l0) (0 :: u8))"
    proof (rule length_initialize_all [OF st])
      fix f assume f: "f \<in> set fs" "\<not> mf_aggregate f"
      then obtain i where i: "i < length fs" "f = fs ! i" by (metis in_set_conv_nth)
      show "leaf_shape f \<and> mf_offset f + mf_size f \<le> length (replicate (ml_total l0) (0 :: u8))"
        using leaf_bytes [OF layout, of i] i f(2) by simp
    qed
    then show ?thesis by simp
  qed
  show ?thesis unfolding rt
  proof (rule propagate_ok)
    show "layout_ok ?abi \<lparr>ml_objects = ml_objects l0, ml_fields = fs, ml_slots = ml_slots l0, ml_total = ml_total l0,
      rt_resolved = resolved, rt_copies = copies, rt_storage = st\<rparr>"
      using layout by (rule layout_ok_extend [THEN iffD1, rotated 4]) simp_all
  qed (use len link_layout_ok [OF layout plan] in simp_all)
qed

lemma referent_resolved:
  assumes "runtime_ok rt" "field_of_path rt e route = Some i"
  obtains r where "i < length (ml_fields rt)" "r < length (ml_fields rt)" "rt_resolved rt ! i = Some r" "referent rt i = ml_fields rt ! r"
    and "\<not> mf_reference (ml_fields rt ! r)" "r = i \<or> same_value_field (ml_fields rt ! i) (ml_fields rt ! r)"
proof -
  obtain abi where "layout_ok abi rt" using assms(1) by (auto simp: runtime_ok_def)
  then have i: "i < length (ml_fields rt)" using assms(2) by (rule field_of_path_range)
  then obtain r where "r < length (ml_fields rt)" "rt_resolved rt ! i = Some r" "\<not> mf_reference (ml_fields rt ! r)"
    "r = i \<or> same_value_field (ml_fields rt ! i) (ml_fields rt ! r)"
    using assms(1) by (auto simp: runtime_ok_def plan_ok_def)
  then show thesis using that i by (simp add: referent_def)
qed

lemma leaf_in_storage:
  assumes "runtime_ok rt" "r < length (ml_fields rt)" "\<not> mf_aggregate (ml_fields rt ! r)"
  shows "leaf_shape (ml_fields rt ! r)" "mf_offset (ml_fields rt ! r) + mf_size (ml_fields rt ! r) \<le> length (rt_storage rt)"
proof -
  obtain abi where "layout_ok abi rt" "length (rt_storage rt) = ml_total rt" using assms(1) by (auto simp: runtime_ok_def)
  then show "leaf_shape (ml_fields rt ! r)" "mf_offset (ml_fields rt ! r) + mf_size (ml_fields rt ! r) \<le> length (rt_storage rt)"
    using leaf_bytes [OF _ assms(2,3)] by fastforce+
qed

lemma write_integer_cases:
  assumes "write_integer rt e route bits = (result, rt')"
  obtains (refused) "rt' = rt" "result \<noteq> st_ok"
    | (stored) i where "result = st_ok" "field_of_path rt e route = Some i" "\<not> mf_aggregate (referent rt i)" "\<not> mf_pointer (referent rt i)"
      "\<not> mf_floating (referent rt i)" "integer_fits (referent rt i) bits (sint bits < 0)"
      "rt' = propagate (rt\<lparr>rt_storage := store_bytes (mf_offset (referent rt i)) (le_bytes (mf_size (referent rt i)) bits) (rt_storage rt)\<rparr>)"
proof (cases "field_of_path rt e route")
  case None
  then show thesis using assms refused by (simp add: write_integer_def)
next
  case (Some i)
  let ?f = "referent rt i"
  let ?bad = "mf_aggregate ?f \<or> mf_floating ?f \<or> mf_pointer ?f \<or> mf_read_only (ml_fields rt ! i) \<or> mf_read_only ?f \<or>
    \<not> integer_fits ?f bits (sint bits < 0)"
  show thesis
  proof (cases ?bad)
    case True
    then have "write_integer rt e route bits = (st_invalid_argument, rt)"
      unfolding write_integer_def Some option.case Let_def by (rule if_P)
    then show thesis using assms refused by simp
  next
    case False
    then have "write_integer rt e route bits =
        (st_ok, propagate (rt\<lparr>rt_storage := store_bytes (mf_offset ?f) (le_bytes (mf_size ?f) bits) (rt_storage rt)\<rparr>))"
      unfolding write_integer_def Some option.case Let_def by (rule if_not_P)
    then have "result = st_ok" "rt' = propagate (rt\<lparr>rt_storage := store_bytes (mf_offset ?f) (le_bytes (mf_size ?f) bits) (rt_storage rt)\<rparr>)"
      using assms by simp_all
    then show thesis using stored Some False by blast
  qed
qed

lemma write_integer_ok:
  assumes "runtime_ok rt" "write_integer rt e route bits = (result, rt')"
  shows "runtime_ok rt'"
  using assms(2)
proof (cases rule: write_integer_cases)
  case (stored i)
  obtain r where r: "r < length (ml_fields rt)" "referent rt i = ml_fields rt ! r" using referent_resolved [OF assms(1) stored(2)] .
  show ?thesis unfolding stored(7)
    by (rule runtime_ok_store [OF assms(1)]) (use leaf_in_storage [OF assms(1) r(1)] stored(3) r(2) in simp)
qed (use assms(1) in simp)

lemma write_real_ok:
  assumes "runtime_ok rt" "write_real fh rt e route bits = (result, rt')"
  shows "runtime_ok rt'"
proof (cases "rt' = rt")
  case False
  then obtain i st where i: "field_of_path rt e route = Some i" "mf_floating (referent rt i)"
    and st: "initialize fh ((referent rt i)\<lparr>mf_initial := cv_constant ck_real bits\<rparr>) (rt_storage rt) = Some st"
    and rt': "rt' = propagate (rt\<lparr>rt_storage := st\<rparr>)"
    using assms(2) unfolding write_real_def Let_def by (auto split: option.splits if_splits)
  obtain r where r: "r < length (ml_fields rt)" "referent rt i = ml_fields rt ! r" using referent_resolved [OF assms(1) i(1)] .
  have "length st = length (rt_storage rt)"
    by (rule length_initialize [OF st]) (use leaf_in_storage [OF assms(1) r(1)] r(2) in \<open>simp add: leaf_shape_def\<close>)
  then show ?thesis unfolding rt' by (rule runtime_ok_store [OF assms(1)])
qed (use assms(1) in simp)

text \<open>The states of one runtime object: default-constructed, then constructed and written to in any order.\<close>

inductive managed_reachable :: "managed_host \<Rightarrow> managed_runtime \<Rightarrow> bool" for host where
  fresh: "managed_reachable host empty_runtime"
| constructed: "managed_reachable host rt \<Longrightarrow> construct host p rt = Some (result, message, rt') \<Longrightarrow> managed_reachable host rt'"
| wrote_integer: "managed_reachable host rt \<Longrightarrow> write_integer rt e route bits = (result, rt') \<Longrightarrow> managed_reachable host rt'"
| wrote_real: "managed_reachable host rt \<Longrightarrow> write_real (mh_float host) rt e route bits = (result, rt') \<Longrightarrow> managed_reachable host rt'"

lemma reachable_ok: "managed_reachable host rt \<Longrightarrow> runtime_ok rt"
proof (induction rule: managed_reachable.induct)
  case fresh
  show ?case by (simp add: runtime_ok_def empty_runtime_def layout_ok_def plan_ok_def copies_ok_def)
next
  case (constructed rt p result message rt')
  then show ?case by (auto simp: construct_def build_runtime_ok split: sum.splits managed_error.splits)
next
  case (wrote_integer rt e route bits result rt')
  show ?case by (rule write_integer_ok [OF wrote_integer.IH wrote_integer.hyps(2)])
next
  case (wrote_real rt e route bits result rt')
  show ?case by (rule write_real_ok [OF wrote_real.IH wrote_real.hyps(2)])
qed

section \<open>Reading what was written\<close>

lemma field_of_path_cong:
  fixes l l' :: managed_runtime
  assumes "ml_objects l = ml_objects l'" "ml_fields l = ml_fields l'" "ml_slots l = ml_slots l'"
  shows "field_of_path l e route = field_of_path l' e route"
proof -
  have "field_walk l index route = field_walk l' index route" for index
    using assms(2) by (induction route arbitrary: index) (simp_all add: Let_def split: option.splits)
  then show ?thesis unfolding field_of_path_def field_of_endpoint_def assms by simp
qed

lemma write_integer_keeps:
  assumes "write_integer rt e route bits = (result, rt')"
  shows "ml_fields rt' = ml_fields rt" "rt_resolved rt' = rt_resolved rt" "field_of_path rt' e' route' = field_of_path rt e' route'"
proof -
  have same: "ml_objects rt' = ml_objects rt" "ml_fields rt' = ml_fields rt" "ml_slots rt' = ml_slots rt" "rt_resolved rt' = rt_resolved rt"
    using assms by (auto elim!: write_integer_cases)
  then show "ml_fields rt' = ml_fields rt" "rt_resolved rt' = rt_resolved rt" by simp_all
  show "field_of_path rt' e' route' = field_of_path rt e' route'" by (rule field_of_path_cong [OF same(1-3)])
qed

lemma written_value:
  assumes ok: "runtime_ok rt" and w: "write_integer rt e route bits = (st_ok, rt')"
    and i: "field_of_path rt e route = Some i" "rt_resolved rt ! i = Some r" and free: "r \<notin> mb_target ` set (rt_copies rt)"
  shows "extend_sign (ml_fields rt ! r) (le_word (load_bytes (mf_offset (ml_fields rt ! r)) (mf_size (ml_fields rt ! r)) (rt_storage rt'))) = bits"
    and "\<not> mf_aggregate (ml_fields rt ! r)" "\<not> mf_floating (ml_fields rt ! r)" "\<not> mf_pointer (ml_fields rt ! r)"
    and "integer_fits (ml_fields rt ! r) bits (sint bits < 0)"
proof -
  let ?f = "ml_fields rt ! r" and ?fs = "ml_fields rt"
  have ref: "referent rt i = ?f" using i(2) by (simp add: referent_def)
  have r: "r < length ?fs" using referent_resolved [OF ok i(1)] i(2) by (metis option.inject)
  from w show agg: "\<not> mf_aggregate ?f" and "\<not> mf_floating ?f" and ptr: "\<not> mf_pointer ?f"
    and fits: "integer_fits ?f bits (sint bits < 0)"
    using i(1) ref by (auto elim!: write_integer_cases)
  note leaf = leaf_in_storage [OF ok r agg]
  let ?st = "store_bytes (mf_offset ?f) (le_bytes (mf_size ?f) bits) (rt_storage rt)"
  have rt': "rt_storage rt' = fold (copy_link ?fs) (rt_copies rt) ?st"
    using w i(1) ref by (auto elim!: write_integer_cases)
  obtain abi where abi: "layout_ok abi rt" "length (rt_storage rt) = ml_total rt" and copies: "copies_ok ?fs (rt_copies rt)"
    using ok by (auto simp: runtime_ok_def plan_ok_def)
  have "length ?st = ml_total rt" using leaf(2) abi(2) by simp
  note good = layout_storage_good [OF abi(1) this]
  have "field_value ?fs (rt_storage rt') r = field_value ?fs ?st r"
    unfolding rt' by (rule propagation(3) [OF good copies r agg free])
  also have "\<dots> = le_bytes (mf_size ?f) bits"
    using load_store_same [of "mf_offset ?f" "le_bytes (mf_size ?f) bits" "rt_storage rt"] leaf(2) by (simp add: field_get_def)
  finally have "load_bytes (mf_offset ?f) (mf_size ?f) (rt_storage rt') = le_bytes (mf_size ?f) bits" by (simp add: field_get_def)
  moreover have "mf_size ?f \<le> 8" using leaf(1) by (auto simp: leaf_shape_def)
  ultimately show "extend_sign ?f (le_word (load_bytes (mf_offset ?f) (mf_size ?f) (rt_storage rt'))) = bits"
    using extend_sign_fits [OF fits leaf(1) ptr] by (simp add: le_word_bytes)
qed

section \<open>A runtime\<close>

text \<open>The runtime of the sample Graph; its third field is linked to the second.\<close>

definition sample_host :: managed_host where
  "sample_host = \<lparr>mh_little_endian = True,
     mh_float = \<lparr>fl_of_signed = (\<lambda>x. x), fl_of_unsigned = (\<lambda>x. x), fl_narrow = ucast, fl_widen = ucast\<rparr>,
     mh_read_double = pattern_double\<rparr>"

definition sample_project :: managed_project where
  "sample_project = \<lparr>mp_valid = True, mp_graph = sample_graph, mp_abi = default_abi_configuration, mp_string = (\<lambda>_. [])\<rparr>"

definition sample_bytes :: "u8 list" where
  "sample_bytes = [0, 0, 0, 0, 5, 0, 0, 0, 5, 0, 0, 0]"

definition sample_runtime :: managed_runtime where
  "sample_runtime = \<lparr>ml_objects = ml_objects sample_layout, ml_fields = ml_fields sample_layout, ml_slots = ml_slots sample_layout,
     ml_total = 12, rt_resolved = [Some 0, Some 1, Some 2], rt_copies = [\<lparr>mb_target = 2, mb_source = 1\<rparr>], rt_storage = sample_bytes\<rparr>"

lemma sample_fields:
  "ml_fields sample_layout = [sample_field 0 0 1 2 cv_default, sample_field (Suc 0) 4 4 1 (cv_constant ck_signed_integer 5),
     sample_field 2 8 4 1 cv_default]"
  by (simp add: sample_layout_def)

lemma sample_field_flags:
  "mf_reference (sample_field a b c d v) = False" "mf_aggregate (sample_field a b c d v) = False" "mf_initial (sample_field a b c d v) = v"
  "mf_offset (sample_field a b c d v) = b" "mf_size (sample_field a b c d v) = c" "mf_value_type (sample_field a b c d v) = d"
  "mf_pointer (sample_field a b c d v) = False" "mf_read_only (sample_field a b c d v) = False" "mf_floating (sample_field a b c d v) = False"
  "mf_signed (sample_field a b c d v) = True" "mf_boolean (sample_field a b c d v) = False"
  by (simp_all add: sample_field_def blank_field_def)

lemma sample_upt: "[0..<3] = [0, Suc 0, 2]" "[0..<Suc (Suc (Suc 0))] = [0, Suc 0, 2]" by (simp_all add: upt_rec)

lemma sample_spread:
  "spread_initializers s r (length (ml_fields sample_layout)) (ml_fields sample_layout) = Inr (ml_fields sample_layout)"
  by (simp add: sample_fields sample_field_flags Let_def)

lemma sample_links:
  "gr_links sample_graph = [\<lparr>ln_source = \<lparr>ep_object = Suc 0, ep_member = Suc 0\<rparr>, ln_target = \<lparr>ep_object = Suc 0, ep_member = 2\<rparr>\<rparr>]"
 by (simp add: sample_graph_def)

lemma sample_endpoints:
  "field_of_endpoint sample_layout \<lparr>ep_object = Suc 0, ep_member = Suc 0\<rparr> = Some (Suc 0)"
   "field_of_endpoint sample_layout \<lparr>ep_object = Suc 0, ep_member = 2\<rparr> = Some 2"
  by (simp_all add: field_of_endpoint_def sample_layout_def invalid_member_def)

lemma sample_linked:
  "link_layout sample_graph sample_layout = Inr ([Some 0, Some 1, Some 2], [\<lparr>mb_target = 2, mb_source = 1\<rparr>])"
proof -
  have b: "bind_members (ml_fields sample_layout) [0, Suc 0, 2] rs = Inr rs" for rs
    by (simp add: bind_member_def Let_def sample_fields sample_field_flags)
  have c: "connect_links sample_layout (gr_links sample_graph) ([None, None, None], [None, None, None]) = Inr ([None, None, None], [None, None, Some (Suc 0)])"
    by (simp add: sample_links connect_link_def ln_live_def sample_endpoints compatible_def sample_fields sample_field_flags Let_def)
  have r: "resolve_aliases (ml_fields sample_layout) [None, None, None] [0, Suc 0, 2] ([0,0,0],[None,None,None]) = Inr ([2,2,2], [Some 0, Some (Suc 0), Some 2])"
    by (simp add: resolve_alias_def sample_fields sample_field_flags Let_def)
  have o: "order_values (ml_fields sample_layout) [None, None, Some (Suc 0)] [Some 0, Some (Suc 0), Some 2] = Inr [\<lparr>mb_target = 2, mb_source = Suc 0\<rparr>]"
    by (simp add: order_values_def sample_fields sample_upt value_edge_def source_of_def sample_field_flags Let_def release_target_def)
  have l: "length (ml_fields sample_layout) = Suc (Suc (Suc 0))" by (simp add: sample_fields)
  show ?thesis
    unfolding link_layout_def Let_def l sample_upt b sum.case replicate.simps c prod.case r o by simp
qed
lemma cv_operand_constant: "cv_operand (cv_constant k bits) = 0" "cv_operand cv_default = 0"
  by (simp_all add: cv_constant_def cv_default_def)

lemma sample_initialized:
  "initialize_all fh (ml_fields sample_layout) (replicate (ml_total sample_layout) 0) = Inr [0, 0, 0, 0, 5, 0, 0, 0, 0, 0, 0, 0]"
proof -
  have "ml_total sample_layout = 12" by (simp add: sample_layout_def)
  moreover have "replicate 12 (0 :: u8) = [0, 0, 0, 0, 0, 0, 0, 0, 0, 0, 0, 0]" by (simp add: numeral_eq_Suc)
  moreover have "le_bytes 4 5 = [5, 0, 0, 0]" "le_bytes 4 0 = [0, 0, 0, 0]" "le_bytes (Suc 0) 0 = [0]"
    by (simp_all add: le_bytes_def upt_rec)
  ultimately show ?thesis
    by (simp add: cv_operand_constant sample_fields initialize_def sample_field_flags Let_def integer_fits_def store_bytes_def)
qed

lemma sample_built: "build_runtime sample_host sample_project = Inr sample_runtime"
proof -
  have same: "sample_layout\<lparr>ml_fields := ml_fields sample_layout\<rparr> = sample_layout" by simp
  have abi: "is_supported_abi_configuration default_abi_configuration"
    by (simp add: is_supported_abi_configuration_def is_supported_abi_target_def is_supported_abi_pack_def default_abi_configuration_def)
  have total: "ml_total sample_layout = 12" by (simp add: sample_layout_def)
  have copied: "copy_link (ml_fields sample_layout) \<lparr>mb_target = 2, mb_source = Suc 0\<rparr> [0, 0, 0, 0, 5, 0, 0, 0, 0, 0, 0, 0] = sample_bytes"
    by (simp add: copy_link_def sample_fields sample_field_flags store_bytes_def load_bytes_def sample_bytes_def)
  show ?thesis
    by (simp add: build_runtime_def sample_host_def sample_project_def abi sample_graph_laid sample_spread same sample_linked
        sample_initialized Let_def)
      (simp add: propagate_def sample_runtime_def copied total)
qed

lemma sample_reachable: "managed_reachable sample_host sample_runtime"
proof (rule managed_reachable.constructed [OF managed_reachable.fresh])
  show "construct sample_host sample_project empty_runtime = Some (st_ok, [], sample_runtime)"
    by (simp add: construct_def sample_built)
qed

definition sample_endpoint :: object_endpoint where
  "sample_endpoint = \<lparr>ep_object = 1, ep_member = 1\<rparr>"

lemma sample_found: "field_of_path sample_runtime sample_endpoint [] = Some 1" "rt_resolved sample_runtime ! 1 = Some 1"
  by (simp_all add: field_of_path_def field_of_endpoint_def sample_runtime_def sample_layout_def sample_endpoint_def invalid_member_def)

definition sample_written :: managed_runtime where
  "sample_written = snd (write_integer sample_runtime sample_endpoint [] 7)"

lemma sample_write: "write_integer sample_runtime sample_endpoint [] 7 = (st_ok, sample_written)"
proof -
  have f: "ml_fields sample_runtime ! 1 = sample_field 1 4 4 1 (cv_constant ck_signed_integer 5)"
    by (simp add: sample_runtime_def sample_fields)
  have "fst (write_integer sample_runtime sample_endpoint [] 7) = st_ok"
    by (simp add: write_integer_def sample_found [simplified] referent_def f [simplified] sample_field_flags integer_fits_def Let_def)
  then show ?thesis by (simp add: sample_written_def prod_eq_iff)
qed

section \<open>Properties\<close>



text \<open>
  C39. Accesses are safe and typed: a field found by its path exists, is resolved to a field that is not itself a
  reference and is either the same field or one of the same type and size, and a field with a value lies in the
  storage with all its bytes.
\<close>

theorem access_well_typed:
  assumes "managed_reachable host rt" "field_of_path rt e route = Some i"
  shows "i < length (ml_fields rt) \<and>
    (\<exists>r < length (ml_fields rt). rt_resolved rt ! i = Some r \<and> \<not> mf_reference (ml_fields rt ! r) \<and>
       mf_value_type (ml_fields rt ! i) = mf_value_type (ml_fields rt ! r) \<and> mf_pointer (ml_fields rt ! i) = mf_pointer (ml_fields rt ! r) \<and>
       mf_size (ml_fields rt ! i) = mf_size (ml_fields rt ! r) \<and> mf_aggregate (ml_fields rt ! i) = mf_aggregate (ml_fields rt ! r) \<and>
       (mf_aggregate (ml_fields rt ! r) \<or>
        mf_offset (ml_fields rt ! r) + mf_size (ml_fields rt ! r) \<le> length (rt_storage rt) \<and> mf_size (ml_fields rt ! r) \<in> {1, 2, 4, 8}))"
proof -
  note ok = reachable_ok [OF assms(1)]
  obtain r where r: "i < length (ml_fields rt)" "r < length (ml_fields rt)" "rt_resolved rt ! i = Some r" "\<not> mf_reference (ml_fields rt ! r)"
    "r = i \<or> same_value_field (ml_fields rt ! i) (ml_fields rt ! r)"
    using referent_resolved [OF ok assms(2)] .
  show ?thesis using r leaf_in_storage [OF ok r(2)] by (auto simp: same_value_field_def leaf_shape_def)
qed

theorem access_well_typed_witness:
  "managed_reachable sample_host sample_runtime \<and> field_of_path sample_runtime sample_endpoint [] = Some 1 \<and>
   1 < length (ml_fields sample_runtime)"
  using access_well_typed [OF sample_reachable sample_found(1)] sample_reachable sample_found(1) by blast

text \<open>
  C40. An integer that was written is read back, through the path of the write and through every path that is
  resolved to the same field, unless a value link determines that field.
\<close>

theorem integer_write_read:
  assumes "managed_reachable host rt" "write_integer rt e route bits = (st_ok, rt')"
    and "field_of_path rt e route = Some i" "rt_resolved rt ! i = Some r" "r \<notin> mb_target ` set (rt_copies rt)"
    and "field_of_path rt e' route' = Some j" "rt_resolved rt ! j = Some r"
  shows "read_integer rt' e' route' = Inr (sint bits)"
proof -
  note ok = reachable_ok [OF assms(1)]
  note keeps = write_integer_keeps [OF assms(2)]
  note v = written_value [OF ok assms(2-5)]
  have ref: "referent rt' j = ml_fields rt ! r" using assms(7) keeps(1,2) by (simp add: referent_def)
  have "unat bits \<le> 2 ^ 63 - 1" if "\<not> mf_signed (ml_fields rt ! r)"
  proof -
    have "0 \<le> sint bits" using v(4,5) that by (auto simp: integer_fits_def split: if_splits)
    then have "uint bits < 2 ^ 63" using sint_lt [of bits] by (subst sint_nonneg) simp_all
    moreover have "int (unat bits) = uint bits" by simp
    ultimately have "int (unat bits) < int (2 ^ 63)" by (simp only: of_nat_power of_nat_numeral)
    then have "unat bits < 2 ^ 63" by (simp only: of_nat_less_iff)
    then show ?thesis by simp
  qed
  then have small: "\<not> (\<not> mf_signed (ml_fields rt ! r) \<and> unat bits > 2 ^ 63 - 1)" by linarith
  show ?thesis
    unfolding read_integer_def keeps(3) assms(6) option.case Let_def ref v(1) using v(2-4) small by simp
qed

theorem integer_write_read_witness:
  "write_integer sample_runtime sample_endpoint [] 7 = (st_ok, sample_written) \<and>
   read_integer sample_written sample_endpoint [] = Inr (sint (7 :: u64))"
proof -
  have "1 \<notin> mb_target ` set (rt_copies sample_runtime)" by (simp add: sample_runtime_def)
  from integer_write_read [OF sample_reachable sample_write sample_found this sample_found] show ?thesis
    using sample_write by blast
qed

end
