(* ===== verification/Managed_Termination.thy ===== *)
theory Managed_Termination
  imports Managed_Invariant
begin

text \<open>
  Construction of a Managed Runtime returns on a Graph whose type expressions are built from earlier ones, so
  that following qualifiers descends: the two loops over qualifiers are the only ones without a bound
  of their own in the code.
\<close>

definition types_layered :: "graph \<Rightarrow> bool" where
  "types_layered g \<longleftrightarrow> (\<forall>t d. derived g t = Some d \<longrightarrow> dt_child d < t)"

lemma derived_range: "derived g t = Some d \<Longrightarrow> t < length (gr_canonical g)"
  by (auto simp: derived_def canonical_at_def split: if_splits option.splits)

lemma strip_scalar_ends:
  assumes "types_layered g"
  shows "t < fuel \<Longrightarrow> strip_scalar fuel g t indirect f \<noteq> Inl me_diverges"
proof (induction fuel arbitrary: t indirect f)
  case (Suc fuel)
  have "dt_child d < fuel" if "derived g t = Some d" for d
    using assms that Suc.prems by (fastforce simp: types_layered_def)
  then show ?case using Suc.IH by (auto split: option.splits derived_type_kind.splits)
qed simp

lemma strip_const_ends:
  assumes "types_layered g"
  shows "t < fuel \<Longrightarrow> strip_const fuel g t b \<noteq> Inl me_diverges"
proof (induction fuel arbitrary: t b)
  case (Suc fuel)
  have "dt_child d < fuel" if "derived g t = Some d" for d
    using assms that Suc.prems by (fastforce simp: types_layered_def)
  then show ?case using Suc.IH by (auto split: option.splits)
qed simp

text \<open>A type expression out of range is not derived, and both loops end at once.\<close>

lemma strips_end:
  assumes "types_layered g"
  shows "strip_scalar (Suc (length (gr_canonical g))) g t b f \<noteq> Inl me_diverges"
    and "strip_const (Suc (length (gr_canonical g))) g t b \<noteq> Inl me_diverges"
proof -
  have "derived g t = None" if "\<not> t < Suc (length (gr_canonical g))"
    using that derived_range by (cases "derived g t") fastforce+
  then show "strip_scalar (Suc (length (gr_canonical g))) g t b f \<noteq> Inl me_diverges"
    and "strip_const (Suc (length (gr_canonical g))) g t b \<noteq> Inl me_diverges"
    using strip_scalar_ends [OF assms] strip_const_ends [OF assms]
    by (cases "t < Suc (length (gr_canonical g))"; simp del: strip_scalar.simps strip_const.simps; simp)+
qed

lemma scalar_layout_ends: "types_layered g \<Longrightarrow> scalar_layout g t abi f \<noteq> Inl me_diverges"
  using strips_end(1) [of g t False f]
  by (auto simp: scalar_layout_def Let_def simp del: strip_scalar.simps split: sum.splits option.splits)

lemma member_field_ends:
  assumes "types_layered g" "\<And>type root read_only fs. self type root read_only fs \<noteq> Inl me_diverges"
  shows "member_field self g abi root read_only first members_count local member fs \<noteq> Inl me_diverges"
  using scalar_layout_ends [OF assms(1)] strips_end(2) [OF assms(1)] assms(2)
  unfolding member_field_def Let_def by (auto simp del: strip_const.simps split: sum.split option.split prod.split)

lemma layout_members_ends:
  assumes "types_layered g" "\<And>type root read_only fs. self type root read_only fs \<noteq> Inl me_diverges"
  shows "layout_members self g abi root read_only first members_count ms local fs used alignment \<noteq> Inl me_diverges"
proof (induction ms arbitrary: local fs used alignment)
  case (Cons m ms)
  have place: "place_member abi index f start fs' used alignment \<noteq> Inl me_diverges" for index f start fs'
    by (simp add: place_member_def split: option.split)
  show ?case
  proof (cases "member_field self g abi root read_only first members_count local m fs")
    case (Inl e)
    have "Inl e \<noteq> (Inl me_diverges :: managed_error + managed_field_layout \<times> managed_field_layout list)"
      unfolding Inl [symmetric] by (rule member_field_ends [OF assms])
    then show ?thesis by (simp add: Inl)
  next
    case (Inr r)
    obtain f fs' where r: "r = (f, fs')" by (cases r)
    show ?thesis using Cons.IH place [of "first + local" f "length fs" fs']
      by (cases "place_member abi (first + local) f (length fs) fs' used alignment") (auto simp: Inr r)
  qed
qed simp

lemma layout_record_ends:
  assumes "types_layered g"
  shows "layout_record depth g abi active type root read_only fs \<noteq> Inl me_diverges"
proof (induction depth arbitrary: active type root read_only fs)
  case (Suc depth)
  show ?case using layout_members_ends [OF assms Suc.IH] by (auto simp: Let_def split: option.split sum.split)
qed simp

lemma layout_graph_ends:
  assumes "types_layered g"
  shows "layout_graph g abi \<noteq> Inl me_diverges"
proof -
  have "layout_object g abi i l \<noteq> Inl me_diverges" for i l
    using layout_record_ends [OF assms] unfolding layout_object_def Let_def
    by (auto simp del: layout_record.simps split: option.split sum.split)
  then have "layout_objects g abi is l \<noteq> Inl me_diverges" for "is" l
    by (induction "is" arbitrary: l) (auto split: sum.split)
  then show ?thesis by (simp add: layout_graph_def)
qed

lemma spread_initializers_ends: "spread_initializers strings read_double n fs \<noteq> Inl me_diverges"
  by (induction n arbitrary: fs) (simp_all add: Let_def split: option.split)

lemma bind_members_ends: "bind_members fs is references \<noteq> Inl me_diverges"
  by (induction "is" arbitrary: references) (auto simp: bind_member_def Let_def split: sum.split)

lemma connect_links_ends: "connect_links l links s \<noteq> Inl me_diverges"
proof (induction links arbitrary: s)
  case (Cons link links)
  have "connect_link l link s \<noteq> Inl me_diverges"
    by (cases s) (simp add: connect_link_def Let_def split: option.split)
  then show ?case using Cons.IH by (auto split: sum.split)
qed simp

lemma initialize_all_ends: "initialize_all fh fs st \<noteq> Inl me_diverges"
  by (induction fs arbitrary: st) (simp_all split: option.split)

text \<open>The walks along references and the loop over the queue have enough fuel: every step uses up a field.\<close>

lemma link_layout_ends:
  assumes "layout_ok abi l"
  shows "link_layout g l \<noteq> Inl me_diverges"
proof
  let ?fs = "ml_fields l" and ?n = "length (ml_fields l)"
  assume stuck: "link_layout g l = Inl me_diverges"
  have none: "bindings_ok ?fs (replicate ?n None)" by (simp add: bindings_ok_def)
  obtain references where b: "bind_members ?fs [0..<?n] (replicate ?n None) = Inr references"
    using stuck bind_members_ends by (auto simp: link_layout_def Let_def split: sum.splits)
  obtain references' incoming where c: "connect_links l (gr_links g) (references, replicate ?n None) = Inr (references', incoming)"
    using stuck connect_links_ends by (auto simp: link_layout_def Let_def b split: sum.splits)
  have "bindings_ok ?fs references" by (rule bind_members_ok [OF assms none _ b]) auto
  then have ok: "bindings_ok ?fs references'" "bindings_ok ?fs incoming"
    using connect_links_ok [OF assms _ _ c] none by auto
  obtain marks resolved where r: "resolve_aliases ?fs references' [0..<?n] (replicate ?n 0, replicate ?n None) = Inr (marks, resolved)"
    using stuck resolve_all_ok [OF ok(1)] by (auto simp: link_layout_def Let_def b c split: sum.splits)
  have resolved: "\<And>i. i < ?n \<Longrightarrow> \<exists>r < ?n. resolved ! i = Some r \<and> alias_end ?fs references' i r"
    using resolve_all_ok [OF ok(1)] by (auto simp: r)
  have "order_values ?fs incoming resolved \<noteq> Inl me_diverges"
    using order_values_ok [of ?fs incoming resolved] source_of_plan(1) [OF ok(2,1) _ resolved] by (auto split: sum.splits)
  then show False using stuck by (simp add: link_layout_def Let_def b c r split: sum.splits)
qed

lemma sample_layered: "types_layered sample_graph"
proof -
  have "derived sample_graph t = None" for t
    by (auto simp: derived_def canonical_at_def sample_graph_def less_Suc_eq nth_Cons' split: option.splits)
  then show ?thesis by (simp add: types_layered_def)
qed

text \<open>
  C27. Construction returns, with success or with an error, on every Graph whose type expressions refer to
  earlier ones: none of its loops runs forever.
\<close>

theorem construct_returns:
  assumes "types_layered (mp_graph p)"
  shows "\<exists>result message rt'. construct host p rt = Some (result, message, rt')"
proof -
  let ?g = "mp_graph p" and ?abi = "mp_abi p"
  have "build_runtime host p \<noteq> Inl me_diverges"
  proof
    assume stuck: "build_runtime host p = Inl me_diverges"
    then have abi: "is_supported_abi_configuration ?abi" by (auto simp: build_runtime_def split: if_splits)
    obtain l0 where l0: "layout_graph ?g ?abi = Inr l0"
      using stuck layout_graph_ends [OF assms] by (auto simp: build_runtime_def split: if_splits sum.splits)
    obtain fs where fs: "spread_initializers (mp_string p) (mh_read_double host) (length (ml_fields l0)) (ml_fields l0) = Inr fs"
      using stuck spread_initializers_ends by (auto simp: build_runtime_def l0 split: if_splits sum.splits)
    have "layout_ok ?abi (l0\<lparr>ml_fields := fs\<rparr>)"
      by (rule layout_ok_bare [OF layout_graph_ok [OF l0 abi] spread_initializers_bare [OF fs]])
    note links = link_layout_ends [OF this]
    show False using stuck links initialize_all_ends
      by (auto simp: build_runtime_def l0 fs Let_def split: if_splits sum.splits)
  qed
  then show ?thesis by (auto simp: construct_def split: sum.split managed_error.split)
qed

theorem construct_returns_witness:
  "types_layered (mp_graph sample_project) \<and>
   (\<exists>result message rt'. construct sample_host sample_project empty_runtime = Some (result, message, rt'))"
proof -
  have "types_layered (mp_graph sample_project)" using sample_layered by (simp add: sample_project_def)
  then show ?thesis using construct_returns [of sample_project sample_host empty_runtime] by blast
qed

end
